(* ===== verification/Prelude.thy ===== *)
theory Prelude
  imports Main
begin

text \<open>
  The vocabulary the component theories share.

  \<^item> \<open>fault\<close> lists the ways a C function of the repository can leave defined behaviour
    (or stop in an \<open>assert\<close>), and \<open>outcome\<close> is the result of a C function that can return,
    end the process through make's \<open>fatal\<close> (which never returns), or fault.
  \<^item> \<open>obind\<close> sequences outcomes as the statements of a C function are sequenced.
  \<^item> \<open>safe F P m\<close> is the total-correctness judgement used in the safety proofs: if \<open>m\<close> returns,
    the value satisfies \<open>P\<close>, and if it faults, the fault is one of \<open>F\<close>.
  \<^item> The collection \<open>safe_rules\<close> gathers the introduction rules of \<open>safe\<close>.
\<close>

section \<open>Outcomes of C functions\<close>

datatype fault =
    AssertFailed   \<comment> \<open>an \<open>assert\<close> of the source does not hold\<close>
  | OutOfBounds    \<comment> \<open>an array is read or written outside its bounds\<close>
  | BadUnion       \<comment> \<open>a union member is read that was not the one stored\<close>
  | NullDeref      \<comment> \<open>a null pointer is dereferenced\<close>
  | SignedOverflow \<comment> \<open>a signed 64-bit operation leaves its range\<close>
  | DivByZero      \<comment> \<open>division or remainder by zero\<close>
  | ShiftRange     \<comment> \<open>a shift count outside 0..63, or a left shift of a negative value\<close>

datatype ('e, 'a) outcome = Ok 'a | Fatal 'e | Undef fault

fun obind :: "('e, 'a) outcome \<Rightarrow> ('a \<Rightarrow> ('e, 'b) outcome) \<Rightarrow> ('e, 'b) outcome" where
  "obind (Ok x) f = f x"
| "obind (Fatal e) f = Fatal e"
| "obind (Undef u) f = Undef u"

lemma obind_cong [fundef_cong]:
  "m = m' \<Longrightarrow> (\<And>x. m' = Ok x \<Longrightarrow> f x = f' x) \<Longrightarrow> obind m f = obind m' f'"
  by (cases m') auto

lemma obind_assoc [simp]: "obind (obind m f) g = obind m (\<lambda>x. obind (f x) g)"
  by (cases m) auto

lemma obind_Ok_right [simp]: "obind m Ok = m"
  by (cases m) auto

lemma obind_eq_Ok: "obind m f = Ok y \<longleftrightarrow> (\<exists>x. m = Ok x \<and> f x = Ok y)"
  by (cases m) auto

lemma obind_OkE [elim]:
  assumes "obind m f = Ok y"
  obtains x where "m = Ok x" and "f x = Ok y"
  using assms by (auto simp: obind_eq_Ok)

section \<open>The safety judgement\<close>

named_theorems safe_rules \<open>introduction rules of the judgement safe\<close>

definition safe :: "fault set \<Rightarrow> ('a \<Rightarrow> bool) \<Rightarrow> ('e, 'a) outcome \<Rightarrow> bool" where
  "safe F P m = (case m of Ok x \<Rightarrow> P x | Fatal e \<Rightarrow> True | Undef u \<Rightarrow> u \<in> F)"

lemma safe_Ok [simp]: "safe F P (Ok x) \<longleftrightarrow> P x"
  and safe_Fatal [simp]: "safe F P (Fatal e)"
  and safe_Undef [simp]: "safe F P (Undef u) \<longleftrightarrow> u \<in> F"
  by (simp_all add: safe_def)

lemma safe_obind [safe_rules]:
  assumes "safe F P m" and "\<And>x. m = Ok x \<Longrightarrow> P x \<Longrightarrow> safe F Q (f x)"
  shows "safe F Q (obind m f)"
  using assms by (cases m) auto

lemma safe_weaken:
  assumes "safe F P m" and "\<And>x. m = Ok x \<Longrightarrow> P x \<Longrightarrow> Q x" and "F \<subseteq> G"
  shows "safe G Q m"
  using assms by (cases m) auto

lemma safe_if [safe_rules]:
  "(b \<Longrightarrow> safe F P m) \<Longrightarrow> (\<not> b \<Longrightarrow> safe F P n) \<Longrightarrow> safe F P (if b then m else n)"
  by simp

lemma safe_OkD: "safe F P m \<Longrightarrow> m = Ok x \<Longrightarrow> P x"
  by simp

lemma safe_UndefD: "safe F P m \<Longrightarrow> m = Undef u \<Longrightarrow> u \<in> F"
  by simp

end
