(* ===== verification/CLib.thy ===== *)
theory CLib
  imports Prelude
begin

text \<open>
  What the components use of the C language and its standard library.

  A C string is the list of its characters without the terminating zero, and a \<open>char const *\<close>
  that walks over a string is the suffix it points to. \<open>peek psz\<close> is \<open>*psz\<close>, \<open>tl psz\<close> the
  pointer after \<open>psz++\<close>, and \<open>cget psz i\<close> is \<open>psz[i]\<close>; at the end of the list they see the
  terminator.
  The character classes are those of the C locale; \<open>char\<close> is signed, as on the x86 targets of
  the program. Only the sign of \<open>strcmp\<close> is specified by the C standard, so it is modelled by
  -1, 0 and 1.
\<close>

section \<open>Characters\<close>

definition cord :: "char \<Rightarrow> nat" where
  "cord c = of_char c"

abbreviation NUL :: char where
  "NUL \<equiv> CHR 0x00"

lemma cord_inject [simp]: "cord a = cord b \<longleftrightarrow> a = b"
  by (simp add: cord_def)

lemma cord_less_256: "cord c < 256"
  by (simp add: cord_def)

text \<open>The value of a character as a signed \<open>char\<close>.\<close>

definition schar :: "char \<Rightarrow> int" where
  "schar c = (if cord c < 128 then int (cord c) else int (cord c) - 256)"

lemma schar_inject [simp]: "schar a = schar b \<longleftrightarrow> a = b"
  using cord_less_256 [of a] cord_less_256 [of b]
  by (auto simp: schar_def simp flip: cord_inject split: if_splits)

definition isdigit :: "char \<Rightarrow> bool" where
  "isdigit c \<longleftrightarrow> 48 \<le> cord c \<and> cord c \<le> 57"

definition isupper :: "char \<Rightarrow> bool" where
  "isupper c \<longleftrightarrow> 65 \<le> cord c \<and> cord c \<le> 90"

definition islower :: "char \<Rightarrow> bool" where
  "islower c \<longleftrightarrow> 97 \<le> cord c \<and> cord c \<le> 122"

definition isalpha :: "char \<Rightarrow> bool" where
  "isalpha c \<longleftrightarrow> isupper c \<or> islower c"

definition isspace :: "char \<Rightarrow> bool" where
  "isspace c \<longleftrightarrow> cord c = 32 \<or> (9 \<le> cord c \<and> cord c \<le> 13)"

definition ispunct :: "char \<Rightarrow> bool" where
  "ispunct c \<longleftrightarrow> (33 \<le> cord c \<and> cord c \<le> 47) \<or> (58 \<le> cord c \<and> cord c \<le> 64)
     \<or> (91 \<le> cord c \<and> cord c \<le> 96) \<or> (123 \<le> cord c \<and> cord c \<le> 126)"

text \<open>The macros \<open>ISBLANK\<close> and \<open>ISSPACE\<close> of make over its \<open>stopchar_map\<close>.\<close>

definition ISBLANK :: "char \<Rightarrow> bool" where
  "ISBLANK c \<longleftrightarrow> c = CHR '' '' \<or> c = CHR 0x09"

definition ISSPACE :: "char \<Rightarrow> bool" where
  "ISSPACE c \<longleftrightarrow> ISBLANK c \<or> isspace c"

lemmas ctype_defs = isdigit_def isupper_def islower_def isalpha_def isspace_def ispunct_def
  ISBLANK_def ISSPACE_def cord_def

lemma not_isdigit_NUL [simp]: "\<not> isdigit NUL"
  by (simp add: ctype_defs)

lemma isdigit_not_NUL [simp]: "isdigit c \<Longrightarrow> c \<noteq> NUL"
  by auto

lemma not_isalpha_NUL [simp]: "\<not> isalpha NUL"
  by (simp add: ctype_defs)

definition tolower :: "char \<Rightarrow> char" where
  "tolower c = (if isupper c then char_of (cord c + 32) else c)"

definition toupper :: "char \<Rightarrow> char" where
  "toupper c = (if islower c then char_of (cord c - 32) else c)"

section \<open>Reading strings\<close>

text \<open>\<open>strchr\<close> for a character that is not the terminator: the index found.\<close>

fun strchr :: "string \<Rightarrow> char \<Rightarrow> nat option" where
  "strchr [] c = None"
| "strchr (x # s) c = (if x = c then Some 0 else map_option Suc (strchr s c))"

lemma strchr_None [simp]: "strchr s c = None \<longleftrightarrow> c \<notin> set s"
  by (induction s) auto


fun peek :: "string \<Rightarrow> char" where
  "peek [] = NUL"
| "peek (c # cs) = c"

definition cget :: "string \<Rightarrow> nat \<Rightarrow> char" where
  "cget s i = (if i < length s then s ! i else NUL)"

lemma cget_0 [simp]: "cget s 0 = peek s"
  by (cases s) (auto simp: cget_def)

lemma cget_Suc [simp]: "cget (c # s) (Suc i) = cget s i"
  by (simp add: cget_def)

lemma cget_numeral [simp]: "cget (c # s) (numeral n) = cget s (pred_numeral n)"
  by (simp add: cget_def numeral_eq_Suc)

lemma cget_Nil [simp]: "cget [] i = NUL"
  by (simp add: cget_def)

lemma peek_append [simp]: "s \<noteq> [] \<Longrightarrow> peek (s @ t) = peek s"
  by (cases s) auto

lemma cget_append_length [simp]: "cget (s @ t) (length s) = peek t"
  by (cases t) (auto simp: cget_def nth_append)

fun strcmp :: "string \<Rightarrow> string \<Rightarrow> int" where
  "strcmp [] [] = 0"
| "strcmp [] (c # cs) = - 1"
| "strcmp (c # cs) [] = 1"
| "strcmp (a # as) (b # bs) =
     (if a = b then strcmp as bs else if cord a < cord b then - 1 else 1)"

lemma strcmp_refl [simp]: "strcmp s s = 0"
  by (induction s) auto

lemma strcmp_eq_0 [simp]: "strcmp s t = 0 \<longleftrightarrow> s = t"
  by (induction s t rule: strcmp.induct) auto

lemma strcmp_antisym: "strcmp t s = - strcmp s t"
proof (induction s t rule: strcmp.induct)
  case (4 a as b bs)
  then show ?case by (auto simp: not_less)
qed auto

lemma strcmp_trans: "strcmp s t < 0 \<Longrightarrow> strcmp t u < 0 \<Longrightarrow> strcmp s u < 0"
proof (induction s t arbitrary: u rule: strcmp.induct)
  case (2 c cs)
  then show ?case by (cases u) auto
next
  case (4 a as b bs)
  then show ?case by (cases u) (auto split: if_splits)
qed auto

section \<open>Numbers in strings\<close>

text \<open>The value of a string of decimal digits.\<close>

definition dec_value :: "string \<Rightarrow> nat" where
  "dec_value ds = foldl (\<lambda>n c. 10 * n + (cord c - 48)) 0 ds"

lemma dec_value_Nil [simp]: "dec_value [] = 0"
  by (simp add: dec_value_def)

lemma dec_value_append:
  "dec_value (ds @ es) = dec_value ds * 10 ^ length es + dec_value es"
proof (induction es rule: rev_induct)
  case (snoc e es)
  then show ?case by (simp add: dec_value_def algebra_simps)
qed simp

lemma dec_value_Cons: "dec_value (d # ds) = (cord d - 48) * 10 ^ length ds + dec_value ds"
  using dec_value_append [of "[d]" ds] by (simp add: dec_value_def)

lemma dec_value_less: "list_all isdigit ds \<Longrightarrow> dec_value ds < 10 ^ length ds"
proof (induction ds)
  case (Cons d ds)
  then have "cord d - 48 \<le> 9" and "dec_value ds < 10 ^ length ds"
    by (auto simp: isdigit_def)
  then have "(cord d - 48) * 10 ^ length ds + dec_value ds < 9 * 10 ^ length ds + 10 ^ length ds"
    by (meson add_le_less_mono mult_le_mono1)
  then show ?case by (simp add: dec_value_Cons)
qed simp

lemma dec_value_dropWhile_zero: "dec_value (dropWhile (\<lambda>c. c = CHR ''0'') ds) = dec_value ds"
  by (induction ds) (auto simp: dec_value_Cons cord_def)

text \<open>A digit string without a leading zero is at least the power of ten its length says.\<close>

lemma dec_value_ge:
  assumes "list_all isdigit (d # ds)" and "d \<noteq> CHR ''0''"
  shows "10 ^ length ds \<le> dec_value (d # ds)"
proof -
  have "cord d \<noteq> 48" using assms(2) by (simp add: cord_def flip: cord_inject)
  with assms(1) have "1 \<le> cord d - 48" by (auto simp: isdigit_def)
  then have "1 * 10 ^ length ds \<le> (cord d - 48) * 10 ^ length ds" by (rule mult_le_mono1)
  then show ?thesis unfolding dec_value_Cons by linarith
qed

text \<open>Comparing two-digit numbers in base \<open>B\<close>: the leading digit decides.\<close>

lemma leading_digit_less:
  fixes a b u v B :: nat
  assumes "u < B" and "a < b"
  shows "a * B + u < b * B + v"
proof -
  have "a * B + u < (a + 1) * B" using assms(1) by simp
  also have "\<dots> \<le> b * B" using assms(2) by (intro mult_le_mono1) simp
  finally show ?thesis by simp
qed

lemma sgn_leading_digit:
  fixes a b u v B :: nat
  assumes "u < B" and "v < B"
  shows "sgn (int (a * B + u) - int (b * B + v)) =
    (if a = b then sgn (int u - int v) else sgn (int a - int b))"
proof (cases a b rule: linorder_cases)
  case less
  have "int (a * B + u) < int (b * B + v)"
    using leading_digit_less [OF assms(1) less] by (simp only: of_nat_less_iff)
  with less show ?thesis by (simp only: sgn_if) simp
next
  case equal
  then show ?thesis by simp
next
  case greater
  have "int (b * B + v) < int (a * B + u)"
    using leading_digit_less [OF assms(2) greater] by (simp only: of_nat_less_iff)
  with greater show ?thesis by (simp only: sgn_if) simp
qed

text \<open>
  \<open>strtol (psz, &psz, 10)\<close> for a \<open>psz\<close> that starts with a digit, with a 64-bit \<open>long\<close>: the
  value, clamped to \<open>LONG_MAX\<close>, and the rest of the string.
\<close>

definition strtol10 :: "string \<Rightarrow> int \<times> string" where
  "strtol10 s = (min (int (dec_value (takeWhile isdigit s))) (2 ^ 63 - 1), dropWhile isdigit s)"

end
