(* ===== verification/ExprVar.thy ===== *)
theory ExprVar
  imports CLib "HOL-Library.Signed_Division"
begin

text \<open>
  The operand variables of the expression evaluator (\<open>src/kmk/expreval.c\<close>, first half): numbers
  and strings, their conversion into one another, and the unification of the types of two
  operands.

  \<open>EXPRINT64\<close> is the range \<open>int64_ok\<close> of \<open>int\<close>; an operation whose exact result leaves it is a
  signed overflow, which C leaves undefined. \<open>expr_error\<close> ends in make's \<open>fatal\<close>, which exits, so
  the \<open>return kExprRet_Error\<close> after it is never reached; \<open>kExprRet_Error\<close> is returned only where
  \<open>fQuiet\<close> suppresses the message. The services of make an expression uses (variable expansion and
  lookup, \<open>stat\<close>, the file table) are the fields of \<open>expr_env\<close>.
\<close>

section \<open>Status codes, errors and the environment\<close>

datatype EXPRRET =
  kExprRet_Error | kExprRet_Ok | kExprRet_Operator | kExprRet_Operand | kExprRet_EndOfExpr | kExprRet_End

primrec exprret_value :: "EXPRRET \<Rightarrow> int" where
  "exprret_value kExprRet_Error = - 1"
| "exprret_value kExprRet_Ok = 0"
| "exprret_value kExprRet_Operator = 1"
| "exprret_value kExprRet_Operand = 2"
| "exprret_value kExprRet_EndOfExpr = 3"
| "exprret_value kExprRet_End = 4"

instantiation EXPRRET :: linorder
begin

definition less_eq_EXPRRET :: "EXPRRET \<Rightarrow> EXPRRET \<Rightarrow> bool" where
  "less_eq_EXPRRET a b \<longleftrightarrow> exprret_value a \<le> exprret_value b"

definition less_EXPRRET :: "EXPRRET \<Rightarrow> EXPRRET \<Rightarrow> bool" where
  "less_EXPRRET a b \<longleftrightarrow> exprret_value a < exprret_value b"

lemma exprret_value_inject: "exprret_value a = exprret_value b \<longleftrightarrow> a = b"
  by (cases a; cases b) simp_all

instance
  by standard (auto simp: less_eq_EXPRRET_def less_EXPRRET_def exprret_value_inject)

end

lemma exprret_ge_Ok [simp]: "kExprRet_Ok \<le> rc \<longleftrightarrow> rc \<noteq> kExprRet_Error"
  by (cases rc) (simp_all add: less_eq_EXPRRET_def)

lemma exprret_less_Ok [simp]: "rc < kExprRet_Ok \<longleftrightarrow> rc = kExprRet_Error"
  by (cases rc) (simp_all add: less_EXPRRET_def)

text \<open>The messages \<open>expr_error\<close> is called with.\<close>

datatype expr_error =
    InvalidNumber string     \<comment> \<open>Invalid number "%.80s"\<close>
  | QuotedToNumber           \<comment> \<open>Cannot convert a quoted string to a number\<close>
  | UnableToUnify string     \<comment> \<open>Unable to unify types for "%s"\<close>
  | StringsAndNumbers        \<comment> \<open>Cannot compare strings and numbers\<close>
  | MissingParenthesis       \<comment> \<open>Missing ')'\<close>
  | ExpectedBinary string    \<comment> \<open>Expected binary operator, found "%.42s"...\<close>
  | OperatorStackOverflow    \<comment> \<open>Operator stack overflow\<close>
  | OperandStackOverflow     \<comment> \<open>Operand stack overflow\<close>
  | UnexpectedEnd            \<comment> \<open>Unexpected end of expression\<close>
  | TooDeepNesting           \<comment> \<open>Too deep nesting of variable expansions\<close>
  | UnexpectedOperator string \<comment> \<open>Unexpected "%s"\<close>

type_synonym 'a eres = "(expr_error, 'a) outcome"

text \<open>
  What \<open>target\<close> reads of a \<open>struct file\<close>. The \<open>prev\<close> chain of a file is finite; of the head of a
  multi-target rule only the fields behind one \<open>multi_head\<close> step are read.
\<close>

datatype make_file = MakeFile
  (need_2nd_target_expansion: bool)
  (is_target: bool)
  (has_cmds: bool)
  (prev: "make_file option")
  (multi_head: "make_file option")

record expr_env =
  allocated_variable_expand :: "string \<Rightarrow> string"
  lookup_variable :: "string \<Rightarrow> string option"  \<comment> \<open>the variable's \<open>value\<close>\<close>
  stat_succeeds :: "string \<Rightarrow> bool"
  lookup_file :: "string \<Rightarrow> make_file option"

section \<open>Numbers\<close>

definition int64_ok :: "int \<Rightarrow> bool" where
  "int64_ok i \<longleftrightarrow> - (2 ^ 63) \<le> i \<and> i < 2 ^ 63"

lemma int64_ok_0_1 [simp]: "int64_ok 0" "int64_ok 1" "int64_ok (if b then 1 else 0)"
  by (simp_all add: int64_ok_def)

definition mk64 :: "int \<Rightarrow> int eres" where
  "mk64 i = (if int64_ok i then Ok i else Undef SignedOverflow)"

lemma safe_mk64 [safe_rules]: "SignedOverflow \<in> F \<Longrightarrow> safe F int64_ok (mk64 i)"
  by (simp add: mk64_def)

lemma mk64_ok [simp]: "int64_ok i \<Longrightarrow> mk64 i = Ok i"
  by (simp add: mk64_def)

definition EXPR_NUM_LEN :: nat where
  "EXPR_NUM_LEN = 24"

text \<open>The digit loop fills the buffer from its end: \<open>acc\<close> is what \<open>psz\<close> points to.\<close>

fun num_digits :: "nat \<Rightarrow> string \<Rightarrow> string" where
  "num_digits iSrc acc =
     (let acc' = (''0123456789abcdef'' ! (iSrc mod 10)) # acc
      in if iSrc div 10 \<noteq> 0 then num_digits (iSrc div 10) acc' else acc')"

declare num_digits.simps [simp del]

definition expr_num_to_string :: "int \<Rightarrow> string eres" where
  "expr_num_to_string iSrc =
     (let fNegative = iSrc < 0 in
      obind (if fNegative then mk64 (- iSrc) else Ok iSrc) (\<lambda>i.
      let psz = num_digits (nat i) []
      in Ok (if fNegative then CHR ''-'' # psz else psz)))"

text \<open>The digit of a character, by the \<open>switch\<close> of \<open>expr_string_to_num\<close>.\<close>

definition digit_of :: "char \<Rightarrow> int option" where
  "digit_of ch =
     (if isdigit ch then Some (int (cord ch) - 48)
      else if 97 \<le> cord ch \<and> cord ch \<le> 102 then Some (int (cord ch) - 87)
      else if 65 \<le> cord ch \<and> cord ch \<le> 70 then Some (int (cord ch) - 55)
      else None)"

definition num_base :: "string \<Rightarrow> int \<times> string" where
  "num_base psz =
     (if peek psz \<noteq> CHR ''0'' then (10, psz)
      else if cget psz 1 = CHR ''x'' \<or> cget psz 1 = CHR ''X'' then (16, drop 2 psz)
      else if cget psz 1 = CHR ''b'' \<or> cget psz 1 = CHR ''B'' then (2, drop 2 psz)
      else if cget psz 1 = CHR ''d'' \<or> cget psz 1 = CHR ''D'' then (10, drop 2 psz)
      else if cget psz 1 = CHR ''o'' \<or> cget psz 1 = CHR ''O'' then (8, drop 2 psz)
      else if isdigit (cget psz 1) \<and> cget psz 1 \<noteq> CHR ''9'' \<and> cget psz 1 \<noteq> CHR ''8'' then (8, drop 1 psz)
      else (10, psz))"

definition num_sign :: "bool \<Rightarrow> int \<Rightarrow> int eres" where
  "num_sign fNegative i = (if fNegative then mk64 (- i) else Ok i)"

text \<open>The conversion loop; \<open>pszSrc\<close> is only needed for the message.\<close>

fun num_loop :: "int \<Rightarrow> bool \<Rightarrow> bool \<Rightarrow> string \<Rightarrow> int \<Rightarrow> string \<Rightarrow> (EXPRRET \<times> int) eres" where
  "num_loop uBase fNegative fQuiet pszSrc i psz =
     (let finished = obind (num_sign fNegative i) (\<lambda>i. Ok (kExprRet_Ok, i));
          failed = obind (num_sign fNegative i) (\<lambda>i.
            if \<not> fQuiet then Fatal (InvalidNumber (take 80 pszSrc)) else Ok (kExprRet_Error, i))
      in case psz of
        [] \<Rightarrow> finished
      | ch # rest \<Rightarrow>
         (case digit_of ch of
            None \<Rightarrow> if dropWhile ISSPACE psz = [] then finished else failed
          | Some iDigit \<Rightarrow>
             if iDigit \<ge> uBase then failed
             else obind (mk64 (i * uBase)) (\<lambda>i.
                  obind (mk64 (i + iDigit)) (\<lambda>i.
                  num_loop uBase fNegative fQuiet pszSrc i rest))))"

declare num_loop.simps [simp del]

definition expr_string_to_num :: "string \<Rightarrow> bool \<Rightarrow> (EXPRRET \<times> int) eres" where
  "expr_string_to_num pszSrc fQuiet =
     (let psz = dropWhile ISBLANK pszSrc;
          fNegative = (peek psz = CHR ''-'');
          psz = (if fNegative then tl psz else psz);
          (uBase, psz) = num_base psz
      in num_loop uBase fNegative fQuiet pszSrc 0 psz)"

section \<open>Operand variables\<close>

datatype EXPRVARTYPE =
    kExprVar_Invalid | kExprVar_Num | kExprVar_String | kExprVar_SimpleString
  | kExprVar_QuotedString | kExprVar_QuotedSimpleString | kExprVar_End

primrec exprvartype_value :: "EXPRVARTYPE \<Rightarrow> nat" where
  "exprvartype_value kExprVar_Invalid = 0"
| "exprvartype_value kExprVar_Num = 1"
| "exprvartype_value kExprVar_String = 2"
| "exprvartype_value kExprVar_SimpleString = 3"
| "exprvartype_value kExprVar_QuotedString = 4"
| "exprvartype_value kExprVar_QuotedSimpleString = 5"
| "exprvartype_value kExprVar_End = 6"

instantiation EXPRVARTYPE :: linorder
begin

definition less_eq_EXPRVARTYPE :: "EXPRVARTYPE \<Rightarrow> EXPRVARTYPE \<Rightarrow> bool" where
  "less_eq_EXPRVARTYPE a b \<longleftrightarrow> exprvartype_value a \<le> exprvartype_value b"

definition less_EXPRVARTYPE :: "EXPRVARTYPE \<Rightarrow> EXPRVARTYPE \<Rightarrow> bool" where
  "less_EXPRVARTYPE a b \<longleftrightarrow> exprvartype_value a < exprvartype_value b"

lemma exprvartype_value_inject: "exprvartype_value a = exprvartype_value b \<longleftrightarrow> a = b"
  by (cases a; cases b) simp_all

instance
  by standard (auto simp: less_eq_EXPRVARTYPE_def less_EXPRVARTYPE_def exprvartype_value_inject)

end

text \<open>The tagged union: the tag \<open>enmType\<close> selects the member \<open>uVal.i\<close> or \<open>uVal.psz\<close>.\<close>

datatype EXPRVAR =
    Invalid
  | Num int
  | String string
  | SimpleString string
  | QuotedString string
  | QuotedSimpleString string

primrec enmType :: "EXPRVAR \<Rightarrow> EXPRVARTYPE" where
  "enmType Invalid = kExprVar_Invalid"
| "enmType (Num i) = kExprVar_Num"
| "enmType (String s) = kExprVar_String"
| "enmType (SimpleString s) = kExprVar_SimpleString"
| "enmType (QuotedString s) = kExprVar_QuotedString"
| "enmType (QuotedSimpleString s) = kExprVar_QuotedSimpleString"

primrec var_i :: "EXPRVAR \<Rightarrow> int eres" where
  "var_i Invalid = Undef BadUnion"
| "var_i (Num i) = Ok i"
| "var_i (String s) = Undef BadUnion"
| "var_i (SimpleString s) = Undef BadUnion"
| "var_i (QuotedString s) = Undef BadUnion"
| "var_i (QuotedSimpleString s) = Undef BadUnion"

primrec var_psz :: "EXPRVAR \<Rightarrow> string eres" where
  "var_psz Invalid = Undef BadUnion"
| "var_psz (Num i) = Undef BadUnion"
| "var_psz (String s) = Ok s"
| "var_psz (SimpleString s) = Ok s"
| "var_psz (QuotedString s) = Ok s"
| "var_psz (QuotedSimpleString s) = Ok s"

definition expr_var_is_string :: "EXPRVAR \<Rightarrow> bool" where
  "expr_var_is_string pVar \<longleftrightarrow> enmType pVar \<ge> kExprVar_String"

definition expr_var_was_quoted :: "EXPRVAR \<Rightarrow> bool" where
  "expr_var_was_quoted pVar \<longleftrightarrow> enmType pVar \<ge> kExprVar_QuotedString"

definition expr_var_delete :: "EXPRVAR \<Rightarrow> EXPRVAR" where
  "expr_var_delete pVar = Invalid"

text \<open>
  A new string variable of the given type; \<open>kExprVar_String\<close> and \<open>kExprVar_QuotedString\<close> are
  turned into their simple counterparts when nothing needs expanding. The callers pass one of
  \<open>kExprVar_String\<close>, \<open>kExprVar_QuotedString\<close> and \<open>kExprVar_QuotedSimpleString\<close>.
\<close>

definition expr_var_init_substring :: "string \<Rightarrow> EXPRVARTYPE \<Rightarrow> EXPRVAR" where
  "expr_var_init_substring s type =
     (let type' = (if type = kExprVar_String \<and> CHR ''$'' \<notin> set s then kExprVar_SimpleString
                   else if type = kExprVar_QuotedString \<and> CHR ''$'' \<notin> set s
                     then kExprVar_QuotedSimpleString
                   else type)
      in case type' of
        kExprVar_String \<Rightarrow> String s
      | kExprVar_SimpleString \<Rightarrow> SimpleString s
      | kExprVar_QuotedString \<Rightarrow> QuotedString s
      | kExprVar_QuotedSimpleString \<Rightarrow> QuotedSimpleString s
      | _ \<Rightarrow> Invalid)"

fun expr_var_make_simple_string :: "expr_env \<Rightarrow> EXPRVAR \<Rightarrow> EXPRVAR eres" where
  "expr_var_make_simple_string env (Num i) =
     obind (expr_num_to_string i) (\<lambda>psz. Ok (SimpleString psz))"
| "expr_var_make_simple_string env (String psz) =
     (if CHR ''$'' \<in> set psz then Ok (SimpleString (allocated_variable_expand env psz))
      else Undef AssertFailed)"
| "expr_var_make_simple_string env (QuotedString psz) =
     (if CHR ''$'' \<in> set psz then Ok (QuotedSimpleString (allocated_variable_expand env psz))
      else Undef AssertFailed)"
| "expr_var_make_simple_string env (SimpleString psz) = Ok (SimpleString psz)"
| "expr_var_make_simple_string env (QuotedSimpleString psz) = Ok (QuotedSimpleString psz)"
| "expr_var_make_simple_string env Invalid = Undef AssertFailed"

definition expr_var_init_num :: "int \<Rightarrow> EXPRVAR" where
  "expr_var_init_num i = Num i"

definition expr_var_assign_num :: "EXPRVAR \<Rightarrow> int \<Rightarrow> EXPRVAR" where
  "expr_var_assign_num pVar i = (let deleted = expr_var_delete pVar in expr_var_init_num i)"

text \<open>
  The conversion of a simple string, shared by \<open>expr_var_make_num\<close> (where a failure is fatal) and
  \<open>expr_var_try_make_num\<close> (where it is the status).
\<close>

definition simple_string_to_num :: "bool \<Rightarrow> string \<Rightarrow> (EXPRRET \<times> EXPRVAR) eres" where
  "simple_string_to_num fQuiet psz =
     obind (expr_string_to_num psz fQuiet) (\<lambda>(rc, i).
       if rc < kExprRet_Ok then Ok (rc, SimpleString psz)
       else Ok (kExprRet_Ok, expr_var_assign_num (SimpleString psz) i))"

fun expr_var_make_num :: "expr_env \<Rightarrow> EXPRVAR \<Rightarrow> (EXPRRET \<times> EXPRVAR) eres" where
  "expr_var_make_num env (Num i) = Ok (kExprRet_Ok, Num i)"
| "expr_var_make_num env (String s) =
     obind (expr_var_make_simple_string env (String s)) (\<lambda>v.
     obind (var_psz v) (simple_string_to_num False))"
| "expr_var_make_num env (SimpleString s) = simple_string_to_num False s"
| "expr_var_make_num env (QuotedString s) = Fatal QuotedToNumber"
| "expr_var_make_num env (QuotedSimpleString s) = Fatal QuotedToNumber"
| "expr_var_make_num env Invalid = Undef AssertFailed"

fun expr_var_try_make_num :: "expr_env \<Rightarrow> EXPRVAR \<Rightarrow> (EXPRRET \<times> EXPRVAR) eres" where
  "expr_var_try_make_num env (Num i) = Ok (kExprRet_Ok, Num i)"
| "expr_var_try_make_num env (String s) =
     obind (expr_var_make_simple_string env (String s)) (\<lambda>v.
     obind (var_psz v) (simple_string_to_num True))"
| "expr_var_try_make_num env (SimpleString s) = simple_string_to_num True s"
| "expr_var_try_make_num env (QuotedString s) = Ok (kExprRet_Error, QuotedString s)"
| "expr_var_try_make_num env (QuotedSimpleString s) = Ok (kExprRet_Error, QuotedSimpleString s)"
| "expr_var_try_make_num env Invalid = Undef AssertFailed"

definition expr_var_init_bool :: "bool \<Rightarrow> EXPRVAR" where
  "expr_var_init_bool f = Num (if f then 1 else 0)"

definition expr_var_assign_bool :: "EXPRVAR \<Rightarrow> bool \<Rightarrow> EXPRVAR" where
  "expr_var_assign_bool pVar f = (let deleted = expr_var_delete pVar in expr_var_init_bool f)"

text \<open>The boolean reading of an unquoted simple string: its number, or whether it is not blank.\<close>

definition simple_string_to_bool :: "string \<Rightarrow> EXPRVAR eres" where
  "simple_string_to_bool s =
     (let psz = dropWhile ISBLANK s in
      if psz \<noteq> [] then
        obind (expr_string_to_num psz True) (\<lambda>(rc, iVal).
          if rc \<ge> kExprRet_Ok then Ok (expr_var_assign_bool (SimpleString s) (iVal \<noteq> 0))
          else Ok (expr_var_assign_bool (SimpleString s) (psz \<noteq> [])))
      else Ok (expr_var_assign_bool (SimpleString s) (psz \<noteq> [])))"

text \<open>The variable as a boolean, and \<open>pVar->uVal.i\<close>, the function's result.\<close>

fun expr_var_make_bool :: "expr_env \<Rightarrow> EXPRVAR \<Rightarrow> (int \<times> EXPRVAR) eres" where
  "expr_var_make_bool env (Num i) = (let b = (if i \<noteq> 0 then 1 else 0) in Ok (b, Num b))"
| "expr_var_make_bool env (String s) =
     obind (expr_var_make_simple_string env (String s)) (\<lambda>v.
     obind (var_psz v) (\<lambda>psz. obind (simple_string_to_bool psz) (\<lambda>v.
     obind (var_i v) (\<lambda>i. Ok (i, v)))))"
| "expr_var_make_bool env (SimpleString s) =
     obind (simple_string_to_bool s) (\<lambda>v. obind (var_i v) (\<lambda>i. Ok (i, v)))"
| "expr_var_make_bool env (QuotedString s) =
     obind (expr_var_make_simple_string env (QuotedString s)) (\<lambda>v.
     obind (var_psz v) (\<lambda>psz. let v = expr_var_assign_bool v (psz \<noteq> []) in
     obind (var_i v) (\<lambda>i. Ok (i, v))))"
| "expr_var_make_bool env (QuotedSimpleString s) =
     (let v = expr_var_assign_bool (QuotedSimpleString s) (s \<noteq> []) in
     obind (var_i v) (\<lambda>i. Ok (i, v)))"
| "expr_var_make_bool env Invalid = Undef AssertFailed"

text \<open>
  Unification: two unquoted operands become numbers if both can, all strings are simplified, and
  operands of different kinds are an error. \<open>pszOp\<close> names the operator in the message.
\<close>

definition expr_var_unify_types ::
    "expr_env \<Rightarrow> EXPRVAR \<Rightarrow> EXPRVAR \<Rightarrow> string \<Rightarrow> (EXPRRET \<times> EXPRVAR \<times> EXPRVAR) eres" where
  "expr_var_unify_types env pVar1 pVar2 pszOp =
     obind
       (if \<not> expr_var_was_quoted pVar1 \<and> \<not> expr_var_was_quoted pVar2 then
          if expr_var_is_string pVar1 \<or> expr_var_is_string pVar2 then
            if \<not> expr_var_is_string pVar1 then
              obind (expr_var_try_make_num env pVar2) (\<lambda>(rc, v2). Ok (pVar1, v2))
            else if \<not> expr_var_is_string pVar2 then
              obind (expr_var_try_make_num env pVar1) (\<lambda>(rc, v1). Ok (v1, pVar2))
            else
              obind (expr_var_make_simple_string env pVar1) (\<lambda>v1.
              obind (expr_var_make_simple_string env pVar2) (\<lambda>v2.
              obind (var_psz v1) (\<lambda>psz1. obind (var_psz v2) (\<lambda>psz2.
              obind (expr_string_to_num psz1 True) (\<lambda>(rc1, iVar1).
              if rc1 \<ge> kExprRet_Ok then
                obind (expr_string_to_num psz2 True) (\<lambda>(rc2, iVar2).
                if rc2 \<ge> kExprRet_Ok then
                  Ok (expr_var_assign_num v1 iVar1, expr_var_assign_num v2 iVar2)
                else Ok (v1, v2))
              else Ok (v1, v2))))))
          else Ok (pVar1, pVar2)
        else
          obind (expr_var_make_simple_string env pVar1) (\<lambda>v1.
          obind (expr_var_make_simple_string env pVar2) (\<lambda>v2. Ok (v1, v2))))
       (\<lambda>(v1, v2).
          if expr_var_is_string v1 \<noteq> expr_var_is_string v2 then Fatal (UnableToUnify pszOp)
          else Ok (kExprRet_Ok, v1, v2))"

end
