(* ===== verification/ExprToken.thy ===== *)
theory ExprToken
  imports ExprVar "HOL-Library.Sublist"
begin

unbundle bit_operations_syntax

text \<open>
  The tokens of the expression evaluator (\<open>src/kmk/expreval.c\<close>): the operator table
  \<open>g_aExprOps\<close>, the start character map, the operator lookup, the evaluator instance \<open>EXPR\<close> and
  the two functions that read a token.

  The two stacks of an \<open>EXPR\<close> are lists with the top first, so \<open>iOp\<close> is \<open>length apOps - 1\<close> and
  \<open>iVar\<close> is \<open>length aVars - 1\<close>; a push that would write past the array is the fault
  \<open>OutOfBounds\<close>. The method of an operator is an element of \<open>expr_pfn\<close>, so that the table does
  not depend on the operators, which read tokens themselves.
\<close>

section \<open>The operator table\<close>

datatype expr_pfn =
    expr_op_defined | expr_op_exists | expr_op_target | expr_op_bool | expr_op_num
  | expr_op_strlen | expr_op_str | expr_op_pluss | expr_op_minus | expr_op_bitwise_not
  | expr_op_multiply | expr_op_divide | expr_op_modulus | expr_op_add | expr_op_sub
  | expr_op_shift_left | expr_op_shift_right
  | expr_op_less_or_equal_than | expr_op_less_than
  | expr_op_greater_or_equal_than | expr_op_greater_than
  | expr_op_ver_less_or_equal_than | expr_op_ver_less_than
  | expr_op_ver_greater_or_equal_than | expr_op_ver_greater_than
  | expr_op_equal | expr_op_ver_equal | expr_op_not_equal | expr_op_ver_not_equal
  | expr_op_logical_not | expr_op_bitwise_xor | expr_op_logical_and | expr_op_bitwise_and
  | expr_op_logical_or | expr_op_bitwise_or
  | expr_op_left_parenthesis | expr_op_right_parenthesis

record EXPROP =
  szOp :: string
  chPair :: char
  iPrecedence :: nat
  cArgs :: nat
  pfn :: "expr_pfn option"

abbreviation cchOp :: "EXPROP \<Rightarrow> nat" where
  "cchOp pOp \<equiv> length (szOp pOp)"

definition EXPR_OP :: "string \<Rightarrow> nat \<Rightarrow> nat \<Rightarrow> expr_pfn \<Rightarrow> EXPROP" where
  "EXPR_OP s prec args f =
     \<lparr>szOp = s, chPair = NUL, iPrecedence = prec, cArgs = args, pfn = Some f\<rparr>"

definition op_left_parenthesis :: EXPROP where
  "op_left_parenthesis =
     \<lparr>szOp = ''('', chPair = CHR '')'', iPrecedence = 10, cArgs = 1,
      pfn = Some expr_op_left_parenthesis\<rparr>"

definition op_right_parenthesis :: EXPROP where
  "op_right_parenthesis =
     \<lparr>szOp = '')'', chPair = CHR ''('', iPrecedence = 10, cArgs = 0,
      pfn = Some expr_op_right_parenthesis\<rparr>"

definition g_aExprOps :: "EXPROP list" where
  "g_aExprOps =
    [EXPR_OP ''defined'' 90 1 expr_op_defined,
     EXPR_OP ''exists''  90 1 expr_op_exists,
     EXPR_OP ''target''  90 1 expr_op_target,
     EXPR_OP ''bool''    90 1 expr_op_bool,
     EXPR_OP ''num''     90 1 expr_op_num,
     EXPR_OP ''strlen''  90 1 expr_op_strlen,
     EXPR_OP ''str''     90 1 expr_op_str,
     EXPR_OP ''+''       80 1 expr_op_pluss,
     EXPR_OP ''-''       80 1 expr_op_minus,
     EXPR_OP ''~''       80 1 expr_op_bitwise_not,
     EXPR_OP ''*''       75 2 expr_op_multiply,
     EXPR_OP ''/''       75 2 expr_op_divide,
     EXPR_OP ''%''       75 2 expr_op_modulus,
     EXPR_OP ''+''       70 2 expr_op_add,
     EXPR_OP ''-''       70 2 expr_op_sub,
     EXPR_OP ''<<''      65 2 expr_op_shift_left,
     EXPR_OP ''>>''      65 2 expr_op_shift_right,
     EXPR_OP ''<=''      60 2 expr_op_less_or_equal_than,
     EXPR_OP ''<''       60 2 expr_op_less_than,
     EXPR_OP ''>=''      60 2 expr_op_greater_or_equal_than,
     EXPR_OP ''>''       60 2 expr_op_greater_than,
     EXPR_OP ''vle''     60 2 expr_op_ver_less_or_equal_than,
     EXPR_OP ''vlt''     60 2 expr_op_ver_less_than,
     EXPR_OP ''vge''     60 2 expr_op_ver_greater_or_equal_than,
     EXPR_OP ''vgt''     60 2 expr_op_ver_greater_than,
     EXPR_OP ''==''      55 2 expr_op_equal,
     EXPR_OP ''veq''     55 2 expr_op_ver_equal,
     EXPR_OP ''!=''      55 2 expr_op_not_equal,
     EXPR_OP ''vne''     55 2 expr_op_ver_not_equal,
     EXPR_OP ''!''       80 1 expr_op_logical_not,
     EXPR_OP ''^''       45 2 expr_op_bitwise_xor,
     EXPR_OP ''&&''      35 2 expr_op_logical_and,
     EXPR_OP ''&''       50 2 expr_op_bitwise_and,
     EXPR_OP ''||''      30 2 expr_op_logical_or,
     EXPR_OP ''|''       40 2 expr_op_bitwise_or,
     op_left_parenthesis,
     op_right_parenthesis]"

definition g_ExprEndOfExpOp :: EXPROP where
  "g_ExprEndOfExpOp = \<lparr>szOp = [], chPair = NUL, iPrecedence = 0, cArgs = 0, pfn = None\<rparr>"

section \<open>The start character map\<close>

text \<open>
  \<open>map_init_ops\<close> is the loop of \<open>expr_map_init\<close> over the operator table from index \<open>i\<close> on;
  \<open>map_init_spaces\<close> is the sequence of \<open>SET_WHITESPACE\<close>, whose assertion fails when the character
  starts an operator. The values are those of an \<open>unsigned char\<close>.
\<close>

type_synonym start_map = "char \<Rightarrow> nat"

fun map_init_ops :: "nat \<Rightarrow> EXPROP list \<Rightarrow> start_map \<Rightarrow> start_map" where
  "map_init_ops i [] m = m"
| "map_init_ops i (op # ops) m =
     (let ch = peek (szOp op) in
      map_init_ops (Suc i) ops
        (if m ch = 0 then m(ch := (i * 4) OR 1 OR (if \<not> isalpha ch then 2 else 0)) else m))"

fun map_init_spaces :: "char list \<Rightarrow> start_map \<Rightarrow> start_map eres" where
  "map_init_spaces [] m = Ok m"
| "map_init_spaces (ch # chs) m =
     (if m ch = 0 then map_init_spaces chs (m(ch := m ch OR 2)) else Undef AssertFailed)"

definition expr_map_init :: "start_map eres" where
  "expr_map_init =
     map_init_spaces [CHR '' '', CHR 0x09, CHR 0x0A, CHR 0x0D, CHR 0x0B, CHR 0x0C]
       (map_init_ops 0 g_aExprOps (\<lambda>ch. 0))"

definition g_auchOpStartCharMap :: start_map where
  "g_auchOpStartCharMap = (case expr_map_init of Ok m \<Rightarrow> m | _ \<Rightarrow> (\<lambda>ch. 0))"

definition expr_map_get :: "char \<Rightarrow> nat" where
  "expr_map_get ch = g_auchOpStartCharMap ch"

text \<open>The same initialisation on an association list, which the kernel evaluates.\<close>

definition table_fun :: "(char \<times> nat) list \<Rightarrow> start_map" where
  "table_fun tab ch = (case map_of tab ch of None \<Rightarrow> 0 | Some u \<Rightarrow> u)"

fun table_ops :: "nat \<Rightarrow> EXPROP list \<Rightarrow> (char \<times> nat) list \<Rightarrow> (char \<times> nat) list" where
  "table_ops i [] tab = tab"
| "table_ops i (op # ops) tab =
     (let ch = peek (szOp op) in
      table_ops (Suc i) ops
        (if table_fun tab ch = 0
         then (ch, (i * 4) OR 1 OR (if \<not> isalpha ch then 2 else 0)) # tab else tab))"

lemma table_fun_Cons: "table_fun ((ch, u) # tab) = (table_fun tab)(ch := u)"
  by (auto simp: table_fun_def)

lemma map_init_ops_table: "map_init_ops i ops (table_fun tab) = table_fun (table_ops i ops tab)"
  by (induction ops arbitrary: i tab) (simp_all add: Let_def flip: table_fun_Cons)

lemma map_init_spaces_table:
  "distinct chs \<Longrightarrow> \<forall>ch\<in>set chs. table_fun tab ch = 0 \<Longrightarrow>
   map_init_spaces chs (table_fun tab) = Ok (table_fun (rev (map (\<lambda>ch. (ch, 2)) chs) @ tab))"
proof (induction chs arbitrary: tab)
  case (Cons ch chs)
  have "\<forall>c\<in>set chs. table_fun ((ch, 2) # tab) c = 0"
    using Cons.prems by (auto simp: table_fun_Cons)
  with Cons show ?case by (simp flip: table_fun_Cons)
qed simp

definition start_char_table :: "(char \<times> nat) list" where
  "start_char_table =
    [(CHR 0x0C, 2), (CHR 0x0B, 2), (CHR 0x0D, 2), (CHR 0x0A, 2), (CHR 0x09, 2), (CHR '' '', 2),
     (CHR '')'', 147), (CHR ''('', 143), (CHR ''|'', 135), (CHR ''&'', 127), (CHR ''^'', 123),
     (CHR ''!'', 111), (CHR ''='', 103), (CHR ''v'', 85), (CHR ''>'', 67), (CHR ''<'', 63),
     (CHR ''%'', 51), (CHR ''/'', 47), (CHR ''*'', 43), (CHR ''~'', 39), (CHR ''-'', 35),
     (CHR ''+'', 31), (CHR ''s'', 21), (CHR ''n'', 17), (CHR ''b'', 13), (CHR ''t'', 9),
     (CHR ''e'', 5), (CHR ''d'', 1)]"

lemma table_ops_eq: "table_ops 0 g_aExprOps [] = drop 6 start_char_table"
  by code_simp

lemma spaces_free:
  "\<forall>ch\<in>set [CHR '' '', CHR 0x09, CHR 0x0A, CHR 0x0D, CHR 0x0B, CHR 0x0C].
     table_fun (drop 6 start_char_table) ch = 0"
  by code_simp

lemma start_char_table_spaces:
  "rev (map (\<lambda>ch. (ch, 2)) [CHR '' '', CHR 0x09, CHR 0x0A, CHR 0x0D, CHR 0x0B, CHR 0x0C]) @
     drop 6 start_char_table = start_char_table"
  by code_simp

lemma expr_map_init_eq: "expr_map_init = Ok (table_fun start_char_table)"
proof -
  have "(\<lambda>ch. 0) = table_fun []" by (simp add: table_fun_def fun_eq_iff)
  then have "map_init_ops 0 g_aExprOps (\<lambda>ch. 0) = table_fun (drop 6 start_char_table)"
    by (simp only: map_init_ops_table table_ops_eq)
  moreover have "distinct [CHR '' '', CHR 0x09, CHR 0x0A, CHR 0x0D, CHR 0x0B, CHR 0x0C]" by simp
  ultimately show ?thesis
    using map_init_spaces_table [OF _ spaces_free]
    unfolding expr_map_init_def start_char_table_spaces by simp
qed

lemma expr_map_get_eq [code]: "expr_map_get ch = table_fun start_char_table ch"
  by (simp add: expr_map_get_def g_auchOpStartCharMap_def expr_map_init_eq)

section \<open>Looking an operator up\<close>

definition EXPR_IS_OP_SEPARATOR_NO_SPACE :: "char \<Rightarrow> bool" where
  "EXPR_IS_OP_SEPARATOR_NO_SPACE ch \<longleftrightarrow> ispunct ch \<and> ch \<noteq> CHR ''@'' \<and> ch \<noteq> CHR ''_''"

definition EXPR_IS_OP_SEPARATOR :: "char \<Rightarrow> bool" where
  "EXPR_IS_OP_SEPARATOR ch \<longleftrightarrow> isspace ch \<or> EXPR_IS_OP_SEPARATOR_NO_SPACE ch"

text \<open>The comparison of one table entry with the text at \<open>psz\<close>.\<close>

definition op_text_matches :: "EXPROP \<Rightarrow> string \<Rightarrow> bool" where
  "op_text_matches op psz \<longleftrightarrow>
     cget (szOp op) 0 = peek psz \<and>
     (if cchOp op = 1 then True
      else if cchOp op = 2 then cget (szOp op) 1 = cget psz 1
      else take (cchOp op - 1) (tl psz) = tl (szOp op))"

fun lookup_from :: "EXPROP list \<Rightarrow> string \<Rightarrow> nat \<Rightarrow> bool \<Rightarrow> EXPROP option" where
  "lookup_from [] psz uchVal fUnary = None"
| "lookup_from (op # ops) psz uchVal fUnary =
     (if op_text_matches op psz \<and> fUnary = (cArgs op = 1) \<and>
         (uchVal AND 2 \<noteq> 0 \<or> EXPR_IS_OP_SEPARATOR (cget psz (cchOp op)))
      then Some op
      else lookup_from ops psz uchVal fUnary)"

definition expr_lookup_op :: "string \<Rightarrow> nat \<Rightarrow> bool \<Rightarrow> EXPROP option eres" where
  "expr_lookup_op psz uchVal fUnary =
     (if (uchVal AND 2) = (if isalpha (peek psz) then 0 else 2)
      then Ok (lookup_from (drop (uchVal div 4) g_aExprOps) psz uchVal fUnary)
      else Undef AssertFailed)"

section \<open>The evaluator instance\<close>

record EXPR =
  pszExpr :: string
  psz :: string
  pPending :: "EXPROP option"
  apOps :: "EXPROP list"
  aVars :: "EXPRVAR list"

definition EXPR_MAX_OPERATORS :: nat where
  "EXPR_MAX_OPERATORS = 72"

definition EXPR_MAX_OPERANDS :: nat where
  "EXPR_MAX_OPERANDS = 128"

definition push_op :: "EXPROP \<Rightarrow> EXPR \<Rightarrow> EXPR eres" where
  "push_op op pThis =
     (if length (apOps pThis) < EXPR_MAX_OPERATORS
      then Ok (pThis\<lparr>apOps := op # apOps pThis\<rparr>) else Undef OutOfBounds)"

definition push_var :: "EXPRVAR \<Rightarrow> EXPR \<Rightarrow> EXPR eres" where
  "push_var v pThis =
     (if length (aVars pThis) < EXPR_MAX_OPERANDS
      then Ok (pThis\<lparr>aVars := v # aVars pThis\<rparr>) else Undef OutOfBounds)"

definition expr_unget_op :: "EXPR \<Rightarrow> EXPR eres" where
  "expr_unget_op pThis =
     (if pPending pThis \<noteq> None then Undef AssertFailed
      else case apOps pThis of
        [] \<Rightarrow> Undef AssertFailed
      | op # ops \<Rightarrow> Ok (pThis\<lparr>pPending := Some op, apOps := ops\<rparr>))"

definition skip_spaces :: "string \<Rightarrow> string" where
  "skip_spaces = dropWhile (\<lambda>ch. expr_map_get ch AND 3 = 2)"

section \<open>Binary operators, right parentheses and the end\<close>

definition next_binary :: "EXPR \<Rightarrow> (EXPROP \<times> EXPR) eres" where
  "next_binary pThis =
     (let p = skip_spaces (psz pThis) in
      if p \<noteq> [] then
        obind (if expr_map_get (peek p) AND 1 \<noteq> 0
               then expr_lookup_op p (expr_map_get (peek p)) False else Ok None) (\<lambda>pOp.
        case pOp of
          None \<Rightarrow> Fatal (ExpectedBinary (take 42 p))
        | Some op \<Rightarrow> Ok (op, pThis\<lparr>psz := drop (cchOp op) p\<rparr>))
      else Ok (g_ExprEndOfExpOp, pThis\<lparr>psz := p\<rparr>))"

definition expr_get_binary_or_eoe_or_rparen :: "EXPR \<Rightarrow> (EXPRRET \<times> EXPR) eres" where
  "expr_get_binary_or_eoe_or_rparen pThis =
     obind (case pPending pThis of
              Some op \<Rightarrow> Ok (op, pThis\<lparr>pPending := None\<rparr>)
            | None \<Rightarrow> next_binary pThis) (\<lambda>(op, pThis).
     if length (apOps pThis) \<ge> EXPR_MAX_OPERATORS then Fatal OperatorStackOverflow
     else obind (push_op op pThis) (\<lambda>pThis.
       Ok (if iPrecedence op \<noteq> 0 then kExprRet_Operator else kExprRet_EndOfExpr, pThis)))"

section \<open>Unary operators and operands\<close>

text \<open>
  The scan of an unquoted operand. \<open>acc\<close> holds the characters from \<open>pszStart\<close> to \<open>psz\<close> in
  reverse, \<open>pars\<close> is the content of \<open>achPars\<close> up to \<open>iPar\<close>, top first, so that \<open>peek pars\<close> is
  \<open>chEndPar\<close> and \<open>iPar\<close> is \<open>length pars - 1\<close>. The source compares \<open>iPar\<close> with the size of the
  array, so that two writes behind its end pass the check.
\<close>

definition ACH_PARS :: nat where
  "ACH_PARS = 20"

definition operand_ends :: "string \<Rightarrow> string \<Rightarrow> bool eres" where
  "operand_ends acc p =
     (let uchVal = expr_map_get (peek p) in
      if uchVal = 0 then Ok False
      else if uchVal AND 3 = 2 then Ok True
      else if uchVal AND 1 \<noteq> 0 \<and> acc \<noteq> [] \<and>
              (uchVal AND 2 \<noteq> 0 \<or> EXPR_IS_OP_SEPARATOR_NO_SPACE (peek acc)) then
        obind (expr_lookup_op p uchVal False) (\<lambda>pOp. Ok (pOp \<noteq> None))
      else Ok False)"

fun scan_operand :: "string \<Rightarrow> string \<Rightarrow> string \<Rightarrow> (string \<times> string) eres" where
  "scan_operand acc pars [] = Ok (rev acc, [])"
| "scan_operand acc pars (ch # p) =
     (if ch = CHR ''$'' \<and> (peek p = CHR ''('' \<or> peek p = CHR ''{'') then
        if int (length pars) - 1 > int ACH_PARS then Fatal TooDeepNesting
        else if length pars \<ge> ACH_PARS then Undef OutOfBounds
        else scan_operand (peek p # ch # acc)
               ((if peek p = CHR ''('' then CHR '')'' else CHR ''}'') # pars) (tl p)
      else if ch = peek pars then scan_operand (ch # acc) (tl pars) p
      else if pars = [] then
        obind (operand_ends acc (ch # p)) (\<lambda>ends.
        if ends then Ok (rev acc, ch # p) else scan_operand (ch # acc) pars p)
      else scan_operand (ch # acc) pars p)"

declare scan_operand.simps [simp del]

text \<open>A quoted operand: the text up to the closing quote, and what follows it.\<close>

definition quoted_operand :: "char \<Rightarrow> string \<Rightarrow> string \<times> string" where
  "quoted_operand q p = (takeWhile (\<lambda>ch. ch \<noteq> q) p, tl (dropWhile (\<lambda>ch. ch \<noteq> q) p))"

definition get_operand :: "string \<Rightarrow> (EXPRVAR \<times> string) eres" where
  "get_operand p =
     (if peek p = CHR 0x22 then
        Ok (expr_var_init_substring (fst (quoted_operand (CHR 0x22) (tl p))) kExprVar_QuotedString,
            snd (quoted_operand (CHR 0x22) (tl p)))
      else if peek p = CHR 0x27 then
        Ok (expr_var_init_substring (fst (quoted_operand (CHR 0x27) (tl p)))
              kExprVar_QuotedSimpleString,
            snd (quoted_operand (CHR 0x27) (tl p)))
      else obind (scan_operand [] [] p) (\<lambda>(s, p').
        Ok (expr_var_init_substring s kExprVar_String, p')))"

definition expr_get_unary_or_operand :: "EXPR \<Rightarrow> (EXPRRET \<times> EXPR) eres" where
  "expr_get_unary_or_operand pThis =
     (let p = skip_spaces (psz pThis) in
      if p = [] then Fatal UnexpectedEnd
      else obind (if expr_map_get (peek p) AND 1 \<noteq> 0
                  then expr_lookup_op p (expr_map_get (peek p)) True else Ok None) (\<lambda>pOp.
      case pOp of
        Some op \<Rightarrow>
          if length (aVars pThis) < EXPR_MAX_OPERANDS then
            obind (push_op op pThis) (\<lambda>pThis.
            Ok (kExprRet_Operator, pThis\<lparr>psz := drop (cchOp op) p\<rparr>))
          else Fatal OperatorStackOverflow
      | None \<Rightarrow>
          if length (aVars pThis) < EXPR_MAX_OPERANDS then
            obind (get_operand p) (\<lambda>(v, p').
            obind (push_var v pThis) (\<lambda>pThis.
            Ok (kExprRet_Ok, pThis\<lparr>psz := p'\<rparr>)))
          else Fatal OperandStackOverflow))"

end
