(* ===== verification/VersionCompare.thy ===== *)
theory VersionCompare
  imports CLib "HOL-Library.Word"
begin

text \<open>
  \<open>src/lib/version_compare.c\<close>: the comparison of version strings behind the expression operators
  \<open>vlt\<close>, \<open>vle\<close>, \<open>veq\<close> and so on.

  The three loops of \<open>version_compare\<close> are the functions \<open>vc_nondigits\<close>, \<open>vc_skip_zeros\<close> and
  \<open>vc_digits\<close>: \<open>Inl r\<close> is a \<open>return r\<close> out of the loop, \<open>Inr\<close> its \<open>break\<close> with the local
  variables. \<open>unsigned\<close> is 32 bits wide and \<open>long\<close> 64.
\<close>

section \<open>The code\<close>

type_synonym u32 = "32 word"

text \<open>The tail of \<open>check_release_type\<close>, once one of the three designations has matched.\<close>

definition release_suffix :: "string \<Rightarrow> string \<Rightarrow> u32 \<Rightarrow> string \<times> u32" where
  "release_suffix pszStart psz uValue =
     (let ch = peek psz in
      if isdigit ch then
        let (lSub, psz') = strtol10 psz;
            lSub' = (if lSub \<ge> 1073741823 then 1073741822 else lSub)
        in (psz', uValue + word_of_int lSub')
      else if isalpha ch then (pszStart, uValue)
      else (psz, uValue))"

definition check_release_type :: "char \<Rightarrow> string \<Rightarrow> string \<times> u32" where
  "check_release_type ch psz =
     (if ch = CHR ''r'' \<or> ch = CHR ''R'' then
        if cget psz 0 \<noteq> CHR ''c'' \<and> cget psz 0 \<noteq> CHR ''C'' then (psz, - 1)
        else release_suffix psz (drop 1 psz) 2147483646
      else if ch = CHR ''b'' \<or> ch = CHR ''B'' then
        if cget psz 0 \<noteq> CHR ''e'' \<and> cget psz 0 \<noteq> CHR ''E'' then (psz, - 1)
        else if cget psz 1 \<noteq> CHR ''t'' \<and> cget psz 1 \<noteq> CHR ''T'' then (psz, - 1)
        else if cget psz 2 \<noteq> CHR ''a'' \<and> cget psz 2 \<noteq> CHR ''A'' then (psz, - 1)
        else release_suffix psz (drop 3 psz) 1073741823
      else if ch = CHR ''a'' \<or> ch = CHR ''A'' then
        if cget psz 0 \<noteq> CHR ''l'' \<and> cget psz 0 \<noteq> CHR ''L'' then (psz, - 1)
        else if cget psz 1 \<noteq> CHR ''p'' \<and> cget psz 1 \<noteq> CHR ''P'' then (psz, - 1)
        else if cget psz 2 \<noteq> CHR ''h'' \<and> cget psz 2 \<noteq> CHR ''H'' then (psz, - 1)
        else if cget psz 3 \<noteq> CHR ''a'' \<and> cget psz 3 \<noteq> CHR ''A'' then (psz, - 1)
        else release_suffix psz (drop 4 psz) 0
      else (psz, - 1))"

definition compare_failed :: "char \<Rightarrow> char \<Rightarrow> int" where
  "compare_failed ch1 ch2 =
     (if ch1 = CHR ''~'' then - 1
      else if ch2 = CHR ''~'' then 1
      else if ch1 = NUL \<or> ch1 = CHR ''/'' then - 1
      else if ch2 = NUL \<or> ch2 = CHR ''/'' then 1
      else if isdigit ch1 then - 1
      else if isdigit ch2 then 1
      else if isalpha ch1 then (if isalpha ch2 then schar ch1 - schar ch2 else - 1)
      else if isalpha ch2 then 1
      else schar ch1 - schar ch2)"

type_synonym vc_locals = "char \<times> string \<times> char \<times> string"

text \<open>
  A pointer that may have read the terminator: what is left to read, the character in hand
  included.
\<close>

definition ahead :: "char \<Rightarrow> string \<Rightarrow> nat" where
  "ahead ch psz = length psz + (if ch = NUL then 0 else 1)"

lemma ahead_peek_tl: "ahead (peek psz) (tl psz) \<le> length psz"
  by (cases psz) (auto simp: ahead_def)

lemma ahead_step: "ch \<noteq> NUL \<Longrightarrow> ahead (peek psz) (tl psz) < ahead ch psz"
  using ahead_peek_tl [of psz] by (simp add: ahead_def)

function vc_nondigits :: "char \<Rightarrow> string \<Rightarrow> char \<Rightarrow> string \<Rightarrow> int + vc_locals" where
  "vc_nondigits ch1 psz1 ch2 psz2 =
     (if ch1 = ch2 then
        if ch1 \<noteq> NUL then
          if isdigit ch1 then Inr (ch1, psz1, ch2, psz2)
          else vc_nondigits (peek psz1) (tl psz1) (peek psz2) (tl psz2)
        else Inl 0
      else if isdigit ch1 \<and> isdigit ch2 then Inr (ch1, psz1, ch2, psz2)
      else Inl (compare_failed ch1 ch2))"
  by pat_completeness auto
termination
  by (relation "measure (\<lambda>(ch1, psz1, ch2, psz2). ahead ch1 psz1)") (auto simp: ahead_step)

function vc_skip_zeros :: "char \<Rightarrow> string \<Rightarrow> char \<times> string" where
  "vc_skip_zeros ch psz =
     (if ch = CHR ''0'' then vc_skip_zeros (peek psz) (tl psz) else (ch, psz))"
  by pat_completeness auto
termination
  by (relation "measure (\<lambda>(ch, psz). ahead ch psz)") (auto simp: ahead_step)

function vc_digits :: "int \<Rightarrow> char \<Rightarrow> string \<Rightarrow> char \<Rightarrow> string \<Rightarrow> int + vc_locals" where
  "vc_digits diff ch1 psz1 ch2 psz2 =
     (if isdigit ch1 then
        if isdigit ch2 then
          vc_digits (if diff = 0 then schar ch1 - schar ch2 else diff)
            (peek psz1) (tl psz1) (peek psz2) (tl psz2)
        else Inl 1
      else if isdigit ch2 then Inl (- 1)
      else if diff \<noteq> 0 then Inl diff
      else Inr (ch1, psz1, ch2, psz2))"
  by pat_completeness auto
termination
  by (relation "measure (\<lambda>(diff, ch1, psz1, ch2, psz2). ahead ch1 psz1)") (auto simp: ahead_step)

declare vc_nondigits.simps [simp del] vc_skip_zeros.simps [simp del] vc_digits.simps [simp del]

text \<open>No loop moves a string pointer backwards, and the first one stops on a digit.\<close>

lemma vc_nondigits_Inr:
  "vc_nondigits ch1 psz1 ch2 psz2 = Inr (c1, q1, c2, q2) \<Longrightarrow>
     isdigit c1 \<and> isdigit c2 \<and> ahead c1 q1 \<le> ahead ch1 psz1 \<and> ahead c2 q2 \<le> ahead ch2 psz2"
proof (induction ch1 psz1 ch2 psz2 rule: vc_nondigits.induct)
  case (1 ch1 psz1 ch2 psz2)
  from 1 show ?case
    using ahead_step [of ch1 psz1] ahead_step [of ch2 psz2]
    by (auto simp: vc_nondigits.simps [of ch1 psz1 ch2 psz2] split: if_splits)
qed

lemma vc_skip_zeros_length: "length (snd (vc_skip_zeros ch psz)) \<le> length psz"
proof (induction ch psz rule: vc_skip_zeros.induct)
  case (1 ch psz)
  then show ?case by (auto simp: vc_skip_zeros.simps [of ch])
qed

lemma vc_digits_length:
  "vc_digits diff ch1 psz1 ch2 psz2 = Inr (c1, q1, c2, q2) \<Longrightarrow>
     length q1 \<le> length psz1 \<and> length q2 \<le> length psz2"
proof (induction diff ch1 psz1 ch2 psz2 rule: vc_digits.induct)
  case (1 diff ch1 psz1 ch2 psz2)
  then show ?case by (auto simp: vc_digits.simps [of diff ch1] split: if_splits)
qed

lemma release_suffix_length:
  "length psz \<le> length pszStart \<Longrightarrow> length (fst (release_suffix pszStart psz v)) \<le> length pszStart"
  using length_dropWhile_le [of isdigit psz]
  by (simp add: release_suffix_def Let_def strtol10_def)

lemma check_release_type_length: "length (fst (check_release_type ch psz)) \<le> length psz"
  by (simp add: check_release_type_def release_suffix_length)

text \<open>One round of the outer loop up to the point where both numbers have been compared.\<close>

definition vc_round :: "string \<Rightarrow> string \<Rightarrow> int + vc_locals" where
  "vc_round psz1 psz2 =
     (case vc_nondigits (peek psz1) (tl psz1) (peek psz2) (tl psz2) of
        Inl r \<Rightarrow> Inl r
      | Inr (ch1, psz1, ch2, psz2) \<Rightarrow>
         (let z1 = vc_skip_zeros ch1 psz1; z2 = vc_skip_zeros ch2 psz2
          in vc_digits 0 (fst z1) (snd z1) (fst z2) (snd z2)))"

lemma vc_round_length: "vc_round s t = Inr (c1, q1, c2, q2) \<Longrightarrow> length q1 < length s"
  using ahead_peek_tl [of s] vc_skip_zeros_length
  by (fastforce simp: vc_round_def Let_def ahead_def split: sum.splits if_splits
      dest!: vc_nondigits_Inr vc_digits_length intro: le_less_trans order_trans)

function version_compare :: "string \<Rightarrow> string \<Rightarrow> int" where
  "version_compare psz1 psz2 =
     (case vc_round psz1 psz2 of
        Inl r \<Rightarrow> r
      | Inr (ch1, psz1, ch2, psz2) \<Rightarrow>
         (let t1 = check_release_type ch1 psz1; t2 = check_release_type ch2 psz2;
              uType1 = snd t1; uType2 = snd t2 in
          if uType1 \<noteq> uType2 then (if uType1 < uType2 then - 1 else 1)
          else if ch1 \<noteq> ch2 \<and> uType1 = - 1 then compare_failed ch1 ch2
          else if ch1 = NUL then 0
          else version_compare (fst t1) (fst t2)))"
  by pat_completeness auto
termination
proof (relation "measure (\<lambda>(psz1, psz2). length psz1)", goal_cases)
  case (2 psz1 psz2 b ch1 y q1 z ch2 q2 t1 t2 u1 u2)
  then have "length q1 < length psz1" and "t1 = check_release_type ch1 q1"
    by (auto intro: vc_round_length)
  then show ?case
    using check_release_type_length [of ch1 q1] by auto
qed simp

declare version_compare.simps [simp del]

section \<open>Comparing a version with itself\<close>

lemma vc_nondigits_same:
  "c1 = c2 \<Longrightarrow> p1 = p2 \<Longrightarrow> vc_nondigits c1 p1 c2 p2 = Inl 0 \<or>
     (\<exists>c' p'. vc_nondigits c1 p1 c2 p2 = Inr (c', p', c', p'))"
proof (induction c1 p1 c2 p2 rule: vc_nondigits.induct)
  case (1 c1 p1 c2 p2)
  then show ?case by (auto simp: vc_nondigits.simps [of c2 p2 c2 p2])
qed

lemma vc_digits_same:
  "d = 0 \<Longrightarrow> c1 = c2 \<Longrightarrow> p1 = p2 \<Longrightarrow>
     \<exists>c' p'. vc_digits d c1 p1 c2 p2 = Inr (c', p', c', p')"
proof (induction d c1 p1 c2 p2 rule: vc_digits.induct)
  case (1 d c1 p1 c2 p2)
  then show ?case by (auto simp: vc_digits.simps [of 0 c2 p2 c2 p2])
qed

lemma vc_round_same: "vc_round s s = Inl 0 \<or> (\<exists>c p. vc_round s s = Inr (c, p, c, p))"
  using vc_nondigits_same [OF refl refl, of "peek s" "tl s"] vc_digits_same [OF refl refl refl]
  by (auto simp: vc_round_def Let_def)

lemma version_compare_same: "s = t \<Longrightarrow> version_compare s t = 0"
proof (induction s t rule: version_compare.induct)
  case (1 t s)
  show ?case
    using vc_round_same [of s] "1.prems" "1.IH" [OF _ refl refl refl refl refl refl refl]
    by (subst version_compare.simps) (auto simp: Let_def)
qed

section \<open>Swapping the operands\<close>

definition mirror :: "int + vc_locals \<Rightarrow> int + vc_locals" where
  "mirror r = (case r of Inl n \<Rightarrow> Inl (- n) | Inr (c1, p1, c2, p2) \<Rightarrow> Inr (c2, p2, c1, p1))"

definition slashless :: "char \<Rightarrow> string \<Rightarrow> bool" where
  "slashless c p \<longleftrightarrow> c \<noteq> CHR ''/'' \<and> CHR ''/'' \<notin> set p"

lemma slashless_step: "slashless c p \<Longrightarrow> slashless (peek p) (tl p)"
  by (cases p) (auto simp: slashless_def)

lemma compare_failed_swap:
  "a \<noteq> b \<Longrightarrow> a \<noteq> CHR ''/'' \<Longrightarrow> b \<noteq> CHR ''/'' \<Longrightarrow> \<not> (isdigit a \<and> isdigit b) \<Longrightarrow>
     compare_failed b a = - compare_failed a b"
  by (auto simp: compare_failed_def isdigit_def isalpha_def isupper_def islower_def)

lemma vc_nondigits_swap:
  "slashless c1 p1 \<Longrightarrow> slashless c2 p2 \<Longrightarrow>
     vc_nondigits c2 p2 c1 p1 = mirror (vc_nondigits c1 p1 c2 p2)"
proof (induction c1 p1 c2 p2 rule: vc_nondigits.induct)
  case (1 c1 p1 c2 p2)
  then show ?case
    using compare_failed_swap [of c1 c2]
    by (auto simp: vc_nondigits.simps [of c1 p1 c2 p2] vc_nondigits.simps [of c2 p2 c1 p1]
        mirror_def slashless_step) (auto simp: slashless_def)
qed

lemma vc_digits_swap:
  "vc_digits (- d) c2 p2 c1 p1 = mirror (vc_digits d c1 p1 c2 p2)"
proof (induction d c1 p1 c2 p2 rule: vc_digits.induct)
  case (1 d c1 p1 c2 p2)
  show ?case
  proof (cases "isdigit c1 \<and> isdigit c2")
    case True
    have "- (if d = 0 then schar c1 - schar c2 else d) = (if - d = 0 then schar c2 - schar c1 else - d)"
      by simp
    with "1.IH" True show ?thesis
      by (subst (1 2) vc_digits.simps) (simp only: if_True simp_thms)
  next
    case False
    then show ?thesis by (subst (1 2) vc_digits.simps) (auto simp: mirror_def)
  qed
qed

lemma vc_digits_swap0: "vc_digits 0 c2 p2 c1 p1 = mirror (vc_digits 0 c1 p1 c2 p2)"
  by (rule vc_digits_swap [of 0, unfolded minus_zero])

lemma vc_digits_Inr:
  "vc_digits d c1 p1 c2 p2 = Inr (c1', p1', c2', p2') \<Longrightarrow>
     \<not> isdigit c1' \<and> \<not> isdigit c2' \<and>
     (slashless c1 p1 \<longrightarrow> slashless c1' p1') \<and> (slashless c2 p2 \<longrightarrow> slashless c2' p2')"
proof (induction d c1 p1 c2 p2 rule: vc_digits.induct)
  case (1 d c1 p1 c2 p2)
  then show ?case
    by (auto simp: vc_digits.simps [of d c1 p1 c2 p2] slashless_step split: if_splits)
qed

lemma vc_nondigits_slashless:
  "vc_nondigits c1 p1 c2 p2 = Inr (c1', p1', c2', p2') \<Longrightarrow>
     (slashless c1 p1 \<longrightarrow> slashless c1' p1') \<and> (slashless c2 p2 \<longrightarrow> slashless c2' p2')"
proof (induction c1 p1 c2 p2 rule: vc_nondigits.induct)
  case (1 c1 p1 c2 p2)
  then show ?case
    by (auto simp: vc_nondigits.simps [of c1 p1 c2 p2] slashless_step split: if_splits)
qed

lemma vc_skip_zeros_slashless:
  "slashless c p \<Longrightarrow> slashless (fst (vc_skip_zeros c p)) (snd (vc_skip_zeros c p))"
proof (induction c p rule: vc_skip_zeros.induct)
  case (1 c p)
  then show ?case by (subst (1 2) vc_skip_zeros.simps) (auto simp: slashless_step)
qed

lemma slashless_start: "CHR ''/'' \<notin> set s \<Longrightarrow> slashless (peek s) (tl s)"
  by (cases s) (auto simp: slashless_def)

lemma vc_round_swap:
  assumes "CHR ''/'' \<notin> set s" and "CHR ''/'' \<notin> set t"
  shows "vc_round t s = mirror (vc_round s t)"
proof (cases "vc_nondigits (peek s) (tl s) (peek t) (tl t)")
  case (Inl r)
  then show ?thesis using vc_nondigits_swap [OF assms [THEN slashless_start]]
    by (simp add: vc_round_def mirror_def)
next
  case (Inr x)
  obtain c1 p1 c2 p2 where x: "x = (c1, p1, c2, p2)" by (cases x)
  let ?z1 = "vc_skip_zeros c1 p1" and ?z2 = "vc_skip_zeros c2 p2"
  show ?thesis
    using Inr vc_nondigits_swap [OF assms [THEN slashless_start]]
      vc_digits_swap0 [of "fst ?z2" "snd ?z2" "fst ?z1" "snd ?z1"]
    by (simp add: vc_round_def mirror_def Let_def x)
qed

lemma vc_round_Inr:
  assumes "vc_round s t = Inr (c1, p1, c2, p2)" and "CHR ''/'' \<notin> set s" and "CHR ''/'' \<notin> set t"
  shows "\<not> isdigit c1 \<and> slashless c1 p1 \<and> slashless c2 p2"
  using assms(1) slashless_start [OF assms(2)] slashless_start [OF assms(3)]
  by (auto simp: vc_round_def Let_def split: sum.splits
      dest!: vc_nondigits_slashless vc_digits_Inr dest: vc_skip_zeros_slashless)

lemma set_release_suffix:
  "set psz \<subseteq> set pszStart \<Longrightarrow> set (fst (release_suffix pszStart psz v)) \<subseteq> set pszStart"
  by (auto simp: release_suffix_def Let_def strtol10_def dest: set_dropWhileD)

lemma set_check_release_type: "set (fst (check_release_type ch psz)) \<subseteq> set psz"
  by (simp add: check_release_type_def set_release_suffix set_drop_subset)

lemma check_release_type_NUL [simp]: "check_release_type NUL psz = (psz, - 1)"
  by (simp add: check_release_type_def)

lemma version_compare_swap:
  "CHR ''/'' \<notin> set s \<Longrightarrow> CHR ''/'' \<notin> set t \<Longrightarrow> version_compare t s = - version_compare s t"
proof (induction s t rule: version_compare.induct)
  case (1 s t)
  show ?case
  proof (cases "vc_round s t")
    case (Inl r)
    then show ?thesis using vc_round_swap [OF "1.prems"]
      by (subst (1 2) version_compare.simps) (simp add: mirror_def)
  next
    case (Inr x)
    then obtain c1 p1 c2 p2 where x: "vc_round s t = Inr (c1, p1, c2, p2)" by (cases x) auto
    then have x': "vc_round t s = Inr (c2, p2, c1, p1)"
      using vc_round_swap [OF "1.prems"] by (simp add: mirror_def)
    note c = vc_round_Inr [OF x "1.prems"]
    then have swap: "c1 \<noteq> c2 \<Longrightarrow> compare_failed c2 c1 = - compare_failed c1 c2"
      by (auto intro!: compare_failed_swap simp: slashless_def)
    let ?t1 = "check_release_type c1 p1" and ?t2 = "check_release_type c2 p2"
    have "CHR ''/'' \<notin> set (fst ?t1)" and "CHR ''/'' \<notin> set (fst ?t2)"
      using c set_check_release_type by (fastforce simp: slashless_def)+
    then have IH: "snd ?t1 = snd ?t2 \<Longrightarrow> \<not> (c1 \<noteq> c2 \<and> snd ?t1 = - 1) \<Longrightarrow> c1 \<noteq> NUL \<Longrightarrow>
        version_compare (fst ?t2) (fst ?t1) = - version_compare (fst ?t1) (fst ?t2)"
      by (intro "1.IH" [OF x refl refl refl refl refl refl refl]) auto
    show ?thesis
    proof (cases "snd ?t1 = snd ?t2 \<and> \<not> (c1 \<noteq> c2 \<and> snd ?t1 = - 1) \<and> c1 \<noteq> NUL")
      case True
      then have "version_compare s t = version_compare (fst ?t1) (fst ?t2)"
        by (subst version_compare.simps) (auto simp add: x Let_def)
      moreover from True have "version_compare t s = version_compare (fst ?t2) (fst ?t1)"
        by (subst version_compare.simps) (auto simp add: x' Let_def)
      ultimately show ?thesis using IH True by metis
    next
      case False
      have "version_compare s t = (if snd ?t1 \<noteq> snd ?t2 then (if snd ?t1 < snd ?t2 then - 1 else 1)
          else if c1 \<noteq> c2 then compare_failed c1 c2 else 0)"
        by (subst version_compare.simps) (use False in \<open>auto simp: x Let_def\<close>)
      moreover have "version_compare t s = (if snd ?t1 \<noteq> snd ?t2 then (if snd ?t2 < snd ?t1 then - 1 else 1)
          else if c1 \<noteq> c2 then compare_failed c2 c1 else 0)"
        by (subst version_compare.simps) (use False in \<open>auto simp: x' Let_def\<close>)
      ultimately show ?thesis using swap
        by (cases "c1 = c2"; cases "snd ?t1" "snd ?t2" rule: linorder_cases) (auto dest: less_asym)
    qed
  qed
qed

section \<open>Numeric components\<close>

lemma vc_nondigits_common:
  "list_all (\<lambda>c. c \<noteq> NUL \<and> \<not> isdigit c) p \<Longrightarrow>
     vc_nondigits (peek (p @ s)) (tl (p @ s)) (peek (p @ t)) (tl (p @ t))
       = vc_nondigits (peek s) (tl s) (peek t) (tl t)"
proof (induction p)
  case (Cons c p)
  then show ?case by (subst vc_nondigits.simps) simp
qed simp

lemma vc_nondigits_prefix:
  assumes "list_all (\<lambda>c. c \<noteq> NUL \<and> \<not> isdigit c) p" and "isdigit d" and "isdigit e"
  shows "vc_nondigits (peek (p @ d # ds)) (tl (p @ d # ds)) (peek (p @ e # es)) (tl (p @ e # es))
    = Inr (d, ds, e, es)"
  unfolding vc_nondigits_common [OF assms(1)]
  using assms by (subst vc_nondigits.simps) simp

lemma vc_skip_zeros_strip:
  "vc_skip_zeros (peek ds) (tl ds) =
     (peek (dropWhile (\<lambda>c. c = CHR ''0'') ds), tl (dropWhile (\<lambda>c. c = CHR ''0'') ds))"
proof (induction ds)
  case (Cons d ds)
  then show ?case by (subst vc_skip_zeros.simps) simp
qed (subst vc_skip_zeros.simps, simp)

text \<open>
  Two runs of digits of the same length: the first difference decides, unless one is pending. What
  follows the digits is left.
\<close>

lemma vc_digits_equal_length:
  assumes "length ds = length es" and "list_all isdigit ds" and "list_all isdigit es"
    and "\<not> isdigit (peek x)" and "\<not> isdigit (peek y)"
  shows "\<exists>r. sgn r = (if d \<noteq> 0 then sgn d else sgn (int (dec_value ds) - int (dec_value es))) \<and>
    vc_digits d (peek (ds @ x)) (tl (ds @ x)) (peek (es @ y)) (tl (es @ y))
      = (if r \<noteq> 0 then Inl r else Inr (peek x, tl x, peek y, tl y))"
  using assms
proof (induction ds es arbitrary: d rule: list_induct2)
  case Nil
  then show ?case by (subst vc_digits.simps) (auto intro: exI [of _ d])
next
  case (Cons a xs b ys)
  let ?d = "if d = 0 then schar a - schar b else d"
  have ab: "isdigit a" "isdigit b" using Cons.prems by auto
  then have diff: "schar a - schar b = int (cord a - 48) - int (cord b - 48)"
    by (auto simp: schar_def isdigit_def)
  have less: "dec_value xs < 10 ^ length ys" "dec_value ys < 10 ^ length ys"
    using Cons.prems Cons.hyps dec_value_less [of xs] dec_value_less [of ys] by auto
  have "sgn (int (dec_value (a # xs)) - int (dec_value (b # ys)))
      = (if a = b then sgn (int (dec_value xs) - int (dec_value ys)) else sgn (schar a - schar b))"
    using sgn_leading_digit [OF less, of "cord a - 48" "cord b - 48"] ab diff Cons.hyps
    by (auto simp: dec_value_Cons isdigit_def eq_diff_iff)
  moreover obtain r where "sgn r = (if ?d \<noteq> 0 then sgn ?d
        else sgn (int (dec_value xs) - int (dec_value ys)))" and
    "vc_digits ?d (peek (xs @ x)) (tl (xs @ x)) (peek (ys @ y)) (tl (ys @ y))
       = (if r \<noteq> 0 then Inl r else Inr (peek x, tl x, peek y, tl y))"
    using Cons.IH [of ?d] Cons.prems by auto
  ultimately show ?case using ab
    by (subst vc_digits.simps) (auto intro!: exI [of _ r] split: if_splits)
qed

lemma vc_digits_longer:
  "length es < length ds \<Longrightarrow> list_all isdigit ds \<Longrightarrow> list_all isdigit es \<Longrightarrow> \<not> isdigit (peek y) \<Longrightarrow>
     vc_digits d (peek (ds @ x)) (tl (ds @ x)) (peek (es @ y)) (tl (es @ y)) = Inl 1"
proof (induction ds arbitrary: es d)
  case (Cons a xs)
  then show ?case by (cases es) (subst vc_digits.simps, simp)+
qed simp

lemma vc_digits_shorter:
  assumes "length ds < length es" and "list_all isdigit ds" and "list_all isdigit es" and "\<not> isdigit (peek x)"
  shows "vc_digits 0 (peek (ds @ x)) (tl (ds @ x)) (peek (es @ y)) (tl (es @ y)) = Inl (- 1)"
  unfolding vc_digits_swap0 [of "peek (ds @ x)" "tl (ds @ x)" "peek (es @ y)" "tl (es @ y)"]
  using vc_digits_longer [OF assms(1,3,2,4), of 0 y] by (simp add: mirror_def)

definition significant :: "string \<Rightarrow> bool" where
  "significant ds \<longleftrightarrow> list_all isdigit ds \<and> (ds = [] \<or> hd ds \<noteq> CHR ''0'')"

lemma significant_longer:
  assumes "significant ds" and "list_all isdigit es" and "length es < length ds"
  shows "dec_value es < dec_value ds"
proof (cases ds)
  case (Cons x xs)
  have "dec_value es < 10 ^ length es" using assms(2) by (rule dec_value_less)
  also have "\<dots> \<le> 10 ^ length xs" using assms(3) Cons by (intro power_increasing) auto
  also have "\<dots> \<le> dec_value ds"
    using dec_value_ge [of x xs] assms(1) Cons by (simp add: significant_def)
  finally show ?thesis .
qed (use assms in simp)

lemma vc_digits_significant:
  assumes ds: "significant ds" and es: "significant es" and x: "\<not> isdigit (peek x)" and y: "\<not> isdigit (peek y)"
  shows "\<exists>r. sgn r = sgn (int (dec_value ds) - int (dec_value es)) \<and>
    vc_digits 0 (peek (ds @ x)) (tl (ds @ x)) (peek (es @ y)) (tl (es @ y))
      = (if r \<noteq> 0 then Inl r else Inr (peek x, tl x, peek y, tl y))"
proof (cases "length ds" "length es" rule: linorder_cases)
  case less
  then show ?thesis
    using vc_digits_shorter [OF less _ _ x, of y] significant_longer [OF es _ less] ds es
    by (intro exI [of _ "- 1"]) (auto simp: significant_def sgn_if)
next
  case equal
  then show ?thesis using vc_digits_equal_length [OF equal _ _ x y, of 0] ds es
    by (auto simp: significant_def)
next
  case greater
  then show ?thesis
    using vc_digits_longer [OF greater _ _ y, of 0 x] significant_longer [OF ds _ greater] ds es
    by (intro exI [of _ 1]) (auto simp: significant_def sgn_if)
qed

lemma significant_strip:
  "list_all isdigit ds \<Longrightarrow> significant (dropWhile (\<lambda>c. c = CHR ''0'') ds)"
  by (induction ds) (auto simp: significant_def)

lemma strip_append:
  "\<not> isdigit (peek x) \<Longrightarrow> dropWhile (\<lambda>c. c = CHR ''0'') (ds @ x) = dropWhile (\<lambda>c. c = CHR ''0'') ds @ x"
  by (induction ds) (cases x; auto simp: isdigit_def cord_def)+

lemma vc_round_digits:
  assumes "list_all isdigit ds" and "list_all isdigit es" and "ds \<noteq> []" and "es \<noteq> []"
    and x: "\<not> isdigit (peek x)" and y: "\<not> isdigit (peek y)"
  shows "\<exists>r. sgn r = sgn (int (dec_value ds) - int (dec_value es)) \<and>
    vc_round (ds @ x) (es @ y) = (if r \<noteq> 0 then Inl r else Inr (peek x, tl x, peek y, tl y))"
proof -
  let ?strip = "dropWhile (\<lambda>c. c = CHR ''0'')"
  have "isdigit (peek (ds @ x))" "isdigit (peek (es @ y))" using assms(1-4) by (cases ds; cases es; simp)+
  then have nd: "vc_nondigits (peek (ds @ x)) (tl (ds @ x)) (peek (es @ y)) (tl (es @ y))
      = Inr (peek (ds @ x), tl (ds @ x), peek (es @ y), tl (es @ y))"
    by (subst vc_nondigits.simps) auto
  obtain r where r: "sgn r = sgn (int (dec_value ds) - int (dec_value es))"
    "vc_digits 0 (peek (?strip ds @ x)) (tl (?strip ds @ x)) (peek (?strip es @ y)) (tl (?strip es @ y))
      = (if r \<noteq> 0 then Inl r else Inr (peek x, tl x, peek y, tl y))"
    using vc_digits_significant [OF assms(1,2) [THEN significant_strip] x y]
    by (auto simp: dec_value_dropWhile_zero)
  then show ?thesis
    using vc_skip_zeros_strip [of "ds @ x"] vc_skip_zeros_strip [of "es @ y"]
    by (auto simp: vc_round_def nd Let_def strip_append [OF x] strip_append [OF y])
qed

section \<open>A common prefix\<close>

text \<open>No number is followed by a letter that can start the designation of a pre-release.\<close>

fun no_release :: "string \<Rightarrow> bool" where
  "no_release (c # d # s) \<longleftrightarrow> \<not> (isdigit c \<and> d \<in> set ''rRbBaA'') \<and> no_release (d # s)"
| "no_release s \<longleftrightarrow> True"

lemma no_release_append: "no_release (a @ b) \<Longrightarrow> no_release b"
proof (induction a)
  case (Cons c a)
  then show ?case by (cases "a @ b") auto
qed simp

lemma no_release_digit: "no_release (a @ c # d # b) \<Longrightarrow> isdigit c \<Longrightarrow> d \<notin> set ''rRbBaA''"
  using no_release_append [of a "c # d # b"] by simp

lemma version_compare_round:
  "vc_round s t = vc_round s' t' \<Longrightarrow> version_compare s t = version_compare s' t'"
  by (simp add: version_compare.simps [of s] version_compare.simps [of s'])

lemma version_compare_prefix:
  assumes "NUL \<notin> set p" and "p = [] \<or> \<not> isdigit (last p)" and "no_release p"
  shows "version_compare (p @ s) (p @ t) = version_compare s t"
  using assms
proof (induction "length p" arbitrary: p rule: less_induct)
  case less
  define nd r where "nd = takeWhile (\<lambda>c. \<not> isdigit c) p" and "r = dropWhile (\<lambda>c. \<not> isdigit c) p"
  have p: "p = nd @ r" by (simp add: nd_def r_def)
  have "list_all (\<lambda>c. c \<noteq> NUL \<and> \<not> isdigit c) nd"
    using less.prems(1) by (auto simp: nd_def list_all_iff dest: set_takeWhileD)
  then have nd: "version_compare (p @ s) (p @ t) = version_compare (r @ s) (r @ t)"
    using vc_nondigits_common [of nd "r @ s" "r @ t"]
    by (intro version_compare_round) (simp add: p vc_round_def)
  show ?case
  proof (cases "r = []")
    case False
    define ds q where "ds = takeWhile isdigit r" and "q = dropWhile isdigit r"
    have r: "r = ds @ q" by (simp add: ds_def q_def)
    have "isdigit (hd r)" using False hd_dropWhile [of "\<lambda>c. \<not> isdigit c" p] by (simp add: r_def)
    then have ds: "ds \<noteq> []" "list_all isdigit ds"
      using False by (cases r; auto simp: ds_def list_all_iff dest: set_takeWhileD)+
    have "q \<noteq> []"
    proof
      assume "q = []"
      then have "last p = last ds" using ds(1) p r by simp
      then show False using ds less.prems(2) p r \<open>q = []\<close> by (simp add: list_all_iff)
    qed
    then obtain c u where q: "q = c # u" and c: "\<not> isdigit c"
      using hd_dropWhile [of isdigit r] by (cases q) (auto simp: q_def)
    have "p = (nd @ butlast ds) @ last ds # c # u" using p r q ds(1) by simp
    moreover have "isdigit (last ds)" using ds by (simp add: list_all_iff)
    ultimately have rel: "c \<notin> set ''rRbBaA''" using less.prems(3) no_release_digit by metis
    have "c \<noteq> NUL" using less.prems(1) p r q by auto
    moreover have "vc_round (r @ s) (r @ t) = Inr (c, u @ s, c, u @ t)"
      using vc_round_digits [OF ds(2,2,1,1), of "c # u @ s" "c # u @ t"] c by (auto simp: r q sgn_0_0)
    moreover have "check_release_type c v = (v, - 1)" for v using rel by (simp add: check_release_type_def)
    ultimately have "version_compare (r @ s) (r @ t) = version_compare (u @ s) (u @ t)"
      by (subst version_compare.simps) simp
    also have "\<dots> = version_compare s t"
    proof (rule less.hyps)
      show "length u < length p" "NUL \<notin> set u" "u = [] \<or> \<not> isdigit (last u)"
        using less.prems(1,2) by (auto simp: p r q)
      show "no_release u" using less.prems(3) no_release_append [of "nd @ ds @ [c]" u] by (simp add: p r q)
    qed
    finally show ?thesis using nd by simp
  qed (use nd in simp)
qed

text \<open>
  C21: After a common prefix, two versions are ordered by the values of the numbers that follow,
  whatever the number of digits or of leading zeros: no conversion to a machine integer is
  involved. The prefix may have numbers itself, as in \<open>1.9\<close> and \<open>1.10\<close>; it does not end in a digit,
  and none of its numbers is followed by one of the letters r, b or a, which can start the
  designation of a pre-release. After the two numbers any text without a digit at its start may
  follow when they have different values; when they have the same value the statement is about
  versions that end there. The number of a pre-release itself is converted, and clamped, by
  \<open>check_release_type\<close>: there the order of the values is lost (lemma \<open>version_compare_clamped\<close>).
\<close>

theorem version_compare_numeric:
  assumes "NUL \<notin> set p" and "p = [] \<or> \<not> isdigit (last p)" and "no_release p"
    and "list_all isdigit ds" and "list_all isdigit es" and "ds \<noteq> []" and "es \<noteq> []"
    and "\<not> isdigit (peek x)" and "\<not> isdigit (peek y)"
    and "dec_value ds \<noteq> dec_value es \<or> x = [] \<and> y = []"
  shows "sgn (version_compare (p @ ds @ x) (p @ es @ y)) = sgn (int (dec_value ds) - int (dec_value es))"
proof -
  obtain r where r: "sgn r = sgn (int (dec_value ds) - int (dec_value es))"
    "vc_round (ds @ x) (es @ y) = (if r \<noteq> 0 then Inl r else Inr (peek x, tl x, peek y, tl y))"
    using vc_round_digits [OF assms(4-9)] by blast
  have "r \<noteq> 0 \<or> x = [] \<and> y = []" using r(1) assms(10) by (auto simp: sgn_0_0)
  then have "version_compare (ds @ x) (es @ y) = r"
    using r(2) by (subst version_compare.simps) auto
  then show ?thesis unfolding version_compare_prefix [OF assms(1-3)] using r(1) by simp
qed

theorem version_compare_numeric_witness:
  "sgn (version_compare (''v1.'' @ ''9'' @ ''rc2'') (''v1.'' @ ''010'' @ [])) =
     sgn (int (dec_value ''9'') - int (dec_value ''010''))"
  by (rule version_compare_numeric) (simp_all add: ctype_defs dec_value_def)

lemma version_compare_clamped: "version_compare ''1rc1073741822'' ''1rc1073741823'' = 0"
proof -
  have "vc_round ''1rc1073741822'' ''1rc1073741823'' = Inr (CHR ''r'', ''c1073741822'', CHR ''r'', ''c1073741823'')"
    by code_simp
  moreover have "check_release_type (CHR ''r'') (''c'' @ n) = ([], 2147483646 + 1073741822)"
    if "n \<in> {''1073741822'', ''1073741823''}" for n
    using that by (auto simp: check_release_type_def release_suffix_def strtol10_def dec_value_def ctype_defs)
  ultimately show ?thesis
    using version_compare_same [of "[]" "[]"] by (subst version_compare.simps) simp
qed

text \<open>
  C26: On versions without a slash the comparison is antisymmetric, result for result: swapping
  the operands negates what \<open>version_compare\<close> returns.
\<close>

theorem version_compare_antisym:
  assumes "CHR ''/'' \<notin> set s" and "CHR ''/'' \<notin> set t"
  shows "version_compare t s = - version_compare s t"
  using assms by (rule version_compare_swap)

theorem version_compare_antisym_witness:
  "version_compare ''1.2rc1'' ''1.2.3'' = - version_compare ''1.2.3'' ''1.2rc1''"
  by (rule version_compare_antisym) simp_all

text \<open>Every version string, with or without slashes, compares equal to itself.\<close>

theorem version_compare_refl: "version_compare s s = 0"
  by (rule version_compare_same) (rule refl)

text \<open>
  A trailing slash breaks the antisymmetry: a path without digits is smaller than the same
  path with a slash appended, and the path with the slash is smaller than the path without.
\<close>

theorem version_compare_slash:
  assumes "list_all (\<lambda>c. c \<noteq> NUL \<and> \<not> isdigit c) p"
  shows "version_compare p (p @ ''/'') = - 1 \<and> version_compare (p @ ''/'') p = - 1"
proof -
  have "vc_round p (p @ ''/'') = Inl (- 1)" and "vc_round (p @ ''/'') p = Inl (- 1)"
    using vc_nondigits_common [OF assms, of "[]" "''/''"] vc_nondigits_common [OF assms, of "''/''" "[]"]
    by (simp_all add: vc_round_def vc_nondigits.simps [of NUL] vc_nondigits.simps [of "CHR ''/''"]
        compare_failed_def ctype_defs)
  then show ?thesis by (simp add: version_compare.simps)
qed

theorem version_compare_slash_witness:
  "version_compare ''tools'' (''tools'' @ ''/'') = - 1 \<and> version_compare (''tools'' @ ''/'') ''tools'' = - 1"
  by (rule version_compare_slash) (simp add: ctype_defs)

lemma version_compare_rcs: "version_compare ''1.2rcs'' ''1.2'' = - 1"
  by code_simp

lemma version_compare_rd: "0 < version_compare ''1.2rd'' ''1.2''"
  by code_simp

text \<open>
  A designation that is followed by a letter is not a pre-release, and the string pointer is
  put back, but the value is not: \<open>check_release_type\<close> still reports the rank of a release
  candidate (2147483646) and not \<open>~0U\<close>, so \<open>1.2rcs\<close> is ordered before \<open>1.2\<close> although \<open>1.2rd\<close>
  is ordered after it.
\<close>

theorem check_release_type_letter:
  "(isalpha c \<longrightarrow> check_release_type (CHR ''r'') (CHR ''c'' # c # s) = (CHR ''c'' # c # s, 2147483646))
   \<and> version_compare ''1.2rcs'' ''1.2'' = - 1 \<and> 0 < version_compare ''1.2rd'' ''1.2''"
  using version_compare_rcs version_compare_rd
  by (auto simp: check_release_type_def release_suffix_def isdigit_def isalpha_def isupper_def islower_def)

theorem check_release_type_letter_witness:
  "check_release_type (CHR ''r'') ''cs'' = (''cs'', 2147483646) \<and> version_compare ''1.2rcs'' ''1.2'' = - 1"
  using check_release_type_letter [of "CHR ''s''" "[]"] by (simp add: ctype_defs)

section \<open>The tests of the source\<close>

text \<open>The table \<open>s_aTests\<close> and the \<open>main\<close> function of the file, which returns 1 if a test fails.\<close>

definition s_aTests :: "(int \<times> string \<times> string) list" where
  "s_aTests =
    [(0, '''', ''''),
     (0, ''a'', ''a''),
     (0, ''ab'', ''ab''),
     (0, ''abc'', ''abc''),
     (0, ''001'', ''1''),
     (0, ''000'', ''0''),
     (- 1, ''0'', ''a''),
     (- 1, ''0'', ''1''),
     (- 1, ''0'', ''9''),
     (- 1, ''0'', ''99''),
     (- 1, ''9'', ''99''),
     (- 1, ''98'', ''99''),
     (0, ''asdfasdf'', ''asdfasdf''),
     (- 1, ''asdfasdf'', ''asdfasdfz''),
     (1, ''asdfasdfz'', ''asdfasdf''),
     (0, ''a1s2d3f4'', ''a1s2d3f4''),
     (0, ''a01s002d003f004'', ''a1s2d3f4''),
     (0, ''a1s2d3f4'', ''a01s002d003f004''),
     (0, ''kBuild-0.099.7'', ''kBuild-0.99.00007''),
     (1, ''kBuild-0.099.7'', ''kBuild-0.99.00007rc1''),
     (1, ''kBuild-0.099.7rc2'', ''kBuild-0.99.7beta3''),
     (- 1, ''kBuild-0.099.7alpha'', ''kBuild-0.99.7beta3''),
     (- 1, ''kBuild-0.099.7alpha'', ''kBuild-0.99.7beta3''),
     (- 1, ''kBuild-0.099.7alpha'', ''kBuild-0.99.7alpha1''),
     (0, ''kBuild-0.099.7ALPHA1'', ''kBuild-0.99.7alpha1''),
     (- 1, ''kBuild-0.099.7BETA1'', ''kBuild-0.99.7rC1''),
     (- 1, ''kBuild-0.099'', ''kBuild-0.99.0''),
     (1, ''kBuild-0.099'', ''kBuild-0.99~''),
     (1, ''1.2.3r4567890'', ''1.2.3rc1''),
     (1, ''1.2.3r4567890'', ''1.2.3RC1''),
     (- 1, ''/tools/win.amd64/vcc/v14.2/Tools'', ''/tools/win.amd64/vcc/v14.2.11.9/Tools''),
     (- 1, ''/tools/win.amd64/vcc/v14.2/Tools'', ''/tools/win.amd64/vcc/v14.211.9/Tools''),
     (- 1, ''/tools/win.amd64/vcc/v14.2/Tools'', ''/tools/win.amd64/vcc/v14.2r2/Tools''),
     (- 1, ''/tools/win.amd64/vcc/v14.2/Tools'', ''/tools/win.amd64/vcc/v14.2-r2/Tools'')]"

definition version_compare_main :: int where
  "version_compare_main =
     (let cErrors = length (filter (\<lambda>(rcExpect, psz1, psz2).
            version_compare psz1 psz2 \<noteq>
              (if rcExpect < 0 then - 1 else if rcExpect > 0 then 1 else 0)) s_aTests)
      in if cErrors = 0 then 0 else 1)"

text \<open>Every one of the test cases the source carries for itself passes.\<close>

theorem version_compare_tests: "version_compare_main = 0"
  by code_simp

end
