(* ===== verification/ExprOps.thy ===== *)
theory ExprOps
  imports ExprToken VersionCompare
begin

text \<open>
  The operators of the expression evaluator (\<open>expr_op_*\<close> of \<open>src/kmk/expreval.c\<close>). An operator
  works on the top of the operand stack; a binary operator leaves its result in the operand below
  the top and pops the top, on its error paths too. \<open>with_top\<close> and \<open>with_top2\<close> are the access to
  \<open>aVars[iVar]\<close> and \<open>aVars[iVar - 1]\<close>, which is outside the array when the stack is too short.
\<close>

section \<open>Access to the operand stack\<close>

definition with_top :: "EXPR \<Rightarrow> (EXPRVAR \<Rightarrow> (EXPRRET \<times> EXPRVAR) eres) \<Rightarrow> (EXPRRET \<times> EXPR) eres" where
  "with_top pThis f =
     (case aVars pThis of
        [] \<Rightarrow> Undef OutOfBounds
      | v # vs \<Rightarrow> obind (f v) (\<lambda>(rc, v). Ok (rc, pThis\<lparr>aVars := v # vs\<rparr>)))"

definition expr_pop_and_delete_var :: "EXPR \<Rightarrow> EXPR eres" where
  "expr_pop_and_delete_var pThis =
     (case aVars pThis of
        [] \<Rightarrow> Undef OutOfBounds
      | v # vs \<Rightarrow> (let deleted = expr_var_delete v in Ok (pThis\<lparr>aVars := vs\<rparr>)))"

text \<open>
  \<open>f pVar1 pVar2\<close> is the status and both variables as the body leaves them; the top is then popped
  and deleted.
\<close>

definition with_top2 ::
    "EXPR \<Rightarrow> (EXPRVAR \<Rightarrow> EXPRVAR \<Rightarrow> (EXPRRET \<times> EXPRVAR \<times> EXPRVAR) eres) \<Rightarrow> (EXPRRET \<times> EXPR) eres" where
  "with_top2 pThis f =
     (case aVars pThis of
        v2 # v1 # vs \<Rightarrow>
          obind (f v1 v2) (\<lambda>(rc, v1, v2).
          obind (expr_pop_and_delete_var (pThis\<lparr>aVars := v2 # v1 # vs\<rparr>)) (\<lambda>pThis. Ok (rc, pThis)))
      | _ \<Rightarrow> Undef OutOfBounds)"

section \<open>Unary operators\<close>

definition op_defined :: "expr_env \<Rightarrow> EXPR \<Rightarrow> (EXPRRET \<times> EXPR) eres" where
  "op_defined env pThis = with_top pThis (\<lambda>v.
     obind (expr_var_make_simple_string env v) (\<lambda>v.
     obind (var_psz v) (\<lambda>psz.
     Ok (kExprRet_Ok, expr_var_assign_bool v
       (case lookup_variable env psz of None \<Rightarrow> False | Some val \<Rightarrow> peek val \<noteq> NUL)))))"

definition op_exists :: "expr_env \<Rightarrow> EXPR \<Rightarrow> (EXPRRET \<times> EXPR) eres" where
  "op_exists env pThis = with_top pThis (\<lambda>v.
     obind (expr_var_make_simple_string env v) (\<lambda>v.
     obind (var_psz v) (\<lambda>psz.
     Ok (kExprRet_Ok, expr_var_assign_bool v (stat_succeeds env psz)))))"

text \<open>The first file with commands on the \<open>prev\<close> chain.\<close>

fun file_with_cmds :: "make_file option \<Rightarrow> make_file option" where
  "file_with_cmds None = None"
| "file_with_cmds (Some (MakeFile n t c p m)) =
     (if c then Some (MakeFile n t c p m) else file_with_cmds p)"

definition op_target :: "expr_env \<Rightarrow> EXPR \<Rightarrow> (EXPRRET \<times> EXPR) eres" where
  "op_target env pThis = with_top pThis (\<lambda>v.
     obind
       (if enmType v = kExprVar_String \<or> enmType v = kExprVar_QuotedString then
          obind (var_psz v) (\<lambda>psz.
          Ok (case lookup_file env psz of
                None \<Rightarrow> None
              | Some f \<Rightarrow> if need_2nd_target_expansion f then Some f else None))
        else Ok None) (\<lambda>pFile.
     obind
       (case pFile of
          None \<Rightarrow>
            obind (expr_var_make_simple_string env v) (\<lambda>v.
            obind (var_psz v) (\<lambda>psz. Ok (lookup_file env psz, v)))
        | Some f \<Rightarrow> Ok (Some f, v)) (\<lambda>(pFile, v).
     let pFile = (case pFile of
                    None \<Rightarrow> None
                  | Some f \<Rightarrow> (case multi_head f of None \<Rightarrow> Some f | Some h \<Rightarrow> Some h));
         pFile = file_with_cmds pFile
     in Ok (kExprRet_Ok, expr_var_assign_bool v
          (case pFile of None \<Rightarrow> False | Some f \<Rightarrow> is_target f)))))"

definition op_bool :: "expr_env \<Rightarrow> EXPR \<Rightarrow> (EXPRRET \<times> EXPR) eres" where
  "op_bool env pThis = with_top pThis (\<lambda>v.
     obind (expr_var_make_bool env v) (\<lambda>(i, v). Ok (kExprRet_Ok, v)))"

definition op_num :: "expr_env \<Rightarrow> EXPR \<Rightarrow> (EXPRRET \<times> EXPR) eres" where
  "op_num env pThis = with_top pThis (\<lambda>v.
     expr_var_make_num env
       (case v of QuotedSimpleString s \<Rightarrow> SimpleString s
                | QuotedString s \<Rightarrow> String s
                | _ \<Rightarrow> v))"

text \<open>The conversion of the \<open>size_t\<close> of \<open>strlen\<close> to \<open>EXPRINT64\<close>.\<close>

definition size_to_int64 :: "nat \<Rightarrow> int" where
  "size_to_int64 n = signed_take_bit 63 (int n)"

definition op_strlen :: "expr_env \<Rightarrow> EXPR \<Rightarrow> (EXPRRET \<times> EXPR) eres" where
  "op_strlen env pThis = with_top pThis (\<lambda>v.
     obind (expr_var_make_simple_string env v) (\<lambda>v.
     obind (var_psz v) (\<lambda>psz.
     Ok (kExprRet_Ok, expr_var_assign_num v (size_to_int64 (length psz))))))"

definition op_str :: "expr_env \<Rightarrow> EXPR \<Rightarrow> (EXPRRET \<times> EXPR) eres" where
  "op_str env pThis = with_top pThis (\<lambda>v.
     obind (expr_var_make_simple_string env v) (\<lambda>v.
     obind (var_psz v) (\<lambda>psz. Ok (kExprRet_Ok, QuotedSimpleString psz))))"

definition op_pluss :: "expr_env \<Rightarrow> EXPR \<Rightarrow> (EXPRRET \<times> EXPR) eres" where
  "op_pluss env pThis = with_top pThis (expr_var_make_num env)"

definition op_minus :: "expr_env \<Rightarrow> EXPR \<Rightarrow> (EXPRRET \<times> EXPR) eres" where
  "op_minus env pThis = with_top pThis (\<lambda>v.
     obind (expr_var_make_num env v) (\<lambda>(rc, v).
     if rc \<ge> kExprRet_Ok then
       obind (var_i v) (\<lambda>i. obind (mk64 (- i)) (\<lambda>i. Ok (rc, Num i)))
     else Ok (rc, v)))"

definition op_bitwise_not :: "expr_env \<Rightarrow> EXPR \<Rightarrow> (EXPRRET \<times> EXPR) eres" where
  "op_bitwise_not env pThis = with_top pThis (\<lambda>v.
     obind (expr_var_make_num env v) (\<lambda>(rc, v).
     if rc \<ge> kExprRet_Ok then obind (var_i v) (\<lambda>i. Ok (rc, Num (NOT i)))
     else Ok (rc, v)))"

definition op_logical_not :: "expr_env \<Rightarrow> EXPR \<Rightarrow> (EXPRRET \<times> EXPR) eres" where
  "op_logical_not env pThis = with_top pThis (\<lambda>v.
     obind (expr_var_make_bool env v) (\<lambda>(b, v).
     obind (var_i v) (\<lambda>i. Ok (kExprRet_Ok, Num (if i = 0 then 1 else 0)))))"

section \<open>Arithmetic\<close>

text \<open>
  The common body of the arithmetic operators, where \<open>f\<close> is the compound assignment to
  \<open>pVar1->uVal.i\<close>.
\<close>

definition arith_body ::
    "expr_env \<Rightarrow> (int \<Rightarrow> int \<Rightarrow> int eres) \<Rightarrow> EXPRVAR \<Rightarrow> EXPRVAR
      \<Rightarrow> (EXPRRET \<times> EXPRVAR \<times> EXPRVAR) eres" where
  "arith_body env f v1 v2 =
     obind (expr_var_make_num env v1) (\<lambda>(rc, v1).
     if rc \<ge> kExprRet_Ok then
       obind (expr_var_make_num env v2) (\<lambda>(rc, v2).
       if rc \<ge> kExprRet_Ok then
         obind (var_i v1) (\<lambda>i1. obind (var_i v2) (\<lambda>i2.
         obind (f i1 i2) (\<lambda>i. Ok (rc, Num i, v2))))
       else Ok (rc, v1, v2))
     else Ok (rc, v1, v2))"

text \<open>The operators of C on \<open>long long\<close>, with their undefined cases.\<close>

definition c_mul :: "int \<Rightarrow> int \<Rightarrow> int eres" where
  "c_mul a b = mk64 (a * b)"

definition c_div :: "int \<Rightarrow> int \<Rightarrow> int eres" where
  "c_div a b = (if b = 0 then Undef DivByZero else mk64 (a sdiv b))"

definition c_mod :: "int \<Rightarrow> int \<Rightarrow> int eres" where
  "c_mod a b =
     (if b = 0 then Undef DivByZero
      else obind (mk64 (a sdiv b)) (\<lambda>q. Ok (a smod b)))"

definition c_add :: "int \<Rightarrow> int \<Rightarrow> int eres" where
  "c_add a b = mk64 (a + b)"

definition c_sub :: "int \<Rightarrow> int \<Rightarrow> int eres" where
  "c_sub a b = mk64 (a - b)"

definition c_shl :: "int \<Rightarrow> int \<Rightarrow> int eres" where
  "c_shl a b =
     (if b < 0 \<or> b \<ge> 64 \<or> a < 0 then Undef ShiftRange else mk64 (push_bit (nat b) a))"

text \<open>Shifting a negative value right is the arithmetic shift of gcc and of Visual C++.\<close>

definition c_shr :: "int \<Rightarrow> int \<Rightarrow> int eres" where
  "c_shr a b = (if b < 0 \<or> b \<ge> 64 then Undef ShiftRange else Ok (drop_bit (nat b) a))"

definition op_multiply :: "expr_env \<Rightarrow> EXPR \<Rightarrow> (EXPRRET \<times> EXPR) eres" where
  "op_multiply env pThis = with_top2 pThis (arith_body env c_mul)"

definition op_divide :: "expr_env \<Rightarrow> EXPR \<Rightarrow> (EXPRRET \<times> EXPR) eres" where
  "op_divide env pThis = with_top2 pThis (arith_body env c_div)"

definition op_modulus :: "expr_env \<Rightarrow> EXPR \<Rightarrow> (EXPRRET \<times> EXPR) eres" where
  "op_modulus env pThis = with_top2 pThis (arith_body env c_mod)"

definition op_add :: "expr_env \<Rightarrow> EXPR \<Rightarrow> (EXPRRET \<times> EXPR) eres" where
  "op_add env pThis = with_top2 pThis (arith_body env c_add)"

definition op_sub :: "expr_env \<Rightarrow> EXPR \<Rightarrow> (EXPRRET \<times> EXPR) eres" where
  "op_sub env pThis = with_top2 pThis (arith_body env c_sub)"

definition op_shift_left :: "expr_env \<Rightarrow> EXPR \<Rightarrow> (EXPRRET \<times> EXPR) eres" where
  "op_shift_left env pThis = with_top2 pThis (arith_body env c_shl)"

definition op_shift_right :: "expr_env \<Rightarrow> EXPR \<Rightarrow> (EXPRRET \<times> EXPR) eres" where
  "op_shift_right env pThis = with_top2 pThis (arith_body env c_shr)"

text \<open>The bitwise operators return \<open>kExprRet_Ok\<close> whatever the conversions returned.\<close>

definition bitwise_body ::
    "expr_env \<Rightarrow> (int \<Rightarrow> int \<Rightarrow> int) \<Rightarrow> EXPRVAR \<Rightarrow> EXPRVAR
      \<Rightarrow> (EXPRRET \<times> EXPRVAR \<times> EXPRVAR) eres" where
  "bitwise_body env f v1 v2 =
     obind (arith_body env (\<lambda>a b. Ok (f a b)) v1 v2) (\<lambda>(rc, v1, v2). Ok (kExprRet_Ok, v1, v2))"

definition op_bitwise_and :: "expr_env \<Rightarrow> EXPR \<Rightarrow> (EXPRRET \<times> EXPR) eres" where
  "op_bitwise_and env pThis = with_top2 pThis (bitwise_body env (\<lambda>a b. a AND b))"

definition op_bitwise_xor :: "expr_env \<Rightarrow> EXPR \<Rightarrow> (EXPRRET \<times> EXPR) eres" where
  "op_bitwise_xor env pThis = with_top2 pThis (bitwise_body env (\<lambda>a b. a XOR b))"

definition op_bitwise_or :: "expr_env \<Rightarrow> EXPR \<Rightarrow> (EXPRRET \<times> EXPR) eres" where
  "op_bitwise_or env pThis = with_top2 pThis (bitwise_body env (\<lambda>a b. a OR b))"

section \<open>Comparison\<close>

text \<open>
  The common body of the ordering operators: the operands are unified, and numbers compared with
  \<open>fi\<close>, strings with \<open>fs\<close>.
\<close>

definition compare_body ::
    "expr_env \<Rightarrow> string \<Rightarrow> (int \<Rightarrow> int \<Rightarrow> bool) \<Rightarrow> (string \<Rightarrow> string \<Rightarrow> bool) \<Rightarrow> EXPRVAR \<Rightarrow> EXPRVAR
      \<Rightarrow> (EXPRRET \<times> EXPRVAR \<times> EXPRVAR) eres" where
  "compare_body env pszOp fi fs v1 v2 =
     obind (expr_var_unify_types env v1 v2 pszOp) (\<lambda>(rc, v1, v2).
     if rc \<ge> kExprRet_Ok then
       if \<not> expr_var_is_string v1 then
         obind (var_i v1) (\<lambda>i1. obind (var_i v2) (\<lambda>i2.
         Ok (rc, expr_var_assign_bool v1 (fi i1 i2), v2)))
       else
         obind (var_psz v1) (\<lambda>psz1. obind (var_psz v2) (\<lambda>psz2.
         Ok (rc, expr_var_assign_bool v1 (fs psz1 psz2), v2)))
     else Ok (rc, v1, v2))"

definition op_ver_less_or_equal_than :: "expr_env \<Rightarrow> EXPR \<Rightarrow> (EXPRRET \<times> EXPR) eres" where
  "op_ver_less_or_equal_than env pThis =
     with_top2 pThis (compare_body env ''vle'' (\<lambda>a b. a \<le> b) (\<lambda>s t. version_compare s t \<le> 0))"

definition op_less_or_equal_than :: "expr_env \<Rightarrow> EXPR \<Rightarrow> (EXPRRET \<times> EXPR) eres" where
  "op_less_or_equal_than env pThis =
     with_top2 pThis (compare_body env ''<='' (\<lambda>a b. a \<le> b) (\<lambda>s t. strcmp s t \<le> 0))"

definition op_ver_less_than :: "expr_env \<Rightarrow> EXPR \<Rightarrow> (EXPRRET \<times> EXPR) eres" where
  "op_ver_less_than env pThis =
     with_top2 pThis (compare_body env ''vlt'' (\<lambda>a b. a < b) (\<lambda>s t. version_compare s t < 0))"

definition op_less_than :: "expr_env \<Rightarrow> EXPR \<Rightarrow> (EXPRRET \<times> EXPR) eres" where
  "op_less_than env pThis =
     with_top2 pThis (compare_body env ''<'' (\<lambda>a b. a < b) (\<lambda>s t. strcmp s t < 0))"

definition op_ver_greater_or_equal_than :: "expr_env \<Rightarrow> EXPR \<Rightarrow> (EXPRRET \<times> EXPR) eres" where
  "op_ver_greater_or_equal_than env pThis =
     with_top2 pThis (compare_body env ''vge'' (\<lambda>a b. a \<ge> b) (\<lambda>s t. version_compare s t \<ge> 0))"

definition op_greater_or_equal_than :: "expr_env \<Rightarrow> EXPR \<Rightarrow> (EXPRRET \<times> EXPR) eres" where
  "op_greater_or_equal_than env pThis =
     with_top2 pThis (compare_body env ''>='' (\<lambda>a b. a \<ge> b) (\<lambda>s t. strcmp s t \<ge> 0))"

definition op_ver_greater_than :: "expr_env \<Rightarrow> EXPR \<Rightarrow> (EXPRRET \<times> EXPR) eres" where
  "op_ver_greater_than env pThis =
     with_top2 pThis (compare_body env ''vgt'' (\<lambda>a b. a > b) (\<lambda>s t. version_compare s t > 0))"

definition op_greater_than :: "expr_env \<Rightarrow> EXPR \<Rightarrow> (EXPRRET \<times> EXPR) eres" where
  "op_greater_than env pThis =
     with_top2 pThis (compare_body env ''>'' (\<lambda>a b. a > b) (\<lambda>s t. strcmp s t > 0))"

text \<open>
  \<open>expr_var_try_make_num(pVar1) >= kExprRet_Ok && expr_var_try_make_num(pVar2) >= kExprRet_Ok\<close>:
  the second conversion only happens if the first succeeds.
\<close>

definition try_make_nums ::
    "expr_env \<Rightarrow> EXPRVAR \<Rightarrow> EXPRVAR \<Rightarrow> (bool \<times> EXPRVAR \<times> EXPRVAR) eres" where
  "try_make_nums env v1 v2 =
     obind (expr_var_try_make_num env v1) (\<lambda>(rc1, v1).
     if rc1 \<ge> kExprRet_Ok then
       obind (expr_var_try_make_num env v2) (\<lambda>(rc2, v2). Ok (rc2 \<ge> kExprRet_Ok, v1, v2))
     else Ok (False, v1, v2))"

definition ver_equal_body ::
    "expr_env \<Rightarrow> EXPRVAR \<Rightarrow> EXPRVAR \<Rightarrow> (EXPRRET \<times> EXPRVAR \<times> EXPRVAR) eres" where
  "ver_equal_body env v1 v2 =
     (if expr_var_is_string v1 = expr_var_is_string v2 then
        if \<not> expr_var_is_string v1 then
          obind (var_i v1) (\<lambda>i1. obind (var_i v2) (\<lambda>i2.
          Ok (kExprRet_Ok, expr_var_assign_bool v1 (i1 = i2), v2)))
        else
          obind (expr_var_make_simple_string env v1) (\<lambda>v1.
          obind (expr_var_make_simple_string env v2) (\<lambda>v2.
          obind (var_psz v1) (\<lambda>psz1. obind (var_psz v2) (\<lambda>psz2.
          if version_compare psz1 psz2 = 0 then Ok (kExprRet_Ok, expr_var_assign_bool v1 True, v2)
          else obind (try_make_nums env v1 v2) (\<lambda>(are_nums, v1, v2).
            if are_nums then
              obind (var_i v1) (\<lambda>i1. obind (var_i v2) (\<lambda>i2.
              Ok (kExprRet_Ok, expr_var_assign_bool v1 (i1 = i2), v2)))
            else Ok (kExprRet_Ok, expr_var_assign_bool v1 False, v2))))))
      else obind (try_make_nums env v1 v2) (\<lambda>(are_nums, v1, v2).
        if are_nums then
          obind (var_i v1) (\<lambda>i1. obind (var_i v2) (\<lambda>i2.
          Ok (kExprRet_Ok, expr_var_assign_bool v1 (i1 = i2), v2)))
        else obind (expr_var_make_simple_string env v1) (\<lambda>v1.
          obind (expr_var_make_simple_string env v2) (\<lambda>v2.
          obind (var_psz v1) (\<lambda>psz1. obind (var_psz v2) (\<lambda>psz2.
          Ok (kExprRet_Ok, expr_var_assign_bool v1 (version_compare psz1 psz2 = 0), v2)))))))"

definition op_ver_equal :: "expr_env \<Rightarrow> EXPR \<Rightarrow> (EXPRRET \<times> EXPR) eres" where
  "op_ver_equal env pThis = with_top2 pThis (ver_equal_body env)"

definition op_ver_not_equal :: "expr_env \<Rightarrow> EXPR \<Rightarrow> (EXPRRET \<times> EXPR) eres" where
  "op_ver_not_equal env pThis =
     obind (op_ver_equal env pThis) (\<lambda>(rc, pThis).
     if rc \<ge> kExprRet_Ok then op_logical_not env pThis else Ok (rc, pThis))"

definition equal_body ::
    "expr_env \<Rightarrow> EXPRVAR \<Rightarrow> EXPRVAR \<Rightarrow> (EXPRRET \<times> EXPRVAR \<times> EXPRVAR) eres" where
  "equal_body env v1 v2 =
     (if expr_var_is_string v1 = expr_var_is_string v2 then
        if \<not> expr_var_is_string v1 then
          obind (var_i v1) (\<lambda>i1. obind (var_i v2) (\<lambda>i2.
          Ok (kExprRet_Ok, expr_var_assign_bool v1 (i1 = i2), v2)))
        else
          obind (expr_var_make_simple_string env v1) (\<lambda>v1.
          obind (expr_var_make_simple_string env v2) (\<lambda>v2.
          obind (var_psz v1) (\<lambda>psz1. obind (var_psz v2) (\<lambda>psz2.
          if strcmp psz1 psz2 = 0 then Ok (kExprRet_Ok, expr_var_assign_bool v1 True, v2)
          else obind (try_make_nums env v1 v2) (\<lambda>(are_nums, v1, v2).
            if are_nums then
              obind (var_i v1) (\<lambda>i1. obind (var_i v2) (\<lambda>i2.
              Ok (kExprRet_Ok, expr_var_assign_bool v1 (i1 = i2), v2)))
            else Ok (kExprRet_Ok, expr_var_assign_bool v1 False, v2))))))
      else obind (try_make_nums env v1 v2) (\<lambda>(are_nums, v1, v2).
        if are_nums then
          obind (var_i v1) (\<lambda>i1. obind (var_i v2) (\<lambda>i2.
          Ok (kExprRet_Ok, expr_var_assign_bool v1 (i1 = i2), v2)))
        else Fatal StringsAndNumbers))"

definition op_equal :: "expr_env \<Rightarrow> EXPR \<Rightarrow> (EXPRRET \<times> EXPR) eres" where
  "op_equal env pThis = with_top2 pThis (equal_body env)"

definition op_not_equal :: "expr_env \<Rightarrow> EXPR \<Rightarrow> (EXPRRET \<times> EXPR) eres" where
  "op_not_equal env pThis =
     obind (op_equal env pThis) (\<lambda>(rc, pThis).
     if rc \<ge> kExprRet_Ok then op_logical_not env pThis else Ok (rc, pThis))"

section \<open>Logical operators\<close>

definition logical_and_body ::
    "expr_env \<Rightarrow> EXPRVAR \<Rightarrow> EXPRVAR \<Rightarrow> (EXPRRET \<times> EXPRVAR \<times> EXPRVAR) eres" where
  "logical_and_body env v1 v2 =
     obind (expr_var_make_bool env v1) (\<lambda>(b1, v1).
     if b1 \<noteq> 0 then
       obind (expr_var_make_bool env v2) (\<lambda>(b2, v2).
       Ok (kExprRet_Ok, expr_var_assign_bool v1 (b2 \<noteq> 0), v2))
     else Ok (kExprRet_Ok, expr_var_assign_bool v1 False, v2))"

definition logical_or_body ::
    "expr_env \<Rightarrow> EXPRVAR \<Rightarrow> EXPRVAR \<Rightarrow> (EXPRRET \<times> EXPRVAR \<times> EXPRVAR) eres" where
  "logical_or_body env v1 v2 =
     obind (expr_var_make_bool env v1) (\<lambda>(b1, v1).
     if b1 \<noteq> 0 then Ok (kExprRet_Ok, expr_var_assign_bool v1 True, v2)
     else
       obind (expr_var_make_bool env v2) (\<lambda>(b2, v2).
       Ok (kExprRet_Ok, expr_var_assign_bool v1 (b2 \<noteq> 0), v2)))"

definition op_logical_and :: "expr_env \<Rightarrow> EXPR \<Rightarrow> (EXPRRET \<times> EXPR) eres" where
  "op_logical_and env pThis = with_top2 pThis (logical_and_body env)"

definition op_logical_or :: "expr_env \<Rightarrow> EXPR \<Rightarrow> (EXPRRET \<times> EXPR) eres" where
  "op_logical_or env pThis = with_top2 pThis (logical_or_body env)"

section \<open>Parentheses\<close>

definition op_left_parenthesis_fn :: "EXPR \<Rightarrow> (EXPRRET \<times> EXPR) eres" where
  "op_left_parenthesis_fn pThis =
     obind (expr_get_binary_or_eoe_or_rparen pThis) (\<lambda>(rc, pThis).
     if rc = kExprRet_Operator \<and> (case apOps pThis of [] \<Rightarrow> False | op # ops \<Rightarrow> peek (szOp op) = CHR '')'')
     then
       obind (expr_get_binary_or_eoe_or_rparen (pThis\<lparr>apOps := tl (apOps pThis)\<rparr>)) (\<lambda>(rc, pThis).
       if rc \<ge> kExprRet_Ok then obind (expr_unget_op pThis) (\<lambda>pThis. Ok (rc, pThis))
       else Ok (rc, pThis))
     else Fatal MissingParenthesis)"

definition op_right_parenthesis_fn :: "EXPR \<Rightarrow> (EXPRRET \<times> EXPR) eres" where
  "op_right_parenthesis_fn pThis = Undef AssertFailed"

section \<open>The call through the operator table\<close>

fun expr_call :: "expr_env \<Rightarrow> expr_pfn \<Rightarrow> EXPR \<Rightarrow> (EXPRRET \<times> EXPR) eres" where
  "expr_call env expr_op_defined pThis = op_defined env pThis"
| "expr_call env expr_op_exists pThis = op_exists env pThis"
| "expr_call env expr_op_target pThis = op_target env pThis"
| "expr_call env expr_op_bool pThis = op_bool env pThis"
| "expr_call env expr_op_num pThis = op_num env pThis"
| "expr_call env expr_op_strlen pThis = op_strlen env pThis"
| "expr_call env expr_op_str pThis = op_str env pThis"
| "expr_call env expr_op_pluss pThis = op_pluss env pThis"
| "expr_call env expr_op_minus pThis = op_minus env pThis"
| "expr_call env expr_op_bitwise_not pThis = op_bitwise_not env pThis"
| "expr_call env expr_op_multiply pThis = op_multiply env pThis"
| "expr_call env expr_op_divide pThis = op_divide env pThis"
| "expr_call env expr_op_modulus pThis = op_modulus env pThis"
| "expr_call env expr_op_add pThis = op_add env pThis"
| "expr_call env expr_op_sub pThis = op_sub env pThis"
| "expr_call env expr_op_shift_left pThis = op_shift_left env pThis"
| "expr_call env expr_op_shift_right pThis = op_shift_right env pThis"
| "expr_call env expr_op_less_or_equal_than pThis = op_less_or_equal_than env pThis"
| "expr_call env expr_op_less_than pThis = op_less_than env pThis"
| "expr_call env expr_op_greater_or_equal_than pThis = op_greater_or_equal_than env pThis"
| "expr_call env expr_op_greater_than pThis = op_greater_than env pThis"
| "expr_call env expr_op_ver_less_or_equal_than pThis = op_ver_less_or_equal_than env pThis"
| "expr_call env expr_op_ver_less_than pThis = op_ver_less_than env pThis"
| "expr_call env expr_op_ver_greater_or_equal_than pThis = op_ver_greater_or_equal_than env pThis"
| "expr_call env expr_op_ver_greater_than pThis = op_ver_greater_than env pThis"
| "expr_call env expr_op_equal pThis = op_equal env pThis"
| "expr_call env expr_op_ver_equal pThis = op_ver_equal env pThis"
| "expr_call env expr_op_not_equal pThis = op_not_equal env pThis"
| "expr_call env expr_op_ver_not_equal pThis = op_ver_not_equal env pThis"
| "expr_call env expr_op_logical_not pThis = op_logical_not env pThis"
| "expr_call env expr_op_bitwise_xor pThis = op_bitwise_xor env pThis"
| "expr_call env expr_op_logical_and pThis = op_logical_and env pThis"
| "expr_call env expr_op_bitwise_and pThis = op_bitwise_and env pThis"
| "expr_call env expr_op_logical_or pThis = op_logical_or env pThis"
| "expr_call env expr_op_bitwise_or pThis = op_bitwise_or env pThis"
| "expr_call env expr_op_left_parenthesis pThis = op_left_parenthesis_fn pThis"
| "expr_call env expr_op_right_parenthesis pThis = op_right_parenthesis_fn pThis"

end
