(* ===== verification/ExprEval.thy ===== *)
theory ExprEval
  imports ExprOps
begin

text \<open>
  The evaluation loop of \<open>src/kmk/expreval.c\<close> and its entry points, with the lemmas on how far
  each step reads that make the loops terminate.

  \<open>eat_unary\<close> is the inner \<open>do\<close> loop of the C function \<open>expr_eval\<close>, \<open>reduce_ops\<close> its inner \<open>while\<close> loop,
  and \<open>expr_eval\<close> the outer one.
\<close>

section \<open>What the token functions consume\<close>

lemma lookup_from_in_table: "lookup_from ops p u f = Some op \<Longrightarrow> op \<in> set ops"
  by (induction ops) (auto split: if_splits)

lemma expr_lookup_op_in_table: "expr_lookup_op p u f = Ok (Some op) \<Longrightarrow> op \<in> set g_aExprOps"
  by (auto simp: expr_lookup_op_def split: if_splits dest!: lookup_from_in_table in_set_dropD)

lemma cchOp_pos: "op \<in> set g_aExprOps \<Longrightarrow> 0 < cchOp op"
  by (auto simp: g_aExprOps_def EXPR_OP_def op_left_parenthesis_def op_right_parenthesis_def)

lemma skip_spaces_length: "length (skip_spaces p) \<le> length p"
  by (simp add: skip_spaces_def length_dropWhile_le)

lemma peek_skip_spaces: "skip_spaces p \<noteq> [] \<Longrightarrow> expr_map_get (peek (skip_spaces p)) AND 3 \<noteq> 2"
  by (induction p) (auto simp: skip_spaces_def)

lemma scan_operand_step:
  assumes "scan_operand acc pars (ch # p) = Ok (s, p')"
  shows "p' = ch # p \<or>
    (\<exists>acc' pars' q. length q \<le> length p \<and> scan_operand acc' pars' q = Ok (s, p'))"
proof -
  have "length (tl p) \<le> length p" by simp
  with assms show ?thesis
    by (subst (asm) scan_operand.simps(2)) (auto simp: obind_eq_Ok split: if_splits)
qed

lemma scan_operand_length:
  "scan_operand acc pars p = Ok (s, p') \<Longrightarrow> length p' \<le> length p"
proof (induction p arbitrary: acc pars rule: length_induct)
  case (1 p)
  show ?case
  proof (cases p)
    case (Cons ch q)
    have "length p' \<le> length r" if "length r \<le> length q" "scan_operand acc' pars' r = Ok (s, p')"
      for acc' pars' r
      using that 1(1) Cons by (auto simp: less_Suc_eq_le)
    then have smaller: "length p' \<le> length q" if "length r \<le> length q"
        "scan_operand acc' pars' r = Ok (s, p')" for acc' pars' r
      using that order.trans by blast
    from scan_operand_step [of acc pars ch q s p'] 1(2) Cons
    consider "p' = p" | acc' pars' r where "length r \<le> length q"
        "scan_operand acc' pars' r = Ok (s, p')" by blast
    then show ?thesis by cases (use smaller Cons in \<open>auto intro: le_SucI\<close>)
  qed (use 1 in \<open>simp add: scan_operand.simps\<close>)
qed

lemma get_operand_length:
  assumes "get_operand p = Ok (v, p')" and "p \<noteq> []" and "expr_map_get (peek p) AND 3 \<noteq> 2"
  shows "length p' < length p"
proof -
  obtain ch q where p: "p = ch # q" using assms(2) by (cases p) auto
  have quoted: "length (snd (quoted_operand c q)) < length p" for c
    using length_dropWhile_le [of "\<lambda>ch. ch \<noteq> c" q] by (simp add: p quoted_operand_def)
  have "length p' < length p" if scan: "scan_operand [] [] (ch # q) = Ok (s, p')" for s
    using scan assms(3) unfolding p
    by (subst (asm) scan_operand.simps(2))
      (auto simp: operand_ends_def Let_def split: if_splits dest!: scan_operand_length)
  with quoted assms(1) show ?thesis
    by (auto simp: get_operand_def p split: if_splits)
qed

lemma next_binary_cases:
  assumes "next_binary pThis = Ok (op, pThis')"
  obtains (eoe) "skip_spaces (psz pThis) = []" and "op = g_ExprEndOfExpOp"
      and "pThis' = pThis\<lparr>psz := []\<rparr>"
  | (op) p where "p = skip_spaces (psz pThis)" and "p \<noteq> []"
      and "expr_lookup_op p (expr_map_get (peek p)) False = Ok (Some op)"
      and "pThis' = pThis\<lparr>psz := drop (cchOp op) p\<rparr>"
proof (cases "skip_spaces (psz pThis) = []")
  case True
  with assms show ?thesis by (intro eoe) (auto simp: next_binary_def)
next
  case False
  with assms show ?thesis
    by (intro op) (auto simp: next_binary_def Let_def obind_eq_Ok split: if_splits option.splits)
qed

lemma get_binary_cases:
  assumes "expr_get_binary_or_eoe_or_rparen pThis = Ok (rc, pThis')"
  obtains (op) op q where
    "pPending pThis = Some op \<and> q = pThis\<lparr>pPending := None\<rparr>
      \<or> pPending pThis = None \<and> next_binary pThis = Ok (op, q)"
    and "length (apOps q) < EXPR_MAX_OPERATORS"
    and "pThis' = q\<lparr>apOps := op # apOps q\<rparr>"
    and "rc = (if iPrecedence op \<noteq> 0 then kExprRet_Operator else kExprRet_EndOfExpr)"
proof -
  from assms obtain op q where 1: "(case pPending pThis of
        Some op \<Rightarrow> Ok (op, pThis\<lparr>pPending := None\<rparr>) | None \<Rightarrow> next_binary pThis) = Ok (op, q)"
    and 2: "length (apOps q) < EXPR_MAX_OPERATORS" "pThis' = q\<lparr>apOps := op # apOps q\<rparr>"
      "rc = (if iPrecedence op \<noteq> 0 then kExprRet_Operator else kExprRet_EndOfExpr)"
    unfolding expr_get_binary_or_eoe_or_rparen_def
    by (elim obind_OkE) (auto simp: push_op_def obind_eq_Ok split: if_splits)
  from 1 show ?thesis
    by (intro op [OF _ 2]) (auto split: option.splits)
qed

lemma get_unary_or_operand_cases:
  assumes "expr_get_unary_or_operand pThis = Ok (rc, pThis')"
  obtains (op) p op where "p = skip_spaces (psz pThis)" and "p \<noteq> []"
      and "expr_lookup_op p (expr_map_get (peek p)) True = Ok (Some op)"
      and "length (aVars pThis) < EXPR_MAX_OPERANDS"
      and "length (apOps pThis) < EXPR_MAX_OPERATORS"
      and "rc = kExprRet_Operator"
      and "pThis' = pThis\<lparr>apOps := op # apOps pThis, psz := drop (cchOp op) p\<rparr>"
  | (operand) p v p' where "p = skip_spaces (psz pThis)" and "p \<noteq> []"
      and "get_operand p = Ok (v, p')"
      and "length (aVars pThis) < EXPR_MAX_OPERANDS"
      and "rc = kExprRet_Ok"
      and "pThis' = pThis\<lparr>aVars := v # aVars pThis, psz := p'\<rparr>"
proof -
  define p where "p = skip_spaces (psz pThis)"
  from assms have "p \<noteq> []" by (auto simp: expr_get_unary_or_operand_def p_def)
  with assms obtain pOp where
    1: "(if expr_map_get (peek p) AND 1 \<noteq> 0
         then expr_lookup_op p (expr_map_get (peek p)) True else Ok None) = Ok pOp"
    and 2: "(case pOp of
        Some op \<Rightarrow>
          if length (aVars pThis) < EXPR_MAX_OPERANDS then
            obind (push_op op pThis) (\<lambda>pThis.
            Ok (kExprRet_Operator, pThis\<lparr>psz := drop (cchOp op) p\<rparr>))
          else Fatal OperatorStackOverflow
      | None \<Rightarrow>
          if length (aVars pThis) < EXPR_MAX_OPERANDS then
            obind (get_operand p) (\<lambda>(v, p').
            obind (push_var v pThis) (\<lambda>pThis.
            Ok (kExprRet_Ok, pThis\<lparr>psz := p'\<rparr>)))
          else Fatal OperandStackOverflow) = Ok (rc, pThis')"
    unfolding expr_get_unary_or_operand_def p_def [symmetric] by (auto simp: Let_def elim: obind_OkE)
  show ?thesis
  proof (cases pOp)
    case None
    with 2 \<open>p \<noteq> []\<close> show ?thesis
      by (auto simp: obind_eq_Ok push_var_def intro: operand [OF p_def] split: if_splits)
  next
    case (Some op)
    with 1 2 \<open>p \<noteq> []\<close> show ?thesis
      by (auto simp: obind_eq_Ok push_op_def intro: op [OF p_def] split: if_splits)
  qed
qed

lemma next_binary_same:
  assumes "next_binary pThis = Ok (op, pThis')"
  shows "length (psz pThis') \<le> length (psz pThis)" and "apOps pThis' = apOps pThis"
    and "aVars pThis' = aVars pThis" and "pPending pThis' = pPending pThis"
  using assms skip_spaces_length [of "psz pThis"] by (auto elim!: next_binary_cases)

lemma get_binary_Ok:
  assumes "expr_get_binary_or_eoe_or_rparen pThis = Ok (rc, pThis')"
  shows "length (psz pThis') \<le> length (psz pThis)"
    and "length (apOps pThis') = Suc (length (apOps pThis))"
    and "aVars pThis' = aVars pThis"
  using assms by (auto elim!: get_binary_cases simp: next_binary_same)

lemma get_unary_or_operand_length:
  assumes "expr_get_unary_or_operand pThis = Ok (rc, pThis')"
  shows "length (psz pThis') < length (psz pThis)"
  using assms
proof (cases rule: get_unary_or_operand_cases)
  case (op p op)
  then have "0 < cchOp op" by (intro cchOp_pos expr_lookup_op_in_table)
  moreover have "0 < length p" and "length p \<le> length (psz pThis)"
    using op skip_spaces_length [of "psz pThis"] by auto
  ultimately have "length p - cchOp op < length (psz pThis)" by linarith
  with op show ?thesis by simp
next
  case (operand p v p')
  then have "length p' < length p" by (auto intro: get_operand_length simp: peek_skip_spaces)
  with operand skip_spaces_length [of "psz pThis"] show ?thesis by simp
qed

section \<open>What the operators leave alone\<close>

text \<open>The parts of an evaluator an operator other than a parenthesis does not touch.\<close>

definition same_tokens :: "EXPR \<Rightarrow> EXPR \<Rightarrow> bool" where
  "same_tokens a b \<longleftrightarrow> psz a = psz b \<and> apOps a = apOps b \<and> pPending a = pPending b"

lemma with_top_same_tokens: "with_top pThis f = Ok (rc, pThis') \<Longrightarrow> same_tokens pThis' pThis"
  by (auto simp: with_top_def same_tokens_def split: list.splits)

lemma with_top2_same_tokens: "with_top2 pThis f = Ok (rc, pThis') \<Longrightarrow> same_tokens pThis' pThis"
  by (auto simp: with_top2_def expr_pop_and_delete_var_def same_tokens_def split: list.splits)

lemma same_tokens_trans: "same_tokens a b \<Longrightarrow> same_tokens b c \<Longrightarrow> same_tokens a c"
  by (simp add: same_tokens_def)

lemmas unary_op_defs = op_defined_def op_exists_def op_target_def op_bool_def op_num_def
  op_strlen_def op_str_def op_pluss_def op_minus_def op_bitwise_not_def op_logical_not_def

lemmas binary_op_defs = op_multiply_def op_divide_def op_modulus_def op_add_def op_sub_def
  op_shift_left_def op_shift_right_def op_bitwise_and_def op_bitwise_xor_def op_bitwise_or_def
  op_less_or_equal_than_def op_less_than_def op_greater_or_equal_than_def op_greater_than_def
  op_ver_less_or_equal_than_def op_ver_less_than_def op_ver_greater_or_equal_than_def
  op_ver_greater_than_def op_equal_def op_ver_equal_def op_logical_and_def op_logical_or_def

lemma expr_call_same_tokens:
  assumes "expr_call env f pThis = Ok (rc, pThis')" and "f \<noteq> expr_op_left_parenthesis"
  shows "same_tokens pThis' pThis"
  using assms
  by (cases f)
    (auto simp: unary_op_defs binary_op_defs op_not_equal_def op_ver_not_equal_def
      op_right_parenthesis_fn_def obind_eq_Ok
      dest!: with_top_same_tokens with_top2_same_tokens intro: same_tokens_trans split: if_splits)

lemma unget_Ok:
  assumes "expr_unget_op pThis = Ok pThis'"
  shows "psz pThis' = psz pThis" and "length (apOps pThis) = Suc (length (apOps pThis'))"
    and "pPending pThis' \<noteq> None"
  using assms by (auto simp: expr_unget_op_def split: if_splits list.splits)

lemma expr_call_length:
  assumes "expr_call env f pThis = Ok (rc, pThis')"
  shows "length (psz pThis') \<le> length (psz pThis)" and "length (apOps pThis') \<le> Suc (length (apOps pThis))"
    and "rc \<ge> kExprRet_Ok \<Longrightarrow> length (apOps pThis') \<le> length (apOps pThis)"
proof -
  have "length (psz pThis') \<le> length (psz pThis) \<and> length (apOps pThis') \<le> Suc (length (apOps pThis)) \<and>
    (rc \<ge> kExprRet_Ok \<longrightarrow> length (apOps pThis') \<le> length (apOps pThis))"
  proof (cases "f = expr_op_left_parenthesis")
    case False
    with expr_call_same_tokens [OF assms] show ?thesis by (simp add: same_tokens_def)
  next
    case True
    with assms obtain rc1 p1 p2 where p1: "expr_get_binary_or_eoe_or_rparen pThis = Ok (rc1, p1)"
      and p2: "expr_get_binary_or_eoe_or_rparen (p1\<lparr>apOps := tl (apOps p1)\<rparr>) = Ok (rc, p2)"
      and p3: "if rc \<ge> kExprRet_Ok then expr_unget_op p2 = Ok pThis' else pThis' = p2"
      by (auto simp: op_left_parenthesis_fn_def obind_eq_Ok split: if_splits)
    from p3 get_binary_Ok [OF p1] get_binary_Ok [OF p2] show ?thesis
      by (auto split: if_splits dest: unget_Ok)
  qed
  then show "length (psz pThis') \<le> length (psz pThis)"
    and "length (apOps pThis') \<le> Suc (length (apOps pThis))"
    and "rc \<ge> kExprRet_Ok \<Longrightarrow> length (apOps pThis') \<le> length (apOps pThis)" by simp_all
qed

section \<open>The loops\<close>

function eat_unary :: "EXPR \<Rightarrow> (EXPRRET \<times> EXPR) eres" where
  "eat_unary pThis =
     obind (expr_get_unary_or_operand pThis) (\<lambda>(rc, pThis).
     if rc = kExprRet_Operator then eat_unary pThis else Ok (rc, pThis))"
  by pat_completeness auto

termination
  by (relation "measure (\<lambda>pThis. length (psz pThis))") (auto dest: get_unary_or_operand_length)

declare eat_unary.simps [simp del]

text \<open>
  \<open>rc\<close> is the status the variable of that name has when the loop is entered; the source reads
  \<open>pPending->iPrecedence\<close> and calls \<open>pOp->pfn\<close> without a test for null.
\<close>

function reduce_ops :: "expr_env \<Rightarrow> EXPRRET \<Rightarrow> EXPR \<Rightarrow> (EXPRRET \<times> EXPR) eres" where
  "reduce_ops env rc pThis =
     (case apOps pThis of
        [] \<Rightarrow> Ok (rc, pThis)
      | pOp # ops \<Rightarrow>
         (case pPending pThis of
            None \<Rightarrow> Undef NullDeref
          | Some pend \<Rightarrow>
              if iPrecedence pOp \<ge> iPrecedence pend then
                if length (aVars pThis) \<ge> cArgs pOp then
                  (case pfn pOp of
                     None \<Rightarrow> Undef NullDeref
                   | Some f \<Rightarrow>
                       obind (expr_call env f (pThis\<lparr>apOps := ops\<rparr>)) (\<lambda>(rc, pThis).
                       if rc < kExprRet_Ok then Ok (rc, pThis) else reduce_ops env rc pThis))
                else Undef AssertFailed
              else Ok (rc, pThis)))"
  by pat_completeness auto

termination
proof (relation "measure (\<lambda>(env, rc, pThis). length (apOps pThis))", goal_cases)
  case (2 env rc pThis pOp ops pend f x rc' pThis')
  then show ?case using expr_call_length(3) [of env f "pThis\<lparr>apOps := ops\<rparr>" rc' pThis'] by auto
qed simp

declare reduce_ops.simps [simp del]

lemma eat_unary_length:
  "eat_unary pThis = Ok (rc, pThis') \<Longrightarrow> length (psz pThis') < length (psz pThis)"
proof (induction pThis rule: eat_unary.induct)
  case (1 pThis)
  from "1.prems" obtain rc1 p1 where p1: "expr_get_unary_or_operand pThis = Ok (rc1, p1)"
    and p2: "if rc1 = kExprRet_Operator then eat_unary p1 = Ok (rc, pThis') else pThis' = p1"
    by (subst (asm) eat_unary.simps) (auto simp: obind_eq_Ok split: if_splits)
  with "1.IH" [OF p1 refl] get_unary_or_operand_length [OF p1] show ?case
    by (auto split: if_splits)
qed

lemma reduce_ops_length:
  "reduce_ops env rc pThis = Ok (rc', pThis') \<Longrightarrow> length (psz pThis') \<le> length (psz pThis)"
proof (induction env rc pThis rule: reduce_ops.induct)
  case (1 env rc pThis)
  from "1.prems" consider (stop) "pThis' = pThis"
    | (call) pOp ops pend f rc1 p1 where "apOps pThis = pOp # ops" "pPending pThis = Some pend"
      "iPrecedence pOp \<ge> iPrecedence pend" "length (aVars pThis) \<ge> cArgs pOp" "pfn pOp = Some f"
      "expr_call env f (pThis\<lparr>apOps := ops\<rparr>) = Ok (rc1, p1)"
      "if rc1 < kExprRet_Ok then pThis' = p1 else reduce_ops env rc1 p1 = Ok (rc', pThis')"
    by (subst (asm) reduce_ops.simps)
      (auto simp: obind_eq_Ok split: list.splits option.splits if_splits)
  then show ?case
  proof cases
    case call
    with expr_call_length(1) [OF call(6)] "1.IH" [OF call(1-6) refl] show ?thesis
      by (auto split: if_splits)
  qed simp
qed

function expr_eval :: "expr_env \<Rightarrow> EXPR \<Rightarrow> (EXPRRET \<times> EXPR) eres" where
  "expr_eval env pThis =
     obind (eat_unary pThis) (\<lambda>(rc, pThis).
     if rc < kExprRet_Ok then Ok (rc, pThis) else
     obind (expr_get_binary_or_eoe_or_rparen pThis) (\<lambda>(rc, pThis).
     if rc < kExprRet_Ok then Ok (rc, pThis) else
     obind (expr_unget_op pThis) (\<lambda>pThis.
     obind (reduce_ops env rc pThis) (\<lambda>(rc, pThis).
     if rc < kExprRet_Ok then Ok (rc, pThis) else
     obind (expr_get_binary_or_eoe_or_rparen pThis) (\<lambda>(rc, pThis).
     if rc < kExprRet_Ok then Ok (rc, pThis) else
     case apOps pThis of
       [] \<Rightarrow> Undef OutOfBounds
     | pOp # ops \<Rightarrow>
         if iPrecedence pOp = 0 then Ok (rc, pThis)
         else if cArgs pOp = 0 then Fatal (UnexpectedOperator (szOp pOp))
         else expr_eval env pThis)))))"
  by pat_completeness auto

termination
proof (relation "measure (\<lambda>(env, pThis). length (psz pThis))", goal_cases)
  case (2 env p0 x1 rc1 p1 x2 rc2 p2 p3 x4 rc4 p4 x5 rc5 p5 pOp ops)
  then show ?case
    using eat_unary_length [of p0 rc1 p1] get_binary_Ok(1) [of p1 rc2 p2] unget_Ok(1) [of p2 p3]
      reduce_ops_length [of env rc2 p3 rc4 p4] get_binary_Ok(1) [of p4 rc5 p5] by simp
qed simp

declare expr_eval.simps [simp del]

section \<open>Creating, evaluating and destroying an evaluator\<close>

definition expr_create :: "string \<Rightarrow> EXPR eres" where
  "expr_create e =
     obind expr_map_init (\<lambda>m.
     Ok \<lparr>pszExpr = e, psz = e, pPending = None, apOps = [], aVars = []\<rparr>)"

text \<open>
  \<open>expr_destroy\<close> runs \<open>expr_var_delete(pThis->aVars)\<close> once per operand, which is the first element
  every time; \<open>arr\<close> is the array in the order of the source. The result is the array at the time
  the instance is freed: a string still in it is leaked.
\<close>

fun destroy_loop :: "nat \<Rightarrow> EXPRVAR list \<Rightarrow> EXPRVAR list" where
  "destroy_loop 0 arr = arr"
| "destroy_loop (Suc n) arr = destroy_loop n (arr[0 := expr_var_delete (arr ! 0)])"

definition expr_destroy :: "EXPR \<Rightarrow> EXPRVAR list" where
  "expr_destroy pThis = destroy_loop (length (aVars pThis)) (rev (aVars pThis))"

text \<open>\<open>&pExpr->aVars[0]\<close>\<close>

definition first_var :: "EXPR \<Rightarrow> EXPRVAR eres" where
  "first_var pThis = (if aVars pThis = [] then Undef OutOfBounds else Ok (last (aVars pThis)))"

definition expr_eval_if_conditionals :: "expr_env \<Rightarrow> string \<Rightarrow> int eres" where
  "expr_eval_if_conditionals env line =
     obind (expr_create line) (\<lambda>pExpr.
     obind (expr_eval env pExpr) (\<lambda>(rc, pExpr).
     if rc \<ge> kExprRet_Ok then
       obind (first_var pExpr) (\<lambda>v.
       obind (expr_var_make_bool env v) (\<lambda>(b, v). Ok (if b \<noteq> 0 then 0 else 1)))
     else Ok (- 1)))"

text \<open>\<open>ob\<close> is the content of make's variable buffer, to which the result is appended.\<close>

definition expr_eval_to_string :: "expr_env \<Rightarrow> string \<Rightarrow> string \<Rightarrow> string eres" where
  "expr_eval_to_string env ob expr =
     obind (expr_create expr) (\<lambda>pExpr.
     obind (expr_eval env pExpr) (\<lambda>(rc, pExpr).
     if rc \<ge> kExprRet_Ok then
       obind (first_var pExpr) (\<lambda>v.
       obind (expr_var_make_simple_string env v) (\<lambda>v.
       obind (var_psz v) (\<lambda>psz. Ok (ob @ psz))))
     else Ok (ob @ ''<expression evaluation failed>'')))"

end
