(* ===== verification/ExprLex.thy ===== *)
theory ExprLex
  imports ExprEval
begin

text \<open>
  What the token functions of \<open>src/kmk/expreval.c\<close> make of well-formed text: an operator followed by
  white space is found in the operator table, and an operand is read up to the white space,
  parenthesis or end behind it.
\<close>

section \<open>White space\<close>

definition blank_chars :: "char list" where
  "blank_chars = [CHR '' '', CHR 0x09, CHR 0x0A, CHR 0x0D, CHR 0x0B, CHR 0x0C]"

definition blank :: "string \<Rightarrow> bool" where
  "blank sp \<longleftrightarrow> sp \<noteq> [] \<and> set sp \<subseteq> set blank_chars"

lemma blank_char_map: "c \<in> set blank_chars \<Longrightarrow> expr_map_get c = 2"
proof -
  have "\<forall>c\<in>set blank_chars. expr_map_get c = 2" by code_simp
  then show "c \<in> set blank_chars \<Longrightarrow> expr_map_get c = 2" by blast
qed

lemma skip_spaces_Cons [simp]:
  "skip_spaces (c # p) = (if expr_map_get c AND 3 = 2 then skip_spaces p else c # p)"
  by (simp add: skip_spaces_def)

lemma skip_spaces_Nil [simp]: "skip_spaces [] = []"
  by (simp add: skip_spaces_def)

lemma skip_blank: "set sp \<subseteq> set blank_chars \<Longrightarrow> skip_spaces (sp @ p) = skip_spaces p"
  by (induction sp) (auto simp: blank_char_map)

lemma blank_Cons:
  assumes "blank sp"
  obtains c sp' where "sp = c # sp'" and "c \<in> set blank_chars" and "set sp' \<subseteq> set blank_chars"
  using assms by (cases sp) (auto simp: blank_def)

section \<open>Looking up\<close>

lemma g_aExprOps_text:
  "op \<in> set g_aExprOps \<Longrightarrow> szOp op \<noteq> [] \<and> NUL \<notin> set (szOp op) \<and> set (szOp op) \<inter> set blank_chars = {}"
proof -
  have "\<forall>op\<in>set g_aExprOps. szOp op \<noteq> [] \<and> NUL \<notin> set (szOp op) \<and>
      (\<forall>c\<in>set blank_chars. c \<notin> set (szOp op))" by code_simp
  then show "op \<in> set g_aExprOps \<Longrightarrow>
      szOp op \<noteq> [] \<and> NUL \<notin> set (szOp op) \<and> set (szOp op) \<inter> set blank_chars = {}" by auto
qed

lemma op_text_matches_prefix:
  assumes "szOp op \<noteq> []" and "NUL \<notin> set (szOp op)"
  shows "op_text_matches op p \<longleftrightarrow> prefix (szOp op) p"
proof -
  obtain a as where op: "szOp op = a # as" using assms(1) by (cases "szOp op") auto
  have a: "a \<noteq> NUL" using assms(2) op by auto
  have two: "cget as 0 = cget p 0 \<longleftrightarrow> prefix as p" if "length as = 1" "NUL \<notin> set as" for p
    using that by (cases as; cases p) auto
  show ?thesis
  proof (cases p)
    case Nil
    with a show ?thesis by (auto simp: op_text_matches_def op)
  next
    case (Cons b bs)
    have "prefix as bs \<longleftrightarrow> take (length as) bs = as" 
      by (auto simp: prefix_def) (metis append_take_drop_id)
    then show ?thesis
      using two [of bs] assms(2) by (auto simp: op_text_matches_def op Cons)
  qed
qed

lemma prefix_cut: "c \<notin> set u \<Longrightarrow> prefix u (w @ c # Q) \<longleftrightarrow> prefix u w"
  by (induction w arbitrary: u) (auto simp: prefix_Cons)

lemma blank_char_separator: "c \<in> set blank_chars \<Longrightarrow> EXPR_IS_OP_SEPARATOR c"
  by (auto simp: blank_chars_def EXPR_IS_OP_SEPARATOR_def ctype_defs)

text \<open>Behind a white space character, and for any such character, the lookup is the same.\<close>

lemma lookup_from_cut:
  assumes "\<forall>op\<in>set ops. szOp op \<noteq> [] \<and> NUL \<notin> set (szOp op) \<and> set (szOp op) \<inter> set blank_chars = {}"
    and "c \<in> set blank_chars"
  shows "lookup_from ops (w @ c # Q) u f = lookup_from ops (w @ '' '') u f"
  using assms(1)
proof (induction ops)
  case (Cons op ops)
  have space: "CHR '' '' \<in> set blank_chars" by (simp add: blank_chars_def)
  have "EXPR_IS_OP_SEPARATOR (cget (w @ c # Q) (cchOp op)) =
      EXPR_IS_OP_SEPARATOR (cget (w @ '' '') (cchOp op))" if "prefix (szOp op) w"
    using that blank_char_separator [OF assms(2)] blank_char_separator [OF space]
    by (auto simp: prefix_def cget_def nth_append nth_Cons split: nat.splits)
  moreover have "c \<notin> set (szOp op)" and "CHR '' '' \<notin> set (szOp op)"
    using Cons.prems assms(2) space by auto
  ultimately show ?case
    using Cons by (auto simp: op_text_matches_prefix prefix_cut)
qed simp

lemma expr_lookup_op_cut:
  assumes "c \<in> set blank_chars" and "w \<noteq> []"
  shows "expr_lookup_op (w @ c # Q) u f = expr_lookup_op (w @ '' '') u f"
proof -
  have "\<forall>op\<in>set (drop (u div 4) g_aExprOps).
      szOp op \<noteq> [] \<and> NUL \<notin> set (szOp op) \<and> set (szOp op) \<inter> set blank_chars = {}"
    using g_aExprOps_text by (auto dest: in_set_dropD)
  from lookup_from_cut [OF this assms(1), of w Q u f] show ?thesis
    using assms(2) by (simp add: expr_lookup_op_def)
qed

definition binary_ops :: "EXPROP list" where
  "binary_ops = filter (\<lambda>op. cArgs op = 2) g_aExprOps"

definition unary_ops :: "EXPROP list" where
  "unary_ops = filter (\<lambda>op. cArgs op = 1 \<and> szOp op \<noteq> ''('') g_aExprOps"

lemma lookup_binary_ops:
  assumes "op \<in> set binary_ops" and "c \<in> set blank_chars"
  shows "expr_lookup_op (szOp op @ c # Q) (expr_map_get (peek (szOp op))) False = Ok (Some op)"
proof -
  have "list_all (\<lambda>op. expr_lookup_op (szOp op @ '' '') (expr_map_get (peek (szOp op))) False =
      Ok (Some op)) binary_ops" by code_simp
  with assms show ?thesis
    by (subst expr_lookup_op_cut) (auto simp: list_all_iff binary_ops_def g_aExprOps_text)
qed

lemma lookup_unary_ops:
  assumes "op \<in> set unary_ops" and "c \<in> set blank_chars"
  shows "expr_lookup_op (szOp op @ c # Q) (expr_map_get (peek (szOp op))) True = Ok (Some op)"
proof -
  have "list_all (\<lambda>op. expr_lookup_op (szOp op @ '' '') (expr_map_get (peek (szOp op))) True =
      Ok (Some op)) unary_ops" by code_simp
  with assms show ?thesis
    by (subst expr_lookup_op_cut) (auto simp: list_all_iff unary_ops_def g_aExprOps_text)
qed

lemma op_start_map:
  assumes "op \<in> set g_aExprOps"
  shows "expr_map_get (peek (szOp op)) AND 1 \<noteq> 0" and "expr_map_get (peek (szOp op)) AND 3 \<noteq> 2"
proof -
  have "list_all (\<lambda>op. expr_map_get (peek (szOp op)) AND 1 \<noteq> 0 \<and>
      expr_map_get (peek (szOp op)) AND 3 \<noteq> 2) g_aExprOps" by code_simp
  with assms show "expr_map_get (peek (szOp op)) AND 1 \<noteq> 0"
    and "expr_map_get (peek (szOp op)) AND 3 \<noteq> 2" by (auto simp: list_all_iff)
qed

lemma next_binary_op:
  assumes "op \<in> set binary_ops" and "blank sp" and "set ws \<subseteq> set blank_chars"
    and "psz st = ws @ szOp op @ sp @ R"
  shows "next_binary st = Ok (op, st\<lparr>psz := sp @ R\<rparr>)"
proof -
  obtain c sp' where sp: "sp = c # sp'" "c \<in> set blank_chars" using assms(2) by (rule blank_Cons)
  have op: "op \<in> set g_aExprOps" using assms(1) by (simp add: binary_ops_def)
  obtain a as where a: "szOp op = a # as" using g_aExprOps_text [OF op] by (cases "szOp op") auto
  have "skip_spaces (psz st) = szOp op @ sp @ R"
    using op_start_map(2) [OF op] assms(3) by (simp add: assms(4) skip_blank a)
  moreover have "expr_lookup_op (szOp op @ sp @ R) (expr_map_get a) False = Ok (Some op)"
    using lookup_binary_ops [OF assms(1) sp(2), of "sp' @ R"] by (simp add: sp a)
  ultimately show ?thesis
    using op_start_map(1) [OF op] by (simp add: next_binary_def Let_def a)
qed

lemma next_binary_rparen:
  assumes "set ws \<subseteq> set blank_chars" and "psz st = ws @ CHR '')'' # R"
  shows "next_binary st = Ok (op_right_parenthesis, st\<lparr>psz := R\<rparr>)"
proof -
  have map: "expr_map_get (CHR '')'') = 147" by code_simp
  have "drop 36 g_aExprOps = [op_right_parenthesis]"
    by (simp add: g_aExprOps_def)
  with assms map show ?thesis
    by (simp add: next_binary_def skip_blank Let_def expr_lookup_op_def op_text_matches_def ctype_defs)
      (simp add: op_right_parenthesis_def)
qed

lemma get_unary_op:
  assumes "op \<in> set unary_ops" and "blank sp" and "psz st = szOp op @ sp @ R"
    and "length (aVars st) < EXPR_MAX_OPERANDS" and "length (apOps st) < EXPR_MAX_OPERATORS"
  shows "expr_get_unary_or_operand st =
    Ok (kExprRet_Operator, st\<lparr>apOps := op # apOps st, psz := sp @ R\<rparr>)"
proof -
  obtain c sp' where sp: "sp = c # sp'" "c \<in> set blank_chars" using assms(2) by (rule blank_Cons)
  have op: "op \<in> set g_aExprOps" using assms(1) by (simp add: unary_ops_def)
  obtain a as where a: "szOp op = a # as" using g_aExprOps_text [OF op] by (cases "szOp op") auto
  have "skip_spaces (psz st) = szOp op @ sp @ R"
    using op_start_map(2) [OF op] by (simp add: assms(3) a)
  moreover have "expr_lookup_op (szOp op @ sp @ R) (expr_map_get a) True = Ok (Some op)"
    using lookup_unary_ops [OF assms(1) sp(2), of "sp' @ R"] by (simp add: sp a)
  ultimately show ?thesis
    using op_start_map(1) [OF op] assms(4,5)
    by (simp add: expr_get_unary_or_operand_def Let_def push_op_def a)
qed

lemma get_unary_lparen:
  assumes "psz st = CHR ''('' # R"
    and "length (aVars st) < EXPR_MAX_OPERANDS" and "length (apOps st) < EXPR_MAX_OPERATORS"
  shows "expr_get_unary_or_operand st =
    Ok (kExprRet_Operator, st\<lparr>apOps := op_left_parenthesis # apOps st, psz := R\<rparr>)"
proof -
  have map: "expr_map_get (CHR ''('') = 143" by code_simp
  have "drop 35 g_aExprOps = [op_left_parenthesis, op_right_parenthesis]"
    by (simp add: g_aExprOps_def)
  with assms map show ?thesis
    by (simp add: expr_get_unary_or_operand_def Let_def expr_lookup_op_def op_text_matches_def
        ctype_defs push_op_def)
      (simp add: op_left_parenthesis_def)
qed

section \<open>Operands\<close>

text \<open>
  The operand texts the evaluation theorem covers: unquoted words, references to a variable, and
  quoted strings.
\<close>

datatype operand = Word string | VarRef string | SQuoted string | DQuoted string

primrec operand_text :: "operand \<Rightarrow> string" where
  "operand_text (Word s) = s"
| "operand_text (VarRef s) = ''$('' @ s @ '')''"
| "operand_text (SQuoted s) = [CHR 0x27] @ s @ [CHR 0x27]"
| "operand_text (DQuoted s) = [CHR 0x22] @ s @ [CHR 0x22]"

primrec operand_var :: "operand \<Rightarrow> EXPRVAR" where
  "operand_var (Word s) = SimpleString s"
| "operand_var (VarRef s) = String (''$('' @ s @ '')'')"
| "operand_var (SQuoted s) = QuotedSimpleString s"
| "operand_var (DQuoted s) = (if CHR ''$'' \<in> set s then QuotedString s else QuotedSimpleString s)"

text \<open>
  A word consists of letters, digits, underscores and dots and is not the name of a unary
  operator. A word with a dot starts with a digit, as a version number does, and has no v, which
  would start an operator behind the dot.
\<close>

definition word_char :: "char \<Rightarrow> bool" where
  "word_char c \<longleftrightarrow> isalpha c \<or> isdigit c \<or> c = CHR ''_'' \<or> c = CHR ''.''"

definition plain_word :: "string \<Rightarrow> bool" where
  "plain_word s \<longleftrightarrow> s \<noteq> [] \<and> list_all word_char s \<and> s \<notin> set (map szOp unary_ops) \<and>
     (CHR ''.'' \<in> set s \<longrightarrow> isdigit (peek s) \<and> CHR ''v'' \<notin> set s)"

primrec operand_ok :: "operand \<Rightarrow> bool" where
  "operand_ok (Word s) \<longleftrightarrow> plain_word s"
| "operand_ok (VarRef s) \<longleftrightarrow> CHR ''$'' \<notin> set s \<and> CHR '')'' \<notin> set s"
| "operand_ok (SQuoted s) \<longleftrightarrow> CHR 0x27 \<notin> set s"
| "operand_ok (DQuoted s) \<longleftrightarrow> CHR 0x22 \<notin> set s"

text \<open>What may follow an operand.\<close>

definition operand_end :: "string \<Rightarrow> bool" where
  "operand_end K \<longleftrightarrow> K = [] \<or> peek K \<in> set blank_chars \<or> peek K = CHR '')''"

lemma word_char_other:
  "word_char c \<Longrightarrow> c \<noteq> CHR ''$'' \<and> c \<noteq> NUL \<and> c \<noteq> CHR 0x22 \<and> c \<noteq> CHR 0x27"
  by (auto simp: word_char_def ctype_defs)

lemma word_char_map:
  assumes "word_char c"
  shows "expr_map_get c \<in> {0, 1, 5, 9, 13, 17, 21, 85}"
    and "expr_map_get c = 85 \<longleftrightarrow> c = CHR ''v''"
proof -
  have tab: "list_all (\<lambda>(c, u). word_char c \<longrightarrow>
      u \<in> {0, 1, 5, 9, 13, 17, 21, 85} \<and> (u = 85 \<longleftrightarrow> c = CHR ''v'')) start_char_table"
    and v: "map_of start_char_table (CHR ''v'') = Some 85" by code_simp+
  have "expr_map_get c \<in> {0, 1, 5, 9, 13, 17, 21, 85} \<and> (expr_map_get c = 85 \<longleftrightarrow> c = CHR ''v'')"
  proof (cases "map_of start_char_table c")
    case None
    with v have "c \<noteq> CHR ''v''" by auto
    with None show ?thesis by (simp add: expr_map_get_eq table_fun_def)
  next
    case (Some u)
    with tab assms show ?thesis
      by (auto simp: expr_map_get_eq table_fun_def list_all_iff dest!: map_of_SomeD)
  qed
  then show "expr_map_get c \<in> {0, 1, 5, 9, 13, 17, 21, 85}"
    and "expr_map_get c = 85 \<longleftrightarrow> c = CHR ''v''" by blast+
qed

lemma word_char_bits:
  assumes "word_char c"
  shows "expr_map_get c AND 2 = 0" and "expr_map_get c AND 3 \<noteq> 2"
  using word_char_map(1) [OF assms] by auto

lemma word_char_not_sep:
  "word_char c \<Longrightarrow> c \<noteq> CHR ''.'' \<Longrightarrow> \<not> EXPR_IS_OP_SEPARATOR_NO_SPACE c \<and> \<not> EXPR_IS_OP_SEPARATOR c"
  by (auto simp: word_char_def EXPR_IS_OP_SEPARATOR_NO_SPACE_def EXPR_IS_OP_SEPARATOR_def ctype_defs)

lemma word_char_alpha:
  assumes "word_char c" and "expr_map_get c \<noteq> 0"
  shows "isalpha c"
proof -
  have tab: "list_all (\<lambda>(c, u). word_char c \<longrightarrow> isalpha c) start_char_table" by code_simp
  from assms(2) obtain u where "map_of start_char_table c = Some u"
    by (auto simp: expr_map_get_eq table_fun_def split: option.splits)
  with tab assms(1) show ?thesis by (auto simp: list_all_iff dest!: map_of_SomeD)
qed

lemma lookup_from_None:
  assumes "\<And>op. op \<in> set ops \<Longrightarrow> op_text_matches op p \<Longrightarrow> f = (cArgs op = 1) \<Longrightarrow>
     u AND 2 = 0 \<and> \<not> EXPR_IS_OP_SEPARATOR (cget p (cchOp op))"
  shows "lookup_from ops p u f = None"
proof -
  have "\<forall>op\<in>set ops. op_text_matches op p \<and> f = (cArgs op = 1) \<longrightarrow>
      \<not> (u AND 2 \<noteq> 0 \<or> EXPR_IS_OP_SEPARATOR (cget p (cchOp op)))"
  proof (intro ballI impI notI, elim conjE)
    fix op
    assume *: "op \<in> set ops" "op_text_matches op p" "f = (cArgs op = 1)"
      and "u AND 2 \<noteq> 0 \<or> EXPR_IS_OP_SEPARATOR (cget p (cchOp op))"
    with assms [OF *] show False by argo
  qed
  then show ?thesis
  proof (induction ops)
    case (Cons op ops)
    have "\<not> (op_text_matches op p \<and> f = (cArgs op = 1) \<and>
        (u AND 2 \<noteq> 0 \<or> EXPR_IS_OP_SEPARATOR (cget p (cchOp op))))"
      using Cons.prems by (meson list.set_intros(1))
    moreover have "lookup_from ops p u f = None"
      using Cons.prems by (intro Cons.IH) (meson list.set_intros(2))
    ultimately show ?case by (simp only: lookup_from.simps if_False)
  qed simp
qed

lemma word_ops:
  assumes "op \<in> set g_aExprOps" and "word_char (peek (szOp op))"
  shows "if cArgs op = 1 then list_all isalpha (szOp op) \<and> op \<in> set unary_ops
    else peek (szOp op) = CHR ''v''"
proof -
  have "list_all (\<lambda>op. word_char (peek (szOp op)) \<longrightarrow>
    (if cArgs op = 1 then list_all isalpha (szOp op) \<and> op \<in> set unary_ops
     else peek (szOp op) = CHR ''v'')) g_aExprOps" by code_simp
  with assms show ?thesis by (auto simp: list_all_iff)
qed

lemma lookup_word_binary:
  assumes "word_char c" and "c \<noteq> CHR ''v''" and "expr_map_get c \<noteq> 0"
  shows "expr_lookup_op (c # p) (expr_map_get c) False = Ok None"
proof -
  have "lookup_from (drop (expr_map_get c div 4) g_aExprOps) (c # p) (expr_map_get c) False = None"
  proof (rule lookup_from_None)
    fix op
    assume op: "op \<in> set (drop (expr_map_get c div 4) g_aExprOps)" "op_text_matches op (c # p)"
      "False = (cArgs op = 1)"
    then have "peek (szOp op) = c" by (simp add: op_text_matches_def)
    with assms op word_ops [of op] show "expr_map_get c AND 2 = 0 \<and>
        \<not> EXPR_IS_OP_SEPARATOR (cget (c # p) (cchOp op))"
      by (auto dest: in_set_dropD)
  qed
  with assms word_char_bits [of c] word_char_alpha [of c] show ?thesis
    by (simp add: expr_lookup_op_def)
qed

lemma operand_end_cases:
  assumes "operand_end K"
  obtains (eos) "K = []" | (blank) c K' where "K = c # K'" and "c \<in> set blank_chars"
  | (paren) K' where "K = CHR '')'' # K'"
  using assms by (cases K) (auto simp: operand_end_def)

lemma operand_end_not_alpha: "operand_end K \<Longrightarrow> \<not> isalpha (peek K)"
  by (erule operand_end_cases) (auto simp: blank_chars_def ctype_defs)

lemma lookup_word_unary:
  assumes "plain_word w" and "operand_end K" and "expr_map_get (peek w) \<noteq> 0"
  shows "expr_lookup_op (w @ K) (expr_map_get (peek w)) True = Ok None"
proof -
  obtain c w' where w: "w = c # w'" using assms(1) by (cases w) (auto simp: plain_word_def)
  have c: "word_char c" "isalpha c"
    using assms word_char_alpha [of c] by (auto simp: w plain_word_def)
  then have no_dot: "CHR ''.'' \<notin> set w"
    using assms(1) by (auto simp: w plain_word_def ctype_defs)
  have "lookup_from (drop (expr_map_get c div 4) g_aExprOps) (w @ K) (expr_map_get c) True = None"
  proof (rule lookup_from_None)
    fix op
    assume op: "op \<in> set (drop (expr_map_get c div 4) g_aExprOps)" "op_text_matches op (w @ K)"
      "True = (cArgs op = 1)"
    then have in_table: "op \<in> set g_aExprOps" by (auto dest: in_set_dropD)
    from op have "peek (szOp op) = c" by (simp add: op_text_matches_def w)
    with word_ops [OF in_table] op(3) c have alpha: "list_all isalpha (szOp op)"
      and unary: "op \<in> set unary_ops" by auto
    from op(2) g_aExprOps_text [OF in_table] have "prefix (szOp op) (w @ K)"
      by (simp add: op_text_matches_prefix)
    moreover have "prefix (szOp op) w" if "\<not> prefix w (szOp op)"
      using calculation that by (metis prefix_append prefix_order.order_refl prefix_same_cases)
    moreover have False if pre: "szOp op = w @ x # xs" for x xs
    proof -
      from pre calculation(1) have "peek K = x" by (cases K) (auto simp: prefix_def)
      with pre alpha operand_end_not_alpha [OF assms(2)] show False by simp
    qed
    ultimately have "prefix (szOp op) w"
      by (metis append_Nil2 list.exhaust prefix_def prefix_order.order_refl)
    then obtain r where r: "w = szOp op @ r" by (auto simp: prefix_def)
    have "r \<noteq> []" using assms(1) unary r by (auto simp: plain_word_def)
    then have "cget (w @ K) (cchOp op) \<in> set w" by (cases r) (auto simp: r)
    with no_dot assms(1) have "\<not> EXPR_IS_OP_SEPARATOR (cget (w @ K) (cchOp op))"
      by (metis list_all_iff plain_word_def word_char_not_sep)
    with word_char_bits [OF c(1)] show "expr_map_get c AND 2 = 0 \<and>
        \<not> EXPR_IS_OP_SEPARATOR (cget (w @ K) (cchOp op))" by simp
  qed
  with c word_char_bits [OF c(1)] show ?thesis by (simp add: expr_lookup_op_def w)
qed

lemma scan_end:
  assumes "operand_end K" and "acc \<noteq> []"
  shows "scan_operand acc [] K = Ok (rev acc, K)"
  using assms(1)
proof (cases rule: operand_end_cases)
  case (blank c K')
  then have "c \<noteq> NUL" and "c \<noteq> CHR ''$''" by (auto simp: blank_chars_def)
  with blank show ?thesis
    by (simp add: scan_operand.simps operand_ends_def blank_char_map)
next
  case (paren K')
  have map: "expr_map_get (CHR '')'') = 147" by code_simp
  have "drop 36 g_aExprOps = [op_right_parenthesis]" by (simp add: g_aExprOps_def)
  then have "expr_lookup_op (CHR '')'' # K') 147 False = Ok (Some op_right_parenthesis)"
    by (simp add: expr_lookup_op_def op_text_matches_def ctype_defs)
      (simp add: op_right_parenthesis_def)
  with map paren assms(2) show ?thesis
    by (simp add: scan_operand.simps operand_ends_def)
qed (simp add: scan_operand.simps)

lemma scan_word:
  assumes "list_all word_char w" and "operand_end K" and "acc \<noteq> [] \<or> w \<noteq> []"
    and "list_all word_char acc" and "CHR ''.'' \<in> set (acc @ w) \<longrightarrow> CHR ''v'' \<notin> set w"
  shows "scan_operand acc [] (w @ K) = Ok (rev acc @ w, K)"
  using assms
proof (induction w arbitrary: acc)
  case Nil
  then show ?case by (simp add: scan_end)
next
  case (Cons c w)
  then have c: "word_char c" by simp
  have "operand_ends acc (c # w @ K) = Ok False"
  proof (cases "acc \<noteq> [] \<and> EXPR_IS_OP_SEPARATOR_NO_SPACE (peek acc) \<and> expr_map_get c \<noteq> 0")
    case True
    then have "peek acc = CHR ''.''"
      using Cons.prems(4) by (cases acc) (auto dest: word_char_not_sep)
    with True have "CHR ''.'' \<in> set acc" by (cases acc) auto
    with Cons.prems(5) have "c \<noteq> CHR ''v''" by auto
    with True c show ?thesis
      by (simp add: operand_ends_def lookup_word_binary word_char_bits Let_def)
  next
    case False
    with c show ?thesis by (auto simp: operand_ends_def word_char_bits Let_def)
  qed
  with word_char_other [OF c] have "scan_operand acc [] ((c # w) @ K) = scan_operand (c # acc) [] (w @ K)"
    by (simp add: scan_operand.simps(2) [of acc "[]" c "w @ K"])
  also have "\<dots> = Ok (rev (c # acc) @ w, K)"
    by (rule Cons.IH) (use Cons.prems in auto)
  finally show ?case by simp
qed

lemma scan_varref:
  assumes "CHR ''$'' \<notin> set s" and "CHR '')'' \<notin> set s"
  shows "scan_operand acc [CHR '')''] (s @ CHR '')'' # K) = scan_operand (CHR '')'' # rev s @ acc) [] K"
  using assms by (induction s arbitrary: acc) (auto simp: scan_operand.simps)

lemma quoted_operand_text: "q \<notin> set s \<Longrightarrow> quoted_operand q (s @ q # K) = (s, K)"
  by (auto simp: quoted_operand_def takeWhile_append dropWhile_append)

lemma get_operand_text:
  assumes "operand_ok x" and "operand_end K"
  shows "get_operand (operand_text x @ K) = Ok (operand_var x, K)"
proof (cases x)
  case (Word s)
  with assms(1) have w: "plain_word s" by simp
  then have "list_all word_char s" "s \<noteq> []" "CHR ''.'' \<in> set s \<longrightarrow> CHR ''v'' \<notin> set s"
    by (auto simp: plain_word_def)
  with assms(2) have "scan_operand [] [] (s @ K) = Ok (s, K)" by (simp add: scan_word)
  moreover have "peek s \<noteq> CHR 0x22" "peek s \<noteq> CHR 0x27" "CHR ''$'' \<notin> set s"
    using \<open>list_all word_char s\<close> \<open>s \<noteq> []\<close> word_char_other
    by (cases s; auto simp: list_all_iff)+
  ultimately show ?thesis
    using \<open>s \<noteq> []\<close> by (simp add: Word get_operand_def expr_var_init_substring_def)
next
  case (VarRef s)
  with assms show ?thesis
    by (simp add: get_operand_def scan_operand.simps(2) [of "[]" "[]"] ACH_PARS_def scan_varref scan_end
        expr_var_init_substring_def)
qed (use assms in \<open>auto simp: get_operand_def quoted_operand_text expr_var_init_substring_def\<close>)

lemma get_operand_tree:
  assumes "operand_ok x" and "operand_end K" and "psz st = operand_text x @ K"
    and "length (aVars st) < EXPR_MAX_OPERANDS"
  shows "expr_get_unary_or_operand st = Ok (kExprRet_Ok, st\<lparr>aVars := operand_var x # aVars st, psz := K\<rparr>)"
proof -
  have quotes: "expr_map_get (CHR ''$'') = 0" "expr_map_get (CHR 0x27) = 0" "expr_map_get (CHR 0x22) = 0"
    by code_simp+
  obtain c t where ct: "operand_text x = c # t"
    using assms(1) by (cases x) (auto simp: plain_word_def neq_Nil_conv)
  have "expr_map_get c AND 3 \<noteq> 2"
    using assms(1) ct quotes by (cases x) (auto simp: plain_word_def word_char_bits)
  then have "skip_spaces (psz st) = operand_text x @ K" by (simp add: assms(3) ct)
  moreover have "expr_lookup_op (operand_text x @ K) (expr_map_get c) True = Ok None"
    if "expr_map_get c \<noteq> 0"
    using that assms(1,2) ct quotes lookup_word_unary [of "operand_text x" K] by (cases x) auto
  ultimately show ?thesis
    using assms(4) get_operand_text [OF assms(1,2)]
    by (auto simp: expr_get_unary_or_operand_def Let_def ct push_var_def)
qed

end
