(* ===== verification/ExprMethods.thy ===== *)
theory ExprMethods
  imports ExprEval
begin

text \<open>
  The operators of \<open>src/kmk/expreval.c\<close> seen as functions of their operands. Every operator but the
  parentheses is \<open>with_top\<close> or \<open>with_top2\<close> of a body, and a body that returns at all returns
  \<open>kExprRet_Ok\<close>: the other statuses end in \<open>fatal\<close>. \<open>apply_op\<close> is the value an operator makes of
  its operands.
\<close>

section \<open>Bodies\<close>

definition unary_pfns :: "expr_pfn set" where
  "unary_pfns = {expr_op_defined, expr_op_exists, expr_op_target, expr_op_bool, expr_op_num,
     expr_op_strlen, expr_op_str, expr_op_pluss, expr_op_minus, expr_op_bitwise_not,
     expr_op_logical_not}"

text \<open>An evaluator with operands and nothing else.\<close>

definition bare :: "EXPRVAR list \<Rightarrow> EXPR" where
  "bare vs = \<lparr>pszExpr = [], psz = [], pPending = None, apOps = [], aVars = vs\<rparr>"

lemma aVars_bare [simp]: "aVars (bare vs) = vs"
  and update_bare [simp]: "bare vs\<lparr>aVars := ws\<rparr> = bare ws"
  by (simp_all add: bare_def)

definition body1 :: "expr_env \<Rightarrow> expr_pfn \<Rightarrow> EXPRVAR \<Rightarrow> (EXPRRET \<times> EXPRVAR) eres" where
  "body1 env f v =
     obind (expr_call env f (bare [v]))
       (\<lambda>(rc, st). Ok (rc, hd (aVars st)))"

definition body2 :: "expr_env \<Rightarrow> expr_pfn \<Rightarrow> EXPRVAR \<Rightarrow> EXPRVAR \<Rightarrow> (EXPRRET \<times> EXPRVAR) eres" where
  "body2 env f v1 v2 =
     obind (expr_call env f (bare [v2, v1]))
       (\<lambda>(rc, st). Ok (rc, hd (aVars st)))"

lemma with_top_frame:
  "with_top (st\<lparr>aVars := v # V\<rparr>) f =
     obind (obind (with_top (bare [v]) f)
       (\<lambda>(rc, st). Ok (rc, hd (aVars st)))) (\<lambda>(rc, v). Ok (rc, st\<lparr>aVars := v # V\<rparr>))"
  by (cases "f v") (auto simp: with_top_def)

lemma with_top2_frame:
  "with_top2 (st\<lparr>aVars := v2 # v1 # V\<rparr>) f =
     obind (obind (with_top2 (bare [v2, v1]) f)
       (\<lambda>(rc, st). Ok (rc, hd (aVars st)))) (\<lambda>(rc, v). Ok (rc, st\<lparr>aVars := v # V\<rparr>))"
  by (cases "f v1 v2") (auto simp: with_top2_def expr_pop_and_delete_var_def)

lemma call_frame1:
  "f \<in> unary_pfns \<Longrightarrow> expr_call env f (st\<lparr>aVars := v # V\<rparr>) =
     obind (body1 env f v) (\<lambda>(rc, v). Ok (rc, st\<lparr>aVars := v # V\<rparr>))"
  unfolding unary_pfns_def body1_def
  by (elim insertE emptyE) (simp_all only: expr_call.simps unary_op_defs with_top_frame)

definition paren_pfns :: "expr_pfn set" where
  "paren_pfns = {expr_op_left_parenthesis, expr_op_right_parenthesis}"

lemma not_body_frame:
  assumes "\<And>st v1 v2 V. op env (st\<lparr>aVars := v2 # v1 # V\<rparr>) =
     obind (obind (op env (bare [v2, v1]))
       (\<lambda>(rc, st). Ok (rc, hd (aVars st)))) (\<lambda>(rc, v). Ok (rc, st\<lparr>aVars := v # V\<rparr>))"
    and "\<And>st. opn env st = obind (op env st) (\<lambda>(rc, st).
      if rc \<ge> kExprRet_Ok then op_logical_not env st else Ok (rc, st))"
  shows "opn env (st\<lparr>aVars := v2 # v1 # V\<rparr>) =
     obind (obind (opn env (bare [v2, v1]))
       (\<lambda>(rc, st). Ok (rc, hd (aVars st)))) (\<lambda>(rc, v). Ok (rc, st\<lparr>aVars := v # V\<rparr>))"
proof -
  define res where "res = obind (op env (bare [v2, v1])) (\<lambda>(rc, st). Ok (rc, hd (aVars st)))"
  have "op env (st\<lparr>aVars := v2 # v1 # V\<rparr>) = obind res (\<lambda>(rc, v). Ok (rc, st\<lparr>aVars := v # V\<rparr>))" for st V
    unfolding res_def by (rule assms(1))
  from this [where st = st and V = V] this [where st = "bare []" and V = "[]"]
  show ?thesis
    unfolding assms(2) op_logical_not_def
    by (cases res)
      (auto simp: with_top_def split_def)
qed

lemma call_frame2:
  assumes "f \<notin> unary_pfns" and "f \<notin> paren_pfns"
  shows "expr_call env f (st\<lparr>aVars := v2 # v1 # V\<rparr>) =
     obind (body2 env f v1 v2) (\<lambda>(rc, v). Ok (rc, st\<lparr>aVars := v # V\<rparr>))"
proof -
  have eq: "op_equal env (st\<lparr>aVars := v2 # v1 # V\<rparr>) =
     obind (obind (op_equal env (bare [v2, v1]))
       (\<lambda>(rc, st). Ok (rc, hd (aVars st)))) (\<lambda>(rc, v). Ok (rc, st\<lparr>aVars := v # V\<rparr>))" for st v1 v2 V
    by (simp only: op_equal_def with_top2_frame)
  have veq: "op_ver_equal env (st\<lparr>aVars := v2 # v1 # V\<rparr>) =
     obind (obind (op_ver_equal env (bare [v2, v1]))
       (\<lambda>(rc, st). Ok (rc, hd (aVars st)))) (\<lambda>(rc, v). Ok (rc, st\<lparr>aVars := v # V\<rparr>))" for st v1 v2 V
    by (simp only: op_ver_equal_def with_top2_frame)
  note ne = not_body_frame [of op_equal env op_not_equal, OF eq op_not_equal_def]
    and vne = not_body_frame [of op_ver_equal env op_ver_not_equal, OF veq op_ver_not_equal_def]
  show ?thesis
    using assms unfolding body2_def
    by (cases f) (simp_all only: expr_call.simps binary_op_defs [unfolded] with_top2_frame ne vne
        unary_pfns_def paren_pfns_def insert_iff simp_thms)
qed

section \<open>Statuses\<close>

lemma num_loop_status:
  "num_loop b neg False src i p = Ok (rc, j) \<Longrightarrow> rc = kExprRet_Ok"
proof (induction b neg False src i p rule: num_loop.induct)
  case (1 uBase fNegative pszSrc i psz)
  from "1.prems" show ?case
    by (subst (asm) num_loop.simps)
      (auto simp: obind_eq_Ok Let_def split: list.splits option.splits if_splits intro: "1.hyps")
qed

lemma expr_string_to_num_status:
  "expr_string_to_num s False = Ok (rc, i) \<Longrightarrow> rc = kExprRet_Ok"
  by (auto simp: expr_string_to_num_def Let_def split: prod.splits dest: num_loop_status)

lemma simple_string_to_num_Ok:
  "simple_string_to_num False s = Ok (rc, v) \<Longrightarrow> rc = kExprRet_Ok \<and> (\<exists>i. v = Num i)"
  by (auto simp: simple_string_to_num_def obind_eq_Ok expr_var_assign_num_def expr_var_init_num_def
      split: if_splits dest: expr_string_to_num_status)

lemma make_num_Ok:
  "expr_var_make_num env v = Ok (rc, v') \<Longrightarrow> rc = kExprRet_Ok \<and> (\<exists>i. v' = Num i)"
  by (cases v) (auto simp: obind_eq_Ok dest: simple_string_to_num_Ok)

lemma body1_status:
  assumes "f \<in> unary_pfns" and "body1 env f v = Ok (rc, v')"
  shows "rc = kExprRet_Ok"
  using assms unfolding unary_pfns_def body1_def
  by (elim insertE emptyE)
    (auto simp: unary_op_defs with_top_def obind_eq_Ok Let_def
      split: if_splits option.splits EXPRVAR.splits dest!: make_num_Ok simple_string_to_num_Ok)

lemma arith_body_Ok: "arith_body env g v1 v2 = Ok (rc, v1', v2') \<Longrightarrow> rc = kExprRet_Ok"
  by (auto simp: arith_body_def obind_eq_Ok split: if_splits dest!: make_num_Ok)

lemma unify_status: "expr_var_unify_types env v1 v2 s = Ok (rc, v1', v2') \<Longrightarrow> rc = kExprRet_Ok"
  by (auto simp: expr_var_unify_types_def obind_eq_Ok split: if_splits)

lemma compare_body_Ok: "compare_body env s fi fs v1 v2 = Ok (rc, v1', v2') \<Longrightarrow> rc = kExprRet_Ok"
  by (auto simp: compare_body_def obind_eq_Ok split: if_splits dest!: unify_status)

lemma equal_body_Ok: "equal_body env v1 v2 = Ok (rc, v1', v2') \<Longrightarrow> rc = kExprRet_Ok"
  by (auto simp: equal_body_def obind_eq_Ok split: if_splits)

lemma ver_equal_body_Ok: "ver_equal_body env v1 v2 = Ok (rc, v1', v2') \<Longrightarrow> rc = kExprRet_Ok"
  by (auto simp: ver_equal_body_def obind_eq_Ok split: if_splits)

lemma logical_body_Ok:
  "logical_and_body env v1 v2 = Ok (rc, v1', v2') \<Longrightarrow> rc = kExprRet_Ok"
  "logical_or_body env v1 v2 = Ok (rc, v1', v2') \<Longrightarrow> rc = kExprRet_Ok"
  by (auto simp: logical_and_body_def logical_or_body_def obind_eq_Ok split: if_splits)

lemma bitwise_body_Ok: "bitwise_body env g v1 v2 = Ok (rc, v1', v2') \<Longrightarrow> rc = kExprRet_Ok"
  by (auto simp: bitwise_body_def obind_eq_Ok)

lemma with_top2_status:
  assumes "with_top2 st g = Ok (rc, st')" and "\<And>v1 v2 rc v1' v2'. g v1 v2 = Ok (rc, v1', v2') \<Longrightarrow> P rc"
  shows "P rc"
  using assms(1) by (auto simp: with_top2_def obind_eq_Ok split: list.splits dest: assms(2))

lemma op_logical_not_status: "op_logical_not env st = Ok (rc, st') \<Longrightarrow> rc = kExprRet_Ok"
  by (auto simp: op_logical_not_def with_top_def obind_eq_Ok split: list.splits)

lemma binary_status:
  assumes "expr_call env f st = Ok (rc, st')" and "f \<notin> unary_pfns" and "f \<notin> paren_pfns"
  shows "rc = kExprRet_Ok"
  using assms
  by (cases f)
    (auto simp: unary_pfns_def paren_pfns_def binary_op_defs op_not_equal_def op_ver_not_equal_def
      obind_eq_Ok split: if_splits
      dest: op_logical_not_status
      elim!: with_top2_status
      intro: arith_body_Ok compare_body_Ok equal_body_Ok ver_equal_body_Ok logical_body_Ok bitwise_body_Ok)

lemma body2_status:
  assumes "f \<notin> unary_pfns" and "f \<notin> paren_pfns" and "body2 env f v1 v2 = Ok (rc, v')"
  shows "rc = kExprRet_Ok"
  using assms by (auto simp: body2_def obind_eq_Ok dest: binary_status)

end
