(* ===== verification/ExprNum.thy ===== *)
theory ExprNum
  imports ExprVar
begin

unbundle bit_operations_syntax

text \<open>
  Properties of the number conversions of \<open>src/kmk/expreval.c\<close>: what \<open>expr_num_to_string\<close> prints is
  the decimal numeral of the number, it fits the buffer the callers provide, and
  \<open>expr_string_to_num\<close> reads it back.
\<close>

section \<open>Printing\<close>

lemma decimal_digit:
  assumes "n < 10"
  shows "isdigit (''0123456789abcdef'' ! n)" and "cord (''0123456789abcdef'' ! n) = n + 48"
proof -
  have "\<forall>n<10. isdigit (''0123456789abcdef'' ! n) \<and> cord (''0123456789abcdef'' ! n) = n + 48"
    by code_simp
  with assms show "isdigit (''0123456789abcdef'' ! n)"
    and "cord (''0123456789abcdef'' ! n) = n + 48" by blast+
qed

text \<open>A decimal numeral: digits without a redundant leading zero.\<close>

definition numeral_string :: "string \<Rightarrow> bool" where
  "numeral_string ds \<longleftrightarrow> ds \<noteq> [] \<and> list_all isdigit ds \<and> (ds = ''0'' \<or> peek ds \<noteq> CHR ''0'')"

lemma num_digits_app: "num_digits n acc = num_digits n [] @ acc"
proof (induction n arbitrary: acc rule: less_induct)
  case (less n)
  show ?case
  proof (cases "n div 10 = 0")
    case True
    then show ?thesis by (simp add: num_digits.simps [of n] Let_def)
  next
    case False
    then have step: "num_digits n as = num_digits (n div 10) (''0123456789abcdef'' ! (n mod 10) # as)" for as
      by (subst num_digits.simps) (simp add: Let_def)
    from False have "n div 10 < n" by simp
    then show ?thesis
      unfolding step
      using less.IH [of "n div 10" "''0123456789abcdef'' ! (n mod 10) # acc"]
        less.IH [of "n div 10" "[''0123456789abcdef'' ! (n mod 10)]"] by simp
  qed
qed

lemma num_digits_rec:
  "num_digits n [] =
     (if n < 10 then [''0123456789abcdef'' ! n]
      else num_digits (n div 10) [] @ [''0123456789abcdef'' ! (n mod 10)])"
  by (subst num_digits.simps) (subst num_digits_app, auto simp: Let_def)

lemma num_digits_digits: "list_all isdigit (num_digits n [])"
  by (induction n rule: less_induct) (subst num_digits_rec, simp add: decimal_digit)

lemma num_digits_not_Nil [simp]: "num_digits n [] \<noteq> []"
  by (subst num_digits_rec) simp

lemma dec_value_num_digits: "dec_value (num_digits n []) = n"
proof (induction n rule: less_induct)
  case (less n)
  then show ?case
    by (subst num_digits_rec) (simp add: dec_value_append dec_value_Cons decimal_digit)
qed

lemma num_digits_leading: "0 < n \<Longrightarrow> peek (num_digits n []) \<noteq> CHR ''0''"
proof (induction n rule: less_induct)
  case (less n)
  have "peek (num_digits n []) \<noteq> CHR ''0''" if "n < 10"
  proof -
    have "cord (''0123456789abcdef'' ! n) \<noteq> 48"
      using less.prems decimal_digit(2) [OF that] by linarith
    then have "''0123456789abcdef'' ! n \<noteq> CHR ''0''" by (auto simp: cord_def)
    with that show ?thesis by (subst num_digits_rec) simp
  qed
  moreover have "peek (num_digits n []) \<noteq> CHR ''0''" if "\<not> n < 10"
    using less.IH [of "n div 10"] that by (subst num_digits_rec) simp
  ultimately show ?case by blast
qed

lemma numeral_num_digits: "numeral_string (num_digits n [])"
  using num_digits_leading [of n] num_digits_digits [of n]
  by (cases "n = 0") (auto simp: numeral_string_def num_digits_rec [of 0])

lemma length_num_digits: "n < 10 ^ k \<Longrightarrow> 0 < k \<Longrightarrow> length (num_digits n []) \<le> k"
proof (induction k arbitrary: n)
  case (Suc k)
  show ?case
  proof (cases "n < 10")
    case False
    then have "0 < k" using Suc.prems by (cases k) auto
    moreover have "n div 10 < 10 ^ k" using Suc.prems by (simp add: less_mult_imp_div_less mult.commute)
    ultimately have "length (num_digits (n div 10) []) \<le> k" by (intro Suc.IH)
    with False show ?thesis by (subst num_digits_rec) simp
  qed (subst num_digits_rec, simp)
qed simp

text \<open>The decimal notation of an integer.\<close>

definition decimal :: "int \<Rightarrow> string" where
  "decimal i = (if i < 0 then CHR ''-'' # num_digits (nat (- i)) [] else num_digits (nat i) [])"

lemma expr_num_to_string_eq:
  "- (2 ^ 63) < i \<Longrightarrow> i < 2 ^ 63 \<Longrightarrow> expr_num_to_string i = Ok (decimal i)"
  by (simp add: expr_num_to_string_def decimal_def int64_ok_def)

section \<open>Parsing\<close>

lemma digit_of_isdigit: "isdigit d \<Longrightarrow> digit_of d = Some (int (cord d) - 48)"
  by (simp add: digit_of_def)

lemma num_loop_digits:
  assumes "list_all isdigit ds" and "0 \<le> i" and "i * 10 ^ length ds + int (dec_value ds) < 2 ^ 63"
  shows "num_loop 10 neg q src i ds =
    obind (num_sign neg (i * 10 ^ length ds + int (dec_value ds))) (\<lambda>i. Ok (kExprRet_Ok, i))"
  using assms
proof (induction ds arbitrary: i)
  case (Cons d ds)
  define v where "v = int (cord d) - 48"
  have v: "0 \<le> v" "v \<le> 9" "digit_of d = Some v"
    using Cons.prems(1) by (auto simp: v_def isdigit_def digit_of_def)
  have "int (cord d - 48) = v" using v(1) by (simp add: v_def)
  then have sum: "i * 10 ^ length (d # ds) + int (dec_value (d # ds)) =
      (i * 10 + v) * 10 ^ length ds + int (dec_value ds)"
    unfolding dec_value_Cons by (simp only: of_nat_add of_nat_mult) (simp add: distrib_right)
  have "i * 10 + v \<le> (i * 10 + v) * 10 ^ length ds"
    using Cons.prems(2) v(1) by (simp add: mult_le_cancel_left1)
  then have "i * 10 + v < 2 ^ 63" using Cons.prems(3) sum by linarith
  then have "int64_ok (i * 10)" and "int64_ok (i * 10 + v)"
    using Cons.prems(2) v(1) by (simp_all add: int64_ok_def)
  then have "num_loop 10 neg q src i (d # ds) = num_loop 10 neg q src (i * 10 + v) ds"
    using v by (subst num_loop.simps) (simp add: Let_def)
  also have "\<dots> = obind (num_sign neg ((i * 10 + v) * 10 ^ length ds + int (dec_value ds)))
      (\<lambda>i. Ok (kExprRet_Ok, i))"
    by (rule Cons.IH) (use Cons.prems v(1) sum in auto)
  finally show ?case unfolding sum .
qed (simp add: num_loop.simps)

lemma numeral_string_parse:
  assumes "numeral_string ds" and "dec_value ds < 2 ^ 63"
  shows "expr_string_to_num ds q = Ok (kExprRet_Ok, int (dec_value ds))"
    and "expr_string_to_num (CHR ''-'' # ds) q = Ok (kExprRet_Ok, - int (dec_value ds))"
proof -
  obtain d es where ds: "ds = d # es" using assms(1) by (cases ds) (auto simp: numeral_string_def)
  have digits: "list_all isdigit ds" and d: "isdigit d"
    using assms(1) ds by (auto simp: numeral_string_def)
  from d have [simp]: "\<not> ISBLANK d" "d \<noteq> CHR ''-''" by (auto simp: ctype_defs)
  have base: "num_base ds = (10, ds)"
    using assms(1) by (auto simp: ds numeral_string_def num_base_def)
  have loop: "num_loop 10 neg q src 0 ds =
      obind (num_sign neg (int (dec_value ds))) (\<lambda>i. Ok (kExprRet_Ok, i))" for neg src
    using num_loop_digits [OF digits, of 0 neg q src] assms(2) by simp
  show "expr_string_to_num ds q = Ok (kExprRet_Ok, int (dec_value ds))"
    using loop base by (simp add: expr_string_to_num_def ds num_sign_def Let_def)
  show "expr_string_to_num (CHR ''-'' # ds) q = Ok (kExprRet_Ok, - int (dec_value ds))"
    using loop base assms(2)
    by (simp add: expr_string_to_num_def num_sign_def Let_def int64_ok_def ISBLANK_def)
qed

lemma expr_string_to_num_decimal:
  assumes "- (2 ^ 63) < i" and "i < 2 ^ 63"
  shows "expr_string_to_num (decimal i) q = Ok (kExprRet_Ok, i)"
  using assms numeral_string_parse [OF numeral_num_digits, of "nat i" q]
    numeral_string_parse [OF numeral_num_digits, of "nat (- i)" q]
  by (simp add: decimal_def dec_value_num_digits nat_less_iff)

section \<open>The range of 64-bit integers\<close>

lemma int64_ok_complement: "int64_ok a \<Longrightarrow> int64_ok (- a - 1)"
  by (simp add: int64_ok_def)

lemma int64_ok_bits:
  assumes "int64_ok a" and "int64_ok b"
  shows "int64_ok (a AND b)" and "int64_ok (a OR b)" and "int64_ok (a XOR b)"
proof -
  have range: "int64_ok i \<longleftrightarrow> signed_take_bit 63 i = i" for i :: int
    by (auto simp: int64_ok_def signed_take_bit_int_eq_self_iff)
  have bits: "bit i n = bit i (min 63 n)" if "int64_ok i" for i :: int and n
    using that bit_signed_take_bit_iff [of 63 i n] unfolding range by simp
  show "int64_ok (a AND b)" and "int64_ok (a OR b)" and "int64_ok (a XOR b)"
    unfolding range
    by (rule bit_eqI; metis bits assms bit_signed_take_bit_iff bit_and_iff bit_or_iff bit_xor_iff)+
qed

lemma int64_ok_div:
  assumes "int64_ok a"
  shows "int64_ok (a div 2 ^ n)"
proof (cases "0 \<le> a")
  case True
  then have "0 \<le> a div 2 ^ n" by (simp add: pos_imp_zdiv_nonneg_iff)
  moreover have "a div 2 ^ n \<le> a" using True zdiv_mono2 [of a 1 "2 ^ n"] by simp
  ultimately show ?thesis using assms by (simp add: int64_ok_def)
next
  case False
  then have "a div 2 ^ n < 0" by (simp add: div_neg_pos_less0)
  moreover have "a \<le> a div 2 ^ n" using False zdiv_mono2_neg [of a 1 "2 ^ n"] by simp
  ultimately show ?thesis using assms by (simp add: int64_ok_def)
qed

lemma int64_ok_rem:
  assumes "int64_ok a"
  shows "int64_ok (sgn a * (\<bar>a\<bar> mod \<bar>b\<bar>))"
proof -
  have "0 \<le> \<bar>a\<bar> mod \<bar>b\<bar>" by (cases "b = 0") simp_all
  moreover have "\<bar>a\<bar> mod \<bar>b\<bar> \<le> \<bar>a\<bar>" by (rule zmod_le_nonneg_dividend) simp
  ultimately show ?thesis using assms by (cases a "0 :: int" rule: linorder_cases) (auto simp: int64_ok_def)
qed

lemma int64_ok_quot:
  assumes "int64_ok a" and "b \<noteq> 0" and "\<not> (a = - (2 ^ 63) \<and> b = - 1)"
  shows "int64_ok (sgn a * sgn b * (\<bar>a\<bar> div \<bar>b\<bar>))"
proof (cases "\<bar>b\<bar> = 1")
  case True
  then consider "b = 1" | "b = - 1" by linarith
  moreover have "sgn a * \<bar>a\<bar> = a" by (simp add: sgn_if)
  ultimately show ?thesis
    using assms by cases (auto simp: int64_ok_def)
next
  case False
  then have b: "2 \<le> \<bar>b\<bar>" using assms(2) by linarith
  define q where "q = \<bar>a\<bar> div \<bar>b\<bar>"
  have "q \<le> \<bar>a\<bar> div 2" unfolding q_def by (rule zdiv_mono2) (use b in auto)
  moreover have "0 \<le> q" unfolding q_def using b by (simp add: pos_imp_zdiv_nonneg_iff)
  ultimately have "0 \<le> q \<and> q < 2 ^ 63" using assms(1) by (auto simp: int64_ok_def)
  then show ?thesis
    unfolding q_def [symmetric] by (auto simp: int64_ok_def sgn_if)
qed

section \<open>The properties\<close>

text \<open>C18: A number that \<open>expr_num_to_string\<close> prints is read back unchanged by \<open>expr_string_to_num\<close>,
  for every 64-bit value except the smallest.\<close>

theorem expr_num_round_trip:
  assumes "- (2 ^ 63) < i" and "i < 2 ^ 63"
  shows "obind (expr_num_to_string i) (\<lambda>psz. expr_string_to_num psz fQuiet) = Ok (kExprRet_Ok, i)"
  using assms by (simp add: expr_num_to_string_eq expr_string_to_num_decimal)

theorem expr_num_round_trip_witness:
  "obind (expr_num_to_string (- 9223372036854775807)) (\<lambda>psz. expr_string_to_num psz True) =
     Ok (kExprRet_Ok, - 9223372036854775807)"
  by (rule expr_num_round_trip) simp_all

text \<open>The text of a number and its terminating zero fit the \<open>EXPR_NUM_LEN\<close> characters every
  caller of \<open>expr_num_to_string\<close> reserves.\<close>

theorem expr_num_to_string_fits:
  assumes "expr_num_to_string i = Ok s" and "int64_ok i"
  shows "length s + 1 \<le> EXPR_NUM_LEN"
proof -
  have "nat \<bar>i\<bar> < 10 ^ 19" using assms(2)
    by (auto simp: int64_ok_def nat_less_iff abs_less_iff)
  then have "length (num_digits (nat \<bar>i\<bar>) []) \<le> 19" by (rule length_num_digits) simp
  moreover have "length s \<le> length (num_digits (nat \<bar>i\<bar>) []) + 1"
    using assms(1) by (auto simp: expr_num_to_string_def Let_def mk64_def split: if_splits)
  ultimately show ?thesis by (simp add: EXPR_NUM_LEN_def)
qed

theorem expr_num_to_string_fits_witness:
  "expr_num_to_string (- 9223372036854775807) = Ok ''-9223372036854775807'' \<and>
   length ''-9223372036854775807'' + 1 \<le> EXPR_NUM_LEN"
proof -
  have "expr_num_to_string (- 9223372036854775807) = Ok ''-9223372036854775807''"
    by (simp add: expr_num_to_string_eq decimal_def num_digits.simps)
  moreover have "int64_ok (- 9223372036854775807)" by (simp add: int64_ok_def)
  ultimately show ?thesis using expr_num_to_string_fits by blast
qed

end
