(* ===== verification/ExprTree.thy ===== *)
theory ExprTree
  imports ExprLex ExprMethods ExprNum
begin

text \<open>
  The evaluator of \<open>src/kmk/expreval.c\<close> computes what the syntax tree of the expression says.

  \<open>expr_tree\<close> is the abstract syntax, \<open>print_expr\<close> its concrete syntax, \<open>well_formed\<close> the condition
  that the precedences of the operator table, left associativity and the parentheses give the text
  this tree, and \<open>eval_tree\<close> the value of the tree. The main lemma \<open>eval_tree_run\<close> follows
  \<open>expr_eval\<close> through a subexpression in any context of pending operators.
\<close>

section \<open>Syntax trees\<close>

datatype expr_tree =
    Leaf operand
  | Unary EXPROP expr_tree
  | Binary EXPROP expr_tree expr_tree
  | Paren expr_tree

text \<open>\<open>sp\<close> is the white space put around the operators.\<close>

primrec print_expr :: "string \<Rightarrow> expr_tree \<Rightarrow> string" where
  "print_expr sp (Leaf x) = operand_text x"
| "print_expr sp (Unary op e) = szOp op @ sp @ print_expr sp e"
| "print_expr sp (Binary op e1 e2) = print_expr sp e1 @ sp @ szOp op @ sp @ print_expr sp e2"
| "print_expr sp (Paren e) = ''('' @ print_expr sp e @ '')''"

primrec level :: "expr_tree \<Rightarrow> nat" where
  "level (Leaf x) = 100"
| "level (Unary op e) = 100"
| "level (Binary op e1 e2) = iPrecedence op"
| "level (Paren e) = 100"

primrec well_formed :: "expr_tree \<Rightarrow> bool" where
  "well_formed (Leaf x) \<longleftrightarrow> operand_ok x"
| "well_formed (Unary op e) \<longleftrightarrow> op \<in> set unary_ops \<and> level e = 100 \<and> well_formed e"
| "well_formed (Binary op e1 e2) \<longleftrightarrow> op \<in> set binary_ops \<and>
     iPrecedence op \<le> level e1 \<and> iPrecedence op < level e2 \<and> well_formed e1 \<and> well_formed e2"
| "well_formed (Paren e) \<longleftrightarrow> well_formed e"

text \<open>The operator and operand stack positions the evaluation of a tree uses.\<close>

primrec ops_need :: "expr_tree \<Rightarrow> nat" where
  "ops_need (Leaf x) = 1"
| "ops_need (Unary op e) = Suc (ops_need e)"
| "ops_need (Binary op e1 e2) = max (ops_need e1) (Suc (ops_need e2))"
| "ops_need (Paren e) = Suc (ops_need e)"

primrec vars_need :: "expr_tree \<Rightarrow> nat" where
  "vars_need (Leaf x) = 1"
| "vars_need (Unary op e) = vars_need e"
| "vars_need (Binary op e1 e2) = max (vars_need e1) (Suc (vars_need e2))"
| "vars_need (Paren e) = vars_need e"

text \<open>The value of an operator applied to its operands, by the method in the operator table.\<close>

definition apply1 :: "expr_env \<Rightarrow> EXPROP \<Rightarrow> EXPRVAR \<Rightarrow> EXPRVAR eres" where
  "apply1 env op v =
     (case pfn op of
        None \<Rightarrow> Undef NullDeref
      | Some f \<Rightarrow> obind (expr_call env f (bare [v])) (\<lambda>(rc, st). Ok (hd (aVars st))))"

definition apply2 :: "expr_env \<Rightarrow> EXPROP \<Rightarrow> EXPRVAR \<Rightarrow> EXPRVAR \<Rightarrow> EXPRVAR eres" where
  "apply2 env op v1 v2 =
     (case pfn op of
        None \<Rightarrow> Undef NullDeref
      | Some f \<Rightarrow> obind (expr_call env f (bare [v2, v1])) (\<lambda>(rc, st). Ok (hd (aVars st))))"

primrec eval_tree :: "expr_env \<Rightarrow> expr_tree \<Rightarrow> EXPRVAR eres" where
  "eval_tree env (Leaf x) = Ok (operand_var x)"
| "eval_tree env (Unary op e) = obind (eval_tree env e) (apply1 env op)"
| "eval_tree env (Binary op e1 e2) =
     obind (eval_tree env e1) (\<lambda>v1. obind (eval_tree env e2) (\<lambda>v2. apply2 env op v1 v2))"
| "eval_tree env (Paren e) = eval_tree env e"

section \<open>Facts of the operator table\<close>

lemma unary_op_facts:
  assumes "op \<in> set unary_ops"
  shows "cArgs op = 1" and "75 < iPrecedence op" and "iPrecedence op < 100"
    and "\<exists>f. pfn op = Some f \<and> f \<in> unary_pfns"
proof -
  have "list_all (\<lambda>op. cArgs op = 1 \<and> 75 < iPrecedence op \<and> iPrecedence op < 100 \<and>
      (case pfn op of None \<Rightarrow> False | Some f \<Rightarrow> f \<in> unary_pfns)) unary_ops"
    unfolding unary_pfns_def by code_simp
  with assms show "cArgs op = 1" and "75 < iPrecedence op" and "iPrecedence op < 100"
    and "\<exists>f. pfn op = Some f \<and> f \<in> unary_pfns"
    by (auto simp: list_all_iff split: option.splits)
qed

lemma binary_op_facts:
  assumes "op \<in> set binary_ops"
  shows "cArgs op = 2" and "10 < iPrecedence op" and "iPrecedence op \<le> 75"
    and "\<exists>f. pfn op = Some f \<and> f \<notin> unary_pfns \<and> f \<notin> paren_pfns"
proof -
  have "list_all (\<lambda>op. cArgs op = 2 \<and> 10 < iPrecedence op \<and> iPrecedence op \<le> 75 \<and>
      (case pfn op of None \<Rightarrow> False | Some f \<Rightarrow> f \<notin> unary_pfns \<and> f \<notin> paren_pfns)) binary_ops"
    unfolding unary_pfns_def paren_pfns_def by code_simp
  with assms show "cArgs op = 2" and "10 < iPrecedence op" and "iPrecedence op \<le> 75"
    and "\<exists>f. pfn op = Some f \<and> f \<notin> unary_pfns \<and> f \<notin> paren_pfns"
    by (auto simp: list_all_iff split: option.splits)
qed

lemma level_bounds: "well_formed e \<Longrightarrow> 10 < level e \<and> level e \<le> 100"
  using binary_op_facts(2,3) by (cases e) force+

lemma needs_pos: "0 < ops_need e" "0 < vars_need e"
  by (induction e) auto

section \<open>Running the evaluator over a tree\<close>

text \<open>The rest of \<open>expr_eval\<close> from the loop that pops operators on, with an operator pending.\<close>

definition reducing :: "expr_env \<Rightarrow> EXPRRET \<Rightarrow> EXPR \<Rightarrow> (EXPRRET \<times> EXPR) eres" where
  "reducing env rc pThis =
     obind (reduce_ops env rc pThis) (\<lambda>(rc, pThis).
     if rc < kExprRet_Ok then Ok (rc, pThis) else
     obind (expr_get_binary_or_eoe_or_rparen pThis) (\<lambda>(rc, pThis).
     if rc < kExprRet_Ok then Ok (rc, pThis) else
     case apOps pThis of
       [] \<Rightarrow> Undef OutOfBounds
     | pOp # ops \<Rightarrow>
         if iPrecedence pOp = 0 then Ok (rc, pThis)
         else if cArgs pOp = 0 then Fatal (UnexpectedOperator (szOp pOp))
         else expr_eval env pThis))"

lemma reduce_ops_status:
  "reduce_ops env rc st = Ok (rc, st) \<and> reduce_ops env kExprRet_Ok st = Ok (kExprRet_Ok, st) \<or>
   reduce_ops env rc st = reduce_ops env kExprRet_Ok st"
  unfolding reduce_ops.simps [of env rc st] reduce_ops.simps [of env kExprRet_Ok st]
  by (auto split: list.split option.split)

lemma reducing_status:
  "kExprRet_Ok \<le> rc \<Longrightarrow> reducing env rc st = reducing env kExprRet_Ok st"
  using reduce_ops_status [of env rc st] by (auto simp: reducing_def)

lemma expr_eval_operator:
  assumes "expr_get_unary_or_operand st = Ok (kExprRet_Operator, st')"
  shows "expr_eval env st = expr_eval env st'"
proof -
  have "eat_unary st = eat_unary st'" using assms by (subst eat_unary.simps) simp
  then show ?thesis by (subst (1 2) expr_eval.simps) simp
qed

lemma expr_eval_operand:
  assumes "expr_get_unary_or_operand st = Ok (kExprRet_Ok, st')"
    and "pPending st' = None" and "next_binary st' = Ok (q, st'')"
    and "length (apOps st') < EXPR_MAX_OPERATORS"
  shows "expr_eval env st = reducing env kExprRet_Ok (st''\<lparr>pPending := Some q\<rparr>)"
proof -
  have 1: "eat_unary st = Ok (kExprRet_Ok, st')" using assms(1) by (subst eat_unary.simps) simp
  have same: "apOps st'' = apOps st'" "pPending st'' = None"
    using assms(2) next_binary_same [OF assms(3)] by simp_all
  have 2: "expr_get_binary_or_eoe_or_rparen st' =
      Ok (if iPrecedence q \<noteq> 0 then kExprRet_Operator else kExprRet_EndOfExpr,
          st''\<lparr>apOps := q # apOps st''\<rparr>)"
    using assms(2-4) same by (simp add: expr_get_binary_or_eoe_or_rparen_def push_op_def)
  have 3: "expr_unget_op (st''\<lparr>apOps := q # apOps st''\<rparr>) = Ok (st''\<lparr>pPending := Some q\<rparr>)"
    using same by (simp add: expr_unget_op_def)
  have "expr_eval env st =
      reducing env (if iPrecedence q \<noteq> 0 then kExprRet_Operator else kExprRet_EndOfExpr)
        (st''\<lparr>pPending := Some q\<rparr>)"
    by (subst expr_eval.simps) (simp add: 1 2 3 reducing_def)
  also have "\<dots> = reducing env kExprRet_Ok (st''\<lparr>pPending := Some q\<rparr>)"
    by (rule reducing_status) simp
  finally show ?thesis .
qed

lemma expr_eval_skip:
  assumes "set ws \<subseteq> set blank_chars"
  shows "expr_eval env (st\<lparr>psz := ws @ p\<rparr>) = expr_eval env (st\<lparr>psz := p\<rparr>)"
proof -
  have "expr_get_unary_or_operand (st\<lparr>psz := ws @ p\<rparr>) = expr_get_unary_or_operand (st\<lparr>psz := p\<rparr>)"
    using skip_blank [OF assms, of p]
    by (cases "expr_lookup_op (skip_spaces p) (expr_map_get (peek (skip_spaces p))) True")
      (auto simp: expr_get_unary_or_operand_def push_op_def push_var_def Let_def split: option.split)
  then have "eat_unary (st\<lparr>psz := ws @ p\<rparr>) = eat_unary (st\<lparr>psz := p\<rparr>)"
    by (subst (1 2) eat_unary.simps) simp
  then show ?thesis by (subst (1 2) expr_eval.simps) simp
qed

text \<open>One step of the loop that pops operators, for each kind of operator on the top.\<close>

lemma reducing_unary:
  assumes "op \<in> set unary_ops" and "iPrecedence q \<le> 75"
  shows "reducing env kExprRet_Ok \<lparr>pszExpr = x, psz = K, pPending = Some q, apOps = op # S, aVars = v # V\<rparr>
    = obind (apply1 env op v) (\<lambda>v.
      reducing env kExprRet_Ok \<lparr>pszExpr = x, psz = K, pPending = Some q, apOps = S, aVars = v # V\<rparr>)"
proof -
  let ?st = "\<lambda>V. \<lparr>pszExpr = x, psz = K, pPending = Some q, apOps = S, aVars = V\<rparr>"
  from unary_op_facts [OF assms(1)] obtain f where f: "pfn op = Some f" "f \<in> unary_pfns"
    and op: "cArgs op = 1" "iPrecedence q \<le> iPrecedence op" using assms(2) by auto
  have apply1: "apply1 env op v = obind (body1 env f v) (\<lambda>(rc, v). Ok v)"
    by (simp add: apply1_def body1_def f split_def)
  have "expr_call env f (?st (v # V)) = obind (body1 env f v) (\<lambda>(rc, v). Ok (rc, ?st (v # V)))"
    using call_frame1 [OF f(2), where st = "?st []"] by simp
  then show ?thesis
    unfolding reducing_def apply1
    using f op body1_status [OF f(2), of env v]
    by (subst reduce_ops.simps) (cases "body1 env f v"; auto)
qed

lemma reducing_binary:
  assumes "op \<in> set binary_ops" and "iPrecedence q \<le> iPrecedence op"
  shows "reducing env kExprRet_Ok
      \<lparr>pszExpr = x, psz = K, pPending = Some q, apOps = op # S, aVars = v2 # v1 # V\<rparr>
    = obind (apply2 env op v1 v2) (\<lambda>v.
      reducing env kExprRet_Ok \<lparr>pszExpr = x, psz = K, pPending = Some q, apOps = S, aVars = v # V\<rparr>)"
proof -
  let ?st = "\<lambda>V. \<lparr>pszExpr = x, psz = K, pPending = Some q, apOps = S, aVars = V\<rparr>"
  from binary_op_facts [OF assms(1)] obtain f where f: "pfn op = Some f" "f \<notin> unary_pfns"
    "f \<notin> paren_pfns" and op: "cArgs op = 2" by auto
  have apply2: "apply2 env op v1 v2 = obind (body2 env f v1 v2) (\<lambda>(rc, v). Ok v)"
    by (simp add: apply2_def body2_def f split_def)
  have "expr_call env f (?st (v2 # v1 # V)) =
      obind (body2 env f v1 v2) (\<lambda>(rc, v). Ok (rc, ?st (v # V)))"
    using call_frame2 [OF f(2,3), where st = "?st []"] by simp
  then show ?thesis
    unfolding reducing_def apply2
    using f op assms(2) body2_status [OF f(2,3), of env v1 v2]
    by (subst reduce_ops.simps) (cases "body2 env f v1 v2"; auto)
qed

lemma paren_facts [simp]:
  "iPrecedence op_left_parenthesis = 10" "cArgs op_left_parenthesis = 1"
  "pfn op_left_parenthesis = Some expr_op_left_parenthesis"
  "iPrecedence op_right_parenthesis = 10" "cArgs op_right_parenthesis = 0"
  "szOp op_right_parenthesis = '')''"
  by (simp_all add: op_left_parenthesis_def op_right_parenthesis_def)

lemma reducing_paren:
  assumes "next_binary \<lparr>pszExpr = x, psz = K, pPending = None, apOps = S, aVars = v # V\<rparr> =
      Ok (q, \<lparr>pszExpr = x, psz = K', pPending = None, apOps = S, aVars = v # V\<rparr>)"
    and "length S < EXPR_MAX_OPERATORS"
  shows "reducing env kExprRet_Ok \<lparr>pszExpr = x, psz = K, pPending = Some op_right_parenthesis,
      apOps = op_left_parenthesis # S, aVars = v # V\<rparr>
    = reducing env kExprRet_Ok
      \<lparr>pszExpr = x, psz = K', pPending = Some q, apOps = S, aVars = v # V\<rparr>"
proof -
  define rc where "rc = (if iPrecedence q \<noteq> 0 then kExprRet_Operator else kExprRet_EndOfExpr)"
  define st where "st = \<lparr>pszExpr = x, psz = K', pPending = Some q, apOps = S, aVars = v # V\<rparr>"
  define st0 where "st0 = \<lparr>pszExpr = x, psz = K, pPending = Some op_right_parenthesis,
      apOps = op_left_parenthesis # S, aVars = v # V\<rparr>"
  have rc: "kExprRet_Ok \<le> rc" by (simp add: rc_def)
  have call: "op_left_parenthesis_fn (st0\<lparr>apOps := S\<rparr>) = Ok (rc, st)"
    using assms
    by (simp add: op_left_parenthesis_fn_def expr_get_binary_or_eoe_or_rparen_def push_op_def
        expr_unget_op_def st_def st0_def rc_def)
  have "reduce_ops env kExprRet_Ok st0 =
      obind (op_left_parenthesis_fn (st0\<lparr>apOps := S\<rparr>)) (\<lambda>(rc, pThis).
      if rc < kExprRet_Ok then Ok (rc, pThis) else reduce_ops env rc pThis)"
    by (subst reduce_ops.simps) (simp add: st0_def)
  also have "\<dots> = reduce_ops env rc st"
    using rc unfolding call by simp
  finally have "reducing env kExprRet_Ok st0 = reducing env rc st" by (simp only: reducing_def)
  with reducing_status [OF rc] show ?thesis by (simp add: st_def st0_def)
qed

lemma reducing_push:
  assumes "S = [] \<or> iPrecedence (hd S) < iPrecedence op" and "op \<in> set binary_ops"
    and "length S < EXPR_MAX_OPERATORS"
  shows "reducing env kExprRet_Ok \<lparr>pszExpr = x, psz = K, pPending = Some op, apOps = S, aVars = V\<rparr> =
    expr_eval env \<lparr>pszExpr = x, psz = K, pPending = None, apOps = op # S, aVars = V\<rparr>"
proof -
  have "reduce_ops env kExprRet_Ok \<lparr>pszExpr = x, psz = K, pPending = Some op, apOps = S, aVars = V\<rparr> =
      Ok (kExprRet_Ok, \<lparr>pszExpr = x, psz = K, pPending = Some op, apOps = S, aVars = V\<rparr>)"
    using assms(1) by (subst reduce_ops.simps) (auto split: list.split)
  with assms binary_op_facts [OF assms(2)] show ?thesis
    by (simp add: reducing_def expr_get_binary_or_eoe_or_rparen_def push_op_def)
qed

lemma reducing_end:
  "reducing env kExprRet_Ok \<lparr>pszExpr = x, psz = K, pPending = Some g_ExprEndOfExpOp, apOps = [], aVars = V\<rparr>
    = Ok (kExprRet_EndOfExpr,
        \<lparr>pszExpr = x, psz = K, pPending = None, apOps = [g_ExprEndOfExpOp], aVars = V\<rparr>)"
  unfolding reducing_def
  by (subst reduce_ops.simps) (simp add: expr_get_binary_or_eoe_or_rparen_def push_op_def
      EXPR_MAX_OPERATORS_def g_ExprEndOfExpOp_def)

text \<open>The text \<open>K\<close> behind a subexpression starts with the operator \<open>q\<close>, and \<open>K'\<close> follows it.\<close>

definition token_at :: "string \<Rightarrow> EXPROP \<Rightarrow> string \<Rightarrow> bool" where
  "token_at K q K' \<longleftrightarrow> operand_end K \<and> iPrecedence q \<le> 75 \<and>
     (\<forall>st. psz st = K \<longrightarrow> next_binary st = Ok (q, st\<lparr>psz := K'\<rparr>))"

lemma token_at_end: "token_at [] g_ExprEndOfExpOp []"
  by (simp add: token_at_def operand_end_def next_binary_def) (simp add: g_ExprEndOfExpOp_def)

lemma token_at_paren: "token_at (CHR '')'' # K) op_right_parenthesis K"
  using next_binary_rparen [of "[]"] by (auto simp: token_at_def operand_end_def)

lemma token_at_op:
  assumes "op \<in> set binary_ops" and "blank sp"
  shows "token_at (sp @ szOp op @ sp @ R) op (sp @ R)"
proof -
  have "operand_end (sp @ szOp op @ sp @ R)"
    using assms(2) by (auto simp: operand_end_def elim: blank_Cons)
  moreover have "set sp \<subseteq> set blank_chars" using assms(2) by (simp add: blank_def)
  ultimately show ?thesis
    using next_binary_op [OF assms] binary_op_facts(3) [OF assms(1)] by (auto simp: token_at_def)
qed

lemma eval_tree_run:
  assumes "well_formed e" and "blank sp" and "token_at K q K'" and "iPrecedence q \<le> level e"
    and "S = [] \<or> iPrecedence (hd S) < level e"
    and "length S + ops_need e \<le> EXPR_MAX_OPERATORS" and "length V + vars_need e \<le> EXPR_MAX_OPERANDS"
  shows "expr_eval env
      \<lparr>pszExpr = x, psz = print_expr sp e @ K, pPending = None, apOps = S, aVars = V\<rparr> =
    obind (eval_tree env e) (\<lambda>v. reducing env kExprRet_Ok
      \<lparr>pszExpr = x, psz = K', pPending = Some q, apOps = S, aVars = v # V\<rparr>)"
  using assms
proof (induction e arbitrary: K q K' S V)
  case (Leaf y)
  let ?st = "\<lambda>K V. \<lparr>pszExpr = x, psz = K, pPending = None, apOps = S, aVars = V\<rparr>"
  have "expr_get_unary_or_operand (?st (operand_text y @ K) V) =
      Ok (kExprRet_Ok, ?st K (operand_var y # V))"
    using get_operand_tree [of y K "?st (operand_text y @ K) V"] Leaf.prems by (simp add: token_at_def)
  moreover have "next_binary (?st K (operand_var y # V)) = Ok (q, ?st K' (operand_var y # V))"
    using Leaf.prems(3) by (simp add: token_at_def)
  ultimately show ?case
    using Leaf.prems(6) by (subst expr_eval_operand) auto
next
  case (Unary op e)
  have sp: "set sp \<subseteq> set blank_chars" using Unary.prems(2) by (simp add: blank_def)
  have op: "op \<in> set unary_ops" "iPrecedence op < 100"
    using Unary.prems(1) unary_op_facts(3) by auto
  let ?st = "\<lambda>K S. \<lparr>pszExpr = x, psz = K, pPending = None, apOps = S, aVars = V\<rparr>"
  have "expr_get_unary_or_operand (?st (szOp op @ sp @ print_expr sp e @ K) S) =
      Ok (kExprRet_Operator, ?st (sp @ print_expr sp e @ K) (op # S))"
    using get_unary_op [OF op(1) Unary.prems(2), of "?st (szOp op @ sp @ print_expr sp e @ K) S"]
      Unary.prems(6,7) needs_pos [of e] by simp
  from expr_eval_operator [OF this]
  have "expr_eval env (?st (print_expr sp (Unary op e) @ K) S) =
      expr_eval env (?st (sp @ print_expr sp e @ K) (op # S))" by simp
  also have "\<dots> = expr_eval env (?st (print_expr sp e @ K) (op # S))"
    using expr_eval_skip [OF sp, where st = "?st [] (op # S)"] by simp
  also have "\<dots> = obind (eval_tree env e) (\<lambda>v. reducing env kExprRet_Ok
      \<lparr>pszExpr = x, psz = K', pPending = Some q, apOps = op # S, aVars = v # V\<rparr>)"
    using Unary.prems op by (intro Unary.IH) (auto simp: token_at_def)
  finally show ?case
    using op Unary.prems(3) by (simp add: token_at_def reducing_unary)
next
  case (Binary op e1 e2)
  have sp: "set sp \<subseteq> set blank_chars" using Binary.prems(2) by (simp add: blank_def)
  have op: "op \<in> set binary_ops" "iPrecedence op \<le> level e1" "iPrecedence op < level e2"
    using Binary.prems(1) by auto
  let ?st = "\<lambda>K S V. \<lparr>pszExpr = x, psz = K, pPending = None, apOps = S, aVars = V\<rparr>"
  have "expr_eval env (?st (print_expr sp (Binary op e1 e2) @ K) S V) =
      obind (eval_tree env e1) (\<lambda>v1. reducing env kExprRet_Ok
        \<lparr>pszExpr = x, psz = sp @ print_expr sp e2 @ K, pPending = Some op, apOps = S, aVars = v1 # V\<rparr>)"
    using Binary.IH(1) [OF _ Binary.prems(2) token_at_op [OF op(1) Binary.prems(2)], of S V]
      Binary.prems op by auto
  also have "\<dots> = obind (eval_tree env e1) (\<lambda>v1.
      expr_eval env (?st (print_expr sp e2 @ K) (op # S) (v1 # V)))"
  proof -
    have "reducing env kExprRet_Ok
        \<lparr>pszExpr = x, psz = sp @ print_expr sp e2 @ K, pPending = Some op, apOps = S, aVars = v1 # V\<rparr> =
      expr_eval env (?st (sp @ print_expr sp e2 @ K) (op # S) (v1 # V))" for v1
      using Binary.prems(5,6) op by (intro reducing_push) auto
    moreover have "expr_eval env (?st (sp @ print_expr sp e2 @ K) (op # S) (v1 # V)) =
      expr_eval env (?st (print_expr sp e2 @ K) (op # S) (v1 # V))" for v1
      using expr_eval_skip [OF sp, where st = "?st [] (op # S) (v1 # V)"] by simp
    ultimately show ?thesis by simp
  qed
  also have "\<dots> = obind (eval_tree env e1) (\<lambda>v1. obind (eval_tree env e2) (\<lambda>v2.
      reducing env kExprRet_Ok
        \<lparr>pszExpr = x, psz = K', pPending = Some q, apOps = op # S, aVars = v2 # v1 # V\<rparr>))"
    using Binary.prems op by (subst Binary.IH(2)) (auto simp: token_at_def)
  finally show ?case
    using op Binary.prems(4) by (simp add: reducing_binary)
next
  case (Paren e)
  let ?st = "\<lambda>K S V. \<lparr>pszExpr = x, psz = K, pPending = None, apOps = S, aVars = V\<rparr>"
  have "expr_get_unary_or_operand (?st (CHR ''('' # print_expr sp e @ CHR '')'' # K) S V) =
      Ok (kExprRet_Operator, ?st (print_expr sp e @ CHR '')'' # K) (op_left_parenthesis # S) V)"
    using get_unary_lparen [of "?st (CHR ''('' # print_expr sp e @ CHR '')'' # K) S V"]
      Paren.prems(6,7) needs_pos [of e] by simp
  from expr_eval_operator [OF this]
  have "expr_eval env (?st (print_expr sp (Paren e) @ K) S V) =
      expr_eval env (?st (print_expr sp e @ CHR '')'' # K) (op_left_parenthesis # S) V)" by simp
  also have "\<dots> = obind (eval_tree env e) (\<lambda>v. reducing env kExprRet_Ok
      \<lparr>pszExpr = x, psz = K, pPending = Some op_right_parenthesis,
       apOps = op_left_parenthesis # S, aVars = v # V\<rparr>)"
    using Paren.prems level_bounds [of e] by (intro Paren.IH token_at_paren) auto
  also have "\<dots> = obind (eval_tree env e) (\<lambda>v. reducing env kExprRet_Ok
      \<lparr>pszExpr = x, psz = K', pPending = Some q, apOps = S, aVars = v # V\<rparr>)"
    using Paren.prems(3,6) by (subst reducing_paren) (auto simp: token_at_def)
  finally show ?case by simp
qed

section \<open>The properties\<close>

lemma expr_eval_tree:
  assumes "well_formed e" and "blank sp" and "ops_need e \<le> EXPR_MAX_OPERATORS"
    and "vars_need e \<le> EXPR_MAX_OPERANDS"
  shows "obind (expr_create (print_expr sp e)) (expr_eval env) =
    obind (eval_tree env e) (\<lambda>v. Ok (kExprRet_EndOfExpr,
      \<lparr>pszExpr = print_expr sp e, psz = [], pPending = None, apOps = [g_ExprEndOfExpOp], aVars = [v]\<rparr>))"
proof -
  have "iPrecedence g_ExprEndOfExpOp \<le> level e" by (simp add: g_ExprEndOfExpOp_def)
  from eval_tree_run [OF assms(1,2) token_at_end this, of "[]" "[]"] assms(3,4)
  show ?thesis by (simp add: expr_create_def expr_map_init_eq reducing_end)
qed

text \<open>An environment and a tree for the witnesses: the variable \<open>X\<close> has the value -9.\<close>

definition example_env :: expr_env where
  "example_env =
     \<lparr>allocated_variable_expand = (\<lambda>s. if s = ''$(X)'' then ''-9'' else s),
      lookup_variable = (\<lambda>s. if s = ''X'' then Some ''-9'' else None),
      stat_succeeds = (\<lambda>s. False),
      lookup_file = (\<lambda>s. None)\<rparr>"

definition named_op :: "EXPROP list \<Rightarrow> string \<Rightarrow> EXPROP" where
  "named_op ops s = hd (filter (\<lambda>op. szOp op = s) ops)"

definition example_tree :: expr_tree where
  "example_tree =
     Binary (named_op binary_ops ''=='')
       (Binary (named_op binary_ops ''*'')
         (Paren (Binary (named_op binary_ops ''+'') (Leaf (Word ''1'')) (Leaf (Word ''2''))))
         (Unary (named_op unary_ops ''-'') (Leaf (Word ''3''))))
       (Leaf (VarRef ''X''))"

lemma example_tree_facts:
  "well_formed example_tree" "blank '' ''" "ops_need example_tree \<le> EXPR_MAX_OPERATORS"
  "vars_need example_tree \<le> EXPR_MAX_OPERANDS"
  "print_expr '' '' example_tree = ''(1 + 2) * - 3 == $(X)''"
  "eval_tree example_env example_tree = Ok (Num 1)"
  by code_simp+

text \<open>C1: The value of an expression is that of its syntax tree: whatever operators, parentheses,
  variable references and quoted strings an expression is built from, if the precedences of the
  operator table, left associativity and the parentheses give its text the tree \<open>e\<close>, then
  \<open>expr_eval_to_string\<close> appends to the buffer the string of the value of \<open>e\<close>, and fails where the
  evaluation of \<open>e\<close> fails; a tree that fits the two stacks never overflows them.\<close>

theorem expr_eval_to_string_tree:
  assumes "well_formed e" and "blank sp" and "ops_need e \<le> EXPR_MAX_OPERATORS"
    and "vars_need e \<le> EXPR_MAX_OPERANDS"
  shows "expr_eval_to_string env ob (print_expr sp e) =
    obind (eval_tree env e) (\<lambda>v.
    obind (expr_var_make_simple_string env v) (\<lambda>v.
    obind (var_psz v) (\<lambda>psz. Ok (ob @ psz))))"
proof -
  have "expr_eval_to_string env ob (print_expr sp e) =
      obind (obind (expr_create (print_expr sp e)) (expr_eval env)) (\<lambda>(rc, pExpr).
        if rc \<ge> kExprRet_Ok then
          obind (first_var pExpr) (\<lambda>v.
          obind (expr_var_make_simple_string env v) (\<lambda>v.
          obind (var_psz v) (\<lambda>psz. Ok (ob @ psz))))
        else Ok (ob @ ''<expression evaluation failed>''))"
    by (simp add: expr_eval_to_string_def)
  then show ?thesis
    unfolding expr_eval_tree [OF assms] by (simp add: first_var_def)
qed

theorem expr_eval_to_string_tree_witness:
  "expr_eval_to_string example_env ''x='' ''(1 + 2) * - 3 == $(X)'' = Ok ''x=1''"
proof -
  have "expr_num_to_string 1 = Ok ''1''" by code_simp
  then show ?thesis
    using expr_eval_to_string_tree [OF example_tree_facts(1-4), of example_env "''x=''"]
    by (simp add: example_tree_facts(5,6))
qed

text \<open>C6: \<open>expr_eval_if_conditionals\<close> returns 0 if the value of the expression's syntax tree is true as a
  boolean and 1 if it is false, which is the convention of make's conditionals.\<close>

theorem expr_eval_if_conditionals_tree:
  assumes "well_formed e" and "blank sp" and "ops_need e \<le> EXPR_MAX_OPERATORS"
    and "vars_need e \<le> EXPR_MAX_OPERANDS"
  shows "expr_eval_if_conditionals env (print_expr sp e) =
    obind (eval_tree env e) (\<lambda>v.
    obind (expr_var_make_bool env v) (\<lambda>(b, v). Ok (if b \<noteq> 0 then 0 else 1)))"
proof -
  have "expr_eval_if_conditionals env (print_expr sp e) =
      obind (obind (expr_create (print_expr sp e)) (expr_eval env)) (\<lambda>(rc, pExpr).
        if rc \<ge> kExprRet_Ok then
          obind (first_var pExpr) (\<lambda>v.
          obind (expr_var_make_bool env v) (\<lambda>(b, v). Ok (if b \<noteq> 0 then 0 else 1)))
        else Ok (- 1))"
    by (simp add: expr_eval_if_conditionals_def)
  then show ?thesis
    unfolding expr_eval_tree [OF assms] by (simp add: first_var_def)
qed

theorem expr_eval_if_conditionals_tree_witness:
  "expr_eval_if_conditionals example_env ''(1 + 2) * - 3 == $(X)'' = Ok 0"
  using expr_eval_if_conditionals_tree [OF example_tree_facts(1-4), of example_env]
  by (simp add: example_tree_facts(5,6))

end
