(* ===== verification/ExprArith.thy ===== *)
theory ExprArith
  imports ExprTree
begin

text \<open>
  The arithmetic of the expression evaluator against integer arithmetic: an expression over decimal
  numbers has the value its syntax tree has over the integers, as long as every intermediate value
  fits 64 bits. \<open>int_op1\<close> and \<open>int_op2\<close> give the operators their mathematical meaning, independently of
  the methods in the operator table.
\<close>

section \<open>The integer meaning of an expression\<close>

definition fits :: "int \<Rightarrow> int option" where
  "fits i = (if int64_ok i then Some i else None)"

definition truth :: "bool \<Rightarrow> int option" where
  "truth b = Some (if b then 1 else 0)"

definition int_op1 :: "string \<Rightarrow> int \<Rightarrow> int option" where
  "int_op1 s a =
     (if s = ''+'' then Some a
      else if s = ''-'' then fits (- a)
      else if s = ''~'' then Some (- a - 1)
      else if s = ''!'' then truth (a = 0)
      else if s = ''bool'' then truth (a \<noteq> 0)
      else if s = ''num'' then Some a
      else None)"

text \<open>Division truncates towards zero, and the remainder takes the sign of the dividend.\<close>

definition int_op2 :: "string \<Rightarrow> int \<Rightarrow> int \<Rightarrow> int option" where
  "int_op2 s a b =
     (if s = ''*'' then fits (a * b)
      else if s = ''/'' then (if b = 0 then None else fits (sgn a * sgn b * (\<bar>a\<bar> div \<bar>b\<bar>)))
      else if s = ''%'' then
        (if b = 0 \<or> (a = - (2 ^ 63) \<and> b = - 1) then None else Some (sgn a * (\<bar>a\<bar> mod \<bar>b\<bar>)))
      else if s = ''+'' then fits (a + b)
      else if s = ''-'' then fits (a - b)
      else if s = ''<<'' then (if 0 \<le> a \<and> 0 \<le> b \<and> b < 64 then fits (a * 2 ^ nat b) else None)
      else if s = ''>>'' then (if 0 \<le> b \<and> b < 64 then Some (a div 2 ^ nat b) else None)
      else if s = ''<='' \<or> s = ''vle'' then truth (a \<le> b)
      else if s = ''<'' \<or> s = ''vlt'' then truth (a < b)
      else if s = ''>='' \<or> s = ''vge'' then truth (a \<ge> b)
      else if s = ''>'' \<or> s = ''vgt'' then truth (a > b)
      else if s = ''=='' then truth (a = b)
      else if s = ''!='' then truth (a \<noteq> b)
      else if s = ''&&'' then truth (a \<noteq> 0 \<and> b \<noteq> 0)
      else if s = ''||'' then truth (a \<noteq> 0 \<or> b \<noteq> 0)
      else if s = ''&'' then Some (a AND b)
      else if s = ''^'' then Some (a XOR b)
      else if s = ''|'' then Some (a OR b)
      else None)"

primrec word_value :: "operand \<Rightarrow> int option" where
  "word_value (Word s) =
     (if numeral_string s \<and> int (dec_value s) < 2 ^ 63 then Some (int (dec_value s)) else None)"
| "word_value (VarRef s) = None"
| "word_value (SQuoted s) = None"
| "word_value (DQuoted s) = None"

primrec arith_value :: "expr_tree \<Rightarrow> int option" where
  "arith_value (Leaf x) = word_value x"
| "arith_value (Unary op e) = Option.bind (arith_value e) (int_op1 (szOp op))"
| "arith_value (Binary op e1 e2) =
     Option.bind (arith_value e1) (\<lambda>a. Option.bind (arith_value e2) (int_op2 (szOp op) a))"
| "arith_value (Paren e) = arith_value e"

section \<open>Operand variables that hold a number\<close>

definition num_var :: "EXPRVAR \<Rightarrow> int \<Rightarrow> bool" where
  "num_var v a \<longleftrightarrow> int64_ok a \<and>
     (v = Num a \<or> (\<exists>s. v = SimpleString s \<and> numeral_string s \<and> a = int (dec_value s)))"

lemma num_var_cases:
  assumes "num_var v a"
  obtains (num) "v = Num a" and "int64_ok a"
  | (str) s where "v = SimpleString s" and "numeral_string s" and "a = int (dec_value s)"
      and "int64_ok a" and "\<And>q. expr_string_to_num s q = Ok (kExprRet_Ok, a)"
  using assms numeral_string_parse(1) by (auto simp: num_var_def int64_ok_def)

lemma num_var_Num: "int64_ok a \<Longrightarrow> num_var (Num a) a"
  by (simp add: num_var_def)

lemma make_num_num_var:
  "num_var v a \<Longrightarrow> expr_var_make_num env v = Ok (kExprRet_Ok, Num a)"
  "num_var v a \<Longrightarrow> expr_var_try_make_num env v = Ok (kExprRet_Ok, Num a)"
  by (auto elim!: num_var_cases simp: simple_string_to_num_def expr_var_assign_num_def
      expr_var_init_num_def)

lemma numeral_not_blank: "numeral_string s \<Longrightarrow> dropWhile ISBLANK s = s \<and> s \<noteq> []"
  by (cases s) (auto simp: numeral_string_def ctype_defs)

lemma make_bool_num_var:
  "num_var v a \<Longrightarrow> expr_var_make_bool env v =
     Ok (if a \<noteq> 0 then 1 else 0, Num (if a \<noteq> 0 then 1 else 0))"
  by (auto elim!: num_var_cases simp: simple_string_to_bool_def numeral_not_blank Let_def
      expr_var_assign_bool_def expr_var_init_bool_def)

lemma unify_num_var:
  assumes "num_var v1 a" and "num_var v2 b"
  shows "expr_var_unify_types env v1 v2 s = Ok (kExprRet_Ok, Num a, Num b)"
  using assms(1)
proof (cases rule: num_var_cases)
  case num
  from assms(2) show ?thesis
    by (cases rule: num_var_cases)
      (simp_all add: num expr_var_unify_types_def expr_var_was_quoted_def expr_var_is_string_def
        less_eq_EXPRVARTYPE_def simple_string_to_num_def expr_var_assign_num_def
        expr_var_init_num_def)
next
  case (str s)
  from assms(2) show ?thesis
    by (cases rule: num_var_cases)
      (simp_all add: str expr_var_unify_types_def expr_var_was_quoted_def expr_var_is_string_def
        less_eq_EXPRVARTYPE_def simple_string_to_num_def expr_var_assign_num_def
        expr_var_init_num_def)
qed

lemma try_make_nums_num_var:
  "num_var v1 a \<Longrightarrow> num_var v2 b \<Longrightarrow> try_make_nums env v1 v2 = Ok (True, Num a, Num b)"
  by (simp add: try_make_nums_def make_num_num_var)

lemma equal_body_num_var:
  assumes "num_var v1 a" and "num_var v2 b"
  shows "\<exists>v2'. equal_body env v1 v2 = Ok (kExprRet_Ok, Num (if a = b then 1 else 0), v2')"
  using assms(1)
proof (cases rule: num_var_cases)
  case num
  from assms(2) show ?thesis
    by (cases rule: num_var_cases)
      (use assms in \<open>simp_all add: num equal_body_def expr_var_is_string_def less_eq_EXPRVARTYPE_def
        try_make_nums_num_var expr_var_assign_bool_def expr_var_init_bool_def\<close>)
next
  case (str s)
  from assms(2) show ?thesis
    by (cases rule: num_var_cases)
      (use assms in \<open>auto simp: str equal_body_def expr_var_is_string_def less_eq_EXPRVARTYPE_def
        try_make_nums_num_var expr_var_assign_bool_def expr_var_init_bool_def\<close>)
qed

section \<open>The operators\<close>

lemma apply_EXPR_OP [simp]:
  "szOp (EXPR_OP s p n f) = s"
  "apply1 env (EXPR_OP s p n f) v = obind (expr_call env f (bare [v])) (\<lambda>(rc, st). Ok (hd (aVars st)))"
  "apply2 env (EXPR_OP s p n f) v1 v2 =
     obind (expr_call env f (bare [v2, v1])) (\<lambda>(rc, st). Ok (hd (aVars st)))"
  by (simp_all add: EXPR_OP_def apply1_def apply2_def)

lemma with_top_bare:
  "obind (with_top (bare [v]) g) (\<lambda>(rc, st). Ok (hd (aVars st))) = obind (g v) (\<lambda>(rc, v). Ok v)"
  by (simp add: with_top_def split_def)

lemma with_top2_bare:
  "obind (with_top2 (bare [v2, v1]) g) (\<lambda>(rc, st). Ok (hd (aVars st))) =
     obind (g v1 v2) (\<lambda>(rc, v1, v2). Ok v1)"
  by (simp add: with_top2_def expr_pop_and_delete_var_def split_def)

lemma unary_ops_eq:
  "unary_ops =
    [EXPR_OP ''defined'' 90 1 expr_op_defined, EXPR_OP ''exists'' 90 1 expr_op_exists,
     EXPR_OP ''target'' 90 1 expr_op_target, EXPR_OP ''bool'' 90 1 expr_op_bool,
     EXPR_OP ''num'' 90 1 expr_op_num, EXPR_OP ''strlen'' 90 1 expr_op_strlen,
     EXPR_OP ''str'' 90 1 expr_op_str, EXPR_OP ''+'' 80 1 expr_op_pluss,
     EXPR_OP ''-'' 80 1 expr_op_minus, EXPR_OP ''~'' 80 1 expr_op_bitwise_not,
     EXPR_OP ''!'' 80 1 expr_op_logical_not]"
  by (simp add: unary_ops_def g_aExprOps_def EXPR_OP_def op_left_parenthesis_def op_right_parenthesis_def)

lemma apply1_num_var:
  assumes "op \<in> set unary_ops" and "num_var v a" and "int_op1 (szOp op) a = Some c"
  shows "\<exists>v'. apply1 env op v = Ok v' \<and> num_var v' c"
proof -
  have "expr_var_make_num env (case v of QuotedSimpleString s \<Rightarrow> SimpleString s
      | QuotedString s \<Rightarrow> String s | _ \<Rightarrow> v) = Ok (kExprRet_Ok, Num a)"
    using assms(2) make_num_num_var(1) [OF assms(2), of env] by (auto elim!: num_var_cases)
  moreover have "int64_ok a" using assms(2) by (simp add: num_var_def)
  ultimately show ?thesis
    using assms(1,3) make_num_num_var(1) [OF assms(2)] make_bool_num_var [OF assms(2)]
    unfolding unary_ops_eq
    by (auto simp: int_op1_def with_top_bare unary_op_defs fits_def truth_def num_var_Num
        int64_ok_complement not_eq_complement split: if_splits)
qed

lemma binary_ops_eq:
  "binary_ops =
    [EXPR_OP ''*'' 75 2 expr_op_multiply, EXPR_OP ''/'' 75 2 expr_op_divide,
     EXPR_OP ''%'' 75 2 expr_op_modulus, EXPR_OP ''+'' 70 2 expr_op_add,
     EXPR_OP ''-'' 70 2 expr_op_sub, EXPR_OP ''<<'' 65 2 expr_op_shift_left,
     EXPR_OP ''>>'' 65 2 expr_op_shift_right, EXPR_OP ''<='' 60 2 expr_op_less_or_equal_than,
     EXPR_OP ''<'' 60 2 expr_op_less_than, EXPR_OP ''>='' 60 2 expr_op_greater_or_equal_than,
     EXPR_OP ''>'' 60 2 expr_op_greater_than, EXPR_OP ''vle'' 60 2 expr_op_ver_less_or_equal_than,
     EXPR_OP ''vlt'' 60 2 expr_op_ver_less_than,
     EXPR_OP ''vge'' 60 2 expr_op_ver_greater_or_equal_than,
     EXPR_OP ''vgt'' 60 2 expr_op_ver_greater_than, EXPR_OP ''=='' 55 2 expr_op_equal,
     EXPR_OP ''veq'' 55 2 expr_op_ver_equal, EXPR_OP ''!='' 55 2 expr_op_not_equal,
     EXPR_OP ''vne'' 55 2 expr_op_ver_not_equal, EXPR_OP ''^'' 45 2 expr_op_bitwise_xor,
     EXPR_OP ''&&'' 35 2 expr_op_logical_and, EXPR_OP ''&'' 50 2 expr_op_bitwise_and,
     EXPR_OP ''||'' 30 2 expr_op_logical_or, EXPR_OP ''|'' 40 2 expr_op_bitwise_or]"
  by (simp add: binary_ops_def g_aExprOps_def EXPR_OP_def op_left_parenthesis_def op_right_parenthesis_def)

text \<open>The bodies of the binary operators on operands that hold \<open>a\<close> and \<open>b\<close>.\<close>

lemma arith_body_num_var:
  assumes "num_var v1 a" and "num_var v2 b" and "f a b = Ok c \<and> int64_ok c"
  shows "\<exists>v. obind (arith_body env f v1 v2) (\<lambda>(rc, v1, v2). Ok v1) = Ok v \<and> num_var v c"
  using assms by (simp add: arith_body_def make_num_num_var num_var_Num)

lemma bitwise_body_num_var:
  assumes "num_var v1 a" and "num_var v2 b" and "c = f a b" and "int64_ok c"
  shows "\<exists>v. obind (bitwise_body env f v1 v2) (\<lambda>(rc, v1, v2). Ok v1) = Ok v \<and> num_var v c"
  using assms by (simp add: bitwise_body_def arith_body_def make_num_num_var num_var_Num)

lemma compare_body_num_var:
  assumes "num_var v1 a" and "num_var v2 b" and "c = (if fi a b then 1 else 0)"
  shows "\<exists>v. obind (compare_body env s fi fs v1 v2) (\<lambda>(rc, v1, v2). Ok v1) = Ok v \<and> num_var v c"
  using assms
  by (simp add: compare_body_def unify_num_var expr_var_is_string_def less_eq_EXPRVARTYPE_def
      expr_var_assign_bool_def expr_var_init_bool_def num_var_Num)

lemma logical_body_num_var:
  assumes "num_var v1 a" and "num_var v2 b"
  shows "c = (if a \<noteq> 0 \<and> b \<noteq> 0 then 1 else 0) \<Longrightarrow>
      \<exists>v. obind (logical_and_body env v1 v2) (\<lambda>(rc, v1, v2). Ok v1) = Ok v \<and> num_var v c"
    and "c = (if a \<noteq> 0 \<or> b \<noteq> 0 then 1 else 0) \<Longrightarrow>
      \<exists>v. obind (logical_or_body env v1 v2) (\<lambda>(rc, v1, v2). Ok v1) = Ok v \<and> num_var v c"
  using assms
  by (simp_all add: logical_and_body_def logical_or_body_def make_bool_num_var num_var_Num
      expr_var_assign_bool_def expr_var_init_bool_def)

lemma equality_num_var:
  assumes "num_var v1 a" and "num_var v2 b"
  shows "c = (if a = b then 1 else 0) \<Longrightarrow>
      \<exists>v. obind (equal_body env v1 v2) (\<lambda>(rc, v1, v2). Ok v1) = Ok v \<and> num_var v c"
    and "c = (if a \<noteq> b then 1 else 0) \<Longrightarrow>
      \<exists>v. obind (op_not_equal env (bare [v2, v1])) (\<lambda>(rc, st). Ok (hd (aVars st))) = Ok v \<and> num_var v c"
proof -
  obtain v2' where eq: "equal_body env v1 v2 = Ok (kExprRet_Ok, Num (if a = b then 1 else 0), v2')"
    using equal_body_num_var [OF assms] by blast
  then show "c = (if a = b then 1 else 0) \<Longrightarrow>
      \<exists>v. obind (equal_body env v1 v2) (\<lambda>(rc, v1, v2). Ok v1) = Ok v \<and> num_var v c"
    by (simp add: num_var_Num)
  from eq show "c = (if a \<noteq> b then 1 else 0) \<Longrightarrow>
      \<exists>v. obind (op_not_equal env (bare [v2, v1])) (\<lambda>(rc, st). Ok (hd (aVars st))) = Ok v \<and> num_var v c"
    by (simp add: op_not_equal_def op_equal_def with_top2_def expr_pop_and_delete_var_def
        op_logical_not_def with_top_def num_var_Num)
qed

text \<open>The operators of C on \<open>long long\<close> against the integers.\<close>

lemma c_ops:
  assumes "int64_ok a" and "int64_ok b"
  shows "fits (a * b) = Some c \<Longrightarrow> c_mul a b = Ok c \<and> int64_ok c"
    and "fits (a + b) = Some c \<Longrightarrow> c_add a b = Ok c \<and> int64_ok c"
    and "fits (a - b) = Some c \<Longrightarrow> c_sub a b = Ok c \<and> int64_ok c"
    and "b \<noteq> 0 \<Longrightarrow> fits (sgn a * sgn b * (\<bar>a\<bar> div \<bar>b\<bar>)) = Some c \<Longrightarrow> c_div a b = Ok c \<and> int64_ok c"
    and "b \<noteq> 0 \<Longrightarrow> \<not> (a = - (2 ^ 63) \<and> b = - 1) \<Longrightarrow>
      c_mod a b = Ok (sgn a * (\<bar>a\<bar> mod \<bar>b\<bar>)) \<and> int64_ok (sgn a * (\<bar>a\<bar> mod \<bar>b\<bar>))"
    and "0 \<le> a \<Longrightarrow> 0 \<le> b \<Longrightarrow> b < 64 \<Longrightarrow> c_shl a b = mk64 (a * 2 ^ nat b)"
    and "0 \<le> b \<Longrightarrow> b < 64 \<Longrightarrow> c_shr a b = Ok (a div 2 ^ nat b) \<and> int64_ok (a div 2 ^ nat b)"
  using assms int64_ok_quot [of a b] int64_ok_rem [of a b] int64_ok_div [of a "nat b"]
  by (auto simp: fits_def c_mul_def c_add_def c_sub_def c_div_def c_mod_def c_shl_def c_shr_def
      mk64_def signed_divide_int_def signed_modulo_int_def push_bit_eq_mult drop_bit_eq_div
      split: if_splits)

lemma apply2_num_var:
  assumes "op \<in> set binary_ops" and "num_var v1 a" and "num_var v2 b"
    and "int_op2 (szOp op) a b = Some c"
  shows "\<exists>v. apply2 env op v1 v2 = Ok v \<and> num_var v c"
proof -
  have ok: "int64_ok a" "int64_ok b" using assms(2,3) by (simp_all add: num_var_def)
  note bodies = arith_body_num_var [OF assms(2,3)] bitwise_body_num_var [OF assms(2,3)]
    compare_body_num_var [OF assms(2,3)] logical_body_num_var [OF assms(2,3)]
    equality_num_var [OF assms(2,3)]
  from assms(1,4) show ?thesis
    unfolding binary_ops_eq list.set
    by (elim insertE emptyE)
      (simp_all only: apply_EXPR_OP expr_call.simps binary_op_defs with_top2_bare,
       auto simp: int_op2_def truth_def int64_ok_bits ok with_top2_bare binary_op_defs fits_def
         c_ops(5-7) [OF ok] intro!: bodies c_ops(1-4) [OF ok] split: if_splits)
qed

section \<open>The properties\<close>

lemma arith_value_eval:
  "well_formed e \<Longrightarrow> arith_value e = Some i \<Longrightarrow> \<exists>v. eval_tree env e = Ok v \<and> num_var v i"
proof (induction e arbitrary: i)
  case (Leaf x)
  then show ?case by (cases x) (auto simp: num_var_def int64_ok_def split: if_splits)
next
  case (Unary op e)
  then obtain a v where "arith_value e = Some a" "int_op1 (szOp op) a = Some i"
    "eval_tree env e = Ok v" "num_var v a" by (auto simp: bind_eq_Some_conv)
  then show ?case using apply1_num_var [of op v a i env] Unary.prems(1) by simp
next
  case (Binary op e1 e2)
  then obtain a v1 b v2 where "int_op2 (szOp op) a b = Some i"
    "eval_tree env e1 = Ok v1" "num_var v1 a" "eval_tree env e2 = Ok v2" "num_var v2 b"
    by (fastforce simp: bind_eq_Some_conv)
  then show ?case using apply2_num_var [of op v1 a v2 b i env] Binary.prems(1) by simp
qed simp

lemma digit_char: "isdigit d \<Longrightarrow> ''0123456789abcdef'' ! (cord d - 48) = d"
  using decimal_digit(2) [of "cord d - 48"] by (auto simp: isdigit_def simp flip: cord_inject)

text \<open>A numeral is the decimal notation of its value.\<close>

lemma num_digits_numeral: "numeral_string s \<Longrightarrow> num_digits (dec_value s) [] = s"
proof (induction s rule: rev_induct)
  case Nil
  then show ?case by (simp add: numeral_string_def)
next
  case (snoc d t)
  then have d: "isdigit d" "cord d - 48 < 10" and t: "list_all isdigit t"
    by (auto simp: numeral_string_def isdigit_def)
  have val: "dec_value (t @ [d]) = 10 * dec_value t + (cord d - 48)"
    by (simp add: dec_value_append dec_value_Cons)
  show ?case
  proof (cases "t = []")
    case True
    with d val show ?thesis by (subst num_digits_rec) (simp add: digit_char)
  next
    case False
    then obtain c t' where t': "t = c # t'" by (cases t) auto
    with snoc.prems have "c \<noteq> CHR ''0''" by (auto simp: numeral_string_def)
    with t' t have "numeral_string t" and "10 ^ length t' \<le> dec_value t"
      using dec_value_ge [of c t'] by (auto simp: numeral_string_def)
    moreover have "(1 :: nat) \<le> 10 ^ length t'" by simp
    ultimately have "num_digits (dec_value t) [] = t" and "1 \<le> dec_value t"
      using snoc.IH by linarith+
    with d val show ?thesis by (subst num_digits_rec) (simp add: digit_char)
  qed
qed

lemma make_simple_num_var:
  assumes "num_var v i" and "- (2 ^ 63) < i"
  shows "obind (expr_var_make_simple_string env v) var_psz = Ok (decimal i)"
  using assms(1)
proof (cases rule: num_var_cases)
  case num
  with assms(2) show ?thesis by (simp add: expr_num_to_string_eq int64_ok_def)
next
  case (str s)
  then show ?thesis by (simp add: decimal_def num_digits_numeral)
qed

text \<open>C2: An expression over decimal numbers evaluates to the decimal notation of its integer value:
  if the syntax tree of the expression has the value \<open>i\<close> over the integers, with every intermediate
  value in 64 bits and no division by zero or shift out of range, then
  \<open>expr_eval_to_string\<close> appends the numeral of \<open>i\<close>.\<close>

theorem expr_eval_to_string_arith:
  assumes "well_formed e" and "blank sp" and "ops_need e \<le> EXPR_MAX_OPERATORS"
    and "vars_need e \<le> EXPR_MAX_OPERANDS" and "arith_value e = Some i" and "- (2 ^ 63) < i"
  shows "expr_eval_to_string env ob (print_expr sp e) = Ok (ob @ decimal i)"
proof -
  obtain v where v: "eval_tree env e = Ok v" "num_var v i"
    using arith_value_eval [OF assms(1,5)] by blast
  have "expr_eval_to_string env ob (print_expr sp e) =
      obind (obind (expr_var_make_simple_string env v) var_psz) (\<lambda>psz. Ok (ob @ psz))"
    using expr_eval_tree [OF assms(1-4), of env] v(1)
    by (simp add: expr_eval_to_string_def expr_create_def expr_map_init_eq first_var_def)
  with make_simple_num_var [OF v(2) assms(6), of env] show ?thesis by simp
qed

text \<open>C9: A condition over decimal numbers is true, in make's convention 0, exactly when its integer
  value is not zero.\<close>

theorem expr_eval_if_conditionals_arith:
  assumes "well_formed e" and "blank sp" and "ops_need e \<le> EXPR_MAX_OPERATORS"
    and "vars_need e \<le> EXPR_MAX_OPERANDS" and "arith_value e = Some i"
  shows "expr_eval_if_conditionals env (print_expr sp e) = Ok (if i \<noteq> 0 then 0 else 1)"
proof -
  obtain v where v: "eval_tree env e = Ok v" "num_var v i"
    using arith_value_eval [OF assms(1,5)] by blast
  have "expr_eval_if_conditionals env (print_expr sp e) =
      obind (expr_var_make_bool env v) (\<lambda>(b, v). Ok (if b \<noteq> 0 then 0 else 1))"
    using expr_eval_tree [OF assms(1-4), of env] v(1)
    by (simp add: expr_eval_if_conditionals_def expr_create_def expr_map_init_eq first_var_def)
  with make_bool_num_var [OF v(2), of env] show ?thesis by simp
qed

definition example_sum :: expr_tree where
  "example_sum =
     Binary (named_op binary_ops ''-'')
       (Binary (named_op binary_ops ''+'') (Leaf (Word ''10''))
         (Binary (named_op binary_ops ''*'') (Leaf (Word ''20'')) (Leaf (Word ''30''))))
       (Paren (Binary (named_op binary_ops ''<<'') (Leaf (Word ''1'')) (Leaf (Word ''10''))))"

lemma example_sum_facts:
  "well_formed example_sum" "blank '' ''" "ops_need example_sum \<le> EXPR_MAX_OPERATORS"
  "vars_need example_sum \<le> EXPR_MAX_OPERANDS"
  "print_expr '' '' example_sum = ''10 + 20 * 30 - (1 << 10)''"
  "arith_value example_sum = Some (- 414)"
  by code_simp+

lemma decimal_example: "decimal (- 414) = ''-414''"
  by (simp add: decimal_def num_digits.simps)

theorem expr_eval_to_string_arith_witness:
  "expr_eval_to_string example_env [] ''10 + 20 * 30 - (1 << 10)'' = Ok ''-414''"
  using expr_eval_to_string_arith [OF example_sum_facts(1-4,6), of example_env "[]"]
  by (simp add: example_sum_facts(5) decimal_example)

theorem expr_eval_if_conditionals_arith_witness:
  "expr_eval_if_conditionals example_env ''10 + 20 * 30 - (1 << 10)'' = Ok 0"
  using expr_eval_if_conditionals_arith [OF example_sum_facts(1-4,6), of example_env]
  by (simp add: example_sum_facts(5))

end
