(* ===== verification/ExprSafe.thy ===== *)
theory ExprSafe
  imports ExprLex ExprMethods ExprNum
begin

text \<open>
  Safety of the expression evaluator (\<open>src/kmk/expreval.c\<close>) on every input. The values of operands are
  well-formed (\<open>var_ok\<close>), the operand stack always has one entry more than there are binary operators
  on the operator stack when an operand has just been read, and so no operator finds too few
  operands, no assertion fails, no union member is misread and no null pointer is followed. What
  remains are the undefined integer operations and, for texts long enough, the two overruns of an
  array that the source does not check correctly.
\<close>

section \<open>Well-formed operands\<close>

definition var_ok :: "EXPRVAR \<Rightarrow> bool" where
  "var_ok v = (case v of
      Invalid \<Rightarrow> False
    | Num i \<Rightarrow> int64_ok i
    | String s \<Rightarrow> CHR ''$'' \<in> set s
    | QuotedString s \<Rightarrow> CHR ''$'' \<in> set s
    | SimpleString s \<Rightarrow> True
    | QuotedSimpleString s \<Rightarrow> True)"

lemma var_ok_simps [simp]:
  "\<not> var_ok Invalid" "var_ok (Num i) \<longleftrightarrow> int64_ok i" "var_ok (String s) \<longleftrightarrow> CHR ''$'' \<in> set s"
  "var_ok (QuotedString s) \<longleftrightarrow> CHR ''$'' \<in> set s" "var_ok (SimpleString s)"
  "var_ok (QuotedSimpleString s)"
  by (simp_all add: var_ok_def)

text \<open>The faults of 64-bit arithmetic.\<close>

definition arith_faults :: "fault set" where
  "arith_faults = {SignedOverflow, DivByZero, ShiftRange}"

lemma arith_faults [simp]:
  "SignedOverflow \<in> arith_faults" "DivByZero \<in> arith_faults" "ShiftRange \<in> arith_faults"
  by (simp_all add: arith_faults_def)

lemma safe_mk64_arith [safe_rules]: "safe arith_faults int64_ok (mk64 i)"
  by (simp add: safe_mk64)

lemma num_to_string_safe [safe_rules]: "safe arith_faults (\<lambda>s. True) (expr_num_to_string i)"
  by (auto simp: expr_num_to_string_def Let_def mk64_def)

lemma num_sign_safe: "int64_ok i \<Longrightarrow> safe arith_faults int64_ok (num_sign neg i)"
  by (simp add: num_sign_def safe_mk64)

lemma num_loop_safe:
  "int64_ok i \<Longrightarrow> safe arith_faults (\<lambda>(rc, i). int64_ok i) (num_loop b neg q src i p)"
proof (induction b neg q src i p rule: num_loop.induct)
  case (1 uBase fNegative fQuiet pszSrc i psz)
  have "safe arith_faults (\<lambda>(rc, i). int64_ok i) (obind (num_sign fNegative i) (\<lambda>i. Ok (rc, i)))" for rc
    using num_sign_safe [OF "1.prems", of fNegative] by (rule safe_obind) simp
  moreover have "safe arith_faults (\<lambda>(rc, i). int64_ok i) (obind (num_sign fNegative i) (\<lambda>i.
      if \<not> fQuiet then Fatal (InvalidNumber (take 80 pszSrc)) else Ok (kExprRet_Error, i)))"
    using num_sign_safe [OF "1.prems", of fNegative] by (rule safe_obind) simp
  moreover have "safe arith_faults (\<lambda>(rc, i). int64_ok i)
      (obind (mk64 (i * uBase)) (\<lambda>i. obind (mk64 (i + d)) (\<lambda>i. num_loop uBase fNegative fQuiet pszSrc i rest)))"
    if "psz = ch # rest" "digit_of ch = Some d" "\<not> uBase \<le> d" for ch rest d
    by (rule safe_obind [OF safe_mk64_arith], rule safe_obind [OF safe_mk64_arith])
      (use "1.IH" that in \<open>auto simp: mk64_def split: if_splits\<close>)
  ultimately show ?case
    by (subst num_loop.simps) (auto simp: Let_def split: list.split option.split)
qed

lemma string_to_num_safe [safe_rules]:
  "safe arith_faults (\<lambda>(rc, i). int64_ok i) (expr_string_to_num s q)"
proof -
  have "int64_ok 0" by (simp add: int64_ok_def)
  then show ?thesis
    unfolding expr_string_to_num_def Let_def by (auto simp: num_loop_safe split: prod.split)
qed

lemma make_simple_safe [safe_rules]:
  "var_ok v \<Longrightarrow> safe arith_faults
     (\<lambda>v'. (\<exists>s. v' = SimpleString s \<or> v' = QuotedSimpleString s) \<and>
       (expr_var_was_quoted v' \<longleftrightarrow> expr_var_was_quoted v)) (expr_var_make_simple_string env v)"
  by (cases v) (auto simp: expr_var_was_quoted_def less_eq_EXPRVARTYPE_def
      intro!: safe_obind [OF num_to_string_safe])

lemma simple_string_to_num_safe:
  "safe arith_faults (\<lambda>(rc, v'). var_ok v' \<and> (rc \<noteq> kExprRet_Error \<longrightarrow> (\<exists>i. v' = Num i)))
     (simple_string_to_num q s)"
  unfolding simple_string_to_num_def
  by (rule safe_obind [OF string_to_num_safe])
    (auto simp: expr_var_assign_num_def expr_var_init_num_def)

lemma make_num_safe [safe_rules]:
  assumes "var_ok v"
  shows "safe arith_faults (\<lambda>(rc, v'). rc = kExprRet_Ok \<and> (\<exists>i. v' = Num i \<and> int64_ok i))
    (expr_var_make_num env v)"
proof -
  have "safe arith_faults (\<lambda>(rc, v'). var_ok v') (expr_var_make_num env v)"
    using assms by (cases v) (auto intro: safe_weaken [OF simple_string_to_num_safe])
  then show ?thesis by (rule safe_weaken) (auto dest: make_num_Ok)
qed

lemma try_make_num_safe [safe_rules]:
  "var_ok v \<Longrightarrow> safe arith_faults (\<lambda>(rc, v'). var_ok v' \<and> (rc \<noteq> kExprRet_Error \<longrightarrow> (\<exists>i. v' = Num i)))
     (expr_var_try_make_num env v)"
  by (cases v) (auto intro: simple_string_to_num_safe)

lemma simple_string_to_bool_safe:
  "safe arith_faults (\<lambda>v. v = Num 0 \<or> v = Num 1) (simple_string_to_bool s)"
  unfolding simple_string_to_bool_def Let_def
  by (auto simp: expr_var_assign_bool_def expr_var_init_bool_def intro!: safe_obind [OF string_to_num_safe])

lemma make_bool_safe [safe_rules]:
  assumes "var_ok v"
  shows "safe arith_faults (\<lambda>(b, v'). v' = Num b \<and> int64_ok b) (expr_var_make_bool env v)"
proof -
  have 1: "safe arith_faults (\<lambda>(b, v'). v' = Num b \<and> int64_ok b)
      (obind (simple_string_to_bool s) (\<lambda>v. obind (var_i v) (\<lambda>i. Ok (i, v))))" for s
    by (rule safe_obind [OF simple_string_to_bool_safe]) (auto simp: int64_ok_def)
  then show ?thesis
    using assms
    by (cases v) (auto simp: int64_ok_def expr_var_assign_bool_def expr_var_init_bool_def Let_def)
qed

lemma not_string_cases:
  assumes "var_ok v" and "\<not> expr_var_is_string v"
  obtains i where "v = Num i" and "int64_ok i"
  using assms by (cases v) (auto simp: expr_var_is_string_def less_eq_EXPRVARTYPE_def)

lemma string_var_psz:
  assumes "expr_var_is_string v"
  obtains s where "var_psz v = Ok s"
  using assms by (cases v) (auto simp: expr_var_is_string_def less_eq_EXPRVARTYPE_def)

lemma unify_safe:
  assumes "var_ok v1" and "var_ok v2"
  shows "safe arith_faults (\<lambda>(rc, w1, w2). var_ok w1 \<and> var_ok w2 \<and>
      (expr_var_is_string w1 \<longleftrightarrow> expr_var_is_string w2)) (expr_var_unify_types env v1 v2 s)"
proof -
  have simple: "safe arith_faults (\<lambda>(w1, w2). var_ok w1 \<and> var_ok w2)
      (obind (expr_var_make_simple_string env v1) (\<lambda>v1.
       obind (expr_var_make_simple_string env v2) (\<lambda>v2. Ok (v1, v2))))"
    by (rule safe_obind [OF make_simple_safe [OF assms(1)]],
        rule safe_obind [OF make_simple_safe [OF assms(2)]]) auto
  have both: "safe arith_faults (\<lambda>(w1, w2). var_ok w1 \<and> var_ok w2)
      (obind (expr_var_make_simple_string env v1) (\<lambda>v1.
       obind (expr_var_make_simple_string env v2) (\<lambda>v2.
       obind (var_psz v1) (\<lambda>psz1. obind (var_psz v2) (\<lambda>psz2.
       obind (expr_string_to_num psz1 True) (\<lambda>(rc1, iVar1).
       if rc1 \<ge> kExprRet_Ok then
         obind (expr_string_to_num psz2 True) (\<lambda>(rc2, iVar2).
         if rc2 \<ge> kExprRet_Ok then
           Ok (expr_var_assign_num v1 iVar1, expr_var_assign_num v2 iVar2)
         else Ok (v1, v2))
       else Ok (v1, v2)))))))"
    by (rule safe_obind [OF make_simple_safe [OF assms(1)]],
        rule safe_obind [OF make_simple_safe [OF assms(2)]])
      (auto simp: expr_var_assign_num_def expr_var_init_num_def
        intro!: safe_obind [OF string_to_num_safe])
  have num1: "safe arith_faults (\<lambda>(w1, w2). var_ok w1 \<and> var_ok w2)
      (obind (expr_var_try_make_num env v1) (\<lambda>(rc, v1). Ok (v1, v2)))"
    by (rule safe_obind [OF try_make_num_safe [OF assms(1)]]) (auto simp: assms)
  have num2: "safe arith_faults (\<lambda>(w1, w2). var_ok w1 \<and> var_ok w2)
      (obind (expr_var_try_make_num env v2) (\<lambda>(rc, v2). Ok (v1, v2)))"
    by (rule safe_obind [OF try_make_num_safe [OF assms(2)]]) (auto simp: assms)
  have same: "safe arith_faults (\<lambda>(w1, w2). var_ok w1 \<and> var_ok w2) (Ok (v1, v2))"
    using assms by simp
  show ?thesis
    unfolding expr_var_unify_types_def
    by (rule safe_obind [where P = "\<lambda>(w1, w2). var_ok w1 \<and> var_ok w2"])
      (use simple both num1 num2 same in \<open>auto intro!: safe_if\<close>)
qed

section \<open>Safe operators\<close>

text \<open>\<open>body_ok v\<close> is what a binary operator leaves in its first operand.\<close>

abbreviation body_ok :: "EXPRRET \<times> EXPRVAR \<times> EXPRVAR \<Rightarrow> bool" where
  "body_ok \<equiv> \<lambda>(rc, w1, w2). var_ok w1"

lemma bool_ok [simp]: "var_ok (expr_var_assign_bool v b)"
  by (simp add: expr_var_assign_bool_def expr_var_init_bool_def int64_ok_def)

lemma arith_body_safe:
  assumes "var_ok v1" and "var_ok v2"
    and "\<And>a b. int64_ok a \<Longrightarrow> int64_ok b \<Longrightarrow> safe arith_faults int64_ok (f a b)"
  shows "safe arith_faults body_ok (arith_body env f v1 v2)"
  unfolding arith_body_def
  by (rule safe_obind [OF make_num_safe [OF assms(1)]])
    (auto intro!: safe_obind [OF make_num_safe [OF assms(2)]] safe_obind [OF assms(3)])

lemma compare_body_safe:
  assumes "var_ok v1" and "var_ok v2"
  shows "safe arith_faults body_ok (compare_body env s fi fs v1 v2)"
proof -
  have num: "safe arith_faults body_ok (obind (var_i w1) (\<lambda>i1. obind (var_i w2) (\<lambda>i2.
      Ok (rc, expr_var_assign_bool w1 (fi i1 i2), w2))))"
    if "var_ok w1" "var_ok w2" "\<not> expr_var_is_string w1" "\<not> expr_var_is_string w2" for rc w1 w2
    using that by (auto elim!: not_string_cases)
  have str: "safe arith_faults body_ok (obind (var_psz w1) (\<lambda>s1. obind (var_psz w2) (\<lambda>s2.
      Ok (rc, expr_var_assign_bool w1 (fs s1 s2), w2))))"
    if "expr_var_is_string w1" "expr_var_is_string w2" for rc w1 w2
    using that by (auto elim!: string_var_psz)
  show ?thesis
    unfolding compare_body_def
    by (rule safe_obind [OF unify_safe [OF assms]]) (auto simp: num str)
qed

lemma try_make_nums_safe:
  assumes "var_ok v1" and "var_ok v2"
  shows "safe arith_faults (\<lambda>(are_nums, w1, w2). var_ok w1 \<and> var_ok w2 \<and>
    (are_nums \<longrightarrow> (\<exists>i j. w1 = Num i \<and> w2 = Num j))) (try_make_nums env v1 v2)"
  unfolding try_make_nums_def
  by (rule safe_obind [OF try_make_num_safe [OF assms(1)]])
    (auto simp: assms intro!: safe_obind [OF try_make_num_safe [OF assms(2)]])

lemma compare_nums_safe:
  assumes "var_ok v1" and "var_ok v2"
    and "\<And>w1 w2. var_ok w1 \<Longrightarrow> var_ok w2 \<Longrightarrow> safe arith_faults body_ok (g w1 w2)"
  shows "safe arith_faults body_ok (obind (try_make_nums env v1 v2) (\<lambda>(are_nums, v1, v2).
    if are_nums then
      obind (var_i v1) (\<lambda>i1. obind (var_i v2) (\<lambda>i2. Ok (kExprRet_Ok, expr_var_assign_bool v1 (i1 = i2), v2)))
    else g v1 v2))"
  by (rule safe_obind [OF try_make_nums_safe [OF assms(1,2)]]) (auto intro!: assms(3))

lemma same_type_numbers_safe:
  assumes "var_ok v1" and "var_ok v2" and "\<not> expr_var_is_string v1" and "\<not> expr_var_is_string v2"
  shows "safe arith_faults body_ok (obind (var_i v1) (\<lambda>i1. obind (var_i v2) (\<lambda>i2.
    Ok (kExprRet_Ok, expr_var_assign_bool v1 (i1 = i2), v2))))"
  using assms by (auto elim!: not_string_cases)

lemma equal_strings_safe:
  assumes "var_ok v1" and "var_ok v2"
  shows "safe arith_faults body_ok
    (obind (expr_var_make_simple_string env v1) (\<lambda>v1.
     obind (expr_var_make_simple_string env v2) (\<lambda>v2.
     obind (var_psz v1) (\<lambda>psz1. obind (var_psz v2) (\<lambda>psz2.
     if c psz1 psz2 then Ok (kExprRet_Ok, expr_var_assign_bool v1 True, v2)
     else obind (try_make_nums env v1 v2) (\<lambda>(are_nums, v1, v2).
       if are_nums then
         obind (var_i v1) (\<lambda>i1. obind (var_i v2) (\<lambda>i2.
         Ok (kExprRet_Ok, expr_var_assign_bool v1 (i1 = i2), v2)))
       else Ok (kExprRet_Ok, expr_var_assign_bool v1 False, v2)))))))"
  by (rule safe_obind [OF make_simple_safe [OF assms(1)]],
      rule safe_obind [OF make_simple_safe [OF assms(2)]])
    (auto intro!: compare_nums_safe)

lemma equal_body_safe:
  assumes "var_ok v1" and "var_ok v2"
  shows "safe arith_faults body_ok (equal_body env v1 v2)"
  unfolding equal_body_def
  by (intro safe_if compare_nums_safe equal_strings_safe same_type_numbers_safe assms) simp_all

lemma ver_equal_body_safe:
  assumes "var_ok v1" and "var_ok v2"
  shows "safe arith_faults body_ok (ver_equal_body env v1 v2)"
proof -
  have "safe arith_faults body_ok
    (obind (expr_var_make_simple_string env w1) (\<lambda>v1.
     obind (expr_var_make_simple_string env w2) (\<lambda>v2.
     obind (var_psz v1) (\<lambda>psz1. obind (var_psz v2) (\<lambda>psz2.
     Ok (kExprRet_Ok, expr_var_assign_bool v1 (version_compare psz1 psz2 = 0), v2))))))"
    if "var_ok w1" "var_ok w2" for w1 w2
    by (rule safe_obind [OF make_simple_safe [OF that(1)]],
        rule safe_obind [OF make_simple_safe [OF that(2)]]) auto
  then show ?thesis
    unfolding ver_equal_body_def
    by (intro safe_if compare_nums_safe equal_strings_safe same_type_numbers_safe assms) simp_all
qed

lemma logical_body_safe:
  assumes "var_ok v1" and "var_ok v2"
  shows "safe arith_faults body_ok (logical_and_body env v1 v2)"
    and "safe arith_faults body_ok (logical_or_body env v1 v2)"
  unfolding logical_and_body_def logical_or_body_def
  by (rule safe_obind [OF make_bool_safe [OF assms(1)]];
      auto intro!: safe_obind [OF make_bool_safe [OF assms(2)]])+

lemma with_top_body:
  "obind (with_top (bare [v]) g) (\<lambda>(rc, st). Ok (rc, hd (aVars st))) = g v"
proof -
  have "(\<lambda>x. case x of (rc, v) \<Rightarrow> Ok (rc, v)) = (Ok :: _ \<Rightarrow> (expr_error, EXPRRET \<times> EXPRVAR) outcome)"
    by (simp add: fun_eq_iff split: prod.split)
  then show ?thesis by (simp add: with_top_def split_def)
qed

lemma with_top2_body:
  "obind (with_top2 (bare [v2, v1]) g) (\<lambda>(rc, st). Ok (rc, hd (aVars st))) =
     obind (g v1 v2) (\<lambda>(rc, v1, v2). Ok (rc, v1))"
  by (simp add: with_top2_def expr_pop_and_delete_var_def split_def)

lemma int64_ok_size: "int64_ok (size_to_int64 n)"
  using signed_take_bit_int_less_exp [of 63 "int n"]
    signed_take_bit_int_greater_eq_minus_exp [of 63 "int n"]
  by (simp add: size_to_int64_def int64_ok_def)

lemma op_num_safe:
  "var_ok v \<Longrightarrow> safe arith_faults (\<lambda>(rc, v'). var_ok v')
     (expr_var_make_num env (case v of QuotedSimpleString s \<Rightarrow> SimpleString s
       | QuotedString s \<Rightarrow> String s | _ \<Rightarrow> v))"
  by (rule safe_weaken [OF make_num_safe]) (auto split: EXPRVAR.split)

lemma op_target_safe:
  assumes "var_ok v"
  shows "safe arith_faults (\<lambda>(rc, v'). var_ok v')
    (obind
       (if enmType v = kExprVar_String \<or> enmType v = kExprVar_QuotedString then
          obind (var_psz v) (\<lambda>psz.
          Ok (case lookup_file env psz of
                None \<Rightarrow> None
              | Some f \<Rightarrow> if need_2nd_target_expansion f then Some f else None))
        else Ok None) (\<lambda>pFile.
     obind
       (case pFile of
          None \<Rightarrow>
            obind (expr_var_make_simple_string env v) (\<lambda>v.
            obind (var_psz v) (\<lambda>psz. Ok (lookup_file env psz, v)))
        | Some f \<Rightarrow> Ok (Some f, v)) (\<lambda>(pFile, v).
     let pFile = (case pFile of
                    None \<Rightarrow> None
                  | Some f \<Rightarrow> (case multi_head f of None \<Rightarrow> Some f | Some h \<Rightarrow> Some h));
         pFile = file_with_cmds pFile
     in Ok (kExprRet_Ok, expr_var_assign_bool v
          (case pFile of None \<Rightarrow> False | Some f \<Rightarrow> is_target f)))))"
proof -
  have simple: "safe arith_faults (\<lambda>(p, v). True)
      (obind (expr_var_make_simple_string env v) (\<lambda>v. obind (var_psz v) (\<lambda>psz. Ok (lookup_file env psz, v))))"
    by (rule safe_obind [OF make_simple_safe [OF assms]]) auto
  show ?thesis
  proof (rule safe_obind [where P = "\<lambda>p. True"])
    show "safe arith_faults (\<lambda>p. True)
       (if enmType v = kExprVar_String \<or> enmType v = kExprVar_QuotedString then
          obind (var_psz v) (\<lambda>psz.
          Ok (case lookup_file env psz of
                None \<Rightarrow> None
              | Some f \<Rightarrow> if need_2nd_target_expansion f then Some f else None))
        else Ok None)"
      by (cases v) auto
  qed (rule safe_obind [where P = "\<lambda>(p, v). True"], auto simp: simple Let_def split: option.split)
qed

lemma body1_safe:
  assumes "f \<in> unary_pfns" and "var_ok v"
  shows "safe arith_faults (\<lambda>(rc, v'). rc = kExprRet_Ok \<and> var_ok v') (body1 env f v)"
proof -
  note simple = safe_obind [OF make_simple_safe [OF assms(2)]]
    and num = safe_obind [OF make_num_safe [OF assms(2)]]
    and bool = safe_obind [OF make_bool_safe [OF assms(2)]]
  have target: "safe arith_faults (\<lambda>(rc, v'). var_ok v') (body1 env expr_op_target v)"
    using op_target_safe [OF assms(2), of env]
    by (simp only: body1_def expr_call.simps op_target_def with_top_body)
  have "safe arith_faults (\<lambda>(rc, v'). var_ok v') (body1 env f v)" if "f \<noteq> expr_op_target"
    using assms(1) that unfolding unary_pfns_def body1_def
    by (elim insertE emptyE)
      (auto simp: unary_op_defs with_top_body int64_ok_size int64_ok_complement not_eq_complement expr_var_assign_num_def
        expr_var_init_num_def op_num_safe [OF assms(2)]
        intro!: simple num bool safe_obind [OF safe_mk64_arith] safe_weaken [OF make_num_safe [OF assms(2)]]
        split: option.split)
  with target have "safe arith_faults (\<lambda>(rc, v'). var_ok v') (body1 env f v)" by blast
  then show ?thesis by (rule safe_weaken) (auto dest: body1_status [OF assms(1)])
qed

lemma c_ops_safe:
  assumes "int64_ok a" and "int64_ok b"
  shows "safe arith_faults int64_ok (c_mul a b)" "safe arith_faults int64_ok (c_div a b)"
    "safe arith_faults int64_ok (c_mod a b)" "safe arith_faults int64_ok (c_add a b)"
    "safe arith_faults int64_ok (c_sub a b)" "safe arith_faults int64_ok (c_shl a b)"
    "safe arith_faults int64_ok (c_shr a b)"
  using assms int64_ok_rem [of a b] int64_ok_div [of a "nat b"]
  by (auto simp: c_mul_def c_div_def c_mod_def c_add_def c_sub_def c_shl_def c_shr_def mk64_def
      signed_modulo_int_def drop_bit_eq_div)

lemma body2_safe:
  assumes "f \<notin> unary_pfns" and "f \<notin> paren_pfns" and "var_ok v1" and "var_ok v2"
  shows "safe arith_faults (\<lambda>(rc, v'). rc = kExprRet_Ok \<and> var_ok v') (body2 env f v1 v2)"
proof -
  note arith = arith_body_safe [OF assms(3,4)] and compare = compare_body_safe [OF assms(3,4)]
    and equal = equal_body_safe [OF assms(3,4)] ver_equal_body_safe [OF assms(3,4)]
    and logical = logical_body_safe [OF assms(3,4)]
  have first: "safe arith_faults (\<lambda>(rc, v'). var_ok v') (obind m (\<lambda>(rc, v1, v2). Ok (rc, v1)))"
    if "safe arith_faults body_ok m" for m
    by (rule safe_obind [OF that]) auto
  have bitwise: "safe arith_faults body_ok (bitwise_body env g v1 v2)"
    if "\<And>a b. int64_ok a \<Longrightarrow> int64_ok b \<Longrightarrow> int64_ok (g a b)" for g
    unfolding bitwise_body_def by (rule safe_obind [OF arith]) (auto simp: that)
  have negated: "safe arith_faults (\<lambda>(rc, v'). var_ok v') (obind m (\<lambda>(rc, v1, v2).
      obind (if rc \<ge> kExprRet_Ok then op_logical_not env (bare [v1]) else Ok (rc, bare [v1]))
        (\<lambda>(rc, st). Ok (rc, hd (aVars st)))))"
    if "safe arith_faults body_ok m" for m
    by (rule safe_obind [OF that])
      (auto simp: op_logical_not_def with_top_def intro!: safe_obind [OF make_bool_safe])
  have not_equal: "body2 env expr_op_not_equal v1 v2 = obind (equal_body env v1 v2) (\<lambda>(rc, v1, v2).
      obind (if rc \<ge> kExprRet_Ok then op_logical_not env (bare [v1]) else Ok (rc, bare [v1]))
        (\<lambda>(rc, st). Ok (rc, hd (aVars st))))"
    and ver_not_equal: "body2 env expr_op_ver_not_equal v1 v2 = obind (ver_equal_body env v1 v2) (\<lambda>(rc, v1, v2).
      obind (if rc \<ge> kExprRet_Ok then op_logical_not env (bare [v1]) else Ok (rc, bare [v1]))
        (\<lambda>(rc, st). Ok (rc, hd (aVars st))))"
    by (simp_all add: body2_def op_not_equal_def op_ver_not_equal_def op_equal_def op_ver_equal_def
        with_top2_def expr_pop_and_delete_var_def split_def cong: if_cong)
  have "safe arith_faults (\<lambda>(rc, v'). var_ok v') (body2 env f v1 v2)"
    if "f \<noteq> expr_op_not_equal" "f \<noteq> expr_op_ver_not_equal"
    using assms(1,2) that
    by (cases f)
      (simp_all only: unary_pfns_def paren_pfns_def body2_def expr_call.simps binary_op_defs with_top2_body,
       auto intro!: first arith compare equal logical bitwise c_ops_safe int64_ok_bits)
  moreover have "safe arith_faults (\<lambda>(rc, v'). var_ok v') (body2 env expr_op_not_equal v1 v2)"
    unfolding not_equal by (rule negated [OF equal(1)])
  moreover have "safe arith_faults (\<lambda>(rc, v'). var_ok v') (body2 env expr_op_ver_not_equal v1 v2)"
    unfolding ver_not_equal by (rule negated [OF equal(2)])
  ultimately have "safe arith_faults (\<lambda>(rc, v'). var_ok v') (body2 env f v1 v2)" by blast
  then show ?thesis by (rule safe_weaken) (auto dest: body2_status [OF assms(1,2)])
qed

section \<open>Safe tokens\<close>

text \<open>
  The faults an expression of \<open>n\<close> characters can have: those of arithmetic, and from 42 characters
  on the two array overruns.
\<close>

definition faults :: "nat \<Rightarrow> fault set" where
  "faults n = arith_faults \<union> (if n < 42 then {} else {OutOfBounds})"

lemma arith_faults_subset: "arith_faults \<subseteq> faults n"
  by (simp add: faults_def)

lemma lookup_op_safe:
  assumes "expr_map_get (peek p) AND 1 \<noteq> 0"
  shows "safe F (\<lambda>pOp. case pOp of None \<Rightarrow> True
      | Some op \<Rightarrow> op \<in> set g_aExprOps \<and> f = (cArgs op = 1) \<and> prefix (szOp op) p)
    (expr_lookup_op p (expr_map_get (peek p)) f)"
proof -
  have "list_all (\<lambda>(c, u). u AND 1 \<noteq> 0 \<longrightarrow> u AND 2 = (if isalpha c then 0 else 2)) start_char_table"
    by code_simp
  moreover from assms obtain u where "map_of start_char_table (peek p) = Some u"
      and "u AND 1 \<noteq> 0" and "expr_map_get (peek p) = u"
    by (auto simp: expr_map_get_eq table_fun_def split: option.splits)
  ultimately have "expr_map_get (peek p) AND 2 = (if isalpha (peek p) then 0 else 2)"
    by (auto simp: list_all_iff dest!: map_of_SomeD)
  moreover have "op \<in> set g_aExprOps \<and> f = (cArgs op = 1) \<and> prefix (szOp op) p"
    if "lookup_from (drop k g_aExprOps) p u f = Some op" for k u op
  proof -
    have "lookup_from ops p u f = Some op \<Longrightarrow> op \<in> set ops \<and> f = (cArgs op = 1) \<and> op_text_matches op p"
      for ops by (induction ops) (auto split: if_splits)
    from this [OF that] have "op \<in> set g_aExprOps" "f = (cArgs op = 1)" "op_text_matches op p"
      by (auto dest: in_set_dropD)
    with g_aExprOps_text show ?thesis by (metis op_text_matches_prefix)
  qed
  ultimately show ?thesis
    by (simp add: expr_lookup_op_def split: option.split)
qed

lemma operand_ends_safe:
  "safe F (\<lambda>b. True) (operand_ends acc p)"
  unfolding operand_ends_def Let_def
  by (auto intro!: safe_obind [OF lookup_op_safe])

lemma scan_operand_safe:
  assumes "2 * length pars \<le> length acc" and "length acc + length p \<le> n"
  shows "safe (faults n) (\<lambda>x. True) (scan_operand acc pars p)"
  using assms
proof (induction p arbitrary: acc pars rule: length_induct)
  case (1 p)
  show ?case
  proof (cases p)
    case (Cons ch q)
    have IH: "safe (faults n) (\<lambda>x. True) (scan_operand acc' pars' r)"
      if "length r \<le> length q" "2 * length pars' \<le> length acc'" "length acc' + length r \<le> n"
      for acc' pars' r
      by (rule 1(1) [rule_format]) (use that Cons in simp_all)
    have open_paren: "safe (faults n) (\<lambda>x. True) (scan_operand (peek q # ch # acc) (x # pars) (tl q))"
      if "q \<noteq> []" for x
    proof -
      from that obtain a r where "q = a # r" by (cases q) auto
      with 1(2,3) show ?thesis by (intro IH) (simp_all add: Cons)
    qed
    have overrun: "OutOfBounds \<in> faults n" if "length pars \<ge> ACH_PARS" "q \<noteq> []"
    proof -
      from that(2) obtain a r where "q = a # r" by (cases q) auto
      with that(1) 1(2,3) have "42 \<le> n" by (simp add: ACH_PARS_def Cons)
      then show ?thesis by (simp add: faults_def)
    qed
    have next_char: "safe (faults n) (\<lambda>x. True) (scan_operand (ch # acc) pars' q)"
      if "length pars' \<le> length pars" for pars'
      using that 1(2,3) by (intro IH) (simp_all add: Cons)
    have "q \<noteq> []" if "peek q = CHR ''('' \<or> peek q = CHR ''{''" using that by auto
    moreover have "safe (faults n) (\<lambda>x. True) (scan_operand (ch # acc) (tl pars) q)"
      and "safe (faults n) (\<lambda>x. True) (scan_operand (ch # acc) pars q)"
      by (rule next_char; simp)+
    ultimately show ?thesis
      using open_paren overrun
      unfolding Cons scan_operand.simps(2) [of acc pars ch q]
      by (intro safe_if safe_obind [OF operand_ends_safe]; simp)
  qed (simp add: scan_operand.simps)
qed

lemma init_substring_ok:
  "t \<in> {kExprVar_String, kExprVar_QuotedString, kExprVar_QuotedSimpleString} \<Longrightarrow>
   var_ok (expr_var_init_substring s t)"
  by (auto simp: expr_var_init_substring_def)

lemma get_operand_safe:
  assumes "length p \<le> n"
  shows "safe (faults n) (\<lambda>(v, p'). var_ok v) (get_operand p)"
  unfolding get_operand_def
  by (intro safe_if) (use assms in \<open>auto intro!: init_substring_ok safe_obind [OF scan_operand_safe]\<close>)

section \<open>The evaluator's invariant\<close>

definition stack_ops :: "EXPROP set" where
  "stack_ops = set unary_ops \<union> {op_left_parenthesis} \<union> set binary_ops"

definition closers :: "EXPROP set" where
  "closers = {op_right_parenthesis, g_ExprEndOfExpOp}"

definition count_binary :: "EXPROP list \<Rightarrow> nat" where
  "count_binary ops = length (filter (\<lambda>op. cArgs op = 2) ops)"

text \<open>
  The stacks hold known operators and well-formed operands, \<open>k\<close> operands more than binary operators,
  and every operator on the stack, and a pending one, has taken its characters from the \<open>n\<close>
  characters of the expression.
\<close>

definition weight :: "EXPR \<Rightarrow> nat" where
  "weight st = length (apOps st) + length (psz st) +
     (case pPending st of None \<Rightarrow> 0 | Some q \<Rightarrow> if q = g_ExprEndOfExpOp then 0 else 1)"

definition stacks_ok :: "nat \<Rightarrow> nat \<Rightarrow> EXPR \<Rightarrow> bool" where
  "stacks_ok n k st \<longleftrightarrow> list_all (\<lambda>op. op \<in> stack_ops) (apOps st) \<and> list_all var_ok (aVars st) \<and>
     length (aVars st) = count_binary (apOps st) + k \<and> weight st \<le> n \<and>
     (case pPending st of None \<Rightarrow> True | Some q \<Rightarrow> q \<in> set binary_ops \<union> closers)"

lemma op_kinds:
  assumes "op \<in> set g_aExprOps"
  shows "cArgs op = 1 \<Longrightarrow> op \<in> set unary_ops \<union> {op_left_parenthesis}"
    and "cArgs op \<noteq> 1 \<Longrightarrow> op \<in> set binary_ops \<union> closers"
proof -
  have "list_all (\<lambda>op. if cArgs op = 1 then op \<in> set unary_ops \<or> op = op_left_parenthesis
      else op \<in> set binary_ops \<or> op = op_right_parenthesis) g_aExprOps" by code_simp
  with assms show "cArgs op = 1 \<Longrightarrow> op \<in> set unary_ops \<union> {op_left_parenthesis}"
    and "cArgs op \<noteq> 1 \<Longrightarrow> op \<in> set binary_ops \<union> closers"
    by (auto simp: list_all_iff closers_def split: if_splits)
qed

lemma count_binary_Cons [simp]:
  "count_binary [] = 0"
  "count_binary (op # ops) = (if cArgs op = 2 then Suc (count_binary ops) else count_binary ops)"
  by (simp_all add: count_binary_def)

lemma op_args:
  "op \<in> set unary_ops \<Longrightarrow> cArgs op = 1" "op \<in> set binary_ops \<Longrightarrow> cArgs op = 2"
  "cArgs op_left_parenthesis = 1" "op \<in> set binary_ops \<Longrightarrow> op \<noteq> g_ExprEndOfExpOp"
  "op_right_parenthesis \<noteq> g_ExprEndOfExpOp"
  by (auto simp: unary_ops_def binary_ops_def op_left_parenthesis_def op_right_parenthesis_def
      g_ExprEndOfExpOp_def)

lemma prefix_drop_length: "prefix u p \<Longrightarrow> u \<noteq> [] \<Longrightarrow> Suc (length (drop (length u) p)) \<le> length p"
  by (cases u) (auto simp: prefix_def)

lemma optional_lookup_safe:
  "safe F (\<lambda>pOp. case pOp of None \<Rightarrow> True
      | Some op \<Rightarrow> op \<in> set g_aExprOps \<and> f = (cArgs op = 1) \<and>
          Suc (length (drop (cchOp op) p)) \<le> length p)
    (if expr_map_get (peek p) AND 1 \<noteq> 0 then expr_lookup_op p (expr_map_get (peek p)) f else Ok None)"
proof -
  have "safe F (\<lambda>pOp. case pOp of None \<Rightarrow> True
      | Some op \<Rightarrow> op \<in> set g_aExprOps \<and> f = (cArgs op = 1) \<and>
          Suc (length (drop (cchOp op) p)) \<le> length p)
    (expr_lookup_op p (expr_map_get (peek p)) f)" if "expr_map_get (peek p) AND 1 \<noteq> 0"
    by (rule safe_weaken [OF lookup_op_safe [OF that, of F f]])
      (use g_aExprOps_text prefix_drop_length in \<open>auto split: option.splits\<close>)
  then show ?thesis by (rule safe_if) (assumption | simp)+
qed

lemma get_unary_safe:
  assumes "stacks_ok n 0 st" and "pPending st = None"
  shows "safe (faults n) (\<lambda>(rc, st'). pPending st' = None \<and>
      (rc = kExprRet_Operator \<and> stacks_ok n 0 st' \<or> rc = kExprRet_Ok \<and> stacks_ok n 1 st'))
    (expr_get_unary_or_operand st)"
proof -
  define p where "p = skip_spaces (psz st)"
  have p: "length p \<le> length (psz st)" by (simp add: p_def skip_spaces_length)
  have w: "length (apOps st) + length (psz st) \<le> n" using assms by (simp add: stacks_ok_def weight_def)
  have fits: "OutOfBounds \<in> faults n" if "\<not> length (apOps st) < EXPR_MAX_OPERATORS"
    using that w by (simp add: faults_def EXPR_MAX_OPERATORS_def)
  have operator: "safe (faults n) (\<lambda>(rc, st'). pPending st' = None \<and> rc = kExprRet_Operator \<and> stacks_ok n 0 st')
      (obind (push_op op st) (\<lambda>st. Ok (kExprRet_Operator, st\<lparr>psz := drop (cchOp op) p\<rparr>)))"
    if "op \<in> set g_aExprOps" "cArgs op = 1" "Suc (length (drop (cchOp op) p)) \<le> length p" for op
    using op_kinds(1) [OF that(1,2)] that(2,3) assms w p fits
    by (auto simp: push_op_def stacks_ok_def stack_ops_def weight_def)
  have operand: "safe (faults n) (\<lambda>(rc, st'). pPending st' = None \<and> rc = kExprRet_Ok \<and> stacks_ok n 1 st')
      (obind (get_operand p) (\<lambda>(v, p'). obind (push_var v st) (\<lambda>st. Ok (kExprRet_Ok, st\<lparr>psz := p'\<rparr>))))"
    if "p \<noteq> []" "length (aVars st) < EXPR_MAX_OPERANDS"
  proof (rule safe_obind [OF get_operand_safe])
    show "length p \<le> n" using p w by linarith
    fix x
    assume x: "get_operand p = Ok x" "case x of (v, p') \<Rightarrow> var_ok v"
    obtain v p' where vp: "x = (v, p')" by (cases x)
    have "length p' < length p"
      using x(1) that(1) vp by (auto intro: get_operand_length simp: p_def peek_skip_spaces)
    with x(2) vp that(2) assms w p
    show "safe (faults n) (\<lambda>(rc, st'). pPending st' = None \<and> rc = kExprRet_Ok \<and> stacks_ok n 1 st')
        (case x of (v, p') \<Rightarrow> obind (push_var v st) (\<lambda>st. Ok (kExprRet_Ok, st\<lparr>psz := p'\<rparr>)))"
      by (auto simp: push_var_def stacks_ok_def weight_def)
  qed
  have "safe (faults n) (\<lambda>(rc, st'). pPending st' = None \<and>
      (rc = kExprRet_Operator \<and> stacks_ok n 0 st' \<or> rc = kExprRet_Ok \<and> stacks_ok n 1 st'))
    (obind (if expr_map_get (peek p) AND 1 \<noteq> 0
                  then expr_lookup_op p (expr_map_get (peek p)) True else Ok None) (\<lambda>pOp.
      case pOp of
        Some op \<Rightarrow>
          if length (aVars st) < EXPR_MAX_OPERANDS then
            obind (push_op op st) (\<lambda>st. Ok (kExprRet_Operator, st\<lparr>psz := drop (cchOp op) p\<rparr>))
          else Fatal OperatorStackOverflow
      | None \<Rightarrow>
          if length (aVars st) < EXPR_MAX_OPERANDS then
            obind (get_operand p) (\<lambda>(v, p').
            obind (push_var v st) (\<lambda>st. Ok (kExprRet_Ok, st\<lparr>psz := p'\<rparr>)))
          else Fatal OperandStackOverflow))" if "p \<noteq> []"
    by (rule safe_obind [OF optional_lookup_safe [of _ True]])
      (auto split: option.splits intro!: safe_weaken [OF operator] safe_weaken [OF operand] that)
  then show ?thesis
    unfolding expr_get_unary_or_operand_def p_def [symmetric] Let_def by auto
qed

lemma eat_unary_safe:
  "stacks_ok n 0 st \<Longrightarrow> pPending st = None \<Longrightarrow>
   safe (faults n) (\<lambda>(rc, st'). pPending st' = None \<and> rc = kExprRet_Ok \<and> stacks_ok n 1 st') (eat_unary st)"
proof (induction st rule: eat_unary.induct)
  case (1 st)
  show ?case
    by (subst eat_unary.simps, rule safe_obind [OF get_unary_safe [OF "1.prems"]])
      (use "1.IH" in auto)
qed

text \<open>
  The next token is pushed; seen as pending, with the stack as it was, it keeps the invariant.
\<close>

definition token_pushed :: "nat \<Rightarrow> EXPRRET \<times> EXPR \<Rightarrow> bool" where
  "token_pushed n = (\<lambda>(rc, st). rc \<noteq> kExprRet_Error \<and> pPending st = None \<and>
     (\<exists>q ops. apOps st = q # ops \<and> rc = (if iPrecedence q \<noteq> 0 then kExprRet_Operator else kExprRet_EndOfExpr) \<and>
        stacks_ok n 1 (st\<lparr>apOps := ops, pPending := Some q\<rparr>)))"

lemma next_binary_safe:
  assumes "stacks_ok n 1 st" and "pPending st = None"
  shows "safe F (\<lambda>(q, st'). pPending st' = None \<and> stacks_ok n 1 (st'\<lparr>pPending := Some q\<rparr>)) (next_binary st)"
proof -
  define p where "p = skip_spaces (psz st)"
  have p: "length p \<le> length (psz st)" by (simp add: p_def skip_spaces_length)
  have found: "stacks_ok n 1 (st\<lparr>psz := drop (cchOp op) p, pPending := Some op\<rparr>)"
    if "op \<in> set g_aExprOps" "cArgs op \<noteq> 1" "Suc (length (drop (cchOp op) p)) \<le> length p" for op
    using op_kinds(2) [OF that(1,2)] that(3) assms p by (auto simp: stacks_ok_def weight_def)
  have eoe: "stacks_ok n 1 (st\<lparr>psz := [], pPending := Some g_ExprEndOfExpOp\<rparr>)"
    using assms by (auto simp: stacks_ok_def weight_def closers_def)
  have "safe F (\<lambda>(q, st'). pPending st' = None \<and> stacks_ok n 1 (st'\<lparr>pPending := Some q\<rparr>))
      (obind (if expr_map_get (peek p) AND 1 \<noteq> 0
               then expr_lookup_op p (expr_map_get (peek p)) False else Ok None) (\<lambda>pOp.
        case pOp of
          None \<Rightarrow> Fatal (ExpectedBinary (take 42 p))
        | Some op \<Rightarrow> Ok (op, st\<lparr>psz := drop (cchOp op) p\<rparr>)))"
    by (rule safe_obind [OF optional_lookup_safe [of _ False]])
      (use found assms(2) in \<open>auto split: option.splits\<close>)
  with eoe assms(2) show ?thesis
    unfolding next_binary_def p_def [symmetric] Let_def by auto
qed

lemma get_binary_safe:
  assumes "stacks_ok n 1 st"
  shows "safe F (token_pushed n) (expr_get_binary_or_eoe_or_rparen st)"
proof -
  have pending: "safe F (\<lambda>(q, st'). pPending st' = None \<and> stacks_ok n 1 (st'\<lparr>pPending := Some q\<rparr>))
      (case pPending st of Some op \<Rightarrow> Ok (op, st\<lparr>pPending := None\<rparr>) | None \<Rightarrow> next_binary st)"
    using next_binary_safe [OF assms] assms
    by (auto simp: stacks_ok_def weight_def split: option.split)
  show ?thesis
    unfolding expr_get_binary_or_eoe_or_rparen_def
  proof (rule safe_obind [OF pending])
    fix x
    assume "case x of (q, st') \<Rightarrow> pPending st' = None \<and> stacks_ok n 1 (st'\<lparr>pPending := Some q\<rparr>)"
    then obtain q st' where x: "x = (q, st')" "pPending st' = None"
      "stacks_ok n 1 (st'\<lparr>pPending := Some q\<rparr>)" by (cases x) auto
    then have "token_pushed n (if iPrecedence q \<noteq> 0 then kExprRet_Operator else kExprRet_EndOfExpr,
        st'\<lparr>apOps := q # apOps st'\<rparr>)"
      unfolding token_pushed_def prod.case by (intro conjI exI [of _ q] exI [of _ "apOps st'"]) simp_all
    with x show "safe F (token_pushed n) (case x of (op, pThis) \<Rightarrow>
        if length (apOps pThis) \<ge> EXPR_MAX_OPERATORS then Fatal OperatorStackOverflow
        else obind (push_op op pThis) (\<lambda>pThis.
          Ok (if iPrecedence op \<noteq> 0 then kExprRet_Operator else kExprRet_EndOfExpr, pThis)))"
      by (simp add: push_op_def)
  qed
qed

text \<open>The reduction loop: with an operator pending the invariant holds before and after a call.\<close>

definition pending_ok :: "nat \<Rightarrow> EXPRRET \<times> EXPR \<Rightarrow> bool" where
  "pending_ok n = (\<lambda>(rc, st). rc \<noteq> kExprRet_Error \<and> pPending st \<noteq> None \<and> stacks_ok n 1 st)"

lemma unget_safe:
  assumes "token_pushed n (rc, st)"
  shows "safe F (\<lambda>st'. pending_ok n (rc, st')) (expr_unget_op st)"
  using assms by (auto simp: token_pushed_def pending_ok_def expr_unget_op_def stacks_ok_def weight_def)

lemma left_parenthesis_safe:
  assumes "stacks_ok n 1 st"
  shows "safe F (pending_ok n) (op_left_parenthesis_fn st)"
proof -
  have again: "safe F (pending_ok n)
      (obind (expr_get_binary_or_eoe_or_rparen (p1\<lparr>apOps := tl (apOps p1)\<rparr>)) (\<lambda>(rc, pThis).
       if rc \<noteq> kExprRet_Error then obind (expr_unget_op pThis) (\<lambda>pThis. Ok (rc, pThis))
       else Ok (rc, pThis)))"
    if "token_pushed n (rc1, p1)" for rc1 p1
  proof -
    from that have "stacks_ok n 1 (p1\<lparr>apOps := tl (apOps p1)\<rparr>)"
      by (auto simp: token_pushed_def stacks_ok_def weight_def split: if_splits)
    then show ?thesis
    proof (rule safe_obind [OF get_binary_safe])
      fix x
      assume "token_pushed n x"
      then obtain rc p where x: "x = (rc, p)" "token_pushed n (rc, p)" by (cases x) auto
      then have "rc \<noteq> kExprRet_Error" by (simp add: token_pushed_def)
      with x safe_obind [OF unget_safe [OF x(2)], of F "pending_ok n" "\<lambda>p. Ok (rc, p)"]
      show "safe F (pending_ok n) (case x of (rc, pThis) \<Rightarrow>
          if rc \<noteq> kExprRet_Error then obind (expr_unget_op pThis) (\<lambda>pThis. Ok (rc, pThis))
          else Ok (rc, pThis))" by simp
    qed
  qed
  show ?thesis
    unfolding op_left_parenthesis_fn_def
    by (rule safe_obind [OF get_binary_safe [OF assms]]) (auto simp: again)
qed

lemma stack_op_method:
  assumes "op \<in> stack_ops"
  obtains (unary) f where "pfn op = Some f" and "f \<in> unary_pfns" and "cArgs op = 1"
  | (paren) "op = op_left_parenthesis"
  | (binary) f where "pfn op = Some f" and "f \<notin> unary_pfns" and "f \<notin> paren_pfns" and "cArgs op = 2"
proof -
  have u: "list_all (\<lambda>op. case pfn op of None \<Rightarrow> False | Some f \<Rightarrow> f \<in> unary_pfns) unary_ops"
    and b: "list_all (\<lambda>op. case pfn op of None \<Rightarrow> False | Some f \<Rightarrow> f \<notin> unary_pfns \<and> f \<notin> paren_pfns) binary_ops"
    unfolding unary_pfns_def paren_pfns_def by code_simp+
  from assms consider "op \<in> set unary_ops" | "op = op_left_parenthesis" | "op \<in> set binary_ops"
    by (auto simp: stack_ops_def)
  then show ?thesis
  proof cases
    case 1
    with u obtain f where "pfn op = Some f" "f \<in> unary_pfns"
      by (auto simp: list_all_iff split: option.splits)
    with 1 op_args(1) show ?thesis by (intro unary) auto
  next
    case 3
    with b obtain f where "pfn op = Some f" "f \<notin> unary_pfns" "f \<notin> paren_pfns"
      by (auto simp: list_all_iff split: option.splits)
    with 3 op_args(2) show ?thesis by (intro binary) auto
  qed (rule paren)
qed

lemma call_safe:
  assumes "stacks_ok n 1 st" and "apOps st = op # ops" and "pPending st \<noteq> None" and "pfn op = Some f"
  shows "safe (faults n) (pending_ok n) (expr_call env f (st\<lparr>apOps := ops\<rparr>))"
proof -
  have op: "op \<in> stack_ops" using assms(1,2) by (simp add: stacks_ok_def)
  then show ?thesis
  proof (cases rule: stack_op_method)
    case (unary g)
    with assms have "stacks_ok n 1 (st\<lparr>apOps := ops\<rparr>)" by (auto simp: stacks_ok_def weight_def)
    moreover obtain v V where V: "aVars st = v # V" using assms(1) by (cases "aVars st") (auto simp: stacks_ok_def)
    ultimately have ok: "var_ok v" "\<And>w. var_ok w \<Longrightarrow> stacks_ok n 1 (st\<lparr>apOps := ops, aVars := w # V\<rparr>)"
      by (auto simp: stacks_ok_def weight_def)
    have "safe (faults n) (pending_ok n) (obind (body1 env f v) (\<lambda>(rc, w). Ok (rc, st\<lparr>apOps := ops, aVars := w # V\<rparr>)))"
      by (rule safe_obind [OF safe_weaken [OF body1_safe _ arith_faults_subset]])
        (use unary assms ok in \<open>auto simp: pending_ok_def\<close>)
    moreover have "st\<lparr>apOps := ops\<rparr> = st\<lparr>apOps := ops, aVars := v # V\<rparr>" using V by simp
    ultimately show ?thesis
      using call_frame1 [where st = "st\<lparr>apOps := ops\<rparr>"] unary assms(4) by (metis option.inject)
  next
    case paren
    with assms have "stacks_ok n 1 (st\<lparr>apOps := ops\<rparr>)"
      by (auto simp: stacks_ok_def weight_def op_args)
    from left_parenthesis_safe [OF this] paren assms(4) show ?thesis
      by (simp add: op_left_parenthesis_def)
  next
    case (binary g)
    with assms have "length (aVars st) = Suc (Suc (count_binary ops))" by (auto simp: stacks_ok_def)
    then obtain v2 v1 V where V: "aVars st = v2 # v1 # V"
      by (metis Suc_length_conv)
    with assms binary have ok: "var_ok v1" "var_ok v2"
      "\<And>w. var_ok w \<Longrightarrow> stacks_ok n 1 (st\<lparr>apOps := ops, aVars := w # V\<rparr>)"
      by (auto simp: stacks_ok_def weight_def)
    have "safe (faults n) (pending_ok n) (obind (body2 env f v1 v2) (\<lambda>(rc, w). Ok (rc, st\<lparr>apOps := ops, aVars := w # V\<rparr>)))"
      by (rule safe_obind [OF safe_weaken [OF body2_safe _ arith_faults_subset]])
        (use binary assms ok in \<open>auto simp: pending_ok_def\<close>)
    moreover have "st\<lparr>apOps := ops\<rparr> = st\<lparr>apOps := ops, aVars := v2 # v1 # V\<rparr>" using V by simp
    ultimately show ?thesis
      using call_frame2 [where st = "st\<lparr>apOps := ops\<rparr>"] binary assms(4) by (metis option.inject)
  qed
qed

lemma stack_op_args: "op \<in> stack_ops \<Longrightarrow> cArgs op = 1 \<or> cArgs op = 2 \<and> op \<in> set binary_ops"
  by (auto simp: stack_ops_def op_args)

lemma reduce_ops_safe:
  "pending_ok n (rc, st) \<Longrightarrow>
   safe (faults n) (\<lambda>(rc, st). pending_ok n (rc, st) \<and> (pPending st = Some g_ExprEndOfExpOp \<longrightarrow> apOps st = []))
     (reduce_ops env rc st)"
proof (induction env rc st rule: reduce_ops.induct)
  case (1 env rc st)
  have inv: "stacks_ok n 1 st" "pPending st \<noteq> None" using "1.prems" by (auto simp: pending_ok_def)
  show ?case
  proof (cases "apOps st")
    case Nil
    with "1.prems" show ?thesis by (subst reduce_ops.simps) simp
  next
    case (Cons op ops)
    obtain pend where pend: "pPending st = Some pend" using inv(2) by auto
    have op: "op \<in> stack_ops" using inv(1) Cons by (simp add: stacks_ok_def)
    have args: "cArgs op \<le> length (aVars st)"
      using inv(1) Cons stack_op_args [OF op] by (auto simp: stacks_ok_def)
    obtain f where f: "pfn op = Some f"
      using op by (cases rule: stack_op_method) (auto simp: op_left_parenthesis_def)
    have stop: "\<not> iPrecedence op \<ge> iPrecedence g_ExprEndOfExpOp \<Longrightarrow> False"
      by (simp add: g_ExprEndOfExpOp_def)
    have call: "safe (faults n) (\<lambda>(rc, st). pending_ok n (rc, st) \<and>
          (pPending st = Some g_ExprEndOfExpOp \<longrightarrow> apOps st = []))
        (obind (expr_call env f (st\<lparr>apOps := ops\<rparr>)) (\<lambda>(rc, pThis).
          if rc < kExprRet_Ok then Ok (rc, pThis) else reduce_ops env rc pThis))"
      if "iPrecedence op \<ge> iPrecedence pend"
    proof (rule safe_obind [OF call_safe [OF inv(1) Cons inv(2) f]])
      fix x
      assume x: "expr_call env f (st\<lparr>apOps := ops\<rparr>) = Ok x" "pending_ok n x"
      obtain rc1 st1 where "x = (rc1, st1)" by (cases x)
      with x "1.IH" [OF Cons pend that args f x(1)]
      show "safe (faults n) (\<lambda>(rc, st). pending_ok n (rc, st) \<and>
            (pPending st = Some g_ExprEndOfExpOp \<longrightarrow> apOps st = []))
          (case x of (rc, pThis) \<Rightarrow> if rc < kExprRet_Ok then Ok (rc, pThis) else reduce_ops env rc pThis)"
        by (auto simp: pending_ok_def)
    qed
    with "1.prems" Cons pend args f stop show ?thesis
      by (subst reduce_ops.simps) auto
  qed
qed

text \<open>A call whose status the caller tests before it goes on.\<close>

lemma safe_status:
  assumes "safe F P m" and "\<And>rc st. m = Ok (rc, st) \<Longrightarrow> P (rc, st) \<Longrightarrow> rc \<noteq> kExprRet_Error"
    and "\<And>rc st. m = Ok (rc, st) \<Longrightarrow> P (rc, st) \<Longrightarrow> rc \<noteq> kExprRet_Error \<Longrightarrow> safe F Q (f rc st)"
  shows "safe F Q (obind m (\<lambda>(rc, st). if rc < kExprRet_Ok then Ok (rc, st) else f rc st))"
  using assms by (cases m) auto

lemma expr_eval_safe:
  "stacks_ok n 0 st \<Longrightarrow> pPending st = None \<Longrightarrow>
   safe (faults n) (\<lambda>(rc, st). rc = kExprRet_EndOfExpr \<and> (\<exists>v. aVars st = [v] \<and> var_ok v)) (expr_eval env st)"
proof (induction env st rule: expr_eval.induct)
  case (1 env st)
  let ?P = "\<lambda>(rc, st). rc = kExprRet_EndOfExpr \<and> (\<exists>v. aVars st = [v] \<and> var_ok v)"
  let ?last = "\<lambda>rc st. case apOps st of
       [] \<Rightarrow> Undef OutOfBounds
     | pOp # ops \<Rightarrow>
         if iPrecedence pOp = 0 then Ok (rc, st)
         else if cArgs pOp = 0 then Fatal (UnexpectedOperator (szOp pOp))
         else expr_eval env st"
  have last: "safe (faults n) ?P (?last rc5 p5)"
    if e: "eat_unary st = Ok (rc1, p1)" "expr_get_binary_or_eoe_or_rparen p1 = Ok (rc2, p2)"
      "expr_unget_op p2 = Ok p3" "reduce_ops env rc2 p3 = Ok (rc4, p4)"
      "expr_get_binary_or_eoe_or_rparen p4 = Ok (rc5, p5)"
      "rc1 \<noteq> kExprRet_Error" "rc2 \<noteq> kExprRet_Error" "rc4 \<noteq> kExprRet_Error" "rc5 \<noteq> kExprRet_Error"
      and ok: "pending_ok n (rc4, p4)" "pPending p4 = Some g_ExprEndOfExpOp \<longrightarrow> apOps p4 = []"
    for rc1 p1 rc2 p2 p3 rc4 p4 rc5 p5
  proof -
    obtain q where q: "pPending p4 = Some q" using ok(1) by (auto simp: pending_ok_def)
    from e(5) q have p5: "p5 = p4\<lparr>pPending := None, apOps := q # apOps p4\<rparr>"
      "rc5 = (if iPrecedence q \<noteq> 0 then kExprRet_Operator else kExprRet_EndOfExpr)"
      by (auto elim!: get_binary_cases)
    have inv: "stacks_ok n 1 p4" using ok(1) by (simp add: pending_ok_def)
    with q consider (eoe) "q = g_ExprEndOfExpOp" | (paren) "q = op_right_parenthesis"
      | (op) "q \<in> set binary_ops" by (auto simp: stacks_ok_def closers_def)
    then show ?thesis
    proof cases
      case eoe
      with ok(2) q have "apOps p4 = []" by simp
      with inv have "\<exists>v. aVars p4 = [v] \<and> var_ok v"
        by (cases "aVars p4") (auto simp: stacks_ok_def)
      with eoe p5 show ?thesis by (simp add: g_ExprEndOfExpOp_def)
    next
      case paren
      with p5 show ?thesis by (simp add: op_right_parenthesis_def)
    next
      case op
      with inv q p5 have "stacks_ok n 0 p5" "pPending p5 = None"
        by (auto simp: stacks_ok_def stack_ops_def weight_def op_args split: if_splits)
      moreover have "iPrecedence q \<noteq> 0" "cArgs q \<noteq> 0"
        using op by (auto simp: binary_ops_def g_aExprOps_def EXPR_OP_def op_left_parenthesis_def
            op_right_parenthesis_def)
      ultimately show ?thesis
        using "1.IH" [OF e(1) refl _ e(2) refl _ e(3) e(4) refl _ e(5) refl] e(6-9) p5 by simp
    qed
  qed
  show ?case
    unfolding expr_eval.simps [of env st]
  proof (rule safe_status [OF eat_unary_safe [OF "1.prems"]], goal_cases)
    case (2 rc1 p1)
    note e1 = 2
    from 2 have "stacks_ok n 1 p1" by simp
    then show ?case
    proof (rule safe_status [OF get_binary_safe], goal_cases)
      case (2 rc2 p2)
      note e2 = 2
      show ?case
      proof (rule safe_obind [OF unget_safe [OF e2(2)]], goal_cases)
        case (1 p3)
        note e3 = 1
        show ?case
        proof (rule safe_status [OF reduce_ops_safe [OF e3(2)]], goal_cases)
          case (2 rc4 p4)
          then have "stacks_ok n 1 p4" by (simp add: pending_ok_def)
          then show ?case
          proof (rule safe_status [OF get_binary_safe], goal_cases)
            case e5: (2 rc5 p5)
            from last [OF e1(1) e2(1) e3(1) 2(1) e5(1) e1(3) e2(3) 2(3) e5(3)] 2(2) show ?case by simp
          qed (simp add: token_pushed_def)
        qed (simp add: pending_ok_def)
      qed
    qed (simp add: token_pushed_def)
  qed simp
qed

lemma expr_create_safe:
  assumes "length e = n" and "expr_create e = Ok st"
  shows "stacks_ok n 0 st" and "pPending st = None"
  using assms by (auto simp: expr_create_def expr_map_init_eq stacks_ok_def weight_def)

lemma create_eval_safe:
  "safe (faults (length e)) (\<lambda>(rc, st). rc = kExprRet_EndOfExpr \<and> (\<exists>v. aVars st = [v] \<and> var_ok v))
     (obind (expr_create e) (expr_eval env))"
  by (rule safe_obind [where P = "\<lambda>st. stacks_ok (length e) 0 st \<and> pPending st = None"])
    (auto simp: expr_create_def expr_map_init_eq stacks_ok_def weight_def intro: expr_eval_safe)

lemma create_eval_rule:
  assumes "\<And>st v. aVars st = [v] \<Longrightarrow> var_ok v \<Longrightarrow> safe (faults (length e)) Q (f (kExprRet_EndOfExpr, st))"
  shows "safe (faults (length e)) Q (obind (expr_create e) (\<lambda>p. obind (expr_eval env p) f))"
  using safe_obind [OF create_eval_safe, of e env Q f] assms by (auto simp: split_paired_all)

lemma to_string_safe:
  "safe (faults (length e)) (\<lambda>s. \<exists>t. s = ob @ t) (expr_eval_to_string env ob e)"
  unfolding expr_eval_to_string_def
proof (rule create_eval_rule, simp add: first_var_def)
  fix v
  assume "var_ok v"
  then have "safe (faults (length e)) (\<lambda>v. \<exists>s. var_psz v = Ok s) (expr_var_make_simple_string env v)"
    by (intro safe_weaken [OF make_simple_safe _ arith_faults_subset]) auto
  then show "safe (faults (length e)) (\<lambda>s. \<exists>t. s = ob @ t)
      (obind (expr_var_make_simple_string env v) (\<lambda>v. obind (var_psz v) (\<lambda>psz. Ok (ob @ psz))))"
    by (rule safe_obind) auto
qed

lemma if_conditionals_safe:
  "safe (faults (length e)) (\<lambda>r. r = 0 \<or> r = 1) (expr_eval_if_conditionals env e)"
  unfolding expr_eval_if_conditionals_def
proof (rule create_eval_rule, simp add: first_var_def)
  fix v
  assume "var_ok v"
  then show "safe (faults (length e)) (\<lambda>r. r = 0 \<or> r = 1)
      (obind (expr_var_make_bool env v) (\<lambda>(b, v). Ok (if b \<noteq> 0 then 0 else 1)))"
    by (intro safe_obind [OF safe_weaken [OF make_bool_safe _ arith_faults_subset]]) auto
qed

section \<open>The properties\<close>

text \<open>An environment without variables and files, for the witnesses.\<close>

definition no_make :: expr_env where
  "no_make = \<lparr>allocated_variable_expand = (\<lambda>s. s), lookup_variable = (\<lambda>s. None),
     stat_succeeds = (\<lambda>s. False), lookup_file = (\<lambda>s. None)\<rparr>"

text \<open>C3: Evaluating any text in any environment of variables and files never fails an assertion,
  never reads the wrong member of an operand's union and never follows a null pointer; the only
  faults left are undefined 64-bit arithmetic and an array overrun.\<close>

theorem expr_eval_no_internal_fault:
  "expr_eval_to_string env ob e \<notin> {Undef AssertFailed, Undef BadUnion, Undef NullDeref} \<and>
   expr_eval_if_conditionals env e \<notin> {Undef AssertFailed, Undef BadUnion, Undef NullDeref}"
proof -
  have "u \<in> {SignedOverflow, DivByZero, ShiftRange, OutOfBounds}" if "u \<in> faults (length e)" for u
    using that by (auto simp: faults_def arith_faults_def split: if_splits)
  then show ?thesis
    using to_string_safe [of e ob env] if_conditionals_safe [of e env] by fastforce
qed

text \<open>C14: An expression of at most 41 characters never overruns an array, neither the operator stack nor
  the nesting stack of variable references, whatever the text is; overruns need a longer one.\<close>

theorem expr_eval_no_overrun:
  assumes "length e \<le> 41"
  shows "expr_eval_to_string env ob e \<noteq> Undef OutOfBounds \<and>
    expr_eval_if_conditionals env e \<noteq> Undef OutOfBounds"
proof -
  have "OutOfBounds \<notin> faults (length e)" using assms by (simp add: faults_def arith_faults_def)
  then show ?thesis
    using to_string_safe [of e ob env] if_conditionals_safe [of e env] by auto
qed

text \<open>C13: When the evaluation of an expression returns, it returns the end-of-expression status with
  exactly one operand on the stack, so destroying the evaluator frees every operand although
  \<open>expr_destroy\<close> deletes the first one over and over.\<close>

theorem expr_eval_one_operand:
  assumes "obind (expr_create e) (expr_eval env) = Ok (rc, st)"
  shows "rc = kExprRet_EndOfExpr \<and> length (aVars st) = 1 \<and> expr_destroy st = [Invalid]"
proof -
  obtain v where "rc = kExprRet_EndOfExpr" "aVars st = [v]"
    using create_eval_safe [of e env] assms by auto
  then show ?thesis by (simp add: expr_destroy_def expr_var_delete_def)
qed

text \<open>\<open>expr_eval_if_conditionals\<close> returns 0 or 1 if it returns: the -1 its comment documents for an
  invalid expression cannot occur.\<close>

theorem expr_eval_if_conditionals_result:
  assumes "expr_eval_if_conditionals env e = Ok r"
  shows "r = 0 \<or> r = 1"
  using if_conditionals_safe [of e env] assms by simp

theorem expr_eval_no_overrun_witness:
  "expr_eval_to_string no_make [] ''((((1'' \<noteq> Undef OutOfBounds \<and>
   expr_eval_if_conditionals no_make ''((((1'' \<noteq> Undef OutOfBounds"
  by (rule expr_eval_no_overrun) simp

theorem expr_eval_one_operand_witness:
  "\<exists>rc st. obind (expr_create ''1+2'') (expr_eval no_make) = Ok (rc, st) \<and> rc = kExprRet_EndOfExpr \<and>
     length (aVars st) = 1 \<and> expr_destroy st = [Invalid]"
proof -
  have "obind (expr_create ''1+2'') (expr_eval no_make) =
      Ok (kExprRet_EndOfExpr, \<lparr>pszExpr = ''1+2'', psz = [], pPending = None,
        apOps = [g_ExprEndOfExpOp], aVars = [Num 3]\<rparr>)" by code_simp
  from expr_eval_one_operand [OF this] this show ?thesis by blast
qed

theorem expr_eval_if_conditionals_result_witness:
  "expr_eval_if_conditionals no_make ''1 > 2'' = Ok 1 \<and> (1 = (0 :: int) \<or> 1 = (1 :: int))"
proof -
  have "expr_eval_if_conditionals no_make ''1 > 2'' = Ok 1" by code_simp
  from expr_eval_if_conditionals_result [OF this] this show ?thesis by blast
qed

lemma eat_unary_parens:
  assumes "73 \<le> length (apOps st) + k" and "psz st = replicate k (CHR ''('') @ r"
    and "length (apOps st) \<le> EXPR_MAX_OPERATORS" and "aVars st = []"
  shows "eat_unary st = Undef OutOfBounds"
  using assms
proof (induction k arbitrary: st)
  case 0
  then show ?case by (simp add: EXPR_MAX_OPERATORS_def)
next
  case (Suc k)
  show ?case
  proof (cases "length (apOps st) < EXPR_MAX_OPERATORS")
    case True
    let ?st = "st\<lparr>apOps := op_left_parenthesis # apOps st, psz := replicate k (CHR ''('') @ r\<rparr>"
    have "expr_get_unary_or_operand st = Ok (kExprRet_Operator, ?st)"
      using Suc.prems True get_unary_lparen [of st "replicate k (CHR ''('') @ r"]
      by (simp add: EXPR_MAX_OPERANDS_def)
    moreover have "eat_unary ?st = Undef OutOfBounds"
      by (rule Suc.IH) (use Suc.prems True in simp_all)
    ultimately show ?thesis by (subst eat_unary.simps) simp
  next
    case False
    have map: "expr_map_get (CHR ''('') = 143" by code_simp
    have "drop 35 g_aExprOps = [op_left_parenthesis, op_right_parenthesis]" by (simp add: g_aExprOps_def)
    then have "expr_lookup_op (CHR ''('' # p) 143 True = Ok (Some op_left_parenthesis)" for p
      by (simp add: expr_lookup_op_def op_text_matches_def ctype_defs) (simp add: op_left_parenthesis_def)
    with False Suc.prems map have "expr_get_unary_or_operand st = Undef OutOfBounds"
      by (simp add: expr_get_unary_or_operand_def push_op_def EXPR_MAX_OPERANDS_def)
    then show ?thesis by (subst eat_unary.simps) simp
  qed
qed

text \<open>The operator stack can be overrun: a text that starts with 73 or more opening parentheses
  writes behind the 72 elements of \<open>apOps\<close>, because \<open>expr_get_unary_or_operand\<close> tests the fill of the
  operand stack where it pushes an operator.\<close>

theorem operator_stack_overrun:
  assumes "73 \<le> k"
  shows "expr_eval_to_string env ob (replicate k (CHR ''('') @ e) = Undef OutOfBounds"
proof -
  have "eat_unary \<lparr>pszExpr = x, psz = replicate k (CHR ''('') @ e, pPending = None, apOps = [], aVars = []\<rparr> =
      Undef OutOfBounds" for x
    using assms by (intro eat_unary_parens) simp_all
  then show ?thesis
    by (simp add: expr_eval_to_string_def expr_create_def expr_map_init_eq)
      (subst expr_eval.simps, simp)
qed

theorem operator_stack_overrun_witness:
  "expr_eval_to_string no_make [] (replicate 73 (CHR ''('') @ ''1'') = Undef OutOfBounds"
  by (rule operator_stack_overrun) simp

lemma scan_nested:
  "length pars \<le> ACH_PARS \<Longrightarrow> 21 \<le> length pars + k \<Longrightarrow>
   scan_operand acc pars (concat (replicate k ''$('') @ r) = Undef OutOfBounds"
proof (induction k arbitrary: acc pars)
  case 0
  then show ?case by (simp add: ACH_PARS_def)
next
  case (Suc k)
  show ?case
  proof (cases "length pars < ACH_PARS")
    case True
    with Suc.prems Suc.IH [of "CHR '')'' # pars" "CHR ''('' # CHR ''$'' # acc"] show ?thesis
      by (simp add: scan_operand.simps(2) [of acc])
  next
    case False
    with Suc.prems show ?thesis by (simp add: scan_operand.simps(2) [of acc] ACH_PARS_def)
  qed
qed

text \<open>The nesting stack can be overrun: 21 or more nested variable references write behind the 20
  elements of \<open>achPars\<close>, because the depth is compared with the size of the array and not with its
  last index, and before the increment.\<close>

theorem nesting_stack_overrun:
  assumes "21 \<le> k"
  shows "expr_eval_to_string env ob (concat (replicate k ''$('') @ e) = Undef OutOfBounds"
proof -
  obtain j where k: "k = Suc j" using assms by (cases k) auto
  have map: "expr_map_get (CHR ''$'') = 0" by code_simp
  have "scan_operand [] [] (concat (replicate k ''$('') @ e) = Undef OutOfBounds"
    using assms by (intro scan_nested) simp_all
  then have "get_operand (concat (replicate k ''$('') @ e) = Undef OutOfBounds"
    by (simp add: get_operand_def k)
  then have "expr_get_unary_or_operand \<lparr>pszExpr = x, psz = concat (replicate k ''$('') @ e, pPending = None,
      apOps = [], aVars = []\<rparr> = Undef OutOfBounds" for x
    using map by (simp add: expr_get_unary_or_operand_def k EXPR_MAX_OPERANDS_def)
  then show ?thesis
    by (simp add: expr_eval_to_string_def expr_create_def expr_map_init_eq)
      (subst expr_eval.simps, subst eat_unary.simps, simp)
qed

theorem nesting_stack_overrun_witness:
  "expr_eval_to_string no_make [] (concat (replicate 21 ''$('') @ ''X'') = Undef OutOfBounds"
  by (rule nesting_stack_overrun) simp

end
