(* ===== verification/Avl.thy ===== *)
theory Avl
  imports CLib
begin

text \<open>
  The AVL tree of fastdep, \<open>src/src/fastdep/avl.c\<close> and \<open>avl.h\<close>: the code itself.

  The nodes live in an explicit store: \<open>avlmem\<close> holds the root variable \<open>*ppTree\<close> and a map
  from addresses to node structures. A \<open>PAVLNODECORE\<close> is an optional address, and a
  \<open>PPAVLNODECORE\<close>, of which the functions keep a stack, is either the root variable or the
  left or right field of a node; \<open>deref\<close> and \<open>store_pp\<close> read and write through it.
  \<open>uchHeight\<close> is an \<open>unsigned char\<close>: every value stored in it passes through \<open>uchar\<close>.

  The stacks are lists with the newest entry first, so \<open>cEntries\<close> is their length; entry \<open>i\<close>
  of the array is the entry \<open>cEntries - 1 - i\<close> of the list. An access at or past
  \<open>AVL_MAX_HEIGHT\<close> is the fault \<open>OutOfBounds\<close>, unless an \<open>assert\<close> stops the program before it.

  Loops that an \<open>assert\<close> on the stack bounds are total functions. The others follow pointers as
  long as the store lets them and are partial functions: not returning is the value \<open>None\<close>.
\<close>

section \<open>The store\<close>

type_synonym addr = nat

record avlnodecore =
  Key :: string
  pLeft :: "addr option"
  pRight :: "addr option"
  uchHeight :: nat

record avlmem =
  ppTree :: "addr option"
  cells :: "addr \<Rightarrow> avlnodecore"

datatype ppnode = TreeVar | LeftOf addr | RightOf addr

definition AVL_MAX_HEIGHT :: nat where
  "AVL_MAX_HEIGHT = 19"

text \<open>The comparison macros of \<open>avl.h\<close>, for keys that are case-sensitive strings.\<close>

definition AVL_L :: "string \<Rightarrow> string \<Rightarrow> bool" where
  "AVL_L key1 key2 \<longleftrightarrow> strcmp key1 key2 < 0"

definition AVL_G :: "string \<Rightarrow> string \<Rightarrow> bool" where
  "AVL_G key1 key2 \<longleftrightarrow> strcmp key1 key2 > 0"

definition AVL_E :: "string \<Rightarrow> string \<Rightarrow> bool" where
  "AVL_E key1 key2 \<longleftrightarrow> strcmp key1 key2 = 0"

definition AVL_CMP :: "string \<Rightarrow> string \<Rightarrow> int" where
  "AVL_CMP key1 key2 = strcmp key1 key2"

definition uchar :: "nat \<Rightarrow> nat" where
  "uchar n = n mod 256"

definition AVL_HEIGHTOF :: "avlmem \<Rightarrow> addr option \<Rightarrow> nat" where
  "AVL_HEIGHTOF m pNode = (case pNode of None \<Rightarrow> 0 | Some a \<Rightarrow> uchHeight (cells m a))"

fun deref :: "avlmem \<Rightarrow> ppnode \<Rightarrow> addr option" where
  "deref m TreeVar = ppTree m"
| "deref m (LeftOf a) = pLeft (cells m a)"
| "deref m (RightOf a) = pRight (cells m a)"

definition set_cell :: "avlmem \<Rightarrow> addr \<Rightarrow> (avlnodecore \<Rightarrow> avlnodecore) \<Rightarrow> avlmem" where
  "set_cell m a f = m\<lparr>cells := (cells m)(a := f (cells m a))\<rparr>"

fun store_pp :: "avlmem \<Rightarrow> ppnode \<Rightarrow> addr option \<Rightarrow> avlmem" where
  "store_pp m TreeVar p = m\<lparr>ppTree := p\<rparr>"
| "store_pp m (LeftOf a) p = set_cell m a (\<lambda>n. n\<lparr>pLeft := p\<rparr>)"
| "store_pp m (RightOf a) p = set_cell m a (\<lambda>n. n\<lparr>pRight := p\<rparr>)"

definition set_left :: "avlmem \<Rightarrow> addr \<Rightarrow> addr option \<Rightarrow> avlmem" where
  "set_left m a p = store_pp m (LeftOf a) p"

definition set_right :: "avlmem \<Rightarrow> addr \<Rightarrow> addr option \<Rightarrow> avlmem" where
  "set_right m a p = store_pp m (RightOf a) p"

definition set_height :: "avlmem \<Rightarrow> addr \<Rightarrow> nat \<Rightarrow> avlmem" where
  "set_height m a h = set_cell m a (\<lambda>n. n\<lparr>uchHeight := uchar h\<rparr>)"

text \<open>\<open>pNode->...\<close> through a pointer that may be null.\<close>

fun nonnull :: "addr option \<Rightarrow> (unit, addr) outcome" where
  "nonnull None = Undef NullDeref"
| "nonnull (Some a) = Ok a"

section \<open>AVLRebalance\<close>

text \<open>
  The body of the loop for one stack entry. It returns the store and whether the loop goes on:
  the \<open>break\<close> is taken when the height of the node is what it was.
\<close>

definition rebalance_left_high ::
  "avlmem \<Rightarrow> ppnode \<Rightarrow> addr \<Rightarrow> nat \<Rightarrow> (unit, avlmem) outcome" where
  "rebalance_left_high m ppNode pNode uchLeftHeight =
     obind (nonnull (pLeft (cells m pNode))) (\<lambda>pLeftNode.
     let pLeftLeftNode = pLeft (cells m pLeftNode);
         pLeftRightNode = pRight (cells m pLeftNode);
         uchLeftRightHeight = AVL_HEIGHTOF m pLeftRightNode
     in if AVL_HEIGHTOF m pLeftLeftNode \<ge> uchLeftRightHeight then
          let m = set_left m pNode pLeftRightNode;
              m = set_right m pLeftNode (Some pNode);
              m = set_height m pNode (1 + uchLeftRightHeight);
              m = set_height m pLeftNode (1 + uchHeight (cells m pNode))
          in Ok (store_pp m ppNode (Some pLeftNode))
        else
          obind (nonnull pLeftRightNode) (\<lambda>pLeftRight.
          let m = set_right m pLeftNode (pLeft (cells m pLeftRight));
              m = set_left m pNode (pRight (cells m pLeftRight));
              m = set_left m pLeftRight (Some pLeftNode);
              m = set_right m pLeftRight (Some pNode);
              m = set_height m pNode uchLeftRightHeight;
              m = set_height m pLeftNode uchLeftRightHeight;
              m = set_height m pLeftRight uchLeftHeight
          in Ok (store_pp m ppNode (Some pLeftRight))))"

definition rebalance_right_high ::
  "avlmem \<Rightarrow> ppnode \<Rightarrow> addr \<Rightarrow> nat \<Rightarrow> (unit, avlmem) outcome" where
  "rebalance_right_high m ppNode pNode uchRightHeight =
     obind (nonnull (pRight (cells m pNode))) (\<lambda>pRightNode.
     let pRightLeftNode = pLeft (cells m pRightNode);
         uchRightLeftHeight = AVL_HEIGHTOF m pRightLeftNode;
         pRightRightNode = pRight (cells m pRightNode)
     in if AVL_HEIGHTOF m pRightRightNode \<ge> uchRightLeftHeight then
          let m = set_right m pNode pRightLeftNode;
              m = set_left m pRightNode (Some pNode);
              m = set_height m pNode (1 + uchRightLeftHeight);
              m = set_height m pRightNode (1 + uchHeight (cells m pNode))
          in Ok (store_pp m ppNode (Some pRightNode))
        else
          obind (nonnull pRightLeftNode) (\<lambda>pRightLeft.
          let m = set_left m pRightNode (pRight (cells m pRightLeft));
              m = set_right m pNode (pLeft (cells m pRightLeft));
              m = set_right m pRightLeft (Some pRightNode);
              m = set_left m pRightLeft (Some pNode);
              m = set_height m pNode uchRightLeftHeight;
              m = set_height m pRightNode uchRightLeftHeight;
              m = set_height m pRightLeft uchRightHeight
          in Ok (store_pp m ppNode (Some pRightLeft))))"

definition rebalance_step :: "avlmem \<Rightarrow> ppnode \<Rightarrow> (unit, avlmem \<times> bool) outcome" where
  "rebalance_step m ppNode =
     obind (nonnull (deref m ppNode)) (\<lambda>pNode.
     let uchLeftHeight = AVL_HEIGHTOF m (pLeft (cells m pNode));
         uchRightHeight = AVL_HEIGHTOF m (pRight (cells m pNode))
     in if uchRightHeight + 1 < uchLeftHeight then
          obind (rebalance_left_high m ppNode pNode uchLeftHeight) (\<lambda>m. Ok (m, True))
        else if uchLeftHeight + 1 < uchRightHeight then
          obind (rebalance_right_high m ppNode pNode uchRightHeight) (\<lambda>m. Ok (m, True))
        else
          let uchHeight' = uchar (max uchLeftHeight uchRightHeight + 1)
          in if uchHeight' = uchHeight (cells m pNode) then Ok (m, False)
             else Ok (set_height m pNode uchHeight', True))"

fun AVLRebalance :: "avlmem \<Rightarrow> ppnode list \<Rightarrow> (unit, avlmem) outcome" where
  "AVLRebalance m [] = Ok m"
| "AVLRebalance m (ppNode # aEntries) =
     obind (rebalance_step m ppNode) (\<lambda>(m, go_on).
       if go_on then AVLRebalance m aEntries else Ok m)"

section \<open>AVLInsert and AVLRemove\<close>

text \<open>
  The search loop of \<open>AVLInsert\<close>: \<open>None\<close> is the early \<open>return FALSE\<close>, otherwise the stack and
  \<open>ppCurNode\<close>, which points to a null pointer.
\<close>

function insert_walk :: "avlmem \<Rightarrow> addr \<Rightarrow> ppnode \<Rightarrow> ppnode list
    \<Rightarrow> (unit, (ppnode list \<times> ppnode) option) outcome" where
  "insert_walk m pNode ppCurNode aEntries =
     (case deref m ppCurNode of
        None \<Rightarrow> Ok (Some (aEntries, ppCurNode))
      | Some pCurNode \<Rightarrow>
          if \<not> length aEntries < AVL_MAX_HEIGHT then Undef AssertFailed
          else if pNode = pCurNode then Undef AssertFailed
          else if AVL_E (Key (cells m pCurNode)) (Key (cells m pNode)) then Ok None
          else if AVL_G (Key (cells m pCurNode)) (Key (cells m pNode))
          then insert_walk m pNode (LeftOf pCurNode) (ppCurNode # aEntries)
          else insert_walk m pNode (RightOf pCurNode) (ppCurNode # aEntries))"
  by pat_completeness auto
termination by (relation "measure (\<lambda>(m, pNode, ppCurNode, aEntries). AVL_MAX_HEIGHT - length aEntries)")
  auto

definition AVLInsert :: "avlmem \<Rightarrow> addr \<Rightarrow> (unit, avlmem \<times> bool) outcome" where
  "AVLInsert m pNode =
     obind (insert_walk m pNode TreeVar []) (\<lambda>r. case r of
       None \<Rightarrow> Ok (m, False)
     | Some (aEntries, ppCurNode) \<Rightarrow>
         let m = set_right m pNode None;
             m = set_left m pNode None;
             m = set_height m pNode 1;
             m = store_pp m ppCurNode (Some pNode)
         in obind (AVLRebalance m aEntries) (\<lambda>m. Ok (m, True)))"

text \<open>
  The search loop of \<open>AVLRemove\<close>. It returns the stack, whose top is \<open>ppDeleteNode\<close> when the
  key was found, and the node found.
\<close>

function remove_walk :: "avlmem \<Rightarrow> string \<Rightarrow> ppnode \<Rightarrow> ppnode list
    \<Rightarrow> (unit, ppnode list \<times> ppnode \<times> addr option) outcome" where
  "remove_walk m key ppDeleteNode aEntries =
     (case deref m ppDeleteNode of
        None \<Rightarrow> Ok (aEntries, ppDeleteNode, None)
      | Some pDeleteNode \<Rightarrow>
          if \<not> length aEntries < AVL_MAX_HEIGHT then Undef AssertFailed
          else
            let aEntries = ppDeleteNode # aEntries;
                iDiff = AVL_CMP (Key (cells m pDeleteNode)) key
            in if iDiff = 0 then Ok (aEntries, ppDeleteNode, Some pDeleteNode)
               else if iDiff > 0 then remove_walk m key (LeftOf pDeleteNode) aEntries
               else remove_walk m key (RightOf pDeleteNode) aEntries)"
  by pat_completeness auto
termination by (relation "measure (\<lambda>(m, key, ppDeleteNode, aEntries). AVL_MAX_HEIGHT - length aEntries)")
  auto

text \<open>
  The loop that looks for the right-most node of the left subtree, \<open>pLeftLeast\<close> in the code. The
  assignment to \<open>pLeftLeast\<close> at its end is dead: the loop condition loads it again.
\<close>

function left_least_walk :: "avlmem \<Rightarrow> ppnode \<Rightarrow> ppnode list
    \<Rightarrow> (unit, ppnode list \<times> ppnode \<times> addr) outcome" where
  "left_least_walk m ppLeftLeast aEntries =
     (case deref m ppLeftLeast of
        None \<Rightarrow> Undef NullDeref
      | Some pLeftLeast \<Rightarrow>
          if pRight (cells m pLeftLeast) = None then Ok (aEntries, ppLeftLeast, pLeftLeast)
          else if \<not> length aEntries < AVL_MAX_HEIGHT then Undef AssertFailed
          else left_least_walk m (RightOf pLeftLeast) (ppLeftLeast # aEntries))"
  by pat_completeness auto
termination by (relation "measure (\<lambda>(m, ppLeftLeast, aEntries). AVL_MAX_HEIGHT - length aEntries)")
  auto

text \<open>
  \<open>AVLStack.aEntries[iStackEntry] = v\<close>. An entry above the top of the stack is not read before it
  is pushed again, so writing it leaves the list as it is.
\<close>

definition stack_set :: "ppnode list \<Rightarrow> nat \<Rightarrow> ppnode \<Rightarrow> (unit, ppnode list) outcome" where
  "stack_set aEntries i v =
     (if AVL_MAX_HEIGHT \<le> i then Undef OutOfBounds
      else Ok (if i < length aEntries then aEntries[length aEntries - 1 - i := v] else aEntries))"

definition AVLRemove :: "avlmem \<Rightarrow> string \<Rightarrow> (unit, avlmem \<times> addr option) outcome" where
  "AVLRemove m key =
     obind (remove_walk m key TreeVar []) (\<lambda>(aEntries, ppDeleteNode, found). case found of
       None \<Rightarrow> Ok (m, None)
     | Some pDeleteNode \<Rightarrow>
         obind
           (if pLeft (cells m pDeleteNode) \<noteq> None then
              let iStackEntry = length aEntries in
              obind (left_least_walk m (LeftOf pDeleteNode) aEntries)
                (\<lambda>(aEntries, ppLeftLeast, pLeftLeast).
                let m = store_pp m ppLeftLeast (pLeft (cells m pLeftLeast));
                    m = set_left m pLeftLeast (pLeft (cells m pDeleteNode));
                    m = set_right m pLeftLeast (pRight (cells m pDeleteNode));
                    m = set_height m pLeftLeast (uchHeight (cells m pDeleteNode));
                    m = store_pp m ppDeleteNode (Some pLeftLeast)
                in obind (stack_set aEntries iStackEntry (LeftOf pLeftLeast))
                     (\<lambda>aEntries. Ok (m, aEntries)))
            else
              Ok (store_pp m ppDeleteNode (pRight (cells m pDeleteNode)), tl aEntries))
           (\<lambda>(m, aEntries). obind (AVLRebalance m aEntries) (\<lambda>m. Ok (m, Some pDeleteNode))))"

section \<open>Searching\<close>

text \<open>The loop of \<open>AVLGet\<close>.\<close>

partial_function (option) get_walk :: "avlmem \<Rightarrow> string \<Rightarrow> addr option \<Rightarrow> addr option option" where
  "get_walk m key pNode =
     (case pNode of
        None \<Rightarrow> Some None
      | Some a \<Rightarrow>
          let iDiff = AVL_CMP (Key (cells m a)) key
          in if iDiff = 0 then Some (Some a)
             else if iDiff > 0 then get_walk m key (pLeft (cells m a))
             else get_walk m key (pRight (cells m a)))"

definition AVLGet :: "avlmem \<Rightarrow> string \<Rightarrow> addr option option" where
  "AVLGet m key = get_walk m key (ppTree m)"

text \<open>\<open>AVLGetWithParent\<close> returns the node and what it stores in \<open>*ppParent\<close>.\<close>

partial_function (option) parent_walk ::
  "avlmem \<Rightarrow> string \<Rightarrow> addr option \<Rightarrow> addr option \<Rightarrow> (addr option \<times> addr option) option" where
  "parent_walk m key pNode pParent =
     (case pNode of
        None \<Rightarrow> Some (None, pParent)
      | Some a \<Rightarrow>
          let iDiff = AVL_CMP (Key (cells m a)) key
          in if iDiff = 0 then Some (Some a, pParent)
             else if iDiff > 0 then parent_walk m key (pLeft (cells m a)) (Some a)
             else parent_walk m key (pRight (cells m a)) (Some a))"

definition AVLGetWithParent :: "avlmem \<Rightarrow> string \<Rightarrow> (addr option \<times> addr option) option" where
  "AVLGetWithParent m key = parent_walk m key (ppTree m) None"

text \<open>The two loops of \<open>AVLGetBestFit\<close>, with \<open>pNodeLast\<close> as the last argument.\<close>

partial_function (option) above_walk ::
  "avlmem \<Rightarrow> string \<Rightarrow> addr option \<Rightarrow> addr option \<Rightarrow> (addr option \<times> addr option) option" where
  "above_walk m key pNode pNodeLast =
     (case pNode of
        None \<Rightarrow> Some (None, pNodeLast)
      | Some a \<Rightarrow>
          let iDiff = AVL_CMP (Key (cells m a)) key
          in if iDiff = 0 then Some (Some a, pNodeLast)
             else if iDiff > 0 then above_walk m key (pLeft (cells m a)) (Some a)
             else above_walk m key (pRight (cells m a)) pNodeLast)"

partial_function (option) below_walk ::
  "avlmem \<Rightarrow> string \<Rightarrow> addr option \<Rightarrow> addr option \<Rightarrow> (addr option \<times> addr option) option" where
  "below_walk m key pNode pNodeLast =
     (case pNode of
        None \<Rightarrow> Some (None, pNodeLast)
      | Some a \<Rightarrow>
          let iDiff = AVL_CMP (Key (cells m a)) key
          in if iDiff = 0 then Some (Some a, pNodeLast)
             else if iDiff < 0 then below_walk m key (pRight (cells m a)) (Some a)
             else below_walk m key (pLeft (cells m a)) pNodeLast)"

definition AVLGetBestFit :: "avlmem \<Rightarrow> string \<Rightarrow> int \<Rightarrow> addr option option" where
  "AVLGetBestFit m key fAbove =
     (case (if fAbove \<noteq> 0 then above_walk m key (ppTree m) None
            else below_walk m key (ppTree m) None) of
        None \<Rightarrow> None
      | Some (pNode, pNodeLast) \<Rightarrow> Some (if pNode = None then pNodeLast else pNode))"

section \<open>AVLGetWithAdjecentNodes\<close>

text \<open>The search loop; the node found is not on the stack.\<close>

function adjacent_walk :: "avlmem \<Rightarrow> string \<Rightarrow> ppnode \<Rightarrow> ppnode list
    \<Rightarrow> (unit, ppnode list \<times> addr option) outcome" where
  "adjacent_walk m key ppNode aEntries =
     (case deref m ppNode of
        None \<Rightarrow> Ok (aEntries, None)
      | Some pNode \<Rightarrow>
          let iDiff = AVL_CMP (Key (cells m pNode)) key
          in if iDiff = 0 then Ok (aEntries, Some pNode)
             else if \<not> length aEntries < AVL_MAX_HEIGHT then Undef AssertFailed
             else if iDiff > 0 then adjacent_walk m key (LeftOf pNode) (ppNode # aEntries)
             else adjacent_walk m key (RightOf pNode) (ppNode # aEntries))"
  by pat_completeness auto
termination by (relation "measure (\<lambda>(m, key, ppNode, aEntries). AVL_MAX_HEIGHT - length aEntries)")
  (auto simp: Let_def)

text \<open>The loops to the right-most and left-most node of a subtree.\<close>

partial_function (option) rightmost :: "avlmem \<Rightarrow> addr \<Rightarrow> addr option" where
  "rightmost m a = (case pRight (cells m a) of None \<Rightarrow> Some a | Some b \<Rightarrow> rightmost m b)"

partial_function (option) leftmost :: "avlmem \<Rightarrow> addr \<Rightarrow> addr option" where
  "leftmost m a = (case pLeft (cells m a) of None \<Rightarrow> Some a | Some b \<Rightarrow> leftmost m b)"

text \<open>The loop that rewinds the stack, with \<open>*ppLeft\<close> and \<open>*ppRight\<close>.\<close>

fun adjacent_rewind :: "avlmem \<Rightarrow> string \<Rightarrow> ppnode list \<Rightarrow> addr option \<Rightarrow> addr option
    \<Rightarrow> (unit, addr option \<times> addr option) outcome" where
  "adjacent_rewind m key [] lft rgt = Ok (lft, rgt)"
| "adjacent_rewind m key (pp # aEntries) lft rgt =
     obind (nonnull (deref m pp)) (\<lambda>pCurNode.
     let k = Key (cells m pCurNode);
         iDiff = AVL_CMP k key
     in if iDiff < 0 \<and> (case lft of None \<Rightarrow> True | Some l \<Rightarrow> AVL_G k (Key (cells m l)))
        then adjacent_rewind m key aEntries (Some pCurNode) rgt
        else if iDiff > 0 \<and> (case rgt of None \<Rightarrow> True | Some r \<Rightarrow> AVL_L k (Key (cells m r)))
        then adjacent_rewind m key aEntries lft (Some pCurNode)
        else adjacent_rewind m key aEntries lft rgt)"

text \<open>The result is the node found, \<open>*ppLeft\<close> and \<open>*ppRight\<close>.\<close>

definition AVLGetWithAdjecentNodes :: "avlmem \<Rightarrow> string
    \<Rightarrow> (unit, addr option \<times> addr option \<times> addr option) outcome option" where
  "AVLGetWithAdjecentNodes m key =
     (case adjacent_walk m key TreeVar [] of
        Undef u \<Rightarrow> Some (Undef u)
      | Fatal e \<Rightarrow> Some (Fatal e)
      | Ok (aEntries, None) \<Rightarrow> Some (Ok (None, None, None))
      | Ok (aEntries, Some pNode) \<Rightarrow>
          (case (case pLeft (cells m pNode) of
                   None \<Rightarrow> Some None | Some p \<Rightarrow> map_option Some (rightmost m p)) of
             None \<Rightarrow> None
           | Some lft \<Rightarrow>
               (case (case pRight (cells m pNode) of
                        None \<Rightarrow> Some None | Some p \<Rightarrow> map_option Some (leftmost m p)) of
                  None \<Rightarrow> None
                | Some rgt \<Rightarrow>
                    Some (obind (adjacent_rewind m key aEntries lft rgt)
                      (\<lambda>(lft, rgt). Ok (Some pNode, lft, rgt))))))"

section \<open>Iteration\<close>

text \<open>
  The code of \<open>AVLDoWithAll\<close> and of \<open>AVLGetNextNode\<close> is written twice, once for each direction;
  the second copy is the first with the fields \<open>pLeft\<close> and \<open>pRight\<close> exchanged. \<open>near\<close> is the
  field visited before the node and \<open>far\<close> the one visited after it. A stack entry is a node with
  its element of \<open>achFlags\<close>. The callback of \<open>AVLDoWithAll\<close> works on a state of its own and must
  leave the tree alone.
\<close>

definition near :: "bool \<Rightarrow> avlnodecore \<Rightarrow> addr option" where
  "near fFromLeft n = (if fFromLeft then pLeft n else pRight n)"

definition far :: "bool \<Rightarrow> avlnodecore \<Rightarrow> addr option" where
  "far fFromLeft n = (if fFromLeft then pRight n else pLeft n)"

definition push2 :: "addr option \<Rightarrow> (addr \<times> nat) list \<Rightarrow> (unit, (addr \<times> nat) list) outcome" where
  "push2 p aEntries =
     (case p of
        None \<Rightarrow> Ok aEntries
      | Some c \<Rightarrow> if AVL_MAX_HEIGHT \<le> length aEntries then Undef OutOfBounds
                  else Ok ((c, 0) # aEntries))"

partial_function (option) do_walk ::
  "avlmem \<Rightarrow> bool \<Rightarrow> (addr \<Rightarrow> 's \<Rightarrow> 's \<times> nat) \<Rightarrow> (addr \<times> nat) list \<Rightarrow> 's
    \<Rightarrow> (unit, 's \<times> nat) outcome option" where
  "do_walk m fFromLeft pfnCallBack aEntries pvParam =
     (case aEntries of
        [] \<Rightarrow> Some (Ok (pvParam, 0))
      | (pNode, flag) # rest \<Rightarrow>
          if flag = 0 \<and> near fFromLeft (cells m pNode) \<noteq> None then
            (case push2 (near fFromLeft (cells m pNode)) ((pNode, flag + 1) # rest) of
               Ok aEntries \<Rightarrow> do_walk m fFromLeft pfnCallBack aEntries pvParam
             | Fatal e \<Rightarrow> Some (Fatal e)
             | Undef u \<Rightarrow> Some (Undef u))
          else
            (let (pvParam, rc) = pfnCallBack pNode pvParam
             in if rc \<noteq> 0 then Some (Ok (pvParam, rc))
                else
                  (case push2 (far fFromLeft (cells m pNode)) rest of
                     Ok aEntries \<Rightarrow> do_walk m fFromLeft pfnCallBack aEntries pvParam
                   | Fatal e \<Rightarrow> Some (Fatal e)
                   | Undef u \<Rightarrow> Some (Undef u))))"

definition AVLDoWithAll :: "avlmem \<Rightarrow> int \<Rightarrow> (addr \<Rightarrow> 's \<Rightarrow> 's \<times> nat) \<Rightarrow> 's
    \<Rightarrow> (unit, 's \<times> nat) outcome option" where
  "AVLDoWithAll m fFromLeft pfnCallBack pvParam =
     (case ppTree m of
        None \<Rightarrow> Some (Ok (pvParam, 0))
      | Some pNode \<Rightarrow> do_walk m (fFromLeft \<noteq> 0) pfnCallBack [(pNode, 0)] pvParam)"

text \<open>The enumeration data: the direction is stored in a signed \<open>char\<close>.\<close>

record avlenumdata =
  eFromLeft :: int
  eEntries :: "(addr \<times> nat) list"

definition to_schar :: "int \<Rightarrow> int" where
  "to_schar n = (n + 128) mod 256 - 128"

partial_function (option) next_walk ::
  "avlmem \<Rightarrow> bool \<Rightarrow> (addr \<times> nat) list \<Rightarrow> (unit, (addr \<times> nat) list \<times> addr option) outcome option"
where
  "next_walk m fFromLeft aEntries =
     (case aEntries of
        [] \<Rightarrow> Some (Ok ([], None))
      | (pNode, flag) # rest \<Rightarrow>
          if flag = 0 \<and> near fFromLeft (cells m pNode) \<noteq> None then
            (case push2 (near fFromLeft (cells m pNode)) ((pNode, flag + 1) # rest) of
               Ok aEntries \<Rightarrow> next_walk m fFromLeft aEntries
             | Fatal e \<Rightarrow> Some (Fatal e)
             | Undef u \<Rightarrow> Some (Undef u))
          else
            (let flag = (if flag = 0 then flag + 1 else flag)
             in if flag = 1 then Some (Ok ((pNode, flag + 1) # rest, Some pNode))
                else
                  (case push2 (far fFromLeft (cells m pNode)) rest of
                     Ok aEntries \<Rightarrow> next_walk m fFromLeft aEntries
                   | Fatal e \<Rightarrow> Some (Fatal e)
                   | Undef u \<Rightarrow> Some (Undef u))))"

definition AVLGetNextNode :: "avlmem \<Rightarrow> avlenumdata
    \<Rightarrow> (unit, avlenumdata \<times> addr option) outcome option" where
  "AVLGetNextNode m pEnumData =
     map_option (\<lambda>r. obind r (\<lambda>(es, p). Ok (pEnumData\<lparr>eEntries := es\<rparr>, p)))
       (next_walk m (eFromLeft pEnumData \<noteq> 0) (eEntries pEnumData))"

definition AVLBeginEnumTree :: "avlmem \<Rightarrow> avlenumdata \<Rightarrow> int
    \<Rightarrow> (unit, avlenumdata \<times> addr option) outcome option" where
  "AVLBeginEnumTree m pEnumData fFromLeft =
     AVLGetNextNode m
       (case ppTree m of
          Some pNode \<Rightarrow> pEnumData\<lparr>eFromLeft := to_schar fFromLeft, eEntries := [(pNode, 0)]\<rparr>
        | None \<Rightarrow> pEnumData\<lparr>eEntries := []\<rparr>)"

declare insert_walk.simps [simp del] remove_walk.simps [simp del] left_least_walk.simps [simp del]
  adjacent_walk.simps [simp del]

end
