(* ===== verification/AvlTree.thy ===== *)
theory AvlTree
  imports Avl
begin

text \<open>
  The algorithms of fastdep's AVL tree on trees instead of pointers, for any comparison function.
  A tree carries at each node its address, its key and the height stored in it. A position in a
  tree is a list of frames, innermost first: a frame is a node with a hole in place of its left
  or of its right subtree. The stack of the code is such a list.

  \<^item> \<open>avl t\<close>: the stored heights are right and the subtrees of a node differ by one at most.
  \<^item> \<open>rebalance\<close> restores \<open>avl\<close> after a subtree has grown or shrunk by one, and keeps the order.
  \<^item> The locale \<open>key_order\<close> states what the tree relies on of its comparison macro. Inside it
    insertion, deletion and the searches are the operations on the sorted list of the nodes.
\<close>

section \<open>Trees and positions\<close>

datatype 'k atree = Tip | Nd "'k atree" addr 'k nat "'k atree"

datatype 'k frame = FL addr 'k nat "'k atree" | FR "'k atree" addr 'k nat

fun rt :: "'k atree \<Rightarrow> addr option" where
  "rt Tip = None"
| "rt (Nd l a k h r) = Some a"

fun stored :: "'k atree \<Rightarrow> nat" where
  "stored Tip = 0"
| "stored (Nd l a k h r) = h"

fun ht :: "'k atree \<Rightarrow> nat" where
  "ht Tip = 0"
| "ht (Nd l a k h r) = max (ht l) (ht r) + 1"

fun nodes :: "'k atree \<Rightarrow> ('k \<times> addr) list" where
  "nodes Tip = []"
| "nodes (Nd l a k h r) = nodes l @ (k, a) # nodes r"

fun plug1 :: "'k frame \<Rightarrow> 'k atree \<Rightarrow> 'k atree" where
  "plug1 (FL a k h r) t = Nd t a k h r"
| "plug1 (FR l a k h) t = Nd l a k h t"

fun plug :: "'k frame list \<Rightarrow> 'k atree \<Rightarrow> 'k atree" where
  "plug [] t = t"
| "plug (f # fs) t = plug fs (plug1 f t)"

fun lefts :: "'k frame list \<Rightarrow> ('k \<times> addr) list" where
  "lefts [] = []"
| "lefts (FL a k h r # fs) = lefts fs"
| "lefts (FR l a k h # fs) = lefts fs @ nodes l @ [(k, a)]"

fun rights :: "'k frame list \<Rightarrow> ('k \<times> addr) list" where
  "rights [] = []"
| "rights (FL a k h r # fs) = (k, a) # nodes r @ rights fs"
| "rights (FR l a k h # fs) = rights fs"

lemma rt_eq_None [simp]: "rt t = None \<longleftrightarrow> t = Tip"
  by (cases t) auto

lemma ht_eq_0 [simp]: "ht t = 0 \<longleftrightarrow> t = Tip"
  by (cases t) auto

lemma nodes_eq_Nil [simp]: "nodes t = [] \<longleftrightarrow> t = Tip"
  by (cases t) auto

lemma plug_append [simp]: "plug (fs @ gs) t = plug gs (plug fs t)"
  by (induction fs arbitrary: t) auto

lemma nodes_plug: "nodes (plug fs t) = lefts fs @ nodes t @ rights fs"
proof (induction fs arbitrary: t)
  case (Cons f fs)
  then show ?case by (cases f) auto
qed simp

lemma lefts_append [simp]: "lefts (fs @ gs) = lefts gs @ lefts fs"
proof (induction fs)
  case (Cons f fs)
  then show ?case by (cases f) auto
qed simp

lemma rights_append [simp]: "rights (fs @ gs) = rights fs @ rights gs"
proof (induction fs)
  case (Cons f fs)
  then show ?case by (cases f) auto
qed simp

lemma ht_plug_le: "ht t + length fs \<le> ht (plug fs t)"
proof (induction fs arbitrary: t)
  case (Cons f fs)
  have "ht t + 1 \<le> ht (plug1 f t)" by (cases f) auto
  then show ?case using Cons [of "plug1 f t"] by simp
qed simp

section \<open>Rebalancing\<close>

fun raise_left :: "'k atree \<Rightarrow> 'k atree" where
  "raise_left (Nd (Nd ll b kb hb lr) a k h r) =
     (if stored lr \<le> stored ll then
        Nd ll b kb (uchar (1 + uchar (1 + stored lr))) (Nd lr a k (uchar (1 + stored lr)) r)
      else case lr of
        Nd l1 c kc hc r1 \<Rightarrow>
          Nd (Nd ll b kb (uchar hc) l1) c kc (uchar hb) (Nd r1 a k (uchar hc) r)
      | Tip \<Rightarrow> Tip)"
| "raise_left t = t"

fun raise_right :: "'k atree \<Rightarrow> 'k atree" where
  "raise_right (Nd l a k h (Nd rl b kb hb rr)) =
     (if stored rl \<le> stored rr then
        Nd (Nd l a k (uchar (1 + stored rl)) rl) b kb (uchar (1 + uchar (1 + stored rl))) rr
      else case rl of
        Nd l1 c kc hc r1 \<Rightarrow>
          Nd (Nd l a k (uchar hc) l1) c kc (uchar hb) (Nd r1 b kb (uchar hc) rr)
      | Tip \<Rightarrow> Tip)"
| "raise_right t = t"

fun rebal1 :: "'k atree \<Rightarrow> 'k atree \<times> bool" where
  "rebal1 Tip = (Tip, False)"
| "rebal1 (Nd l a k h r) =
     (if stored r + 1 < stored l then (raise_left (Nd l a k h r), True)
      else if stored l + 1 < stored r then (raise_right (Nd l a k h r), True)
      else let h' = uchar (max (stored l) (stored r) + 1)
           in if h' = h then (Nd l a k h r, False) else (Nd l a k h' r, True))"

fun rebalance :: "'k frame list \<Rightarrow> 'k atree \<Rightarrow> 'k atree" where
  "rebalance [] t = t"
| "rebalance (f # fs) t =
     (let (t', go_on) = rebal1 (plug1 f t) in if go_on then rebalance fs t' else plug fs t')"

lemma nodes_raise_left [simp]: "nodes (raise_left t) = nodes t"
proof (induction t rule: raise_left.induct)
  case (1 ll b kb hb lr a k h r)
  then show ?case by (cases lr) auto
qed auto

lemma nodes_raise_right [simp]: "nodes (raise_right t) = nodes t"
proof (induction t rule: raise_right.induct)
  case (1 l a k h rl b kb hb rr)
  then show ?case by (cases rl) auto
qed auto

lemma nodes_rebal1: "nodes (fst (rebal1 t)) = nodes t"
  by (cases t) (auto simp: Let_def simp del: raise_left.simps raise_right.simps)

lemma nodes_rebalance: "nodes (rebalance fs t) = nodes (plug fs t)"
proof (induction fs arbitrary: t)
  case (Cons f fs)
  have "nodes (fst (rebal1 (plug1 f t))) = nodes (plug1 f t)" by (rule nodes_rebal1)
  then show ?case using Cons by (simp add: case_prod_beta Let_def nodes_plug)
qed simp

text \<open>The invariant, and what it leaves of it for the tree around a hole of height \<open>n\<close>.\<close>

fun avl :: "'k atree \<Rightarrow> bool" where
  "avl Tip \<longleftrightarrow> True"
| "avl (Nd l a k h r) \<longleftrightarrow> avl l \<and> avl r \<and> h = max (ht l) (ht r) + 1 \<and>
     ht l \<le> ht r + 1 \<and> ht r \<le> ht l + 1"

fun hole_ok :: "'k frame list \<Rightarrow> nat \<Rightarrow> bool" where
  "hole_ok [] n \<longleftrightarrow> True"
| "hole_ok (FL a k h r # fs) n \<longleftrightarrow> avl r \<and> h = max n (ht r) + 1 \<and> n \<le> ht r + 1 \<and>
     ht r \<le> n + 1 \<and> h < 250 \<and> hole_ok fs h"
| "hole_ok (FR l a k h # fs) n \<longleftrightarrow> avl l \<and> h = max (ht l) n + 1 \<and> n \<le> ht l + 1 \<and>
     ht l \<le> n + 1 \<and> h < 250 \<and> hole_ok fs h"

lemma avl_stored [simp]: "avl t \<Longrightarrow> stored t = ht t"
  by (cases t) auto

lemma avl_plug: "hole_ok fs (ht t) \<Longrightarrow> avl t \<Longrightarrow> avl (plug fs t)"
proof (induction fs arbitrary: t)
  case (Cons f fs)
  then show ?case by (cases f) auto
qed simp

lemma avl_plugD: "avl (plug fs t) \<Longrightarrow> ht (plug fs t) < 250 \<Longrightarrow> hole_ok fs (ht t) \<and> avl t"
proof (induction fs arbitrary: t)
  case (Cons f fs)
  have *: "hole_ok fs (ht (plug1 f t)) \<and> avl (plug1 f t)"
    using Cons.IH [of "plug1 f t"] Cons.prems by simp
  moreover have "ht (plug1 f t) < 250"
    using ht_plug_le [of "plug1 f t" fs] Cons.prems by simp
  ultimately show ?case by (cases f) auto
qed simp

lemma hole_ok_rename:
  "hole_ok (fs @ FL a k h r # gs) n \<longleftrightarrow> hole_ok (fs @ FL b y h r # gs) n"
proof (induction fs arbitrary: n)
  case (Cons f fs)
  then show ?case by (cases f) auto
qed simp

lemma uchar_small [simp]: "n < 256 \<Longrightarrow> uchar n = n"
  by (simp add: uchar_def)

lemma raise_left_avl:
  assumes "avl l" and "avl r" and "ht l = ht r + 2" and "ht l < 252"
  shows "avl (raise_left (Nd l a k h r))" (is ?A)
    and "ht (raise_left (Nd l a k h r)) \<in> {ht r + 2, ht r + 3}" (is ?B)
proof -
  obtain ll b kb hb lr where l: "l = Nd ll b kb hb lr" using assms(3) by (cases l) auto
  have "?A \<and> ?B"
  proof (cases "stored lr \<le> stored ll")
    case True
    then show ?thesis using assms unfolding l by (auto simp: max_def split: if_splits)
  next
    case False
    then obtain l1 c kc hc r1 where lr: "lr = Nd l1 c kc hc r1" by (cases lr) auto
    show ?thesis using False assms unfolding l lr by (auto simp: max_def split: if_splits)
  qed
  then show ?A and ?B by auto
qed

lemma raise_right_avl:
  assumes "avl l" and "avl r" and "ht r = ht l + 2" and "ht r < 252"
  shows "avl (raise_right (Nd l a k h r))" (is ?A)
    and "ht (raise_right (Nd l a k h r)) \<in> {ht l + 2, ht l + 3}" (is ?B)
proof -
  obtain rl b kb hb rr where r: "r = Nd rl b kb hb rr" using assms(3) by (cases r) auto
  have "?A \<and> ?B"
  proof (cases "stored rl \<le> stored rr")
    case True
    then show ?thesis using assms unfolding r by (auto simp: max_def split: if_splits)
  next
    case False
    then obtain l1 c kc hc r1 where rl: "rl = Nd l1 c kc hc r1" by (cases rl) auto
    show ?thesis using False assms unfolding r rl by (auto simp: max_def split: if_splits)
  qed
  then show ?A and ?B by auto
qed

text \<open>
  One step of the loop, at a node of height \<open>h\<close> one subtree of which has changed its height by
  one at most.
\<close>

lemma rebal1_avl:
  assumes "avl l" and "avl r" and "h < 250"
    and "ht l \<le> ht r + 2" and "ht r \<le> ht l + 2"
    and "max (ht l) (ht r) \<le> h" and "h \<le> max (ht l) (ht r) + 2"
    and "ht l = ht r + 2 \<or> ht r = ht l + 2 \<Longrightarrow> h \<le> max (ht l) (ht r) + 1"
    and "rebal1 (Nd l a k h r) = (t', go_on)"
  shows "avl t' \<and> ht t' \<le> h + 1 \<and> h \<le> ht t' + 1 \<and> (\<not> go_on \<longrightarrow> ht t' = h)"
proof -
  have st: "stored l = ht l" "stored r = ht r" using assms(1,2) by simp_all
  consider "ht l = ht r + 2" | "ht r = ht l + 2" | "ht l \<le> ht r + 1" "ht r \<le> ht l + 1"
    using assms(4,5) by linarith
  then show ?thesis
  proof cases
    case 1
    have "ht l < 252" using assms(3,6) by simp
    note R = raise_left_avl [OF assms(1,2) 1 this, of a k h]
    have "t' = raise_left (Nd l a k h r)" and "go_on"
      using assms(9) 1 st by (auto simp del: raise_left.simps raise_right.simps)
    then show ?thesis using R assms(6,8) 1 by auto
  next
    case 2
    have "ht r < 252" using assms(3,6) by simp
    note R = raise_right_avl [OF assms(1,2) 2 this, of a k h]
    have "t' = raise_right (Nd l a k h r)" and "go_on"
      using assms(9) 2 st by (auto simp del: raise_left.simps raise_right.simps)
    then show ?thesis using R assms(6,8) 2 by auto
  next
    case 3
    have "uchar (max (ht l) (ht r) + 1) = max (ht l) (ht r) + 1" using assms(3,6) by simp
    then show ?thesis using assms(1-7,9) 3 st
      by (auto simp: Let_def split: if_splits simp del: raise_left.simps raise_right.simps)
  qed
qed

lemma rebalance_avl:
  assumes "hole_ok fs n" and "avl t" and "ht t \<le> n + 1" and "n \<le> ht t + 1"
  shows "avl (rebalance fs t)"
  using assms
proof (induction fs arbitrary: n t)
  case (Cons f fs)
  obtain t' go_on where t': "rebal1 (plug1 f t) = (t', go_on)" by fastforce
  obtain h where h: "hole_ok fs h" "avl t' \<and> ht t' \<le> h + 1 \<and> h \<le> ht t' + 1 \<and> (\<not> go_on \<longrightarrow> ht t' = h)"
  proof (cases f)
    case (FL a k h r)
    have "avl t' \<and> ht t' \<le> h + 1 \<and> h \<le> ht t' + 1 \<and> (\<not> go_on \<longrightarrow> ht t' = h)"
      by (rule rebal1_avl [of t r h a k]) (use Cons.prems t' FL in auto)
    then show thesis by (rule that [rotated]) (use Cons.prems(1) FL in auto)
  next
    case (FR l a k h)
    have "avl t' \<and> ht t' \<le> h + 1 \<and> h \<le> ht t' + 1 \<and> (\<not> go_on \<longrightarrow> ht t' = h)"
      by (rule rebal1_avl [of l t h a k]) (use Cons.prems t' FR in auto)
    then show thesis by (rule that [rotated]) (use Cons.prems(1) FR in auto)
  qed
  show ?case
  proof (cases go_on)
    case True
    then show ?thesis using Cons.IH [OF h(1), of t'] h(2) t' by simp
  next
    case False
    then show ?thesis using h t' avl_plug by auto
  qed
qed simp

text \<open>
  The least number of nodes of a tree of height \<open>n\<close> that satisfies \<open>avl\<close>, and the bound it gives
  for the stack.
\<close>

fun min_nodes :: "nat \<Rightarrow> nat" where
  "min_nodes 0 = 0"
| "min_nodes (Suc 0) = 1"
| "min_nodes (Suc (Suc n)) = min_nodes (Suc n) + min_nodes n + 1"

lemma min_nodes_mono: "m \<le> n \<Longrightarrow> min_nodes m \<le> min_nodes n"
proof (induction n arbitrary: m rule: min_nodes.induct)
  case (3 n)
  show ?case
  proof (cases "m = Suc (Suc n)")
    case False
    then have "min_nodes m \<le> min_nodes (Suc n)" using "3.IH"(1) "3.prems" by simp
    then show ?thesis by simp
  qed simp
qed (auto simp: le_Suc_eq)

lemma min_nodes_le: "avl t \<Longrightarrow> min_nodes (ht t) \<le> length (nodes t)"
proof (induction t)
  case (Nd l a k h r)
  then have *: "min_nodes (ht l) \<le> length (nodes l)" "min_nodes (ht r) \<le> length (nodes r)"
    by auto
  show ?case
  proof (cases "ht l \<le> ht r")
    case True
    show ?thesis
    proof (cases "ht r")
      case (Suc n)
      then have "min_nodes n \<le> min_nodes (ht l)" using Nd.prems by (intro min_nodes_mono) auto
      then show ?thesis using * True Suc by simp
    qed (use True in simp)
  next
    case False
    then obtain n where n: "ht l = Suc n" by (cases "ht l") auto
    then have "min_nodes n \<le> min_nodes (ht r)" using Nd.prems by (intro min_nodes_mono) auto
    then show ?thesis using * False n by simp
  qed
qed simp

lemma min_nodes_20: "min_nodes 20 = 17710"
proof -
  have step: "min_nodes (n + 2) = min_nodes (n + 1) + min_nodes n + 1" for n by simp
  have b: "min_nodes 2 = 2" "min_nodes 3 = 4" "min_nodes 4 = 7" "min_nodes 5 = 12" "min_nodes 6 = 20"
    by (simp_all add: numeral_eq_Suc)
  have c: "min_nodes 7 = 33" "min_nodes 8 = 54" "min_nodes 9 = 88" "min_nodes 10 = 143"
    "min_nodes 11 = 232"
    using step [of 5] step [of 6] step [of 7] step [of 8] step [of 9] b by simp_all
  have d: "min_nodes 12 = 376" "min_nodes 13 = 609" "min_nodes 14 = 986" "min_nodes 15 = 1596"
    using step [of 10] step [of 11] step [of 12] step [of 13] c by simp_all
  have "min_nodes 16 = 2583" "min_nodes 17 = 4180" "min_nodes 18 = 6764" "min_nodes 19 = 10945"
    using step [of 14] step [of 15] step [of 16] step [of 17] d by simp_all
  then show ?thesis using step [of 18] by simp
qed

lemma ht_bound:
  assumes "avl t" and "length (nodes t) < 17710"
  shows "ht t \<le> AVL_MAX_HEIGHT"
proof (rule ccontr)
  assume "\<not> ht t \<le> AVL_MAX_HEIGHT"
  then have "min_nodes 20 \<le> min_nodes (ht t)" by (intro min_nodes_mono) (simp add: AVL_MAX_HEIGHT_def)
  then show False using min_nodes_le [OF assms(1)] assms(2) min_nodes_20 by simp
qed

section \<open>Searching, inserting and removing\<close>

fun seek :: "('k \<Rightarrow> 'k \<Rightarrow> int) \<Rightarrow> 'k \<Rightarrow> 'k atree \<Rightarrow> 'k frame list \<Rightarrow> 'k frame list \<times> 'k atree" where
  "seek cmp k Tip fs = (fs, Tip)"
| "seek cmp k (Nd l a x h r) fs =
     (if cmp x k = 0 then (fs, Nd l a x h r)
      else if cmp x k > 0 then seek cmp k l (FL a x h r # fs)
      else seek cmp k r (FR l a x h # fs))"

definition t_get :: "('k \<Rightarrow> 'k \<Rightarrow> int) \<Rightarrow> 'k \<Rightarrow> 'k atree \<Rightarrow> addr option" where
  "t_get cmp k t = rt (snd (seek cmp k t []))"

definition t_insert :: "('k \<Rightarrow> 'k \<Rightarrow> int) \<Rightarrow> addr \<Rightarrow> 'k \<Rightarrow> 'k atree \<Rightarrow> 'k atree option" where
  "t_insert cmp a k t =
     (case seek cmp k t [] of
        (fs, Tip) \<Rightarrow> Some (rebalance fs (Nd Tip a k 1 Tip))
      | (fs, Nd l b x h r) \<Rightarrow> None)"

fun split_last :: "'k atree \<Rightarrow> 'k frame list \<Rightarrow> ('k frame list \<times> 'k atree \<times> addr \<times> 'k \<times> nat) option"
where
  "split_last Tip fs = None"
| "split_last (Nd l a k h r) fs =
     (if r = Tip then Some (fs, l, a, k, h) else split_last r (FR l a k h # fs))"

definition t_remove :: "('k \<Rightarrow> 'k \<Rightarrow> int) \<Rightarrow> 'k \<Rightarrow> 'k atree \<Rightarrow> ('k atree \<times> addr) option" where
  "t_remove cmp k t =
     (case seek cmp k t [] of
        (fs, Tip) \<Rightarrow> None
      | (fs, Nd l a x h r) \<Rightarrow>
          Some ((case split_last l [] of
                   None \<Rightarrow> rebalance fs r
                 | Some (gs, ll, b, y, hb) \<Rightarrow> rebalance (gs @ FL b y (uchar h) r # fs) ll), a))"

lemma seek_plug: "seek cmp k t fs = (gs, u) \<Longrightarrow> plug gs u = plug fs t"
  by (induction t arbitrary: fs) (auto split: if_splits)

lemma seek_found: "seek cmp k t fs = (gs, Nd l a x h r) \<Longrightarrow> cmp x k = 0"
  by (induction t arbitrary: fs) (auto split: if_splits)

lemma split_last_None [simp]: "split_last t fs = None \<longleftrightarrow> t = Tip"
  by (induction t arbitrary: fs) auto

lemma split_last_plug:
  "split_last t fs = Some (gs, l, a, k, h) \<Longrightarrow> plug gs (Nd l a k h Tip) = plug fs t"
  by (induction t arbitrary: fs) (auto split: if_splits)

lemma split_last_append:
  "split_last t (fs @ fs') = map_option (\<lambda>(gs, x). (gs @ fs', x)) (split_last t fs)"
proof (induction t arbitrary: fs)
  case (Nd l a k h r)
  then show ?case using Nd.IH(2) [of "FR l a k h # fs"] by simp
qed simp

lemma split_last_rights: "split_last t [] = Some (gs, l, a, k, h) \<Longrightarrow> rights gs = []"
proof -
  have "split_last t fs = Some (gs, l, a, k, h) \<Longrightarrow> rights fs = [] \<Longrightarrow> rights gs = []" for fs
    by (induction t arbitrary: fs) (auto split: if_splits)
  then show "split_last t [] = Some (gs, l, a, k, h) \<Longrightarrow> rights gs = []" by simp
qed

lemma t_insert_avl:
  assumes "avl t" and "ht t < 250" and "t_insert cmp a k t = Some t'"
  shows "avl t'"
proof -
  obtain fs where fs: "seek cmp k t [] = (fs, Tip)" and t': "t' = rebalance fs (Nd Tip a k 1 Tip)"
    using assms(3) by (auto simp: t_insert_def split: prod.splits atree.splits)
  have "hole_ok fs 0" using avl_plugD [of fs Tip] seek_plug [OF fs] assms by simp
  then show ?thesis unfolding t' by (rule rebalance_avl) auto
qed

lemma t_remove_avl:
  assumes "avl t" and "ht t < 250" and "t_remove cmp k t = Some (t', b)"
  shows "avl t'"
proof -
  obtain fs l a x h r where s: "seek cmp k t [] = (fs, Nd l a x h r)"
    using assms(3) by (auto simp: t_remove_def split: prod.splits atree.splits)
  have ok: "hole_ok fs (ht (Nd l a x h r))" "avl (Nd l a x h r)"
    using avl_plugD [of fs "Nd l a x h r"] seek_plug [OF s] assms by auto
  have "h = ht (Nd l a x h r)" using ok(2) by simp
  also have "\<dots> \<le> ht t" using ht_plug_le [of "Nd l a x h r" fs] seek_plug [OF s] by simp
  finally have h: "h < 250" using assms(2) by simp
  show ?thesis
  proof (cases "split_last l []")
    case None
    then have "t' = rebalance fs r" using assms(3) s by (simp add: t_remove_def)
    moreover have "avl (rebalance fs r)"
      by (rule rebalance_avl [OF ok(1)]) (use None ok(2) in auto)
    ultimately show ?thesis by simp
  next
    case (Some q)
    obtain gs ll b y hb where q: "q = (gs, ll, b, y, hb)" by (cases q) auto
    have t': "t' = rebalance (gs @ FL b y h r # fs) ll"
      using assms(3) s Some q h by (simp add: t_remove_def)
    have p: "plug gs (Nd ll b y hb Tip) = l" using split_last_plug Some q by fastforce
    have "hole_ok (gs @ FL a x h r # fs) (ht (Nd ll b y hb Tip)) \<and> avl (Nd ll b y hb Tip)"
      by (rule avl_plugD) (use p seek_plug [OF s] assms in auto)
    then have H: "hole_ok (gs @ FL b y h r # fs) (ht (Nd ll b y hb Tip)) \<and> avl (Nd ll b y hb Tip)"
      using hole_ok_rename [of gs a x h r fs "ht (Nd ll b y hb Tip)" b y] by auto
    show ?thesis unfolding t' by (rule rebalance_avl [OF conjunct1 [OF H]]) (use H in auto)
  qed
qed

section \<open>The neighbours of a node and the best fit\<close>

definition last_of :: "('k \<times> addr) list \<Rightarrow> ('k \<times> addr) option" where
  "last_of xs = (if xs = [] then None else Some (last xs))"

definition first_of :: "('k \<times> addr) list \<Rightarrow> ('k \<times> addr) option" where
  "first_of xs = (if xs = [] then None else Some (hd xs))"

lemma last_of_simps [simp]:
  "last_of [] = None" "last_of [x] = Some x" "last_of (xs @ [x]) = Some x"
  "last_of (y # xs @ [x]) = Some x"
  "ys \<noteq> [] \<Longrightarrow> last_of (xs @ ys) = last_of ys"
  by (auto simp: last_of_def)

lemma first_of_simps [simp]:
  "first_of [] = None" "first_of (x # xs) = Some x"
  "xs \<noteq> [] \<Longrightarrow> first_of (xs @ ys) = first_of xs"
  by (auto simp: first_of_def)

text \<open>The loop that rewinds the stack, with the best neighbours so far.\<close>

fun rewind :: "('k \<Rightarrow> 'k \<Rightarrow> int) \<Rightarrow> 'k \<Rightarrow> 'k frame list \<Rightarrow> ('k \<times> addr) option \<Rightarrow> ('k \<times> addr) option
    \<Rightarrow> ('k \<times> addr) option \<times> ('k \<times> addr) option" where
  "rewind cmp k [] lft rgt = (lft, rgt)"
| "rewind cmp k (f # fs) lft rgt =
     (let (y, b) = (case f of FL a x h r \<Rightarrow> (x, a) | FR l a x h \<Rightarrow> (x, a)) in
      if cmp y k < 0 \<and> (case lft of None \<Rightarrow> True | Some (z, c) \<Rightarrow> cmp y z > 0)
      then rewind cmp k fs (Some (y, b)) rgt
      else if cmp y k > 0 \<and> (case rgt of None \<Rightarrow> True | Some (z, c) \<Rightarrow> cmp y z < 0)
      then rewind cmp k fs lft (Some (y, b))
      else rewind cmp k fs lft rgt)"

fun t_above :: "('k \<Rightarrow> 'k \<Rightarrow> int) \<Rightarrow> 'k \<Rightarrow> 'k atree \<Rightarrow> addr option \<Rightarrow> addr option" where
  "t_above cmp k Tip best = best"
| "t_above cmp k (Nd l a x h r) best =
     (if cmp x k = 0 then Some a else if cmp x k > 0 then t_above cmp k l (Some a)
      else t_above cmp k r best)"

fun t_below :: "('k \<Rightarrow> 'k \<Rightarrow> int) \<Rightarrow> 'k \<Rightarrow> 'k atree \<Rightarrow> addr option \<Rightarrow> addr option" where
  "t_below cmp k Tip best = best"
| "t_below cmp k (Nd l a x h r) best =
     (if cmp x k = 0 then Some a else if cmp x k < 0 then t_below cmp k r (Some a)
      else t_below cmp k l best)"

section \<open>What the tree relies on of the comparison\<close>

text \<open>The operations on the sorted list of the nodes that the tree operations implement.\<close>

definition sorted_by :: "('k \<Rightarrow> 'k \<Rightarrow> int) \<Rightarrow> ('k \<times> addr) list \<Rightarrow> bool" where
  "sorted_by cmp xs \<longleftrightarrow> sorted_wrt (\<lambda>x y. cmp (fst x) (fst y) < 0) xs"

definition list_insert :: "('k \<Rightarrow> 'k \<Rightarrow> int) \<Rightarrow> 'k \<Rightarrow> addr \<Rightarrow> ('k \<times> addr) list \<Rightarrow> ('k \<times> addr) list"
where
  "list_insert cmp k a xs =
     takeWhile (\<lambda>x. cmp (fst x) k < 0) xs @ (k, a) # dropWhile (\<lambda>x. cmp (fst x) k < 0) xs"

definition list_delete :: "'k \<Rightarrow> ('k \<times> addr) list \<Rightarrow> ('k \<times> addr) list" where
  "list_delete k xs = filter (\<lambda>x. fst x \<noteq> k) xs"

lemma sorted_by_append: "sorted_by cmp (xs @ ys) \<longleftrightarrow> sorted_by cmp xs \<and> sorted_by cmp ys \<and>
    (\<forall>x\<in>set xs. \<forall>y\<in>set ys. cmp (fst x) (fst y) < 0)"
  by (simp add: sorted_by_def sorted_wrt_append)

lemma sorted_by_Cons: "sorted_by cmp (x # ys) \<longleftrightarrow> sorted_by cmp ys \<and>
    (\<forall>y\<in>set ys. cmp (fst x) (fst y) < 0)"
  by (auto simp add: sorted_by_def)

lemma sorted_by_Nil [simp]: "sorted_by cmp []"
  by (simp add: sorted_by_def)

lemmas sorted_by_simps = sorted_by_append sorted_by_Cons

lemma list_insert_split:
  assumes "\<forall>x\<in>set xs. cmp (fst x) k < 0" and "\<forall>x\<in>set ys. \<not> cmp (fst x) k < 0"
  shows "list_insert cmp k a (xs @ ys) = xs @ (k, a) # ys"
proof -
  have "takeWhile (\<lambda>x. cmp (fst x) k < 0) ys = []" "dropWhile (\<lambda>x. cmp (fst x) k < 0) ys = ys"
    using assms(2) by (cases ys; simp)+
  then show ?thesis using assms(1)
    by (simp add: list_insert_def takeWhile_append2 dropWhile_append2)
qed

locale key_order =
  fixes cmp :: "'k \<Rightarrow> 'k \<Rightarrow> int"
  assumes cmp_eq_0: "cmp x y = 0 \<longleftrightarrow> x = y"
    and cmp_swap: "cmp x y < 0 \<longleftrightarrow> cmp y x > 0"
    and cmp_trans: "cmp x y < 0 \<Longrightarrow> cmp y z < 0 \<Longrightarrow> cmp x z < 0"
begin

lemma cmp_refl [simp]: "cmp x x = 0"
  by (simp add: cmp_eq_0)

text \<open>The search splits the sorted list at the key.\<close>

lemma seek_sorted:
  assumes "sorted_by cmp (lefts fs @ nodes t @ rights fs)"
    and "\<forall>x\<in>set (lefts fs). cmp (fst x) k < 0" and "\<forall>x\<in>set (rights fs). cmp (fst x) k > 0"
    and "seek cmp k t fs = (gs, u)"
  shows "(\<forall>x\<in>set (lefts gs). cmp (fst x) k < 0) \<and> (\<forall>x\<in>set (rights gs). cmp (fst x) k > 0)"
  using assms
proof (induction t arbitrary: fs)
  case (Nd l a y h r)
  consider "cmp y k = 0" | "cmp y k > 0" | "cmp y k < 0" by linarith
  then show ?case
  proof cases
    case 1
    then show ?thesis using Nd.prems by simp
  next
    case 2
    have "cmp (fst x) k > 0" if "x \<in> set (nodes r)" for x
    proof -
      have "cmp y (fst x) < 0" using Nd.prems(1) that by (simp add: sorted_by_simps)
      then show ?thesis using 2 cmp_swap cmp_trans by metis
    qed
    then show ?thesis
      using Nd.prems 2 by (intro Nd.IH(1) [of "FL a y h r # fs"]) auto
  next
    case 3
    have "cmp (fst x) k < 0" if "x \<in> set (nodes l)" for x
    proof -
      have "cmp (fst x) y < 0" using Nd.prems(1) that by (simp add: sorted_by_simps)
      then show ?thesis using 3 cmp_trans by metis
    qed
    then show ?thesis
      using Nd.prems 3 by (intro Nd.IH(2) [of "FR l a y h # fs"]) auto
  qed
qed simp

lemma seek_nodes:
  assumes "sorted_by cmp (nodes t)" and "seek cmp k t [] = (gs, u)"
  shows "nodes t = lefts gs @ nodes u @ rights gs"
    and "\<forall>x\<in>set (lefts gs). cmp (fst x) k < 0" and "\<forall>x\<in>set (rights gs). cmp (fst x) k > 0"
  using seek_plug [OF assms(2)] nodes_plug [of gs u] seek_sorted [of "[]" t k gs u] assms by auto

text \<open>At a node found, the left subtree belongs to the smaller keys.\<close>

lemma seek_nodes_found:
  assumes "sorted_by cmp (nodes t)" and "seek cmp k t [] = (gs, Nd l a x h r)"
  shows "x = k" and "nodes t = (lefts gs @ nodes l) @ (k, a) # (nodes r @ rights gs)"
    and "\<forall>x\<in>set (lefts gs @ nodes l). cmp (fst x) k < 0"
    and "\<forall>x\<in>set (nodes r @ rights gs). cmp (fst x) k > 0"
proof -
  show x: "x = k" using seek_found [OF assms(2)] by (simp add: cmp_eq_0)
  show n: "nodes t = (lefts gs @ nodes l) @ (k, a) # (nodes r @ rights gs)"
    using seek_nodes(1) [OF assms] x by simp
  have "sorted_by cmp ((lefts gs @ nodes l) @ (k, a) # (nodes r @ rights gs))"
    using assms(1) unfolding n .
  then show "\<forall>x\<in>set (lefts gs @ nodes l). cmp (fst x) k < 0"
    and "\<forall>x\<in>set (nodes r @ rights gs). cmp (fst x) k > 0"
    unfolding sorted_by_simps by (simp_all add: cmp_swap [of k])
qed

lemma not_map_of: "\<forall>x\<in>set xs. cmp (fst x) k \<noteq> 0 \<Longrightarrow> map_of xs k = None"
  by (induction xs) auto

lemma map_of_below: "\<forall>x\<in>set xs. cmp (fst x) k < 0 \<Longrightarrow> map_of xs k = None"
  by (induction xs) auto

lemma t_get_map_of:
  assumes "sorted_by cmp (nodes t)"
  shows "t_get cmp k t = map_of (nodes t) k"
proof -
  obtain gs u where s: "seek cmp k t [] = (gs, u)" by fastforce
  show ?thesis
  proof (cases u)
    case Tip
    have "\<forall>x\<in>set (lefts gs @ rights gs). cmp (fst x) k \<noteq> 0"
      using seek_nodes(2,3) [OF assms s] by fastforce
    then show ?thesis using seek_nodes(1) [OF assms s] Tip s not_map_of [of "nodes t" k]
      by (simp add: t_get_def map_add_def)
  next
    case (Nd l a x h r)
    note F = seek_nodes_found [OF assms s [unfolded Nd]]
    have "map_of (lefts gs) k = None \<and> map_of (nodes l) k = None"
      using map_of_below [of "lefts gs" k] map_of_below [of "nodes l" k] F(3)
      unfolding set_append ball_Un by blast
    then show ?thesis using F(2) s Nd by (simp add: t_get_def map_add_def)
  qed
qed

lemma t_insert_nodes:
  assumes "sorted_by cmp (nodes t)"
  shows "case t_insert cmp a k t of
    None \<Rightarrow> map_of (nodes t) k \<noteq> None
  | Some t' \<Rightarrow> map_of (nodes t) k = None \<and> nodes t' = list_insert cmp k a (nodes t)"
proof -
  obtain gs u where s: "seek cmp k t [] = (gs, u)" by fastforce
  have g: "t_get cmp k t = rt u" by (simp add: t_get_def s)
  show ?thesis
  proof (cases u)
    case Tip
    have "list_insert cmp k a (lefts gs @ rights gs) = lefts gs @ (k, a) # rights gs"
      by (rule list_insert_split) (use seek_nodes(2,3) [OF assms s] in fastforce)+
    then show ?thesis
      using seek_nodes(1) [OF assms s] Tip s g t_get_map_of [OF assms, of k]
      by (simp add: t_insert_def nodes_rebalance nodes_plug)
  next
    case (Nd l b x h r)
    then show ?thesis using s g t_get_map_of [OF assms, of k] by (simp add: t_insert_def)
  qed
qed

lemma list_delete_split:
  assumes "\<forall>x\<in>set (xs @ ys). cmp (fst x) k \<noteq> 0"
  shows "list_delete k (xs @ (k, a) # ys) = xs @ ys"
proof -
  have "filter (\<lambda>x. fst x \<noteq> k) (xs @ ys) = xs @ ys"
    by (rule filter_True) (use assms cmp_eq_0 in fastforce)
  then show ?thesis by (simp add: list_delete_def)
qed

lemma t_remove_nodes:
  assumes "sorted_by cmp (nodes t)"
  shows "case t_remove cmp k t of
    None \<Rightarrow> map_of (nodes t) k = None
  | Some (t', a) \<Rightarrow> map_of (nodes t) k = Some a \<and> nodes t' = list_delete k (nodes t)"
proof -
  obtain gs u where s: "seek cmp k t [] = (gs, u)" by fastforce
  have g: "t_get cmp k t = rt u" by (simp add: t_get_def s)
  show ?thesis
  proof (cases u)
    case Tip
    then show ?thesis using s g t_get_map_of [OF assms, of k] by (simp add: t_remove_def)
  next
    case (Nd l a x h r)
    note F = seek_nodes_found [OF assms s [unfolded Nd]]
    have d: "list_delete k (nodes t) = lefts gs @ nodes l @ nodes r @ rights gs"
    proof -
      have "\<forall>x\<in>set ((lefts gs @ nodes l) @ nodes r @ rights gs). cmp (fst x) k \<noteq> 0"
        using F(3,4) by (metis UnE less_irrefl set_append)
      then show ?thesis unfolding F(2) by (subst list_delete_split) auto
    qed
    have "nodes (case split_last l [] of None \<Rightarrow> rebalance gs r
        | Some (hs, ll, b, y, hb) \<Rightarrow> rebalance (hs @ FL b y (uchar h) r # gs) ll)
      = lefts gs @ nodes l @ nodes r @ rights gs"
    proof (cases "split_last l []")
      case None
      then show ?thesis by (simp add: nodes_rebalance nodes_plug)
    next
      case (Some q)
      obtain hs ll b y hb where q: "q = (hs, ll, b, y, hb)" by (cases q) auto
      have "nodes l = lefts hs @ nodes ll @ [(y, b)]"
        using split_last_plug [of l "[]" hs ll b y hb] nodes_plug [of hs "Nd ll b y hb Tip"]
          split_last_rights [of l hs ll b y hb] Some q by simp
      then show ?thesis
        using Some q split_last_rights [of l hs ll b y hb] by (simp add: nodes_rebalance nodes_plug)
    qed
    then show ?thesis using d s g Nd t_get_map_of [OF assms, of k] by (simp add: t_remove_def)
  qed
qed

lemma rewind_neighbours:
  assumes "sorted_by cmp (lefts fs @ xs)" and "sorted_by cmp (ys @ rights fs)"
    and "\<forall>x\<in>set (lefts fs). cmp (fst x) k < 0" and "\<forall>x\<in>set (rights fs). cmp (fst x) k > 0"
  shows "rewind cmp k fs (last_of xs) (first_of ys) =
    (last_of (lefts fs @ xs), first_of (ys @ rights fs))"
  using assms
proof (induction fs arbitrary: xs ys)
  case (Cons f fs)
  note C = Cons.prems [unfolded sorted_by_simps]
  show ?case
  proof (cases f)
    case (FL a y h r)
    have y: "cmp y k > 0" using C(4) FL by simp
    show ?thesis
    proof (cases "ys = []")
      case True
      have "rewind cmp k fs (last_of xs) (first_of [(y, a)]) =
        (last_of (lefts fs @ xs), first_of ([(y, a)] @ rights fs))"
        by (rule Cons.IH) (use C FL in \<open>auto simp: sorted_by_simps\<close>)
      then show ?thesis using True FL y by simp
    next
      case False
      then obtain z c zs where ys: "ys = (z, c) # zs" by (cases ys) auto
      have "cmp z y < 0" using C(2) FL ys by (simp add: sorted_by_simps)
      then have z: "\<not> cmp y z < 0" using cmp_swap [of z y] by simp
      have "rewind cmp k fs (last_of xs) (first_of ys) =
        (last_of (lefts fs @ xs), first_of (ys @ rights fs))"
        by (rule Cons.IH) (use C FL in \<open>auto simp: sorted_by_simps\<close>)
      then show ?thesis using FL y z ys by simp
    qed
  next
    case (FR l a y h)
    have y: "cmp y k < 0" using C(3) FR by simp
    show ?thesis
    proof (cases "xs = []")
      case True
      have "rewind cmp k fs (last_of [(y, a)]) (first_of ys) =
        (last_of (lefts fs @ [(y, a)]), first_of (ys @ rights fs))"
        by (rule Cons.IH) (use C FR in \<open>auto simp: sorted_by_simps\<close>)
      then show ?thesis using True FR y by (simp flip: append_assoc)
    next
      case False
      then obtain z c zs where xs: "xs = zs @ [(z, c)]" by (cases xs rule: rev_cases) auto
      have z: "\<not> cmp y z > 0" using C(1) FR xs by (simp add: sorted_by_simps)
      have "rewind cmp k fs (last_of xs) (first_of ys) =
        (last_of (lefts fs @ xs), first_of (ys @ rights fs))"
        by (rule Cons.IH) (use C FR in \<open>auto simp: sorted_by_simps\<close>)
      then show ?thesis using FR y z xs by simp
    qed
  qed
qed simp

text \<open>The best fit: the first key not below, or the last key not above.\<close>

lemma t_above_find:
  assumes "sorted_by cmp (nodes t)"
  shows "t_above cmp k t best =
    (case find (\<lambda>x. cmp (fst x) k \<ge> 0) (nodes t) of None \<Rightarrow> best | Some x \<Rightarrow> Some (snd x))"
  using assms
proof (induction t arbitrary: best)
  case (Nd l a y h r)
  have S: "sorted_by cmp (nodes l)" "sorted_by cmp (nodes r)"
    "\<forall>x\<in>set (nodes l). cmp (fst x) y < 0" using Nd.prems by (auto simp: sorted_by_simps)
  have small: "find (\<lambda>x. cmp (fst x) k \<ge> 0) (nodes l) = None" if "cmp y k \<le> 0"
  proof -
    have "cmp (fst x) k < 0" if "x \<in> set (nodes l)" for x
    proof (cases "cmp y k = 0")
      case True
      then show ?thesis using S(3) that by (simp add: cmp_eq_0)
    next
      case False
      then have "cmp y k < 0" using \<open>cmp y k \<le> 0\<close> by simp
      then show ?thesis using S(3) that cmp_trans by blast
    qed
    then show ?thesis by (fastforce simp: find_None_iff)
  qed
  have find_append: "find P (xs @ zs) = (case find P xs of None \<Rightarrow> find P zs | Some x \<Rightarrow> Some x)"
    for P and xs zs :: "('k \<times> addr) list" by (induction xs) auto
  show ?case using Nd.IH S small
    by (auto simp: find_append split: option.splits)
qed simp

lemma t_below_find:
  assumes "sorted_by cmp (nodes t)"
  shows "t_below cmp k t best =
    (case find (\<lambda>x. cmp (fst x) k \<le> 0) (rev (nodes t)) of None \<Rightarrow> best | Some x \<Rightarrow> Some (snd x))"
  using assms
proof (induction t arbitrary: best)
  case (Nd l a y h r)
  have S: "sorted_by cmp (nodes l)" "sorted_by cmp (nodes r)"
    "\<forall>x\<in>set (nodes r). cmp y (fst x) < 0" using Nd.prems by (auto simp: sorted_by_simps)
  have big: "find (\<lambda>x. cmp (fst x) k \<le> 0) (rev (nodes r)) = None" if "cmp y k \<ge> 0"
  proof -
    have "cmp (fst x) k > 0" if "x \<in> set (nodes r)" for x
    proof (cases "cmp y k = 0")
      case True
      then show ?thesis using S(3) that cmp_swap by (auto simp: cmp_eq_0)
    next
      case False
      then have "cmp k y < 0" using \<open>cmp y k \<ge> 0\<close> cmp_swap by simp
      then show ?thesis using S(3) that cmp_trans cmp_swap by blast
    qed
    then show ?thesis by (fastforce simp: find_None_iff)
  qed
  have find_append: "find P (xs @ zs) = (case find P xs of None \<Rightarrow> find P zs | Some x \<Rightarrow> Some x)"
    for P and xs zs :: "('k \<times> addr) list" by (induction xs) auto
  show ?case using Nd.IH S big
    by (auto simp: find_append split: option.splits)
qed simp

end

section \<open>The order of the source\<close>

interpretation avl_keys: key_order strcmp
proof
  show "strcmp x y = 0 \<longleftrightarrow> x = y" for x y by simp
  show "strcmp x y < 0 \<longleftrightarrow> strcmp y x > 0" for x y using strcmp_antisym [of y x] by simp
  show "strcmp x y < 0 \<Longrightarrow> strcmp y z < 0 \<Longrightarrow> strcmp x z < 0" for x y z by (rule strcmp_trans)
qed

end
