(* ===== verification/AvlHeap.thy ===== *)
theory AvlHeap
  imports AvlTree
begin

text \<open>
  The pointer program of \<open>Avl\<close> implements the tree algorithms of \<open>AvlTree\<close>: a forward simulation
  in which \<open>represents m t\<close> says that the store \<open>m\<close> holds the tree \<open>t\<close> at \<open>*ppTree\<close>, no node
  being shared, and \<open>rep m fs t\<close> that it holds \<open>t\<close> at the position \<open>fs\<close> of a larger tree.
\<close>

section \<open>Trees in the store\<close>

fun agree :: "(addr \<Rightarrow> avlnodecore) \<Rightarrow> string atree \<Rightarrow> bool" where
  "agree c Tip \<longleftrightarrow> True"
| "agree c (Nd l a k h r) \<longleftrightarrow>
     c a = \<lparr>Key = k, pLeft = rt l, pRight = rt r, uchHeight = h\<rparr> \<and> agree c l \<and> agree c r"

fun rep_fs :: "avlmem \<Rightarrow> string frame list \<Rightarrow> addr option \<Rightarrow> bool" where
  "rep_fs m [] p \<longleftrightarrow> ppTree m = p"
| "rep_fs m (FL a k h r # fs) p \<longleftrightarrow>
     cells m a = \<lparr>Key = k, pLeft = p, pRight = rt r, uchHeight = h\<rparr> \<and> agree (cells m) r \<and>
     rep_fs m fs (Some a)"
| "rep_fs m (FR l a k h # fs) p \<longleftrightarrow>
     cells m a = \<lparr>Key = k, pLeft = rt l, pRight = p, uchHeight = h\<rparr> \<and> agree (cells m) l \<and>
     rep_fs m fs (Some a)"

definition rep :: "avlmem \<Rightarrow> string frame list \<Rightarrow> string atree \<Rightarrow> bool" where
  "rep m fs t \<longleftrightarrow> rep_fs m fs (rt t) \<and> agree (cells m) t \<and>
     distinct (map snd (lefts fs @ nodes t @ rights fs))"

definition represents :: "avlmem \<Rightarrow> string atree \<Rightarrow> bool" where
  "represents m t \<longleftrightarrow> rep m [] t"

text \<open>The pointer to the hole, and the stack of the code at a position.\<close>

fun hole :: "string frame list \<Rightarrow> ppnode" where
  "hole [] = TreeVar"
| "hole (FL a k h r # fs) = LeftOf a"
| "hole (FR l a k h # fs) = RightOf a"

fun entries :: "string frame list \<Rightarrow> ppnode list" where
  "entries [] = []"
| "entries (f # fs) = hole fs # entries fs"

definition same_outside :: "addr set \<Rightarrow> avlmem \<Rightarrow> avlmem \<Rightarrow> bool" where
  "same_outside A m m' \<longleftrightarrow> (\<forall>a. a \<notin> A \<longrightarrow> cells m' a = cells m a)"

lemma same_outside_refl [simp]: "same_outside A m m"
  by (simp add: same_outside_def)

lemma same_outside_trans: "same_outside A m m' \<Longrightarrow> same_outside A m' m'' \<Longrightarrow> same_outside A m m''"
  by (simp add: same_outside_def)

lemma length_entries [simp]: "length (entries fs) = length fs"
  by (induction fs) auto

lemma ppTree_set_cell [simp]: "ppTree (set_cell m a f) = ppTree m"
  by (simp add: set_cell_def)

lemma cells_set_cell [simp]: "cells (set_cell m a f) = (cells m)(a := f (cells m a))"
  by (simp add: set_cell_def)

lemmas set_defs = set_left_def set_right_def set_height_def

lemma cells_set_other [simp]:
  "a \<noteq> b \<Longrightarrow> cells (set_left m b p) a = cells m a"
  "a \<noteq> b \<Longrightarrow> cells (set_right m b p) a = cells m a"
  by (simp_all add: set_defs)

lemma agree_cong: "\<forall>a\<in>snd ` set (nodes t). c' a = c a \<Longrightarrow> agree c' t = agree c t"
  by (induction t) auto

lemma agree_upd [simp]: "a \<notin> snd ` set (nodes t) \<Longrightarrow> agree (c(a := x)) t = agree c t"
  by (rule agree_cong) auto

lemma rep_fs_cong:
  "ppTree m' = ppTree m \<Longrightarrow> \<forall>a\<in>snd ` set (lefts fs @ rights fs). cells m' a = cells m a \<Longrightarrow>
   rep_fs m' fs p = rep_fs m fs p"
proof (induction fs arbitrary: p)
  case (Cons f fs)
  show ?case
  proof (cases f)
    case (FL a k h r)
    have "rep_fs m' fs (Some a) = rep_fs m fs (Some a)" by (rule Cons.IH) (use Cons.prems FL in auto)
    moreover have "agree (cells m') r = agree (cells m) r"
      by (rule agree_cong) (use Cons.prems FL in auto)
    ultimately show ?thesis using Cons.prems FL by simp
  next
    case (FR l a k h)
    have "rep_fs m' fs (Some a) = rep_fs m fs (Some a)" by (rule Cons.IH) (use Cons.prems FR in auto)
    moreover have "agree (cells m') l = agree (cells m) l"
      by (rule agree_cong) (use Cons.prems FR in auto)
    ultimately show ?thesis using Cons.prems FR by simp
  qed
qed simp

lemma rt_plug1: "rt (plug1 f t) = Some (case f of FL a k h r \<Rightarrow> a | FR l a k h \<Rightarrow> a)"
  by (cases f) auto

lemma rep_Cons: "rep m (f # fs) t \<longleftrightarrow> rep m fs (plug1 f t)"
  by (cases f) (auto simp: rep_def)

lemma rep_plug: "rep m [] (plug fs t) \<longleftrightarrow> rep m fs t"
  by (induction fs arbitrary: t) (auto simp: rep_Cons)

lemma rep_append: "rep m (gs @ fs) t \<longleftrightarrow> rep m fs (plug gs t)"
  using rep_plug [of m "gs @ fs" t] rep_plug [of m fs "plug gs t"] by simp

lemma represents_plug: "represents m (plug fs t) \<longleftrightarrow> rep m fs t"
  by (simp add: represents_def rep_plug)

lemma deref_hole: "rep_fs m fs p \<Longrightarrow> deref m (hole fs) = p"
proof (cases fs)
  case (Cons f fs')
  then show "rep_fs m fs p \<Longrightarrow> ?thesis" by (cases f) auto
qed simp

lemma rep_deref: "rep m fs t \<Longrightarrow> deref m (hole fs) = rt t"
  by (simp add: rep_def deref_hole)

lemma rep_node:
  "rep m fs (Nd l a k h r) \<Longrightarrow> cells m a = \<lparr>Key = k, pLeft = rt l, pRight = rt r, uchHeight = h\<rparr>"
  by (simp add: rep_def)

lemma agree_height: "agree (cells m) t \<Longrightarrow> AVL_HEIGHTOF m (rt t) = stored t"
  by (cases t) (auto simp: AVL_HEIGHTOF_def)

text \<open>Writing through the pointer to the hole puts a new tree there.\<close>

lemma rep_store:
  assumes "rep_fs m fs p" and "ppTree m' = ppTree m"
    and "\<forall>a\<in>snd ` set (lefts fs @ rights fs). cells m' a = cells m a"
    and "agree (cells m') t" and "distinct (map snd (lefts fs @ nodes t @ rights fs))"
  shows "rep (store_pp m' (hole fs) (rt t)) fs t"
proof -
  have R: "rep_fs m' fs p" using rep_fs_cong [OF assms(2,3)] assms(1) by simp
  show ?thesis
  proof (cases fs)
    case Nil
    then show ?thesis using assms by (simp add: rep_def)
  next
    case (Cons f gs)
    have c: "rep_fs (set_cell m' a g) gs q = rep_fs m' gs q"
      if "a \<notin> snd ` set (lefts gs)" "a \<notin> snd ` set (rights gs)" for a g q
      by (rule rep_fs_cong) (use that in auto)
    show ?thesis
    proof (cases f)
      case (FL a k h r)
      then show ?thesis using R assms(4,5) c [of a] Cons by (auto simp: rep_def)
    next
      case (FR l a k h)
      then show ?thesis using R assms(4,5) c [of a] Cons by (auto simp: rep_def)
    qed
  qed
qed

lemma cells_store_hole:
  "a \<notin> snd ` set (lefts fs) \<Longrightarrow> a \<notin> snd ` set (rights fs) \<Longrightarrow>
   cells (store_pp m (hole fs) p) a = cells m a"
proof (cases fs)
  case (Cons f gs)
  then show "a \<notin> snd ` set (lefts fs) \<Longrightarrow> a \<notin> snd ` set (rights fs) \<Longrightarrow> ?thesis"
    by (cases f) auto
qed simp

section \<open>Rebalancing\<close>

definition step_ok :: "avlmem \<Rightarrow> string frame list \<Rightarrow> string atree \<Rightarrow> string atree
    \<Rightarrow> (unit, avlmem) outcome \<Rightarrow> bool" where
  "step_ok m fs t t' res \<longleftrightarrow> (\<exists>m'. res = Ok m' \<and> rep m' fs t' \<and>
     same_outside (snd ` set (nodes (plug fs t))) m m')"

lemma rebalance_left_high_refines:
  assumes "rep m fs (Nd l a k h r)" and "l \<noteq> Tip"
  shows "step_ok m fs (Nd l a k h r) (raise_left (Nd l a k h r))
    (rebalance_left_high m (hole fs) a (stored l))"
proof -
  obtain ll b kb hb lr where l: "l = Nd ll b kb hb lr" using assms(2) by (cases l) auto
  have R: "rep_fs m fs (Some a)" "agree (cells m) l" "agree (cells m) r"
    "cells m a = \<lparr>Key = k, pLeft = rt l, pRight = rt r, uchHeight = h\<rparr>"
    and D: "distinct (map snd (lefts fs @ nodes (Nd l a k h r) @ rights fs))"
    using assms(1) by (auto simp: rep_def)
  have H: "AVL_HEIGHTOF m (rt ll) = stored ll" "AVL_HEIGHTOF m (rt lr) = stored lr"
    using R(2) l by (auto intro: agree_height)
  show ?thesis
  proof (cases "stored lr \<le> stored ll")
    case True
    define t' where "t' = Nd ll b kb (uchar (1 + uchar (1 + stored lr))) (Nd lr a k (uchar (1 + stored lr)) r)"
    define m' where "m' = m\<lparr>cells := (cells m)
      (a := \<lparr>Key = k, pLeft = rt lr, pRight = rt r, uchHeight = uchar (1 + stored lr)\<rparr>,
       b := \<lparr>Key = kb, pLeft = rt ll, pRight = Some a, uchHeight = uchar (1 + uchar (1 + stored lr))\<rparr>)\<rparr>"
    have "rebalance_left_high m (hole fs) a (stored l) = Ok (store_pp m' (hole fs) (rt t'))"
      using R(2,4) D l H True
      by (simp add: rebalance_left_high_def set_defs m'_def t'_def set_cell_def fun_upd_twist Let_def)
    moreover have "rep (store_pp m' (hole fs) (rt t')) fs t'"
      by (rule rep_store [OF R(1)]) (use R D l in \<open>auto simp: m'_def t'_def\<close>)
    moreover have "same_outside (snd ` set (nodes (plug fs (Nd l a k h r)))) m (store_pp m' (hole fs) (rt t'))"
      by (auto simp: same_outside_def nodes_plug cells_store_hole image_Un m'_def l)
    moreover have "raise_left (Nd l a k h r) = t'" using True by (simp add: l t'_def)
    ultimately show ?thesis by (auto simp: step_ok_def)
  next
    case False
    then obtain l1 c kc hc r1 where lr: "lr = Nd l1 c kc hc r1" by (cases lr) auto
    define t' where "t' = Nd (Nd ll b kb (uchar hc) l1) c kc (uchar hb) (Nd r1 a k (uchar hc) r)"
    define m' where "m' = m\<lparr>cells := (cells m)
      (a := \<lparr>Key = k, pLeft = rt r1, pRight = rt r, uchHeight = uchar hc\<rparr>,
       b := \<lparr>Key = kb, pLeft = rt ll, pRight = rt l1, uchHeight = uchar hc\<rparr>,
       c := \<lparr>Key = kc, pLeft = Some b, pRight = Some a, uchHeight = uchar hb\<rparr>)\<rparr>"
    have "rebalance_left_high m (hole fs) a (stored l) = Ok (store_pp m' (hole fs) (rt t'))"
      using R(2,4) D l lr H False
      by (simp add: rebalance_left_high_def set_defs m'_def t'_def set_cell_def fun_upd_twist Let_def)
    moreover have "rep (store_pp m' (hole fs) (rt t')) fs t'"
      proof (rule rep_store [OF R(1)])
      show "distinct (map snd (lefts fs @ nodes t' @ rights fs))"
        using D by (simp add: t'_def l lr)
      show "agree (cells m') t'" using R(2,3) D by (simp add: m'_def t'_def l lr)
    qed (use D l lr in \<open>auto simp: m'_def\<close>)
    moreover have "same_outside (snd ` set (nodes (plug fs (Nd l a k h r)))) m (store_pp m' (hole fs) (rt t'))"
      by (auto simp: same_outside_def nodes_plug cells_store_hole image_Un m'_def l lr)
    moreover have "raise_left (Nd l a k h r) = t'" using False by (simp add: l lr t'_def)
    ultimately show ?thesis by (auto simp: step_ok_def)
  qed
qed

lemma rebalance_right_high_refines:
  assumes "rep m fs (Nd l a k h r)" and "r \<noteq> Tip"
  shows "step_ok m fs (Nd l a k h r) (raise_right (Nd l a k h r))
    (rebalance_right_high m (hole fs) a (stored r))"
proof -
  obtain rl b kb hb rr where r: "r = Nd rl b kb hb rr" using assms(2) by (cases r) auto
  have R: "rep_fs m fs (Some a)" "agree (cells m) l" "agree (cells m) r"
    "cells m a = \<lparr>Key = k, pLeft = rt l, pRight = rt r, uchHeight = h\<rparr>"
    and D: "distinct (map snd (lefts fs @ nodes (Nd l a k h r) @ rights fs))"
    using assms(1) by (auto simp: rep_def)
  have H: "AVL_HEIGHTOF m (rt rl) = stored rl" "AVL_HEIGHTOF m (rt rr) = stored rr"
    using R(3) r by (auto intro: agree_height)
  show ?thesis
  proof (cases "stored rl \<le> stored rr")
    case True
    define t' where "t' = Nd (Nd l a k (uchar (1 + stored rl)) rl) b kb (uchar (1 + uchar (1 + stored rl))) rr"
    define m' where "m' = m\<lparr>cells := (cells m)
      (a := \<lparr>Key = k, pLeft = rt l, pRight = rt rl, uchHeight = uchar (1 + stored rl)\<rparr>,
       b := \<lparr>Key = kb, pLeft = Some a, pRight = rt rr, uchHeight = uchar (1 + uchar (1 + stored rl))\<rparr>)\<rparr>"
    have "rebalance_right_high m (hole fs) a (stored r) = Ok (store_pp m' (hole fs) (rt t'))"
      using R(3,4) D r H True
      by (simp add: rebalance_right_high_def set_defs m'_def t'_def set_cell_def fun_upd_twist Let_def)
    moreover have "rep (store_pp m' (hole fs) (rt t')) fs t'"
      by (rule rep_store [OF R(1)]) (use R D r in \<open>auto simp: m'_def t'_def\<close>)
    moreover have "same_outside (snd ` set (nodes (plug fs (Nd l a k h r)))) m (store_pp m' (hole fs) (rt t'))"
      by (auto simp: same_outside_def nodes_plug cells_store_hole image_Un m'_def r)
    moreover have "raise_right (Nd l a k h r) = t'" using True by (simp add: r t'_def)
    ultimately show ?thesis by (auto simp: step_ok_def)
  next
    case False
    then obtain l1 c kc hc r1 where rl: "rl = Nd l1 c kc hc r1" by (cases rl) auto
    define t' where "t' = Nd (Nd l a k (uchar hc) l1) c kc (uchar hb) (Nd r1 b kb (uchar hc) rr)"
    define m' where "m' = m\<lparr>cells := (cells m)
      (a := \<lparr>Key = k, pLeft = rt l, pRight = rt l1, uchHeight = uchar hc\<rparr>,
       b := \<lparr>Key = kb, pLeft = rt r1, pRight = rt rr, uchHeight = uchar hc\<rparr>,
       c := \<lparr>Key = kc, pLeft = Some a, pRight = Some b, uchHeight = uchar hb\<rparr>)\<rparr>"
    have "rebalance_right_high m (hole fs) a (stored r) = Ok (store_pp m' (hole fs) (rt t'))"
      using R(3,4) D r rl H False
      by (simp add: rebalance_right_high_def set_defs m'_def t'_def set_cell_def fun_upd_twist Let_def)
    moreover have "rep (store_pp m' (hole fs) (rt t')) fs t'"
      proof (rule rep_store [OF R(1)])
      show "distinct (map snd (lefts fs @ nodes t' @ rights fs))"
        using D by (simp add: t'_def r rl)
      show "agree (cells m') t'" using R(2,3) D by (simp add: m'_def t'_def r rl)
    qed (use D r rl in \<open>auto simp: m'_def\<close>)
    moreover have "same_outside (snd ` set (nodes (plug fs (Nd l a k h r)))) m (store_pp m' (hole fs) (rt t'))"
      by (auto simp: same_outside_def nodes_plug cells_store_hole image_Un m'_def r rl)
    moreover have "raise_right (Nd l a k h r) = t'" using False by (simp add: r rl t'_def)
    ultimately show ?thesis by (auto simp: step_ok_def)
  qed
qed

lemma rebalance_step_refines:
  assumes "rep m fs t" and "t \<noteq> Tip"
  shows "\<exists>m'. rebalance_step m (hole fs) = Ok (m', snd (rebal1 t)) \<and> rep m' fs (fst (rebal1 t)) \<and>
    same_outside (snd ` set (nodes (plug fs t))) m m'"
proof -
  obtain l a k h r where t: "t = Nd l a k h r" using assms(2) by (cases t) auto
  have R: "rep_fs m fs (Some a)" "agree (cells m) l" "agree (cells m) r"
    "cells m a = \<lparr>Key = k, pLeft = rt l, pRight = rt r, uchHeight = h\<rparr>"
    and D: "distinct (map snd (lefts fs @ nodes (Nd l a k h r) @ rights fs))"
    using assms(1) by (auto simp: rep_def t)
  have H: "AVL_HEIGHTOF m (rt l) = stored l" "AVL_HEIGHTOF m (rt r) = stored r"
    using R by (auto intro: agree_height)
  have d: "deref m (hole fs) = Some a" using rep_deref [OF assms(1)] t by simp
  note S = rebalance_step_def d R(4) H t Let_def
  consider "stored r + 1 < stored l" | "\<not> stored r + 1 < stored l" "stored l + 1 < stored r"
    | "\<not> stored r + 1 < stored l" "\<not> stored l + 1 < stored r" by blast
  then show ?thesis
  proof cases
    case 1
    then have "l \<noteq> Tip" by auto
    from rebalance_left_high_refines [OF assms(1) [unfolded t] this] 1 show ?thesis
      by (auto simp: S step_ok_def simp del: raise_left.simps raise_right.simps)
  next
    case 2
    then have "r \<noteq> Tip" by auto
    from rebalance_right_high_refines [OF assms(1) [unfolded t] this] 2 show ?thesis
      by (auto simp: S step_ok_def simp del: raise_left.simps raise_right.simps)
  next
    case 3
    let ?h = "uchar (max (stored l) (stored r) + 1)"
    let ?m = "set_height m a ?h"
    have u: "uchar ?h = ?h" by (simp add: uchar_def)
    have "rep ?m fs (Nd l a k ?h r)"
    proof -
      have "rep_fs ?m fs (Some a) = rep_fs m fs (Some a)"
        by (rule rep_fs_cong) (use D in \<open>auto simp: set_height_def\<close>)
      then show ?thesis using R D u by (auto simp: rep_def set_height_def)
    qed
    moreover have "same_outside (snd ` set (nodes (plug fs t))) m ?m"
      by (auto simp: same_outside_def nodes_plug t set_height_def image_Un)
    ultimately show ?thesis using 3 assms(1) by (auto simp: S)
  qed
qed

lemma nodes_rebal1_plug: "nodes (plug fs (fst (rebal1 t))) = nodes (plug fs t)"
  by (simp add: nodes_plug nodes_rebal1)

lemma AVLRebalance_refines:
  assumes "rep m fs t"
  shows "\<exists>m'. AVLRebalance m (entries fs) = Ok m' \<and> represents m' (rebalance fs t) \<and>
    same_outside (snd ` set (nodes (plug fs t))) m m'"
  using assms
proof (induction fs arbitrary: m t)
  case Nil
  then show ?case by (auto simp: represents_def)
next
  case (Cons f fs)
  have R: "rep m fs (plug1 f t)" using Cons.prems by (simp add: rep_Cons)
  have "plug1 f t \<noteq> Tip" by (cases f) auto
  from rebalance_step_refines [OF R this] obtain m1 where
    m1: "rebalance_step m (hole fs) = Ok (m1, snd (rebal1 (plug1 f t)))"
      "rep m1 fs (fst (rebal1 (plug1 f t)))"
      "same_outside (snd ` set (nodes (plug fs (plug1 f t)))) m m1" by blast
  show ?case
  proof (cases "snd (rebal1 (plug1 f t))")
    case True
    from Cons.IH [OF m1(2)] obtain m2 where
      "AVLRebalance m1 (entries fs) = Ok m2"
      "represents m2 (rebalance fs (fst (rebal1 (plug1 f t))))"
      "same_outside (snd ` set (nodes (plug fs (plug1 f t)))) m1 m2"
      by (auto simp: nodes_rebal1_plug)
    moreover from same_outside_trans [OF m1(3) this(3)]
    have "same_outside (snd ` set (nodes (plug (f # fs) t))) m m2" by simp
    ultimately show ?thesis using m1(1) True by (simp add: case_prod_beta)
  next
    case False
    then show ?thesis using m1 by (auto simp: case_prod_beta represents_plug)
  qed
qed

section \<open>Insertion\<close>

lemma insert_walk_refines:
  assumes "rep m fs t" and "pNode \<notin> snd ` set (nodes t)"
    and "length fs + ht t \<le> AVL_MAX_HEIGHT"
  shows "insert_walk m pNode (hole fs) (entries fs) =
    Ok (case seek strcmp (Key (cells m pNode)) t fs of
          (gs, Tip) \<Rightarrow> Some (entries gs, hole gs)
        | (gs, Nd l a x h r) \<Rightarrow> None)"
  using assms
proof (induction t arbitrary: fs)
  case Tip
  then show ?case using rep_deref [OF Tip.prems(1)] by (simp add: insert_walk.simps)
next
  case (Nd l a x h r)
  have d: "deref m (hole fs) = Some a" using rep_deref [OF Nd.prems(1)] by simp
  have c: "cells m a = \<lparr>Key = x, pLeft = rt l, pRight = rt r, uchHeight = h\<rparr>"
    using rep_node [OF Nd.prems(1)] .
  have L: "rep m (FL a x h r # fs) l" and R: "rep m (FR l a x h # fs) r"
    using Nd.prems(1) by (simp_all add: rep_Cons)
  have b: "length fs < AVL_MAX_HEIGHT" "pNode \<noteq> a" using Nd.prems by auto
  have IL: "insert_walk m pNode (LeftOf a) (hole fs # entries fs) =
      Ok (case seek strcmp (Key (cells m pNode)) l (FL a x h r # fs) of
          (gs, Tip) \<Rightarrow> Some (entries gs, hole gs) | (gs, Nd l a x h r) \<Rightarrow> None)"
    using Nd.IH(1) [OF L] Nd.prems(2,3) by (simp add: image_Un)
  have IR: "insert_walk m pNode (RightOf a) (hole fs # entries fs) =
      Ok (case seek strcmp (Key (cells m pNode)) r (FR l a x h # fs) of
          (gs, Tip) \<Rightarrow> Some (entries gs, hole gs) | (gs, Nd l a x h r) \<Rightarrow> None)"
    using Nd.IH(2) [OF R] Nd.prems(2,3) by (simp add: image_Un)
  show ?case
    using b by (subst insert_walk.simps) (simp add: d c AVL_E_def AVL_G_def IL IR)
qed

lemma AVLInsert_refines:
  assumes "represents m t" and "pNode \<notin> snd ` set (nodes t)" and "ht t \<le> AVL_MAX_HEIGHT"
  shows "case t_insert strcmp pNode (Key (cells m pNode)) t of
      None \<Rightarrow> AVLInsert m pNode = Ok (m, False)
    | Some t' \<Rightarrow> \<exists>m'. AVLInsert m pNode = Ok (m', True) \<and> represents m' t' \<and>
        same_outside (insert pNode (snd ` set (nodes t))) m m'"
proof -
  obtain gs u where s: "seek strcmp (Key (cells m pNode)) t [] = (gs, u)" by fastforce
  have W: "insert_walk m pNode TreeVar [] = Ok (case (gs, u) of
      (gs, Tip) \<Rightarrow> Some (entries gs, hole gs) | (gs, Nd l a x h r) \<Rightarrow> None)"
    using insert_walk_refines [of m "[]" t pNode] assms s by (simp add: represents_def)
  show ?thesis
  proof (cases u)
    case Tip
    have p: "plug gs Tip = t" using seek_plug [OF s] Tip by simp
    then have R: "rep_fs m gs None" and D: "distinct (map snd (lefts gs @ rights gs))"
      and n: "nodes t = lefts gs @ rights gs"
      using assms(1) represents_plug [of m gs Tip] nodes_plug [of gs Tip] by (auto simp: rep_def)
    define k where "k = Key (cells m pNode)"
    define m1 where "m1 = m\<lparr>cells := (cells m)(pNode := \<lparr>Key = k, pLeft = None, pRight = None,
      uchHeight = 1\<rparr>)\<rparr>"
    have e: "set_height (set_left (set_right m pNode None) pNode None) pNode 1 = m1"
      by (cases "cells m pNode") (simp add: set_defs m1_def k_def set_cell_def uchar_def)
    have "rep (store_pp m1 (hole gs) (rt (Nd Tip pNode k 1 Tip))) gs (Nd Tip pNode k 1 Tip)"
      by (rule rep_store [OF R]) (use assms(2) D n in \<open>auto simp: m1_def\<close>)
    then have "rep (store_pp m1 (hole gs) (Some pNode)) gs (Nd Tip pNode k 1 Tip)" by simp
    from AVLRebalance_refines [OF this] obtain m' where
      m': "AVLRebalance (store_pp m1 (hole gs) (Some pNode)) (entries gs) = Ok m'"
        "represents m' (rebalance gs (Nd Tip pNode k 1 Tip))"
        "same_outside (insert pNode (snd ` set (nodes t))) (store_pp m1 (hole gs) (Some pNode)) m'"
      using n by (auto simp: nodes_plug same_outside_def)
    have "same_outside (insert pNode (snd ` set (nodes t))) m (store_pp m1 (hole gs) (Some pNode))"
      using n by (auto simp: same_outside_def cells_store_hole image_Un m1_def)
    with m'(3) have "same_outside (insert pNode (snd ` set (nodes t))) m m'"
      using same_outside_trans by blast
    then show ?thesis using W Tip m' e s by (simp add: AVLInsert_def t_insert_def k_def)
  next
    case (Nd l a x h r)
    then show ?thesis using W s by (simp add: AVLInsert_def t_insert_def)
  qed
qed

section \<open>Removal\<close>

lemma remove_walk_refines:
  assumes "rep m fs t" and "length fs + ht t \<le> AVL_MAX_HEIGHT"
  shows "remove_walk m key (hole fs) (entries fs) =
    Ok (case seek strcmp key t fs of
          (gs, Tip) \<Rightarrow> (entries gs, hole gs, None)
        | (gs, Nd l a x h r) \<Rightarrow> (hole gs # entries gs, hole gs, Some a))"
  using assms
proof (induction t arbitrary: fs)
  case Tip
  then show ?case using rep_deref [OF Tip.prems(1)] by (simp add: remove_walk.simps)
next
  case (Nd l a x h r)
  have d: "deref m (hole fs) = Some a" using rep_deref [OF Nd.prems(1)] by simp
  have c: "cells m a = \<lparr>Key = x, pLeft = rt l, pRight = rt r, uchHeight = h\<rparr>"
    using rep_node [OF Nd.prems(1)] .
  have L: "rep m (FL a x h r # fs) l" and R: "rep m (FR l a x h # fs) r"
    using Nd.prems(1) by (simp_all add: rep_Cons)
  have b: "length fs < AVL_MAX_HEIGHT" using Nd.prems by auto
  have IL: "remove_walk m key (LeftOf a) (hole fs # entries fs) =
      Ok (case seek strcmp key l (FL a x h r # fs) of
          (gs, Tip) \<Rightarrow> (entries gs, hole gs, None)
        | (gs, Nd l a x h r) \<Rightarrow> (hole gs # entries gs, hole gs, Some a))"
    using Nd.IH(1) [OF L] Nd.prems(2) by simp
  have IR: "remove_walk m key (RightOf a) (hole fs # entries fs) =
      Ok (case seek strcmp key r (FR l a x h # fs) of
          (gs, Tip) \<Rightarrow> (entries gs, hole gs, None)
        | (gs, Nd l a x h r) \<Rightarrow> (hole gs # entries gs, hole gs, Some a))"
    using Nd.IH(2) [OF R] Nd.prems(2) by simp
  show ?case
    using b by (subst remove_walk.simps) (simp add: d c AVL_CMP_def Let_def IL IR)
qed

lemma left_least_walk_refines:
  assumes "rep m fs t" and "length fs + ht t \<le> Suc AVL_MAX_HEIGHT"
    and "split_last t fs = Some (gs, ll, b, y, hb)"
  shows "left_least_walk m (hole fs) (entries fs) = Ok (entries gs, hole gs, b)"
  using assms
proof (induction t arbitrary: fs)
  case (Nd l a x h r)
  have d: "deref m (hole fs) = Some a" using rep_deref [OF Nd.prems(1)] by simp
  have c: "cells m a = \<lparr>Key = x, pLeft = rt l, pRight = rt r, uchHeight = h\<rparr>"
    using rep_node [OF Nd.prems(1)] .
  have R: "rep m (FR l a x h # fs) r" using Nd.prems(1) by (simp add: rep_Cons)
  show ?case
  proof (cases "r = Tip")
    case True
    then show ?thesis using Nd.prems(3) d c by (subst left_least_walk.simps) auto
  next
    case False
    then obtain p where p: "rt r = Some p" by (cases r) auto
    have "length fs < AVL_MAX_HEIGHT" using False Nd.prems(2) by (cases r) auto
    moreover have "left_least_walk m (RightOf a) (hole fs # entries fs) = Ok (entries gs, hole gs, b)"
      using Nd.IH(2) [OF R] Nd.prems(2,3) False by simp
    ultimately show ?thesis using False by (subst left_least_walk.simps) (simp add: d c p)
  qed
qed simp

text \<open>The entry of the stack that has to be corrected.\<close>

lemma entries_append: "\<exists>E. length E = length gs \<and> (\<forall>fs. entries (gs @ g # fs) = E @ hole fs # entries fs)"
proof (induction gs)
  case Nil
  show ?case by simp
next
  case (Cons f gs)
  then obtain E where E: "length E = length gs"
    "\<And>fs. entries (gs @ g # fs) = E @ hole fs # entries fs" by blast
  have "hole (gs @ g # fs) = hole (gs @ [g])" for fs
    by (cases gs; cases g; cases "hd gs") auto
  then have "length (hole (gs @ [g]) # E) = length (f # gs) \<and>
    (\<forall>fs. entries ((f # gs) @ g # fs) = (hole (gs @ [g]) # E) @ hole fs # entries fs)"
    using E by simp
  then show ?case by blast
qed

lemma stack_set_entries:
  assumes "length fs < AVL_MAX_HEIGHT - 1"
  shows "stack_set (entries (gs @ FL a k h r # fs)) (Suc (length fs)) (LeftOf b) =
    Ok (entries (gs @ FL b y h' r # fs))"
proof (cases gs rule: rev_cases)
  case Nil
  then show ?thesis using assms by (simp add: stack_set_def)
next
  case (snoc gs' g)
  from entries_append [of gs' g] obtain E where E: "length E = length gs'"
    "\<And>fs. entries (gs' @ g # fs) = E @ hole fs # entries fs" by blast
  show ?thesis using assms E(1) by (simp add: stack_set_def snoc E(2) list_update_append)
qed

lemma AVLRemove_refines:
  assumes "represents m t" and "ht t \<le> AVL_MAX_HEIGHT"
  shows "case t_remove strcmp key t of
      None \<Rightarrow> AVLRemove m key = Ok (m, None)
    | Some (t', a) \<Rightarrow> \<exists>m'. AVLRemove m key = Ok (m', Some a) \<and> represents m' t' \<and>
        same_outside (snd ` set (nodes t)) m m'"
proof -
  obtain fs u where s: "seek strcmp key t [] = (fs, u)" by fastforce
  have W: "remove_walk m key TreeVar [] = Ok (case (fs, u) of
      (gs, Tip) \<Rightarrow> (entries gs, hole gs, None)
    | (gs, Nd l a x h r) \<Rightarrow> (hole gs # entries gs, hole gs, Some a))"
    using remove_walk_refines [of m "[]" t key] assms s by (simp add: represents_def)
  show ?thesis
  proof (cases u)
    case Tip
    then show ?thesis using W s by (simp add: AVLRemove_def t_remove_def)
  next
    case (Nd l a x h r)
    have p: "plug fs (Nd l a x h r) = t" using seek_plug [OF s] Nd by simp
    then have R: "rep m fs (Nd l a x h r)" using assms(1) represents_plug by blast
    have c: "cells m a = \<lparr>Key = x, pLeft = rt l, pRight = rt r, uchHeight = h\<rparr>"
      using rep_node [OF R] .
    have RF: "rep_fs m fs (Some a)" and RA: "agree (cells m) l" "agree (cells m) r"
      and D: "distinct (map snd (lefts fs @ (nodes l @ (x, a) # nodes r) @ rights fs))"
      using R by (auto simp: rep_def)
    have n: "nodes t = lefts fs @ (nodes l @ (x, a) # nodes r) @ rights fs"
      using nodes_plug [of fs "Nd l a x h r"] p by simp
    have len: "length fs + ht (Nd l a x h r) \<le> AVL_MAX_HEIGHT"
      using ht_plug_le [of "Nd l a x h r" fs] p assms(2) by simp
    show ?thesis
    proof (cases "split_last l []")
      case None
      then have l: "l = Tip" by simp
      let ?m = "store_pp m (hole fs) (rt r)"
      have "rep ?m fs r" by (rule rep_store [OF RF]) (use RA D l in auto)
      from AVLRebalance_refines [OF this] obtain m' where
        m': "AVLRebalance ?m (entries fs) = Ok m'" "represents m' (rebalance fs r)"
          "same_outside (snd ` set (nodes (plug fs r))) ?m m'" by blast
      have "same_outside (snd ` set (nodes t)) ?m m'"
        using m'(3) by (auto simp: same_outside_def n nodes_plug)
      moreover have "same_outside (snd ` set (nodes t)) m ?m"
        by (auto simp: same_outside_def n cells_store_hole image_Un)
      ultimately have "same_outside (snd ` set (nodes t)) m m'" using same_outside_trans by blast
      then show ?thesis using W Nd s c l m' by (simp add: AVLRemove_def t_remove_def)
    next
      case (Some q)
      obtain gs ll b y hb where q: "q = (gs, ll, b, y, hb)" by (cases q) auto
      let ?F = "FL a x h r" and ?G = "FL b y (uchar h) r"
      have l: "plug gs (Nd ll b y hb Tip) = l" using split_last_plug Some q by fastforce
      then obtain p where p: "rt l = Some p" by (cases l) (use Some in auto)
      have RL: "rep m (gs @ ?F # fs) (Nd ll b y hb Tip)"
        using R l by (simp add: rep_append rep_Cons)
      have cb: "cells m b = \<lparr>Key = y, pLeft = rt ll, pRight = None, uchHeight = hb\<rparr>"
        using rep_node [OF RL] by simp
      have nl: "nodes l = lefts gs @ nodes ll @ (y, b) # rights gs"
        using nodes_plug [of gs "Nd ll b y hb Tip"] l by simp
      have "split_last l (?F # fs) = Some (gs @ ?F # fs, ll, b, y, hb)"
        using split_last_append [of l "[]" "?F # fs"] Some q by simp
      moreover have "rep m (?F # fs) l" using R by (simp add: rep_Cons)
      ultimately have LW: "left_least_walk m (LeftOf a) (hole fs # entries fs) =
          Ok (entries (gs @ ?F # fs), hole (gs @ ?F # fs), b)"
        using left_least_walk_refines [of m "?F # fs" l "gs @ ?F # fs" ll b y hb] len by simp
      define m1 where "m1 = store_pp m (hole (gs @ ?F # fs)) (rt ll)"
      have "rep m1 (gs @ ?F # fs) ll" unfolding m1_def
        by (rule rep_store [of m _ "Some b"]) (use RL D nl in \<open>auto simp: rep_def\<close>)
      then have R1: "rep m1 fs (Nd (plug gs ll) a x h r)" by (simp add: rep_append rep_Cons)
      have c1: "cells m1 a = \<lparr>Key = x, pLeft = rt (plug gs ll), pRight = rt r, uchHeight = h\<rparr>"
        using rep_node [OF R1] .
      have b1: "cells m1 b = cells m b" unfolding m1_def
        by (rule cells_store_hole) (use D nl in auto)
      define m2 where "m2 = m1\<lparr>cells := (cells m1)
        (b := \<lparr>Key = y, pLeft = rt (plug gs ll), pRight = rt r, uchHeight = uchar h\<rparr>)\<rparr>"
      have ab: "a \<noteq> b" using D nl by auto
      have e2: "set_height (set_right (set_left m1 b (rt (plug gs ll))) b (rt r)) b h = m2"
        using b1 cb by (simp add: set_defs m2_def set_cell_def)
      have np: "nodes (plug gs ll) = lefts gs @ nodes ll @ rights gs" by (rule nodes_plug)
      have "b \<notin> snd ` set (nodes (plug gs ll))" using D nl np by auto
      then have ag: "agree (cells m2) (plug gs ll)"
        using R1 by (simp add: m2_def rep_def)
      have "rep (store_pp m2 (hole fs) (rt (Nd (plug gs ll) b y (uchar h) r))) fs
        (Nd (plug gs ll) b y (uchar h) r)"
        by (rule rep_store [of m1 _ "Some a"])
          (use R1 D nl np ag in \<open>auto simp: rep_def m2_def\<close>)
      then have R3: "rep (store_pp m2 (hole fs) (Some b)) (gs @ ?G # fs) ll" (is "rep ?m3 _ _")
        by (simp add: rep_append rep_Cons)
      from AVLRebalance_refines [OF R3] obtain m' where
        m': "AVLRebalance ?m3 (entries (gs @ ?G # fs)) = Ok m'"
          "represents m' (rebalance (gs @ ?G # fs) ll)"
          "same_outside (snd ` set (nodes (plug (gs @ ?G # fs) ll))) ?m3 m'" by blast
      have "length fs < AVL_MAX_HEIGHT - 1" using len l Some by (cases l) auto
      then have ST: "stack_set (entries (gs @ ?F # fs)) (Suc (length fs)) (LeftOf b) =
          Ok (entries (gs @ ?G # fs))" by (rule stack_set_entries)
      have "same_outside (snd ` set (nodes t)) ?m3 m'"
        using m'(3) by (auto simp: same_outside_def n nodes_plug nl)
      moreover have "same_outside (snd ` set (nodes t)) m m1" unfolding m1_def same_outside_def
        by (auto simp: n nl intro!: cells_store_hole)
      moreover have "same_outside (snd ` set (nodes t)) m1 ?m3"
        by (auto simp: same_outside_def n nl cells_store_hole image_Un m2_def)
      ultimately have "same_outside (snd ` set (nodes t)) m m'" using same_outside_trans by metis
      moreover have "AVLRemove m key = Ok (m', Some a)"
        using W Nd c p LW c1 e2 ST m'(1) ab cb m1_def [symmetric]
        by (simp add: AVLRemove_def Let_def)
      ultimately show ?thesis using s Nd Some q m'(2) by (simp add: t_remove_def)
    qed
  qed
qed

end
