(* ===== verification/AvlEnum.thy ===== *)
theory AvlEnum
  imports AvlHeap
begin

text \<open>
  The read-only functions of fastdep's AVL tree on a store that represents a tree: the searches
  return and give what the tree algorithms give, and the two iterations, \<open>AVLDoWithAll\<close> and the
  enumeration, visit the nodes in order or in reverse order within the bounds of their stacks.
\<close>

section \<open>Searches\<close>

lemma get_walk_refines:
  assumes "agree (cells m) t"
  shows "get_walk m key (rt t) = Some (rt (snd (seek strcmp key t fs)))"
  using assms
proof (induction t arbitrary: fs)
  case Tip
  then show ?case by (subst get_walk.simps) simp
next
  case (Nd l a x h r)
  then show ?case by (subst get_walk.simps) (simp add: AVL_CMP_def)
qed

text \<open>The node whose child is at the hole.\<close>

fun parent :: "string frame list \<Rightarrow> addr option" where
  "parent [] = None"
| "parent (FL a k h r # fs) = Some a"
| "parent (FR l a k h # fs) = Some a"

lemma parent_walk_refines:
  assumes "agree (cells m) t"
  shows "parent_walk m key (rt t) (parent fs) =
    (case seek strcmp key t fs of (gs, u) \<Rightarrow> Some (rt u, parent gs))"
  using assms
proof (induction t arbitrary: fs)
  case Tip
  then show ?case by (subst parent_walk.simps) simp
next
  case (Nd l a x h r)
  then show ?case
    using Nd.IH(1) [of "FL a x h r # fs"] Nd.IH(2) [of "FR l a x h # fs"]
    by (subst parent_walk.simps) (simp add: AVL_CMP_def)
qed

lemma above_walk_refines:
  assumes "agree (cells m) t"
  shows "\<exists>p q. above_walk m key (rt t) best = Some (p, q) \<and>
    (if p = None then q else p) = t_above strcmp key t best"
  using assms
proof (induction t arbitrary: best)
  case Tip
  then show ?case by (subst above_walk.simps) simp
next
  case (Nd l a x h r)
  then show ?case by (subst above_walk.simps) (simp add: AVL_CMP_def)
qed

lemma below_walk_refines:
  assumes "agree (cells m) t"
  shows "\<exists>p q. below_walk m key (rt t) best = Some (p, q) \<and>
    (if p = None then q else p) = t_below strcmp key t best"
  using assms
proof (induction t arbitrary: best)
  case Tip
  then show ?case by (subst below_walk.simps) simp
next
  case (Nd l a x h r)
  then show ?case by (subst below_walk.simps) (simp add: AVL_CMP_def)
qed

section \<open>Adjacent nodes\<close>

lemma adjacent_walk_refines:
  assumes "rep m fs t" and "length fs + ht t \<le> AVL_MAX_HEIGHT"
  shows "adjacent_walk m key (hole fs) (entries fs) =
    Ok (case seek strcmp key t fs of (gs, u) \<Rightarrow> (entries gs, rt u))"
  using assms
proof (induction t arbitrary: fs)
  case Tip
  then show ?case using rep_deref [OF Tip.prems(1)] by (simp add: adjacent_walk.simps)
next
  case (Nd l a x h r)
  have d: "deref m (hole fs) = Some a" using rep_deref [OF Nd.prems(1)] by simp
  have c: "cells m a = \<lparr>Key = x, pLeft = rt l, pRight = rt r, uchHeight = h\<rparr>"
    using rep_node [OF Nd.prems(1)] .
  have L: "rep m (FL a x h r # fs) l" and R: "rep m (FR l a x h # fs) r"
    using Nd.prems(1) by (simp_all add: rep_Cons)
  have b: "length fs < AVL_MAX_HEIGHT" using Nd.prems by auto
  have IL: "adjacent_walk m key (LeftOf a) (hole fs # entries fs) =
      Ok (case seek strcmp key l (FL a x h r # fs) of (gs, u) \<Rightarrow> (entries gs, rt u))"
    using Nd.IH(1) [OF L] Nd.prems(2) by simp
  have IR: "adjacent_walk m key (RightOf a) (hole fs # entries fs) =
      Ok (case seek strcmp key r (FR l a x h # fs) of (gs, u) \<Rightarrow> (entries gs, rt u))"
    using Nd.IH(2) [OF R] Nd.prems(2) by simp
  show ?case
    using b by (subst adjacent_walk.simps) (simp add: d c AVL_CMP_def Let_def IL IR)
qed

lemma rightmost_refines:
  "agree (cells m) t \<Longrightarrow> rt t = Some a \<Longrightarrow> rightmost m a = map_option snd (last_of (nodes t))"
proof (induction t arbitrary: a)
  case (Nd l b x h r)
  show ?case
  proof (cases "rt r")
    case None
    then show ?thesis using Nd.prems by (subst rightmost.simps) simp
  next
    case (Some c)
    then have "nodes r \<noteq> []" by auto
    then have "last_of ((x, b) # nodes r) = last_of (nodes r)" by (simp add: last_of_def)
    then show ?thesis using Nd.IH(2) [of c] Nd.prems Some
      by (subst rightmost.simps) simp
  qed
qed simp

lemma leftmost_refines:
  "agree (cells m) t \<Longrightarrow> rt t = Some a \<Longrightarrow> leftmost m a = map_option snd (first_of (nodes t))"
proof (induction t arbitrary: a)
  case (Nd l b x h r)
  show ?case
  proof (cases "rt l")
    case None
    then show ?thesis using Nd.prems by (subst leftmost.simps) simp
  next
    case (Some c)
    then have "nodes l \<noteq> []" by auto
    then show ?thesis using Nd.IH(1) [of c] Nd.prems Some
      by (subst leftmost.simps) simp
  qed
qed simp

text \<open>The neighbours in the store are addresses, in the tree algorithm nodes with their keys.\<close>

definition keyed :: "avlmem \<Rightarrow> (string \<times> addr) option \<Rightarrow> bool" where
  "keyed m p \<longleftrightarrow> (case p of None \<Rightarrow> True | Some (k, a) \<Rightarrow> Key (cells m a) = k)"

lemma keyed_simps [simp]: "keyed m None" "keyed m (Some (k, a)) \<longleftrightarrow> Key (cells m a) = k"
  by (simp_all add: keyed_def)

lemma agree_keyed: "agree (cells m) t \<Longrightarrow> (k, a) \<in> set (nodes t) \<Longrightarrow> Key (cells m a) = k"
  by (induction t) auto

lemma adjacent_rewind_refines:
  assumes "rep_fs m fs p" and "keyed m lft" and "keyed m rgt"
  shows "adjacent_rewind m key (entries fs) (map_option snd lft) (map_option snd rgt) =
    Ok (map_prod (map_option snd) (map_option snd) (rewind strcmp key fs lft rgt))"
  using assms
proof (induction fs arbitrary: p lft rgt)
  case (Cons f fs)
  obtain y b where f: "(case f of FL a x h r \<Rightarrow> (x, a) | FR l a x h \<Rightarrow> (x, a)) = (y, b)"
    by fastforce
  have R: "rep_fs m fs (Some b)" and k: "Key (cells m b) = y"
    using Cons.prems(1) f by (cases f; simp)+
  have d: "deref m (hole fs) = Some b" using deref_hole [OF R] .
  have L: "(case map_option snd lft of None \<Rightarrow> True | Some l \<Rightarrow> AVL_G (Key (cells m b)) (Key (cells m l))) =
      (case lft of None \<Rightarrow> True | Some (z, c) \<Rightarrow> strcmp y z > 0)"
    using Cons.prems(2) k by (auto simp: AVL_G_def split: option.splits)
  have G: "(case map_option snd rgt of None \<Rightarrow> True | Some l \<Rightarrow> AVL_L (Key (cells m b)) (Key (cells m l))) =
      (case rgt of None \<Rightarrow> True | Some (z, c) \<Rightarrow> strcmp y z < 0)"
    using Cons.prems(3) k by (auto simp: AVL_L_def split: option.splits)
  have "keyed m (Some (y, b))" using k by simp
  then show ?case
    using Cons.IH [OF R Cons.prems(2,3)] Cons.IH [OF R _ Cons.prems(3), of "Some (y, b)"]
      Cons.IH [OF R Cons.prems(2), of "Some (y, b)"] L G
    by (simp add: d k f AVL_CMP_def Let_def)
qed simp

section \<open>Iteration\<close>

definition dir_nodes :: "bool \<Rightarrow> string atree \<Rightarrow> addr list" where
  "dir_nodes b t = map snd (if b then nodes t else rev (nodes t))"

definition near_t :: "bool \<Rightarrow> string atree \<Rightarrow> string atree \<Rightarrow> string atree" where
  "near_t b l r = (if b then l else r)"

definition far_t :: "bool \<Rightarrow> string atree \<Rightarrow> string atree \<Rightarrow> string atree" where
  "far_t b l r = (if b then r else l)"

lemma dir_nodes_Tip [simp]: "dir_nodes b Tip = []"
  by (simp add: dir_nodes_def)

lemma dir_nodes_Nd: "dir_nodes b (Nd l a k h r) = dir_nodes b (near_t b l r) @ a # dir_nodes b (far_t b l r)"
  by (simp add: dir_nodes_def near_t_def far_t_def)

lemma dir_nodes_eq_Nil [simp]: "dir_nodes b t = [] \<longleftrightarrow> t = Tip"
  by (simp add: dir_nodes_def)

text \<open>A stack of subtrees with their flags, and the nodes still to come.\<close>

fun stack_ok :: "avlmem \<Rightarrow> (string atree \<times> nat) list \<Rightarrow> bool" where
  "stack_ok m [] \<longleftrightarrow> True"
| "stack_ok m ((t, fl) # S) \<longleftrightarrow> t \<noteq> Tip \<and> agree (cells m) t \<and> fl \<le> 2 \<and>
     length S + ht t \<le> AVL_MAX_HEIGHT \<and> stack_ok m S"

fun pending :: "bool \<Rightarrow> (string atree \<times> nat) list \<Rightarrow> addr list" where
  "pending b [] = []"
| "pending b ((Tip, fl) # S) = pending b S"
| "pending b ((Nd l a k h r, fl) # S) =
     (if fl = 0 then dir_nodes b (Nd l a k h r)
      else if fl = 1 then a # dir_nodes b (far_t b l r)
      else dir_nodes b (far_t b l r)) @ pending b S"

definition stack_addrs :: "(string atree \<times> nat) list \<Rightarrow> (addr \<times> nat) list" where
  "stack_addrs S = map (\<lambda>(t, fl). (the (rt t), fl)) S"

fun work :: "bool \<Rightarrow> (string atree \<times> nat) list \<Rightarrow> nat" where
  "work b [] = 0"
| "work b ((Tip, fl) # S) = work b S"
| "work b ((Nd l a k h r, fl) # S) =
     (if fl = 0 then 3 * length (dir_nodes b (Nd l a k h r))
      else 3 * length (dir_nodes b (far_t b l r)) + 2 + (if fl = 1 then 1 else 0) - 1) + work b S"

lemma stack_addrs_simps [simp]:
  "stack_addrs [] = []" "stack_addrs ((Nd l a k h r, fl) # S) = (a, fl) # stack_addrs S"
  "length (stack_addrs S) = length S"
  by (simp_all add: stack_addrs_def)

text \<open>Pushing the near or the far subtree keeps the stack in its bounds.\<close>

definition push_t :: "string atree \<Rightarrow> (string atree \<times> nat) list \<Rightarrow> (string atree \<times> nat) list" where
  "push_t t S = (if t = Tip then S else (t, 0) # S)"

lemma push2_refines:
  assumes "stack_ok m S" and "agree (cells m) t" and "length S + ht t \<le> AVL_MAX_HEIGHT"
  shows "push2 (rt t) (stack_addrs S) = Ok (stack_addrs (push_t t S)) \<and> stack_ok m (push_t t S)"
proof (cases t)
  case (Nd l a k h r)
  then show ?thesis using assms by (simp add: push2_def push_t_def)
qed (use assms in \<open>simp add: push2_def push_t_def\<close>)

lemma pending_push [simp]: "pending b (push_t t S) = dir_nodes b t @ pending b S"
  by (cases t) (auto simp: push_t_def)

lemma work_push [simp]: "work b (push_t t S) = 3 * length (dir_nodes b t) + work b S"
  by (cases t) (auto simp: push_t_def)

lemma near_rt: "agree (cells m) (Nd l a k h r) \<Longrightarrow> near b (cells m a) = rt (near_t b l r)"
  and far_rt: "agree (cells m) (Nd l a k h r) \<Longrightarrow> far b (cells m a) = rt (far_t b l r)"
  by (simp_all add: near_def far_def near_t_def far_t_def)

lemma near_ok: "agree (cells m) (Nd l a k h r) \<Longrightarrow> agree (cells m) (near_t b l r) \<and>
    ht (near_t b l r) < ht (Nd l a k h r)"
  and far_ok: "agree (cells m) (Nd l a k h r) \<Longrightarrow> agree (cells m) (far_t b l r) \<and>
    ht (far_t b l r) < ht (Nd l a k h r)"
  by (auto simp: near_t_def far_t_def)

lemma next_walk_refines:
  assumes "stack_ok m S"
  shows "case pending b S of
      [] \<Rightarrow> next_walk m b (stack_addrs S) = Some (Ok ([], None))
    | p # ps \<Rightarrow> \<exists>S'. next_walk m b (stack_addrs S) = Some (Ok (stack_addrs S', Some p)) \<and>
        stack_ok m S' \<and> pending b S' = ps \<and> fst (hd (stack_addrs S')) = p"
  using assms
proof (induction S rule: measure_induct_rule [where f = "work b"])
  case (less S)
  show ?case
  proof (cases S)
    case Nil
    then show ?thesis by (simp add: next_walk.simps)
  next
    case (Cons e rest)
    obtain l a k h r fl where e: "e = (Nd l a k h r, fl)"
      using less.prems Cons by (cases e; cases "fst e") auto
    have ag: "agree (cells m) (Nd l a k h r)" and ok: "stack_ok m rest"
      and len: "length rest + ht (Nd l a k h r) \<le> AVL_MAX_HEIGHT" and fl: "fl \<le> 2"
      using less.prems Cons e by auto
    note nr = near_rt [OF ag, of b] and fr = far_rt [OF ag, of b]
    consider "fl = 0" "near_t b l r \<noteq> Tip" | "fl = 0" "near_t b l r = Tip" | "fl = 1" | "fl = 2"
      using fl by linarith
    then show ?thesis
    proof cases
      case 1
      let ?R = "(Nd l a k h r, Suc 0) # rest"
      have "stack_ok m ?R" using ag ok len by simp
      then have P: "push2 (rt (near_t b l r)) (stack_addrs ?R) = Ok (stack_addrs (push_t (near_t b l r) ?R))"
        "stack_ok m (push_t (near_t b l r) ?R)"
        using push2_refines [of m ?R "near_t b l r"] near_ok [OF ag, of b] len by auto
      have N: "next_walk m b (stack_addrs S) = next_walk m b (stack_addrs (push_t (near_t b l r) ?R))"
        using 1 P(1) by (subst next_walk.simps) (simp add: Cons e nr)
      have w: "work b (push_t (near_t b l r) ?R) < work b S"
        by (simp add: Cons e 1 dir_nodes_Nd)
      have p: "pending b S = pending b (push_t (near_t b l r) ?R)"
        by (simp add: Cons e 1 dir_nodes_Nd)
      show ?thesis unfolding N p by (rule less.IH [OF w P(2)])
    next
      case 2
      then have "next_walk m b (stack_addrs S) = Some (Ok (stack_addrs ((Nd l a k h r, 2) # rest), Some a))"
        by (subst next_walk.simps) (simp add: Cons e nr)
      moreover have "stack_ok m ((Nd l a k h r, 2) # rest)" using ag ok len by simp
      moreover have "pending b S = a # pending b ((Nd l a k h r, 2) # rest)"
        using 2 by (simp add: Cons e dir_nodes_Nd)
      ultimately show ?thesis
        by (auto intro!: exI [of _ "(Nd l a k h r, 2) # rest"])
    next
      case 3
      then have "next_walk m b (stack_addrs S) = Some (Ok (stack_addrs ((Nd l a k h r, 2) # rest), Some a))"
        by (subst next_walk.simps) (simp add: Cons e nr numeral_2_eq_2)
      moreover have "stack_ok m ((Nd l a k h r, 2) # rest)" using ag ok len by simp
      moreover have "pending b S = a # pending b ((Nd l a k h r, 2) # rest)"
        using 3 by (simp add: Cons e)
      ultimately show ?thesis
        by (auto intro!: exI [of _ "(Nd l a k h r, 2) # rest"])
    next
      case 4
      have P: "push2 (rt (far_t b l r)) (stack_addrs rest) = Ok (stack_addrs (push_t (far_t b l r) rest))"
        "stack_ok m (push_t (far_t b l r) rest)"
        using push2_refines [OF ok, of "far_t b l r"] far_ok [OF ag, of b] len by auto
      have N: "next_walk m b (stack_addrs S) = next_walk m b (stack_addrs (push_t (far_t b l r) rest))"
        using 4 P(1) by (subst next_walk.simps) (simp add: Cons e fr)
      have w: "work b (push_t (far_t b l r) rest) < work b S" by (simp add: Cons e 4)
      have p: "pending b S = pending b (push_t (far_t b l r) rest)" by (simp add: Cons e 4)
      show ?thesis unfolding N p by (rule less.IH [OF w P(2)])
    qed
  qed
qed

text \<open>What a callback sequence does: it stops at the first result that is not zero.\<close>

fun do_all :: "(addr \<Rightarrow> 's \<Rightarrow> 's \<times> nat) \<Rightarrow> addr list \<Rightarrow> 's \<Rightarrow> 's \<times> nat" where
  "do_all cb [] s = (s, 0)"
| "do_all cb (a # as) s = (let (s, rc) = cb a s in if rc \<noteq> 0 then (s, rc) else do_all cb as s)"

lemma do_walk_refines:
  assumes "stack_ok m S"
  shows "do_walk m b cb (stack_addrs S) s = Some (Ok (do_all cb (pending b
    (map (\<lambda>(t, fl). (t, min fl (Suc 0))) S)) s))"
  using assms
proof (induction S arbitrary: s rule: measure_induct_rule [where f = "work b"])
  case (less S)
  show ?case
  proof (cases S)
    case Nil
    then show ?thesis by (simp add: do_walk.simps)
  next
    case (Cons e rest)
    obtain l a k h r fl where e: "e = (Nd l a k h r, fl)"
      using less.prems Cons by (cases e; cases "fst e") auto
    have ag: "agree (cells m) (Nd l a k h r)" and ok: "stack_ok m rest"
      and len: "length rest + ht (Nd l a k h r) \<le> AVL_MAX_HEIGHT" and fl: "fl \<le> 2"
      using less.prems Cons e by auto
    note nr = near_rt [OF ag, of b] and fr = far_rt [OF ag, of b]
    have mp: "map (\<lambda>(t, fl). (t, min fl (Suc 0))) (push_t t R) = push_t t (map (\<lambda>(t, fl). (t, min fl (Suc 0))) R)"
      for t R by (simp add: push_t_def)
    show ?thesis
    proof (cases "fl = 0 \<and> near_t b l r \<noteq> Tip")
      case True
      let ?R = "(Nd l a k h r, Suc 0) # rest"
      have "stack_ok m ?R" using ag ok len by simp
      then have P: "push2 (rt (near_t b l r)) (stack_addrs ?R) = Ok (stack_addrs (push_t (near_t b l r) ?R))"
        "stack_ok m (push_t (near_t b l r) ?R)"
        using push2_refines [of m ?R "near_t b l r"] near_ok [OF ag, of b] len by auto
      have "do_walk m b cb (stack_addrs S) s = do_walk m b cb (stack_addrs (push_t (near_t b l r) ?R)) s"
        using True P(1) by (subst do_walk.simps) (simp add: Cons e nr)
      moreover have "work b (push_t (near_t b l r) ?R) < work b S"
        using True by (simp add: Cons e dir_nodes_Nd)
      ultimately show ?thesis using less.IH [OF _ P(2)] True
        by (simp add: Cons e dir_nodes_Nd mp)
    next
      case False
      have P: "push2 (rt (far_t b l r)) (stack_addrs rest) = Ok (stack_addrs (push_t (far_t b l r) rest))"
        "stack_ok m (push_t (far_t b l r) rest)"
        using push2_refines [OF ok, of "far_t b l r"] far_ok [OF ag, of b] len by auto
      have W: "work b (push_t (far_t b l r) rest) < work b S" using fl
        by (auto simp: Cons e dir_nodes_Nd)
      have pe: "pending b (map (\<lambda>(t, fl). (t, min fl (Suc 0))) S) =
          a # pending b (map (\<lambda>(t, fl). (t, min fl (Suc 0))) (push_t (far_t b l r) rest))"
        using False by (cases "fl = 0") (auto simp: Cons e dir_nodes_Nd mp)
      obtain s' rc where cb: "cb a s = (s', rc)" by fastforce
      have "do_walk m b cb (stack_addrs S) s = (if rc \<noteq> 0 then Some (Ok (s', rc))
          else do_walk m b cb (stack_addrs (push_t (far_t b l r) rest)) s')"
        using False P(1) cb by (subst do_walk.simps) (auto simp: Cons e nr fr)
      then show ?thesis using less.IH [OF W P(2)] cb pe by simp
    qed
  qed
qed

section \<open>Storing a tree\<close>

fun store_tree :: "string atree \<Rightarrow> (addr \<Rightarrow> avlnodecore) \<Rightarrow> (addr \<Rightarrow> avlnodecore)" where
  "store_tree Tip c = c"
| "store_tree (Nd l a k h r) c = store_tree r (store_tree l
     (c(a := \<lparr>Key = k, pLeft = rt l, pRight = rt r, uchHeight = h\<rparr>)))"

definition mem_of :: "string atree \<Rightarrow> avlmem" where
  "mem_of t = \<lparr>ppTree = rt t,
     cells = store_tree t (\<lambda>_. \<lparr>Key = ''a'', pLeft = None, pRight = None, uchHeight = 0\<rparr>)\<rparr>"

lemma store_tree_other: "a \<notin> snd ` set (nodes t) \<Longrightarrow> store_tree t c a = c a"
  by (induction t arbitrary: c) (auto simp: image_Un)

lemma agree_store_tree: "distinct (map snd (nodes t)) \<Longrightarrow> agree (store_tree t c) t"
proof (induction t arbitrary: c)
  case (Nd l a k h r)
  let ?c1 = "c(a := \<lparr>Key = k, pLeft = rt l, pRight = rt r, uchHeight = h\<rparr>)"
  have D: "snd ` set (nodes l) \<inter> snd ` set (nodes r) = {}" "a \<notin> snd ` set (nodes l)"
    "a \<notin> snd ` set (nodes r)" "distinct (map snd (nodes l))" "distinct (map snd (nodes r))"
    using Nd.prems by auto
  have "agree (store_tree r (store_tree l ?c1)) l = agree (store_tree l ?c1) l"
    by (rule agree_cong) (use D(1) in \<open>auto intro!: store_tree_other\<close>)
  then show ?case using Nd.IH D by (simp add: store_tree_other)
qed simp

lemma represents_mem_of: "distinct (map snd (nodes t)) \<Longrightarrow> represents (mem_of t) t"
  by (simp add: represents_def rep_def mem_of_def agree_store_tree)

end
