(* ===== verification/AvlCorrect.thy ===== *)
theory AvlCorrect
  imports AvlEnum
begin

text \<open>
  The properties of fastdep's AVL tree. \<open>avl_map m xs\<close> says that the store \<open>m\<close> holds a balanced
  search tree whose nodes are, from left to right, the list \<open>xs\<close> of keys and addresses.
  \<open>min_nodes 20 = 17710\<close> is the least size of a tree that no longer fits the stacks.
\<close>

definition avl_map :: "avlmem \<Rightarrow> (string \<times> addr) list \<Rightarrow> bool" where
  "avl_map m xs \<longleftrightarrow> (\<exists>t. represents m t \<and> avl t \<and> nodes t = xs \<and> sorted_by strcmp xs)"

lemma avl_mapE:
  assumes "avl_map m xs" and "length xs < 17710"
  obtains t where "represents m t" "avl t" "nodes t = xs" "sorted_by strcmp (nodes t)"
    "ht t \<le> AVL_MAX_HEIGHT" "agree (cells m) t" "ppTree m = rt t" "rep m [] t"
  using assms ht_bound by (fastforce simp: avl_map_def represents_def rep_def)

lemma avl_map_agree:
  assumes "avl_map m xs" and "(k, a) \<in> set xs"
  shows "Key (cells m a) = k"
  using assms agree_keyed by (fastforce simp: avl_map_def represents_def rep_def)

lemma avl_map_mem_of:
  assumes "distinct (map snd (nodes t))" and "avl t" and "sorted_by strcmp (nodes t)"
  shows "avl_map (mem_of t) (nodes t)"
  using assms represents_mem_of by (auto simp: avl_map_def)

text \<open>A small tree for the witnesses; every node outside it has the key \<open>a\<close>.\<close>

definition three :: "string atree" where
  "three = Nd (Nd Tip 1 ''A'' 1 Tip) 2 ''B'' 2 (Nd Tip 3 ''c'' 1 Tip)"

lemma avl_map_three: "avl_map (mem_of three) [(''A'', 1), (''B'', 2), (''c'', 3)]"
proof -
  have "nodes three = [(''A'', 1), (''B'', 2), (''c'', 3)]" by (simp add: three_def)
  then show ?thesis using avl_map_mem_of [of three]
    by (simp add: three_def sorted_by_def cord_def)
qed

lemma Key_4: "Key (cells (mem_of three) 4) = ''a''"
  by (simp add: mem_of_def three_def)

lemma small_ht: "ht t \<le> AVL_MAX_HEIGHT \<Longrightarrow> ht t < 250"
  by (simp add: AVL_MAX_HEIGHT_def)

lemma sorted_insert:
  assumes "sorted_by strcmp xs" and "map_of xs k = None"
  shows "sorted_by strcmp (list_insert strcmp k a xs)"
proof -
  let ?P = "\<lambda>x. strcmp (fst x) k < 0"
  have "sorted_by strcmp (takeWhile ?P xs @ dropWhile ?P xs)" using assms(1) by simp
  then have S: "sorted_by strcmp (takeWhile ?P xs)" "sorted_by strcmp (dropWhile ?P xs)"
    "\<forall>x\<in>set (takeWhile ?P xs). \<forall>y\<in>set (dropWhile ?P xs). strcmp (fst x) (fst y) < 0"
    unfolding sorted_by_append by simp_all
  have L: "\<forall>x\<in>set (takeWhile ?P xs). strcmp (fst x) k < 0" by (auto dest: set_takeWhileD)
  have R: "\<forall>y\<in>set (dropWhile ?P xs). strcmp k (fst y) < 0"
  proof (cases "dropWhile ?P xs")
    case (Cons y ys)
    have "\<not> strcmp (fst y) k < 0" using hd_dropWhile [of ?P xs] Cons by simp
    moreover have "y \<in> set xs" using Cons set_dropWhileD [of y ?P xs] by simp
    then have "fst y \<noteq> k" using assms(2) by (auto simp: map_of_eq_None_iff)
    ultimately have y: "strcmp k (fst y) < 0"
      using avl_keys.cmp_swap [of k "fst y"] avl_keys.cmp_eq_0 [of "fst y" k] by linarith
    then have "strcmp k (fst z) < 0" if "z \<in> set ys" for z
      using S(2) Cons that strcmp_trans [OF y] by (simp add: sorted_by_Cons)
    then show ?thesis using y Cons by auto
  qed (simp del: dropWhile_eq_Nil_conv)
  show ?thesis using S L R by (simp add: list_insert_def sorted_by_simps)
qed

lemma sorted_delete: "sorted_by strcmp xs \<Longrightarrow> sorted_by strcmp (list_delete k xs)"
  by (simp add: sorted_by_def list_delete_def sorted_wrt_filter)

section \<open>Insertion, removal and lookup\<close>

text \<open>
  C19: On a balanced tree of fewer than 17710 nodes, \<open>AVLInsert\<close> of a node that is not in the tree
  returns. It answers FALSE and changes nothing when the key is present; otherwise it answers
  TRUE, the tree is balanced and sorted again, the node stands at its place in the order, and no
  memory but the tree's nodes and the new node has changed.
\<close>

theorem AVLInsert_correct:
  assumes "avl_map m xs" and "pNode \<notin> snd ` set xs" and "length xs < 17710"
  shows "\<exists>m'. AVLInsert m pNode = Ok (m', map_of xs (Key (cells m pNode)) = None) \<and>
    avl_map m' (if map_of xs (Key (cells m pNode)) = None
      then list_insert strcmp (Key (cells m pNode)) pNode xs else xs) \<and>
    (\<forall>a. a \<notin> insert pNode (snd ` set xs) \<longrightarrow> cells m' a = cells m a)"
proof -
  obtain t where t: "represents m t" "avl t" "nodes t = xs" "sorted_by strcmp (nodes t)"
    "ht t \<le> AVL_MAX_HEIGHT" using avl_mapE [OF assms(1,3)] by metis
  let ?k = "Key (cells m pNode)"
  note I = AVLInsert_refines [where pNode = pNode, OF t(1) _ t(5)]
    and N = avl_keys.t_insert_nodes [OF t(4), where a = pNode and k = ?k]
  show ?thesis
  proof (cases "t_insert strcmp pNode ?k t")
    case None
    then have "AVLInsert m pNode = Ok (m, False)" "map_of xs ?k \<noteq> None"
      using I N assms(2) t(3) by auto
    then show ?thesis using assms(1) by auto
  next
    case (Some t')
    then obtain m' where m': "AVLInsert m pNode = Ok (m', True)" "represents m' t'"
      "same_outside (insert pNode (snd ` set xs)) m m'"
      using I assms(2) t(3) by auto
    have n: "map_of xs ?k = None" "nodes t' = list_insert strcmp ?k pNode xs"
      using N Some t(3) by auto
    have "avl t'" using t_insert_avl [OF t(2) small_ht [OF t(5)] Some] .
    then have "avl_map m' (list_insert strcmp ?k pNode xs)"
      using m'(2) n sorted_insert [of xs ?k pNode] t(3,4) unfolding avl_map_def by auto
    then show ?thesis using m' n(1) by (auto simp: same_outside_def)
  qed
qed

theorem AVLInsert_correct_witness:
  "\<exists>m'. AVLInsert (mem_of three) 4 = Ok (m', True) \<and>
    avl_map m' [(''A'', 1), (''B'', 2), (''a'', 4), (''c'', 3)]"
  using AVLInsert_correct [OF avl_map_three, of 4] by (auto simp: Key_4 list_insert_def cord_def)

text \<open>
  C22: On a balanced tree of fewer than 17710 nodes, \<open>AVLRemove\<close> returns the node with the key, or
  null when there is none; the tree is balanced and sorted again and holds the other nodes, and
  no other memory has changed.
\<close>

theorem AVLRemove_correct:
  assumes "avl_map m xs" and "length xs < 17710"
  shows "\<exists>m'. AVLRemove m key = Ok (m', map_of xs key) \<and> avl_map m' (list_delete key xs) \<and>
    (\<forall>a. a \<notin> snd ` set xs \<longrightarrow> cells m' a = cells m a)"
proof -
  obtain t where t: "represents m t" "avl t" "nodes t = xs" "sorted_by strcmp (nodes t)"
    "ht t \<le> AVL_MAX_HEIGHT" using avl_mapE [OF assms] by metis
  note I = AVLRemove_refines [OF t(1,5), of key]
    and N = avl_keys.t_remove_nodes [OF t(4), of key]
  show ?thesis
  proof (cases "t_remove strcmp key t")
    case None
    then have "AVLRemove m key = Ok (m, None)" "map_of xs key = None" using I N t(3) by auto
    moreover from this(2) have "list_delete key xs = xs"
      unfolding list_delete_def by (intro filter_True) (auto simp: map_of_eq_None_iff)
    ultimately show ?thesis using assms(1) by auto
  next
    case (Some p)
    obtain t' a where p: "p = (t', a)" by fastforce
    then obtain m' where m': "AVLRemove m key = Ok (m', Some a)" "represents m' t'"
      "same_outside (snd ` set xs) m m'"
      using I t(3) Some by auto
    have n: "map_of xs key = Some a" "nodes t' = list_delete key xs" using N Some t(3) p by auto
    have "avl t'" using t_remove_avl [OF t(2) small_ht [OF t(5)] Some [unfolded p]] .
    then have "avl_map m' (list_delete key xs)"
      using m'(2) n sorted_delete [of xs key] t(3,4) unfolding avl_map_def by auto
    then show ?thesis using m' n(1) by (auto simp: same_outside_def)
  qed
qed

theorem AVLRemove_correct_witness:
  "\<exists>m'. AVLRemove (mem_of three) ''B'' = Ok (m', Some 2) \<and> avl_map m' [(''A'', 1), (''c'', 3)]"
  using AVLRemove_correct [OF avl_map_three, of "''B''"] by (auto simp: list_delete_def)

text \<open>\<open>AVLGet\<close> returns, and gives the node with the key or null.\<close>

theorem AVLGet_correct:
  assumes "avl_map m xs"
  shows "AVLGet m key = Some (map_of xs key)"
proof -
  obtain t where t: "represents m t" "nodes t = xs" "sorted_by strcmp (nodes t)"
    using assms by (auto simp: avl_map_def)
  then have "agree (cells m) t" "ppTree m = rt t" by (auto simp: represents_def rep_def)
  then show ?thesis
    using get_walk_refines [of m t key "[]"] avl_keys.t_get_map_of [OF t(3), of key] t(2)
    by (simp add: AVLGet_def t_get_def)
qed

theorem AVLGet_correct_witness:
  "AVLGet (mem_of three) ''c'' = Some (Some 3) \<and> AVLGet (mem_of three) ''b'' = Some None"
  using AVLGet_correct [OF avl_map_three] by simp

text \<open>
  \<open>AVLGetWithParent\<close> returns the node with the key or null, and its parent: null exactly when
  the search ended at the root variable, otherwise the node whose left or right field, on the
  side of the key, is the result.
\<close>

theorem AVLGetWithParent_correct:
  assumes "avl_map m xs"
  shows "\<exists>pParent. AVLGetWithParent m key = Some (map_of xs key, pParent) \<and>
    (case pParent of
       None \<Rightarrow> ppTree m = map_of xs key
     | Some b \<Rightarrow> b \<in> snd ` set xs \<and>
         (if AVL_G (Key (cells m b)) key then pLeft (cells m b) else pRight (cells m b)) = map_of xs key)"
proof -
  obtain t where t: "represents m t" "nodes t = xs" "sorted_by strcmp (nodes t)"
    using assms by (auto simp: avl_map_def)
  obtain gs u where s: "seek strcmp key t [] = (gs, u)" by fastforce
  have T: "agree (cells m) t" "ppTree m = rt t" using t by (auto simp: represents_def rep_def)
  have u: "rt u = map_of xs key"
    using avl_keys.t_get_map_of [OF t(3), of key] s t(2) by (simp add: t_get_def)
  have R: "rep_fs m gs (rt u)"
    using t(1) seek_plug [OF s] represents_plug [of m gs u] by (auto simp: rep_def)
  have P: "AVLGetWithParent m key = Some (rt u, parent gs)"
    using parent_walk_refines [OF T(1), of key "[]"] s T(2) by (simp add: AVLGetWithParent_def)
  show ?thesis
  proof (cases gs)
    case Nil
    then show ?thesis using P u R by simp
  next
    case (Cons f fs)
    have n: "xs = lefts gs @ nodes u @ rights gs"
      and L: "\<forall>x\<in>set (lefts gs). strcmp (fst x) key < 0"
      and G: "\<forall>x\<in>set (rights gs). strcmp (fst x) key > 0"
      using avl_keys.seek_nodes [OF t(3) s] t(2) by auto
    show ?thesis
    proof (cases f)
      case (FL a k h r)
      then have "strcmp k key > 0" "a \<in> snd ` set xs" using G Cons n by auto
      then show ?thesis using P u R Cons FL by (simp add: AVL_G_def)
    next
      case (FR l a k h)
      then have "strcmp k key < 0" "a \<in> snd ` set xs" using L Cons n by auto
      then show ?thesis using P u R Cons FR by (simp add: AVL_G_def)
    qed
  qed
qed

theorem AVLGetWithParent_correct_witness:
  "\<exists>pParent. AVLGetWithParent (mem_of three) ''c'' = Some (Some 3, pParent)"
  using AVLGetWithParent_correct [OF avl_map_three, of "''c''"] by auto

text \<open>
  When the key is in a balanced tree of fewer than 17710 nodes, \<open>AVLGetWithAdjecentNodes\<close>
  returns its node together with the node before it and the node after it in the order.
\<close>

theorem AVLGetWithAdjecentNodes_correct:
  assumes "avl_map m (us @ (key, a) # vs)" and "length (us @ (key, a) # vs) < 17710"
  shows "AVLGetWithAdjecentNodes m key =
    Some (Ok (Some a, map_option snd (last_of us), map_option snd (first_of vs)))"
proof -
  let ?xs = "us @ (key, a) # vs"
  obtain t where t: "rep m [] t" "nodes t = ?xs" "sorted_by strcmp (nodes t)"
    "ht t \<le> AVL_MAX_HEIGHT" using avl_mapE [OF assms] by metis
  obtain gs u where s: "seek strcmp key t [] = (gs, u)" by fastforce
  have "map_of us key = None"
  proof (rule avl_keys.map_of_below)
    show "\<forall>x\<in>set us. strcmp (fst x) key < 0" using t(2,3) by (simp add: sorted_by_simps)
  qed
  then have "rt u = Some a"
    using avl_keys.t_get_map_of [OF t(3), of key] s t(2) by (simp add: t_get_def map_add_def)
  then obtain l x h r where u: "u = Nd l a x h r" by (cases u) auto
  note F = avl_keys.seek_nodes_found [OF t(3) s [unfolded u]]
  have eq: "us = lefts gs @ nodes l" "vs = nodes r @ rights gs"
  proof -
    have "(key, a) \<notin> set us" using \<open>map_of us key = None\<close> by (force simp: map_of_eq_None_iff)
    moreover have "(key, a) \<notin> set vs" using t(2,3) by (auto simp: sorted_by_simps)
    moreover have "us @ (key, a) # vs = (lefts gs @ nodes l) @ (key, a) # nodes r @ rights gs"
      using F(2) t(2) s u \<open>rt u = Some a\<close> by simp
    ultimately have "us = lefts gs @ nodes l \<and> vs = nodes r @ rights gs"
      using append_Cons_eq_iff by metis
    then show "us = lefts gs @ nodes l" "vs = nodes r @ rights gs" by auto
  qed
  have R: "rep m gs u" using t(1) seek_plug [OF s] rep_plug [of m gs u] by simp
  then have RF: "rep_fs m gs (Some a)" and A: "agree (cells m) l" "agree (cells m) r"
    and c: "cells m a = \<lparr>Key = x, pLeft = rt l, pRight = rt r, uchHeight = h\<rparr>"
    by (auto simp: rep_def u)
  have W: "adjacent_walk m key TreeVar [] = Ok (entries gs, Some a)"
    using adjacent_walk_refines [OF t(1), of key] t(4) s u by simp
  have Lk: "keyed m (last_of (nodes l))" "keyed m (first_of (nodes r))"
    using agree_keyed [OF A(1)] agree_keyed [OF A(2)]
    by (auto simp: keyed_def last_of_def first_of_def split: prod.split)
      (metis last_in_set nodes_eq_Nil, metis list.set_sel(1) nodes_eq_Nil)
  have "sorted_by strcmp ((lefts gs @ nodes l) @ (key, a) # nodes r @ rights gs)"
    using t(2,3) eq by simp
  then have "rewind strcmp key gs (last_of (nodes l)) (first_of (nodes r)) =
      (last_of us, first_of vs)"
    unfolding eq using F(3,4)
    by (intro avl_keys.rewind_neighbours) (auto simp: sorted_by_simps)
  then have RW: "adjacent_rewind m key (entries gs) (map_option snd (last_of (nodes l)))
      (map_option snd (first_of (nodes r))) = Ok (map_option snd (last_of us), map_option snd (first_of vs))"
    using adjacent_rewind_refines [OF RF Lk, of key] by simp
  have l: "(case rt l of None \<Rightarrow> Some None | Some p \<Rightarrow> map_option Some (rightmost m p)) =
      Some (map_option snd (last_of (nodes l)))"
    using rightmost_refines [OF A(1)]
    by (cases l) (auto simp: last_of_def split: option.splits)
  have r: "(case rt r of None \<Rightarrow> Some None | Some p \<Rightarrow> map_option Some (leftmost m p)) =
      Some (map_option snd (first_of (nodes r)))"
    using leftmost_refines [OF A(2)]
    by (cases r) (auto simp: first_of_def split: option.splits)
  show ?thesis unfolding AVLGetWithAdjecentNodes_def W by (simp add: c l r RW)
qed

theorem AVLGetWithAdjecentNodes_correct_witness:
  "AVLGetWithAdjecentNodes (mem_of three) ''B'' = Some (Ok (Some 2, Some 1, Some 3))"
  using AVLGetWithAdjecentNodes_correct [of _ "[(''A'', 1)]" "''B''" 2 "[(''c'', 3)]"] avl_map_three
  by simp

text \<open>
  \<open>AVLGetBestFit\<close> returns the node of the least key that is not below the key asked for when
  \<open>fAbove\<close> is set, and of the greatest key that is not above it otherwise, or null.
\<close>

theorem AVLGetBestFit_correct:
  assumes "avl_map m xs"
  shows "AVLGetBestFit m key fAbove = Some (map_option snd
    (if fAbove \<noteq> 0 then find (\<lambda>(k, a). strcmp k key \<ge> 0) xs
     else find (\<lambda>(k, a). strcmp k key \<le> 0) (rev xs)))"
proof -
  obtain t where t: "represents m t" "nodes t = xs" "sorted_by strcmp (nodes t)"
    using assms by (auto simp: avl_map_def)
  then have T: "agree (cells m) t" "ppTree m = rt t" by (auto simp: represents_def rep_def)
  show ?thesis
  proof (cases "fAbove = 0")
    case True
    from below_walk_refines [OF T(1), of key None] obtain p q where
      "below_walk m key (rt t) None = Some (p, q)"
      "(if p = None then q else p) = t_below strcmp key t None" by blast
    then show ?thesis using True T(2) avl_keys.t_below_find [OF t(3), of key None] t(2)
      by (auto simp: AVLGetBestFit_def case_prod_unfold split: option.splits)
  next
    case False
    from above_walk_refines [OF T(1), of key None] obtain p q where
      "above_walk m key (rt t) None = Some (p, q)"
      "(if p = None then q else p) = t_above strcmp key t None" by blast
    then show ?thesis using False T(2) avl_keys.t_above_find [OF t(3), of key None] t(2)
      by (auto simp: AVLGetBestFit_def case_prod_unfold split: option.splits)
  qed
qed

theorem AVLGetBestFit_correct_witness:
  "AVLGetBestFit (mem_of three) ''a'' 1 = Some (Some 3) \<and>
   AVLGetBestFit (mem_of three) ''a'' 0 = Some (Some 2)"
  using AVLGetBestFit_correct [OF avl_map_three, of "''a''"] by (simp add: cord_def)

section \<open>Iteration\<close>

text \<open>
  On a balanced tree of fewer than 17710 nodes, \<open>AVLDoWithAll\<close> returns and stays within its
  stack: it calls the callback on the nodes from left to right, or from right to left, up to the
  first call that does not return zero, and returns what that call returned, or zero.
\<close>

theorem AVLDoWithAll_correct:
  assumes "avl_map m xs" and "length xs < 17710"
  shows "AVLDoWithAll m fFromLeft pfnCallBack pvParam =
    Some (Ok (do_all pfnCallBack (map snd (if fFromLeft \<noteq> 0 then xs else rev xs)) pvParam))"
proof -
  obtain t where t: "nodes t = xs" "agree (cells m) t" "ppTree m = rt t" "ht t \<le> AVL_MAX_HEIGHT"
    using avl_mapE [OF assms] by metis
  show ?thesis
  proof (cases t)
    case Tip
    then show ?thesis using t by (auto simp: AVLDoWithAll_def)
  next
    case (Nd l a k h r)
    have "stack_ok m [(t, 0)]" using t Nd by simp
    from do_walk_refines [OF this, of "fFromLeft \<noteq> 0" pfnCallBack pvParam]
    show ?thesis using t Nd by (simp add: AVLDoWithAll_def dir_nodes_def)
  qed
qed

theorem AVLDoWithAll_correct_witness:
  "AVLDoWithAll (mem_of three) 1 (\<lambda>a s. (a # s, if a = 2 then 7 else 0)) [] = Some (Ok ([2, 1], 7))"
  using AVLDoWithAll_correct [OF avl_map_three, of 1 "\<lambda>a s. (a # s, if a = 2 then 7 else 0)" "[]"]
  by simp

text \<open>
  The loop of the enumeration's clients: \<open>for (p = AVLBeginEnumTree (...); p; p = AVLGetNextNode (...))\<close>
  sees the nodes \<open>ps\<close>.
\<close>

inductive enum_run ::
  "avlmem \<Rightarrow> (unit, avlenumdata \<times> addr option) outcome option \<Rightarrow> addr list \<Rightarrow> bool" for m where
  enum_end: "enum_run m (Some (Ok (e, None))) []"
| enum_next: "enum_run m (AVLGetNextNode m e) ps \<Longrightarrow> enum_run m (Some (Ok (e, Some p))) (p # ps)"

inductive_cases enum_run_NoneE: "enum_run m (Some (Ok (e, None))) ps"
inductive_cases enum_run_SomeE: "enum_run m (Some (Ok (e, Some p))) ps"

lemma enum_run_unique: "enum_run m r ps \<Longrightarrow> enum_run m r qs \<Longrightarrow> ps = qs"
proof (induction arbitrary: qs rule: enum_run.induct)
  case (enum_end e)
  then show ?case by (auto elim: enum_run_NoneE)
next
  case (enum_next e ps p)
  from enum_next.prems obtain ps' where "qs = p # ps'" "enum_run m (AVLGetNextNode m e) ps'"
    by (auto elim: enum_run_SomeE)
  then show ?case using enum_next.IH by simp
qed

lemma enum_run_pending:
  assumes "stack_ok m S" and "eEntries e = stack_addrs S" and "eFromLeft e \<noteq> 0 \<longleftrightarrow> b"
  shows "enum_run m (AVLGetNextNode m e) (pending b S)"
  using assms
proof (induction "pending b S" arbitrary: S e)
  case Nil
  then show ?case using next_walk_refines [OF Nil(2), of b]
    by (auto simp: AVLGetNextNode_def intro: enum_end)
next
  case (Cons p ps)
  from next_walk_refines [OF Cons.prems(1), of b] Cons.hyps(2) [symmetric] obtain S' where S':
    "next_walk m b (stack_addrs S) = Some (Ok (stack_addrs S', Some p))"
    "stack_ok m S'" "pending b S' = ps" by auto
  let ?e = "e\<lparr>eEntries := stack_addrs S'\<rparr>"
  have "enum_run m (AVLGetNextNode m ?e) (pending b S')"
    using Cons.hyps(1) [of S' ?e] S' Cons.prems by simp
  then have "enum_run m (Some (Ok (?e, Some p))) (p # ps)" using S'(3) by (auto intro: enum_next)
  moreover have "AVLGetNextNode m e = Some (Ok (?e, Some p))"
    using S'(1) Cons.prems by (simp add: AVLGetNextNode_def)
  ultimately show ?case using Cons.hyps(2) by simp
qed

text \<open>
  C31: On a balanced tree of fewer than 17710 nodes, the loop over \<open>AVLBeginEnumTree\<close> and
  \<open>AVLGetNextNode\<close> ends and sees every node once, in increasing order of the keys when the low
  byte of \<open>fFromLeft\<close> is not zero and in decreasing order when it is.
\<close>

theorem AVL_enumeration_correct:
  assumes "avl_map m xs" and "length xs < 17710"
  shows "enum_run m (AVLBeginEnumTree m pEnumData fFromLeft) ps \<longleftrightarrow>
    ps = map snd (if fFromLeft mod 256 \<noteq> 0 then xs else rev xs)"
proof -
  obtain t where t: "nodes t = xs" "agree (cells m) t" "ppTree m = rt t" "ht t \<le> AVL_MAX_HEIGHT"
    using avl_mapE [OF assms] by metis
  let ?b = "fFromLeft mod 256 \<noteq> 0"
  have b: "to_schar fFromLeft \<noteq> 0 \<longleftrightarrow> ?b"
  proof -
    have "(fFromLeft + 128) mod 256 = 128 mod 256 \<longleftrightarrow> 256 dvd fFromLeft + 128 - 128"
      by (rule mod_eq_dvd_iff)
    then show ?thesis by (auto simp: to_schar_def dvd_eq_mod_eq_0)
  qed
  have "enum_run m (AVLBeginEnumTree m pEnumData fFromLeft) (map snd (if ?b then xs else rev xs))"
  proof (cases t)
    case Tip
    then have "AVLBeginEnumTree m pEnumData fFromLeft = Some (Ok (pEnumData\<lparr>eEntries := []\<rparr>, None))"
      using t(3) by (simp add: AVLBeginEnumTree_def AVLGetNextNode_def next_walk.simps)
    then show ?thesis using Tip t(1) by (auto intro: enum_end)
  next
    case (Nd l a k h r)
    let ?e = "pEnumData\<lparr>eFromLeft := to_schar fFromLeft, eEntries := [(a, 0)]\<rparr>"
    have "enum_run m (AVLGetNextNode m ?e) (pending ?b [(t, 0)])"
      by (rule enum_run_pending) (use t Nd b in simp_all)
    moreover have "pending ?b [(t, 0)] = map snd (if ?b then xs else rev xs)"
      using t(1) Nd by (simp add: dir_nodes_def)
    ultimately show ?thesis using t(3) Nd by (simp add: AVLBeginEnumTree_def)
  qed
  then show ?thesis using enum_run_unique by blast
qed

theorem AVL_enumeration_correct_witness:
  "\<forall>e. enum_run (mem_of three) (AVLBeginEnumTree (mem_of three) e 1) [1, 2, 3] \<and>
     enum_run (mem_of three) (AVLBeginEnumTree (mem_of three) e 256) [3, 2, 1]"
  using AVL_enumeration_correct [OF avl_map_three] by simp

text \<open>The node returned last is on top of the stack with the flag 2.\<close>

lemma next_walk_top:
  assumes "next_walk m b S = Some r"
  shows "length S \<le> AVL_MAX_HEIGHT \<longrightarrow> (\<forall>es q. r = Ok (es, Some q) \<longrightarrow>
    (\<exists>rest. es = (q, 2) # rest \<and> length rest < AVL_MAX_HEIGHT))"
proof (rule next_walk.raw_induct [OF _ assms])
  let ?Q = "\<lambda>S r. length S \<le> AVL_MAX_HEIGHT \<longrightarrow> (\<forall>es q. r = Ok (es, Some q) \<longrightarrow>
    (\<exists>rest. es = (q, 2) # rest \<and> length rest < AVL_MAX_HEIGHT))"
  fix walk :: "avlmem \<Rightarrow> bool \<Rightarrow> (addr \<times> nat) list \<Rightarrow> (unit, (addr \<times> nat) list \<times> addr option) outcome option"
    and m b S r
  assume IH: "\<And>m b S r. walk m b S = Some r \<Longrightarrow> ?Q S r"
    and eq: "(case S of [] \<Rightarrow> Some (Ok ([], None))
      | (pNode, flag) # rest \<Rightarrow>
          if flag = 0 \<and> near b (cells m pNode) \<noteq> None then
            (case push2 (near b (cells m pNode)) ((pNode, flag + 1) # rest) of
               Ok aEntries \<Rightarrow> walk m b aEntries
             | Fatal e \<Rightarrow> Some (Fatal e)
             | Undef u \<Rightarrow> Some (Undef u))
          else
            (let flag = (if flag = 0 then flag + 1 else flag)
             in if flag = 1 then Some (Ok ((pNode, flag + 1) # rest, Some pNode))
                else
                  (case push2 (far b (cells m pNode)) rest of
                     Ok aEntries \<Rightarrow> walk m b aEntries
                   | Fatal e \<Rightarrow> Some (Fatal e)
                   | Undef u \<Rightarrow> Some (Undef u)))) = Some r"
  have len: "length es \<le> AVL_MAX_HEIGHT" if "push2 p S' = Ok es" "length S' \<le> AVL_MAX_HEIGHT" for p S' es
    using that by (auto simp: push2_def split: option.splits if_splits)
  show "?Q S r"
  proof (intro impI)
    assume bound: "length S \<le> AVL_MAX_HEIGHT"
    show "\<forall>es q. r = Ok (es, Some q) \<longrightarrow>
      (\<exists>rest. es = (q, 2) # rest \<and> length rest < AVL_MAX_HEIGHT)"
    proof (cases S)
      case Nil
      then show ?thesis using eq by auto
    next
      case (Cons e rest)
      obtain p fl where e: "e = (p, fl)" by fastforce
      note eq' = eq [unfolded Cons e, simplified]
      show ?thesis
      proof (cases "fl = 0 \<and> near b (cells m p) \<noteq> None")
        case True
        let ?R = "push2 (near b (cells m p)) ((p, Suc 0) # rest)"
        show ?thesis
        proof (cases ?R)
          case (Ok es)
          then have "length es \<le> AVL_MAX_HEIGHT" using len bound Cons by fastforce
          moreover have "walk m b es = Some r" using eq' True Ok by auto
          ultimately show ?thesis using IH by blast
        qed (use eq' True in auto)
      next
        case F: False
        show ?thesis
        proof (cases "fl = 0 \<or> fl = 1")
          case True
          then show ?thesis using eq' F bound Cons by (auto simp: numeral_2_eq_2)
        next
          case False
          show ?thesis
          proof (cases "push2 (far b (cells m p)) rest")
            case (Ok es)
            then have "length es \<le> AVL_MAX_HEIGHT" using len bound Cons by fastforce
            moreover have "walk m b es = Some r" using eq' False F Ok by auto
            ultimately show ?thesis using IH by blast
          qed (use eq' False F in auto)
        qed
      qed
    qed
  qed
qed

text \<open>
  The node an enumeration has returned is still on its stack: with the node's memory
  overwritten, as by the allocator after a \<open>free\<close>, the next call can return the same node again.
  \<open>depRemoveAll\<close> frees each node before it asks for the next one.
\<close>

theorem AVLGetNextNode_reads_last_node:
  assumes "AVLGetNextNode m pEnumData = Some (Ok (pEnumData', Some p))"
    and "length (eEntries pEnumData) \<le> AVL_MAX_HEIGHT"
  shows "\<exists>m' pEnumData''. (\<forall>a. a \<noteq> p \<longrightarrow> cells m' a = cells m a) \<and>
    AVLGetNextNode m' pEnumData' = Some (Ok (pEnumData'', Some p))"
proof -
  define b where "b = (eFromLeft pEnumData \<noteq> 0)"
  obtain es where w: "next_walk m b (eEntries pEnumData) = Some (Ok (es, Some p))"
    and e: "pEnumData' = pEnumData\<lparr>eEntries := es\<rparr>"
    using assms(1) by (auto simp: AVLGetNextNode_def obind_eq_Ok b_def)
  obtain rest where rest: "es = (p, 2) # rest" "length rest < AVL_MAX_HEIGHT"
    using next_walk_top [OF w] assms(2) by auto
  define m' where "m' = m\<lparr>cells := (cells m)(p := \<lparr>Key = [], pLeft = (if b then None else Some p),
    pRight = (if b then Some p else None), uchHeight = 0\<rparr>)\<rparr>"
  have nf: "near b (cells m' p) = None" "far b (cells m' p) = Some p"
    by (simp_all add: near_def far_def m'_def)
  have "next_walk m' b ((p, 0) # rest) = Some (Ok ((p, 2) # rest, Some p))"
    by (subst next_walk.simps) (simp add: nf numeral_2_eq_2)
  then have "next_walk m' b es = Some (Ok ((p, 2) # rest, Some p))"
    using rest by (subst next_walk.simps) (simp add: nf push2_def)
  then have "AVLGetNextNode m' pEnumData' = Some (Ok (pEnumData'\<lparr>eEntries := (p, 2) # rest\<rparr>, Some p))"
    using e by (simp add: AVLGetNextNode_def flip: b_def)
  moreover have "\<forall>a. a \<noteq> p \<longrightarrow> cells m' a = cells m a" by (simp add: m'_def)
  ultimately show ?thesis by blast
qed

theorem AVLGetNextNode_reads_last_node_witness:
  "\<exists>m' e''. AVLGetNextNode m' \<lparr>eFromLeft = 1, eEntries = [(1, 2), (2, 1)]\<rparr> = Some (Ok (e'', Some 1))"
proof -
  let ?m = "mem_of three" and ?e = "\<lparr>eFromLeft = 1, eEntries = [(2, 0)]\<rparr>"
  have n: "near True (cells ?m 2) = Some 1" "near True (cells ?m (Suc 0)) = None"
    by (simp_all add: near_def mem_of_def three_def)
  have "next_walk ?m True [(1, 0), (2, 1)] = Some (Ok ([(1, 2), (2, 1)], Some 1))"
    by (subst next_walk.simps) (simp add: n numeral_2_eq_2)
  then have "next_walk ?m True [(2, 0)] = Some (Ok ([(1, 2), (2, 1)], Some 1))"
    by (subst next_walk.simps) (simp add: n push2_def AVL_MAX_HEIGHT_def)
  then have "AVLGetNextNode ?m ?e = Some (Ok (?e\<lparr>eEntries := [(1, 2), (2, 1)]\<rparr>, Some 1))"
    by (simp add: AVLGetNextNode_def)
  from AVLGetNextNode_reads_last_node [OF this] show ?thesis by (auto simp: AVL_MAX_HEIGHT_def)
qed

end
