(* ===== verification/AvlOverrun.thy ===== *)
theory AvlOverrun
  imports AvlCorrect
begin

text \<open>
  The bound of 17710 nodes is sharp: a Fibonacci tree, the sparsest tree that \<open>avl\<close> admits, of
  height 20 has 17710 nodes and a path that no longer fits the stack.
\<close>

section \<open>Fibonacci trees\<close>

definition fib_key :: "nat \<Rightarrow> string" where
  "fib_key i = replicate (Suc i) CHR ''b''"

fun fib_tree :: "nat \<Rightarrow> nat \<Rightarrow> string atree" where
  "fib_tree 0 i = Tip"
| "fib_tree (Suc 0) i = Nd Tip i (fib_key i) 1 Tip"
| "fib_tree (Suc (Suc n)) i =
     (let j = i + min_nodes (Suc n)
      in Nd (fib_tree (Suc n) i) j (fib_key j) (Suc (Suc n)) (fib_tree n (Suc j)))"

lemma ht_fib_tree [simp]: "ht (fib_tree n i) = n"
  by (induction n i rule: fib_tree.induct) (auto simp: Let_def)

lemma avl_fib_tree: "avl (fib_tree n i)"
  by (induction n i rule: fib_tree.induct) (auto simp: Let_def)

lemma nodes_fib_tree: "nodes (fib_tree n i) = map (\<lambda>j. (fib_key j, j)) [i..<i + min_nodes n]"
proof (induction n i rule: fib_tree.induct)
  case (3 n i)
  let ?j = "i + min_nodes (Suc n)"
  have "[i..<i + min_nodes (Suc (Suc n))] = [i..<?j] @ ?j # [Suc ?j..<Suc ?j + min_nodes n]"
    using upt_add_eq_append [of i ?j "Suc (min_nodes n)"] upt_conv_Cons [of ?j "Suc ?j + min_nodes n"]
    by (simp add: algebra_simps)
  then show ?case using 3 by (simp add: Let_def)
qed (auto simp: upt_conv_Cons)

lemma strcmp_replicate: "i < j \<Longrightarrow> strcmp (replicate i c) (replicate j c) < 0"
proof (induction i arbitrary: j)
  case 0
  then show ?case by (cases j) auto
next
  case (Suc i)
  then obtain k where "j = Suc k" "i < k" by (cases j) auto
  then show ?case using Suc.IH by simp
qed

lemma avl_map_fib_tree: "avl_map (mem_of (fib_tree n 0)) (map (\<lambda>j. (fib_key j, j)) [0..<min_nodes n])"
proof -
  have "sorted_wrt (\<lambda>i j. strcmp (fib_key i) (fib_key j) < 0) [0..<min_nodes n]"
    using sorted_wrt_upt [of 0 "min_nodes n"]
    by (rule sorted_wrt_mono_rel [rotated]) (use strcmp_replicate in \<open>auto simp: fib_key_def\<close>)
  then have "sorted_by strcmp (nodes (fib_tree n 0))"
    by (simp add: sorted_by_def nodes_fib_tree sorted_wrt_map)
  moreover have "distinct (map snd (nodes (fib_tree n 0)))"
    by (simp add: nodes_fib_tree comp_def)
  ultimately show ?thesis using avl_map_mem_of [of "fib_tree n 0"] avl_fib_tree
    by (simp add: nodes_fib_tree)
qed

lemma insert_walk_overrun:
  assumes "rep m fs (fib_tree n i)" and "pNode \<notin> snd ` set (nodes (fib_tree n i))"
    and "Key (cells m pNode) = ''a''"
    and "AVL_MAX_HEIGHT < length fs + n" and "length fs \<le> AVL_MAX_HEIGHT"
  shows "insert_walk m pNode (hole fs) (entries fs) = Undef AssertFailed"
  using assms
proof (induction n i arbitrary: fs rule: fib_tree.induct)
  case (2 i)
  have "deref m (hole fs) = Some i" using rep_deref [OF "2.prems"(1)] by simp
  moreover have "length fs = AVL_MAX_HEIGHT" using "2.prems" by simp
  ultimately show ?case by (subst insert_walk.simps) simp
next
  case (3 n i)
  let ?j = "i + min_nodes (Suc n)"
  let ?l = "fib_tree (Suc n) i" and ?r = "fib_tree n (Suc ?j)"
  have t: "fib_tree (Suc (Suc n)) i = Nd ?l ?j (fib_key ?j) (Suc (Suc n)) ?r" by (simp add: Let_def)
  have d: "deref m (hole fs) = Some ?j" using rep_deref [OF "3.prems"(1)] t by simp
  have c: "cells m ?j = \<lparr>Key = fib_key ?j, pLeft = rt ?l, pRight = rt ?r, uchHeight = Suc (Suc n)\<rparr>"
    by (rule rep_node) (use "3.prems"(1) t in simp)
  have L: "rep m (FL ?j (fib_key ?j) (Suc (Suc n)) ?r # fs) ?l"
    using "3.prems"(1) unfolding t by (simp add: rep_Cons)
  have k: "AVL_G (fib_key ?j) ''a''" "\<not> AVL_E (fib_key ?j) ''a''"
    by (simp_all add: AVL_G_def AVL_E_def fib_key_def cord_def)
  have ne: "pNode \<noteq> ?j" "pNode \<notin> snd ` set (nodes ?l)" using "3.prems"(2) t by auto
  show ?case
  proof (cases "length fs < AVL_MAX_HEIGHT")
    case True
    have "insert_walk m pNode (LeftOf ?j) (hole fs # entries fs) = Undef AssertFailed"
      using "3.IH"(1) [OF refl L ne(2) "3.prems"(3)] "3.prems"(4) True by simp
    then show ?thesis using d c k ne(1) "3.prems"(3) True
      by (subst insert_walk.simps) simp
  next
    case False
    then show ?thesis using d by (subst insert_walk.simps) simp
  qed
qed simp

text \<open>
  The stack is too short for what the header says it is made for (\<open>AVL_MAX_HEIGHT\<close>, "up to
  2^16 nodes"): there is a balanced tree of 17710 nodes, and a new node, for which \<open>AVLInsert\<close>
  stops in its assertion on the stack bound.
\<close>

theorem AVLInsert_overrun:
  "\<exists>m xs pNode. avl_map m xs \<and> length xs = 17710 \<and> pNode \<notin> snd ` set xs \<and>
    AVLInsert m pNode = Undef AssertFailed"
proof -
  let ?m = "mem_of (fib_tree 20 0)" and ?xs = "map (\<lambda>j. (fib_key j, j)) [0..<min_nodes 20]"
  let ?p = "min_nodes 20"
  have fresh: "?p \<notin> snd ` set (nodes (fib_tree 20 0))" by (auto simp: nodes_fib_tree)
  have "represents ?m (fib_tree 20 0)"
    by (rule represents_mem_of) (simp add: nodes_fib_tree comp_def)
  then have "rep ?m [] (fib_tree 20 0)" by (simp add: represents_def)
  moreover have "Key (cells ?m ?p) = ''a''" using fresh by (simp add: mem_of_def store_tree_other)
  ultimately have "insert_walk ?m ?p TreeVar [] = Undef AssertFailed"
    using insert_walk_overrun [of ?m "[]" 20 0 ?p] fresh by (simp add: AVL_MAX_HEIGHT_def)
  then have "AVLInsert ?m ?p = Undef AssertFailed" by (simp add: AVLInsert_def)
  moreover have "?p \<notin> snd ` set ?xs" by auto
  moreover have "length ?xs = 17710" by (simp add: min_nodes_20)
  ultimately show ?thesis using avl_map_fib_tree [of 20] by metis
qed

end
