(* ===== verification/FastdepText.thy ===== *)
theory FastdepText
  imports CLib
begin

text \<open>
  The text functions of \<open>src/src/fastdep/fastdep.c\<close>: trimming, words, comments, the lines of a text
  buffer, the parts of a file name, the expansion of relative names and the quoting of names in
  a dependency file.

  The functions write into buffers that their comments ask to be large enough (\<open>CCHMAXPATH\<close>);
  except where the code is told a size, a buffer is a string without a bound. A function that
  changes a string in place is a function from the old string to the new one.
\<close>

section \<open>Characters and strings\<close>

abbreviation TAB :: char where "TAB \<equiv> CHR 0x09"
abbreviation LF :: char where "LF \<equiv> CHR 0x0A"
abbreviation CR :: char where "CR \<equiv> CHR 0x0D"
abbreviation BSL :: char where "BSL \<equiv> CHR 0x5C"
abbreviation DQ :: char where "DQ \<equiv> CHR 0x22"

text \<open>\<open>strrchr\<close> for a character that is not the terminator: the index found.\<close>

fun strrchr :: "string \<Rightarrow> char \<Rightarrow> nat option" where
  "strrchr [] c = None"
| "strrchr (x # s) c =
     (case strrchr s c of Some i \<Rightarrow> Some (Suc i) | None \<Rightarrow> if x = c then Some 0 else None)"

lemma strrchr_None [simp]: "strrchr s c = None \<longleftrightarrow> c \<notin> set s"
  by (induction s) (auto split: option.splits)

lemma strrchr_Some:
  "strrchr s c = Some i \<Longrightarrow> i < length s \<and> s ! i = c \<and> c \<notin> set (drop (Suc i) s)"
  by (induction s arbitrary: i) (auto split: option.splits if_splits)

lemma strrchr_append:
  "strrchr (s @ t) c = (case strrchr t c of Some i \<Rightarrow> Some (length s + i) | None \<Rightarrow> strrchr s c)"
  by (induction s) (auto simp del: strrchr_None split: option.splits)

section \<open>Trimming\<close>

text \<open>
  The loop \<open>while (i >= 0 && (psz[i] == ' ' || *psz == '\t')) i--\<close> and the cut at \<open>i + 1\<close>: the
  second test looks at the first character of the string.
\<close>

definition trim_end :: "string \<Rightarrow> string" where
  "trim_end psz = rev (dropWhile (\<lambda>c. c = CHR '' '' \<or> peek psz = TAB) (rev psz))"

fun trim :: "string option \<Rightarrow> string option" where
  "trim None = None"
| "trim (Some psz) = Some (trim_end (dropWhile (\<lambda>c. c = CHR '' '' \<or> c = TAB) psz))"

fun trimR :: "string option \<Rightarrow> string option" where
  "trimR None = None"
| "trimR (Some psz) = Some (trim_end psz)"

text \<open>
  \<open>psz[strlen (psz) - 1]\<close> is before the string when the string is empty; after a quote has been
  skipped it is the quote.
\<close>

fun trimQuotes :: "string option \<Rightarrow> (unit, string option) outcome" where
  "trimQuotes None = Ok None"
| "trimQuotes (Some psz) =
     (if psz = [] then Undef OutOfBounds
      else
        let psz = (if peek psz = DQ \<or> peek psz = CHR 0x27 then tl psz else psz)
        in Ok (Some (if psz \<noteq> [] \<and> (last psz = DQ \<or> last psz = CHR 0x27) then butlast psz else psz)))"

section \<open>Words\<close>

definition word_char :: "char \<Rightarrow> bool" where
  "word_char c \<longleftrightarrow> isalpha c \<or> isdigit c \<or> c = CHR ''_''"

definition findEndOfWord :: "string \<Rightarrow> string" where
  "findEndOfWord psz = dropWhile word_char psz"

definition upcase :: "char \<Rightarrow> char" where
  "upcase c = (if islower c then char_of (cord c - 32) else c)"

text \<open>
  \<open>strnicmpwords\<close>: the first loop skips equal characters, the second the blanks. \<open>cch\<close> is a
  number of characters of the first string; past the terminators the comparison would read on,
  which is the fault.
\<close>

fun skip_equal :: "string \<Rightarrow> string \<Rightarrow> nat \<Rightarrow> (unit, string \<times> string \<times> nat) outcome" where
  "skip_equal s1 s2 0 = Ok (s1, s2, 0)"
| "skip_equal s1 s2 (Suc cch) =
     (if upcase (peek s1) = upcase (peek s2) \<and> peek s1 \<noteq> CHR '' '' then
        (if s1 = [] then (if cch = 0 then Ok (s1, s2, 0) else Undef OutOfBounds)
         else skip_equal (tl s1) (tl s2) cch)
      else Ok (s1, s2, Suc cch))"

fun skip_blanks :: "string \<Rightarrow> nat \<Rightarrow> string \<times> nat" where
  "skip_blanks s 0 = (s, 0)"
| "skip_blanks s (Suc cch) = (if peek s = CHR '' '' then skip_blanks (tl s) cch else (s, Suc cch))"

lemma skip_equal_le: "skip_equal s1 s2 n = Ok (t1, t2, k) \<Longrightarrow> k \<le> n"
  by (induction s1 s2 n rule: skip_equal.induct) (auto split: if_splits)

lemma skip_blanks_le: "(t, k) = skip_blanks s n \<Longrightarrow> k \<le> n"
  by (induction s n rule: skip_blanks.induct) (auto split: if_splits)

function strnicmpwords :: "string \<Rightarrow> string \<Rightarrow> nat \<Rightarrow> (unit, int) outcome" where
  "strnicmpwords s1 s2 cch =
     (case skip_equal s1 s2 cch of
        Undef u \<Rightarrow> Undef u
      | Fatal e \<Rightarrow> Fatal e
      | Ok (s1, s2, n) \<Rightarrow>
          if 0 < n \<and> peek s1 = CHR '' '' \<and> peek s2 = CHR '' '' then
            (let (s1, n) = skip_blanks s1 n;
                 s2 = dropWhile (\<lambda>c. c = CHR '' '') s2
             in if 0 < n then strnicmpwords s1 s2 n else Ok 0)
          else Ok (if n = 0 then 0 else schar (peek s1) - schar (peek s2)))"
  by pat_completeness auto
termination
proof (relation "measure (\<lambda>(s1, s2, n). n)")
  fix s1 s2 :: string and cch n :: nat and x :: "string \<times> string \<times> nat"
    and t1 t2 :: string and y :: "string \<times> nat" and s1' :: string and m :: nat and s2' :: string
    and p
  assume "skip_equal s1 s2 cch = Ok x" "(t1, p) = x" "(t2, n) = p"
    "0 < n \<and> peek t1 = CHR '' '' \<and> peek t2 = CHR '' ''"
    "y = skip_blanks t1 n" "(s1', m) = y" "s2' = dropWhile (\<lambda>c. c = CHR '' '') t2" "0 < m"
  moreover from this have "m < n"
    using skip_blanks_le [of s1' m "tl t1" "n - 1"] by (cases n) (auto split: if_splits)
  ultimately show "((s1', s2', m), s1, s2, cch) \<in> measure (\<lambda>(s1, s2, n). n)"
    using skip_equal_le [of s1 s2 cch t1 t2 n] by auto
qed simp

declare strnicmpwords.simps [simp del]

section \<open>Comments\<close>

text \<open>
  The loop of \<open>PreProcessLine\<close>, with the flags \<open>fComment\<close> and \<open>fQuote\<close>; the result is what it
  writes to the output. No branch sets \<open>fQuote\<close>.
\<close>

fun preprocess_loop :: "bool \<Rightarrow> bool \<Rightarrow> string \<Rightarrow> (unit, string) outcome" where
  "preprocess_loop fComment fQuote [] = Ok []"
| "preprocess_loop fComment fQuote (c # cs) =
     (if fQuote then
        (if c = BSL then
           (case cs of
              [] \<Rightarrow> Undef OutOfBounds
            | d # ds \<Rightarrow> obind (preprocess_loop fComment fQuote ds) (\<lambda>out. Ok (c # d # out)))
         else obind (preprocess_loop fComment (c \<noteq> DQ) cs) (\<lambda>out. Ok (c # out)))
      else if fComment then
        (if c = CHR ''*'' \<and> peek cs = CHR ''/'' then preprocess_loop False fQuote (tl cs)
         else preprocess_loop fComment fQuote cs)
      else
        (if c = CHR ''/'' \<and> peek cs = CHR ''/'' then Ok []
         else if c = CHR ''/'' \<and> peek cs = CHR ''*'' then preprocess_loop True fQuote (tl cs)
         else obind (preprocess_loop fComment fQuote cs) (\<lambda>out. Ok (c # out))))"

definition PreProcessLine :: "string \<Rightarrow> (unit, string) outcome" where
  "PreProcessLine pszIn =
     obind (preprocess_loop False False pszIn) (\<lambda>out.
       Ok (rev (dropWhile (\<lambda>c. c = CHR '' '' \<or> c = TAB) (rev out))))"

section \<open>Lines of a text buffer\<close>

definition eol :: "char \<Rightarrow> bool" where
  "eol c \<longleftrightarrow> c = LF \<or> c = CR"

definition skip_eol :: "string \<Rightarrow> string" where
  "skip_eol psz =
     (let psz = (if peek psz = CR then tl psz else psz)
      in if peek psz = LF then tl psz else psz)"

text \<open>A position in the buffer is the rest of the text, \<open>None\<close> the null pointer.\<close>

fun textbufferNextLine :: "string \<Rightarrow> string option \<Rightarrow> string" where
  "textbufferNextLine pvBuffer None = pvBuffer"
| "textbufferNextLine pvBuffer (Some psz) = skip_eol (dropWhile (\<lambda>c. \<not> eol c) psz)"

text \<open>
  The result is the line, or \<open>None\<close> at the end of the text, and the new position. \<open>cch\<close> is the
  size of the line buffer, which includes the terminator.
\<close>

definition textbufferGetNextLine ::
  "string \<Rightarrow> string option \<Rightarrow> nat \<Rightarrow> string option \<times> string option" where
  "textbufferGetNextLine pvBuffer ppv cch =
     (let psz = (case ppv of None \<Rightarrow> pvBuffer | Some p \<Rightarrow> p);
          pszLine = takeWhile (\<lambda>c. \<not> eol c) (take (cch - 1) psz);
          psz = skip_eol (drop (length pszLine) psz)
      in (if ppv = Some psz then None else Some pszLine, Some psz))"

section \<open>The parts of a file name\<close>

text \<open>The index of the last separator: a backslash if there is one, otherwise a slash.\<close>

definition last_sep :: "string \<Rightarrow> nat option" where
  "last_sep pszFilename =
     (case strrchr pszFilename BSL of None \<Rightarrow> strrchr pszFilename (CHR ''/'') | Some i \<Rightarrow> Some i)"

definition to_backslashes :: "string \<Rightarrow> string" where
  "to_backslashes s = map (\<lambda>c. if c = CHR ''/'' then BSL else c) s"

definition filePath :: "string \<Rightarrow> string" where
  "filePath pszFilename =
     (case last_sep pszFilename of None \<Rightarrow> [] | Some i \<Rightarrow> take i pszFilename)"

definition filePathSlash :: "string \<Rightarrow> string" where
  "filePathSlash pszFilename =
     (case last_sep pszFilename of None \<Rightarrow> [] | Some i \<Rightarrow> take (i + 1) pszFilename)"

definition filePathSlash2 :: "string \<Rightarrow> string" where
  "filePathSlash2 pszFilename =
     (case last_sep pszFilename of None \<Rightarrow> []
      | Some i \<Rightarrow> to_backslashes (take (i + 1) pszFilename))"

definition fileName :: "string \<Rightarrow> string" where
  "fileName pszFilename =
     (case last_sep pszFilename of None \<Rightarrow> pszFilename | Some i \<Rightarrow> drop (i + 1) pszFilename)"

definition fileNameNoExt :: "string \<Rightarrow> string" where
  "fileNameNoExt pszFilename =
     (let pszBuffer = (case last_sep pszFilename of
             None \<Rightarrow> pszFilename | Some i \<Rightarrow> drop (i + 1) pszFilename)
      in case strrchr pszBuffer (CHR ''.'') of
           None \<Rightarrow> pszBuffer
         | Some i \<Rightarrow> if 0 < i then take i pszBuffer else pszBuffer)"

definition fileExt :: "string \<Rightarrow> string" where
  "fileExt pszFilename =
     (case strrchr pszFilename (CHR ''.'') of
        None \<Rightarrow> []
      | Some i \<Rightarrow>
          let psz = drop i pszFilename
          in if strchr psz BSL \<noteq> None \<or> strchr psz (CHR ''/'') \<noteq> None then []
             else drop (i + 1) pszFilename)"

section \<open>The current directory\<close>

text \<open>
  What \<open>main\<close> sets up: the directory in lower case with a backslash at the end, and the indices of
  its backslashes. An element of the static array \<open>aiSlashes\<close> that is not written is zero.
\<close>

record curdir =
  szCurDir :: string
  aiSlashes :: "nat list"
  cSlashes :: nat

definition slash_at :: "curdir \<Rightarrow> nat \<Rightarrow> nat" where
  "slash_at cd i = (if i < length (aiSlashes cd) then aiSlashes cd ! i else 0)"

definition init_curdir :: "string \<Rightarrow> curdir" where
  "init_curdir cwd =
     (let s = map tolower cwd;
          s = take 1 s @ to_backslashes (drop 1 s);
          slashes = filter (\<lambda>i. s ! i = BSL) [1..<length s]
      in if s \<noteq> [] \<and> last s \<noteq> BSL then
           \<lparr>szCurDir = s @ [BSL], aiSlashes = slashes @ [length s], cSlashes = length slashes\<rparr>
         else \<lparr>szCurDir = s, aiSlashes = slashes, cSlashes = length slashes\<rparr>)"

text \<open>
  The loop of \<open>fileNormalize\<close> over leading \<open>..\\\<close> and \<open>.\\\<close>; \<open>None\<close> when the name ends before
  another part starts.
\<close>

fun norm_loop :: "nat \<Rightarrow> string \<Rightarrow> (nat \<times> string) option" where
  "norm_loop iSlash [] = None"
| "norm_loop iSlash (c # cs) =
     (if c = CHR ''.'' \<and> peek cs = CHR ''.'' \<and> cget cs 1 = BSL then
        norm_loop (if 0 < iSlash then iSlash - 1 else iSlash) (drop 2 cs)
      else if c = CHR ''.'' \<and> peek cs = BSL then norm_loop iSlash (tl cs)
      else Some (iSlash, c # cs))"

definition fileNormalize :: "curdir \<Rightarrow> string \<Rightarrow> string" where
  "fileNormalize cd pszFilename =
     (let s = to_backslashes pszFilename
      in if cget s 1 \<noteq> CHR '':'' then
           (case norm_loop (if peek s = BSL then 1 else cSlashes cd) s of
              None \<Rightarrow> s
            | Some (iSlash, psz) \<Rightarrow> take (slash_at cd iSlash + 1) (szCurDir cd) @ psz)
         else s)"

text \<open>
  \<open>fileNormalize2\<close> has a loop of its own, before the slashes are corrected; \<open>pszBuffer\<close> is what the
  output buffer holds when the function is called. The test for a slash after two dots looks at
  the second dot.
\<close>

fun norm_loop2 :: "nat \<Rightarrow> string \<Rightarrow> (nat \<times> string) option" where
  "norm_loop2 iSlash [] = None"
| "norm_loop2 iSlash (c # cs) =
     (if c = CHR ''.'' \<and> peek cs = CHR ''.'' \<and> (cget cs 1 = BSL \<or> peek cs = CHR ''/'') then
        norm_loop2 (if 0 < iSlash then iSlash - 1 else iSlash) (drop 2 cs)
      else if c = CHR ''.'' \<and> (peek cs = BSL \<or> peek cs = CHR ''/'') then norm_loop2 iSlash (tl cs)
      else Some (iSlash, c # cs))"

definition fileNormalize2 :: "curdir \<Rightarrow> string \<Rightarrow> string \<Rightarrow> string" where
  "fileNormalize2 cd pszFilename pszBuffer =
     to_backslashes
       (if cget pszFilename 1 \<noteq> CHR '':'' then
          (case norm_loop2 (if peek pszFilename = BSL \<or> peek pszFilename = CHR ''/'' then 1
                            else cSlashes cd) pszFilename of
             None \<Rightarrow> pszBuffer
           | Some (iSlash, psz) \<Rightarrow> take (slash_at cd iSlash + 1) (szCurDir cd) @ psz)
        else pszFilename)"

text \<open>
  \<open>pathlistFindFile2\<close>: the path of the name is compared with every path of the list; the test for
  a slash at the end of a path can not hold.
\<close>

function pathlist_loop :: "curdir \<Rightarrow> string \<Rightarrow> string \<Rightarrow> bool" where
  "pathlist_loop cd pszPathToFind psz =
     (if psz = [] then False
      else
        let path = takeWhile (\<lambda>c. c \<noteq> CHR '';'') psz;
            pszNext = dropWhile (\<lambda>c. c \<noteq> CHR '';'') psz
        in if path \<noteq> [] \<and>
              strcmp (fileNormalize cd
                (if last path = BSL \<and> last path = CHR ''/'' then butlast path else path))
                pszPathToFind = 0
           then True
           else if pszNext = [] then False
           else pathlist_loop cd pszPathToFind (tl pszNext))"
  by pat_completeness auto
termination
proof (relation "measure (\<lambda>(cd, p, psz). length psz)")
  fix psz pszNext :: string
  assume "psz \<noteq> []" "pszNext = dropWhile (\<lambda>c. c \<noteq> CHR '';'') psz" "pszNext \<noteq> []"
  then have "length pszNext \<le> length psz" by (simp add: length_dropWhile_le)
  then show "((cd, p, tl pszNext), (cd, p, psz)) \<in> measure (\<lambda>(cd, p, psz). length psz)" for cd p
    using \<open>pszNext \<noteq> []\<close> \<open>psz \<noteq> []\<close> by (cases pszNext) auto
qed simp

declare pathlist_loop.simps [simp del]

fun pathlistFindFile2 :: "curdir \<Rightarrow> string option \<Rightarrow> string \<Rightarrow> bool" where
  "pathlistFindFile2 cd None pszFilename = False"
| "pathlistFindFile2 cd (Some pszPathList) pszFilename =
     pathlist_loop cd (filePath pszFilename) pszPathList"

section \<open>Names in a dependency file\<close>

text \<open>
  The loop of \<open>depNameToReal\<close> drops a caret, and the first of two dollars, and copies the character
  after it without looking at it: after a caret at the end this is the terminator, and the loop
  goes on behind it. The first component counts the characters dropped.
\<close>

fun real_loop :: "string \<Rightarrow> (unit, nat \<times> string) outcome" where
  "real_loop [] = Ok (0, [])"
| "real_loop (c # cs) =
     (if c = CHR ''^'' \<or> (c = CHR ''$'' \<and> peek cs = CHR ''$'') then
        (case cs of
           [] \<Rightarrow> Undef OutOfBounds
         | d # ds \<Rightarrow> obind (real_loop ds) (\<lambda>(n, r). Ok (n + 1, d # r)))
      else obind (real_loop cs) (\<lambda>(n, r). Ok (n, c # r)))"

definition depNameToReal :: "string \<Rightarrow> (unit, nat \<times> string) outcome" where
  "depNameToReal pszName =
     obind (real_loop pszName) (\<lambda>(n, r). Ok (length pszName - n, r))"

definition needs_caret :: "char \<Rightarrow> string \<Rightarrow> bool" where
  "needs_caret c cs \<longleftrightarrow> c = CHR ''#'' \<or> c = CHR ''!'' \<or> (c = CHR ''$'' \<and> peek cs \<noteq> CHR ''('') \<or>
     c = CHR ''@'' \<or> c = CHR ''-'' \<or> c = CHR ''^''"

text \<open>
  \<open>depNameToMake\<close>: the loop returns what it has written and whether it came to the end of the name
  within \<open>cchName\<close> characters. Writing the terminator, and the \<open>strlen (pszName)\<close> of the error
  path, are outside the buffer when it is full.
\<close>

fun make_loop :: "nat \<Rightarrow> string \<Rightarrow> string \<times> bool" where
  "make_loop cchName [] = ([], True)"
| "make_loop cchName (c # cs) =
     (if needs_caret c cs then
        (if cchName = 0 then ([], False)
         else if cchName = 1 then ([CHR ''^''], False)
         else (case make_loop (cchName - 2) cs of (out, ok) \<Rightarrow> (CHR ''^'' # c # out, ok)))
      else
        (if cchName = 0 then ([], False)
         else (case make_loop (cchName - 1) cs of (out, ok) \<Rightarrow> (c # out, ok))))"

definition depNameToMake :: "nat \<Rightarrow> string \<Rightarrow> (unit, nat \<times> string) outcome" where
  "depNameToMake cchName pszSrc =
     (case make_loop cchName pszSrc of (out, ok) \<Rightarrow>
        if length out < cchName then Ok (length out, out) else Undef OutOfBounds)"

end
