(* ===== verification/FastdepTextProps.thy ===== *)
theory FastdepTextProps
  imports FastdepText
begin

text \<open>
  The properties of fastdep's text functions: quoting a name and reading it back, splitting a file
  name and joining its parts, the lines of a buffer, the removal of comments, and the expansion
  of relative names.
\<close>

section \<open>Names in a dependency file\<close>

text \<open>The makefile form of a name, without the bound of the buffer.\<close>

fun quoted :: "string \<Rightarrow> string" where
  "quoted [] = []"
| "quoted (c # cs) = (if needs_caret c cs then CHR ''^'' # c # quoted cs else c # quoted cs)"

lemma make_loop_quoted:
  "make_loop n s = (take n (quoted s), length (quoted s) \<le> n)"
  by (induction n s rule: make_loop.induct) (auto simp: take_Cons' numeral_2_eq_2 split: prod.splits)

lemma peek_quoted: "peek (quoted cs) = CHR ''$'' \<Longrightarrow> peek cs = CHR ''$'' \<and> peek (tl cs) = CHR ''(''"
proof (cases cs)
  case (Cons d ds)
  then show "peek (quoted cs) = CHR ''$'' \<Longrightarrow> ?thesis"
    by (auto simp: needs_caret_def split: if_splits)
qed auto

lemma real_loop_quoted: "real_loop (quoted s) = Ok (length (quoted s) - length s, s)"
proof -
  have "\<exists>n. real_loop (quoted s) = Ok (n, s) \<and> length (quoted s) = length s + n"
  proof (induction s)
    case (Cons c cs)
    then obtain n where n: "real_loop (quoted cs) = Ok (n, cs)" "length (quoted cs) = length cs + n"
      by auto
    show ?case
    proof (cases "needs_caret c cs")
      case False
      then have "c \<noteq> CHR ''^''" by (simp add: needs_caret_def)
      moreover have "\<not> (c = CHR ''$'' \<and> peek (quoted cs) = CHR ''$'')"
      proof
        assume *: "c = CHR ''$'' \<and> peek (quoted cs) = CHR ''$''"
        then have "peek cs = CHR ''$''" using peek_quoted by blast
        then show False using False * by (simp add: needs_caret_def)
      qed
      ultimately show ?thesis using n False by auto
    qed (use n in simp)
  qed simp
  then show ?thesis by auto
qed

text \<open>
  \<open>depNameToMake\<close> writes the makefile form of a name when it fits with its terminator, and
  otherwise accesses memory behind the buffer, on its "buffer too small" path, too;
  \<open>depNameToReal\<close> turns the makefile form of every name back into the name.
\<close>

theorem depName_round_trip:
  "depNameToMake cchName s =
     (if length (quoted s) < cchName then Ok (length (quoted s), quoted s) else Undef OutOfBounds) \<and>
   depNameToReal (quoted s) = Ok (length s, s)"
proof
  show "depNameToMake cchName s =
     (if length (quoted s) < cchName then Ok (length (quoted s), quoted s) else Undef OutOfBounds)"
    by (simp add: depNameToMake_def make_loop_quoted min_def)
  have "length s \<le> length (quoted s)" by (induction s) auto
  then show "depNameToReal (quoted s) = Ok (length s, s)"
    by (simp add: depNameToReal_def real_loop_quoted)
qed

text \<open>A caret at the end of a name that does not escape anything.\<close>

fun caret_open :: "string \<Rightarrow> bool" where
  "caret_open [] = False"
| "caret_open (c # cs) =
     (if c = CHR ''^'' \<or> (c = CHR ''$'' \<and> peek cs = CHR ''$'') then cs = [] \<or> caret_open (tl cs)
      else caret_open cs)"

lemma real_loop_cases:
  "if caret_open s then real_loop s = Undef OutOfBounds
   else \<exists>n r. real_loop s = Ok (n, r) \<and> length s = n + length r"
proof (induction s rule: real_loop.induct)
  case (2 c cs)
  show ?case
  proof (cases "c = CHR ''^'' \<or> (c = CHR ''$'' \<and> peek cs = CHR ''$'')")
    case True
    show ?thesis
    proof (cases cs)
      case Nil
      then show ?thesis using True by auto
    next
      case (Cons d ds)
      have e: "real_loop (c # cs) = obind (real_loop ds) (\<lambda>(n, r). Ok (n + 1, d # r))"
        "caret_open (c # cs) = caret_open ds" using True Cons by auto
      have "if caret_open ds then real_loop ds = Undef OutOfBounds
        else \<exists>n r. real_loop ds = Ok (n, r) \<and> length ds = n + length r" using 2(1) True Cons by blast
      then show ?thesis unfolding e by (auto simp: Cons split: if_splits)
    qed
  next
    case False
    have e: "real_loop (c # cs) = obind (real_loop cs) (\<lambda>(n, r). Ok (n, c # r))"
      "caret_open (c # cs) = caret_open cs" using False by auto
    show ?thesis using 2(2) [OF False] unfolding e by (auto split: if_splits)
  qed
qed simp

text \<open>
  \<open>depNameToReal\<close> returns the length of the name it leaves, except that it runs past the end of
  a name exactly when a caret that escapes nothing stands there.
\<close>

theorem depNameToReal_bounds:
  "if caret_open s then depNameToReal s = Undef OutOfBounds
   else \<exists>r. depNameToReal s = Ok (length r, r)"
  using real_loop_cases [of s] by (auto simp: depNameToReal_def split: if_splits)

section \<open>File names\<close>

lemma last_sep_Some: "last_sep f = Some i \<Longrightarrow> i < length f"
  using strrchr_Some by (fastforce simp: last_sep_def split: option.splits)

text \<open>
  A file name is its path with the separator followed by its name part, and the path without
  the separator is that path less its last character.
\<close>

theorem filePathSlash_fileName:
  "filePathSlash f @ fileName f = f \<and> filePath f = butlast (filePathSlash f)"
  using last_sep_Some [of f]
  by (auto simp: filePathSlash_def fileName_def filePath_def butlast_take split: option.splits)

lemma fileName_split: "f = filePathSlash f @ fileName f"
  using last_sep_Some [of f]
  by (auto simp: filePathSlash_def fileName_def split: option.splits)

lemma fileName_no_backslash: "BSL \<notin> set (fileName f)"
proof (cases "strrchr f BSL")
  case None
  then have "BSL \<notin> set f" by simp
  moreover have "set (fileName f) \<subseteq> set f"
    by (auto simp: fileName_def split: option.splits dest: in_set_dropD)
  ultimately show ?thesis by blast
next
  case (Some i)
  then show ?thesis using strrchr_Some [OF Some] by (simp add: fileName_def last_sep_def)
qed

text \<open>
  The name without its extension and the extension put together give the name part, where the
  name part has an extension: a dot that is not its first character. A name with both kinds of
  separators is excluded: its name part is what follows the last backslash, and \<open>fileExt\<close> gives up
  at a slash.
\<close>

theorem fileNameNoExt_fileExt:
  assumes "CHR ''/'' \<notin> set (fileName f)" and "CHR ''.'' \<in> set (tl (fileName f))"
  shows "fileNameNoExt f @ CHR ''.'' # fileExt f = fileName f"
proof -
  let ?n = "fileName f" and ?p = "filePathSlash f"
  have f: "f = ?p @ ?n" by (rule fileName_split)
  obtain c s where n: "?n = c # s" and s: "CHR ''.'' \<in> set s" using assms(2) by (cases ?n) auto
  obtain i where i: "strrchr s (CHR ''.'') = Some i"
    using s strrchr_None [of s "CHR ''.''"] by (cases "strrchr s (CHR ''.'')") auto
  then have d: "strrchr ?n (CHR ''.'') = Some (Suc i)" by (simp add: n)
  note D = strrchr_Some [OF d]
  have "fileNameNoExt f = take (Suc i) ?n"
    using d by (auto simp: fileNameNoExt_def fileName_def Let_def split: option.splits)
  moreover have e: "strrchr f (CHR ''.'') = Some (length ?p + Suc i)"
    using strrchr_append [of ?p ?n "CHR ''.''"] d f by simp
  moreover have "drop (length ?p + Suc i) f = drop (Suc i) ?n"
    using arg_cong [OF f, of "drop (length ?p + Suc i)"] by simp
  moreover have "drop (length ?p + Suc i + 1) f = drop (Suc (Suc i)) ?n"
    using arg_cong [OF f, of "drop (length ?p + Suc i + 1)"] by simp
  moreover have "BSL \<notin> set (drop (Suc i) ?n)" "CHR ''/'' \<notin> set (drop (Suc i) ?n)"
    using fileName_no_backslash assms(1) by (auto dest: in_set_dropD)
  ultimately have "fileNameNoExt f = take (Suc i) ?n" "fileExt f = drop (Suc (Suc i)) ?n"
    by (simp_all add: fileExt_def Let_def)
  then show ?thesis using D by (metis id_take_nth_drop)
qed

theorem fileNameNoExt_fileExt_witness:
  "fileNameNoExt ''inc/a.b.c'' @ CHR ''.'' # fileExt ''inc/a.b.c'' = ''a.b.c''"
  using fileNameNoExt_fileExt [of "''inc/a.b.c''"]
  by (simp add: fileName_def last_sep_def)

section \<open>Lines of a buffer\<close>

text \<open>The lines a caller of \<open>textbufferGetNextLine\<close> reads until it returns null.\<close>

inductive reads :: "string \<Rightarrow> nat \<Rightarrow> string option \<Rightarrow> string list \<Rightarrow> bool" for buf cch where
  reads_end: "textbufferGetNextLine buf pos cch = (None, pos') \<Longrightarrow> reads buf cch pos []"
| reads_line: "textbufferGetNextLine buf pos cch = (Some l, pos') \<Longrightarrow> reads buf cch pos' ls \<Longrightarrow>
    reads buf cch pos (l # ls)"

lemma get_line:
  assumes "\<forall>c\<in>set l. \<not> eol c" and "length l < cch" and "eol c"
  shows "textbufferGetNextLine buf (Some (l @ c # rest)) cch = (Some l, Some (skip_eol (c # rest)))"
proof -
  have t: "takeWhile (\<lambda>c. \<not> eol c) (take (cch - 1) (l @ c # rest)) = l"
    using assms by (cases "cch - 1 - length l") (auto simp: takeWhile_append2)
  have "length (skip_eol (c # rest)) < length (l @ c # rest)"
    using assms(3) by (cases rest) (auto simp: skip_eol_def eol_def Let_def)
  then have "l @ c # rest \<noteq> skip_eol (c # rest)" by fastforce
  then show ?thesis by (simp add: textbufferGetNextLine_def Let_def t [unfolded One_nat_def] del: take_append)
qed

text \<open>
  A text of lines that end in a line feed, or in a carriage return and a line feed, is read
  back line by line, empty lines included, when each line is shorter than the line buffer; then
  the null pointer is returned.
\<close>

theorem textbuffer_lines:
  assumes "\<forall>l\<in>set ls. (\<forall>c\<in>set l. \<not> eol c) \<and> length l < cch" and "e = [LF] \<or> e = [CR, LF]"
  shows "reads buf cch (Some (concat (map (\<lambda>l. l @ e) ls))) ls"
  using assms(1)
proof (induction ls)
  case Nil
  have "textbufferGetNextLine buf (Some []) cch = (None, Some [])"
    by (simp add: textbufferGetNextLine_def skip_eol_def Let_def)
  then show ?case by (auto intro: reads_end)
next
  case (Cons l ls)
  let ?rest = "concat (map (\<lambda>l. l @ e) ls)"
  have "textbufferGetNextLine buf (Some (l @ e @ ?rest)) cch = (Some l, Some ?rest)"
    using assms(2)
  proof
    assume e: "e = [LF]"
    show ?thesis using get_line [of l cch LF buf ?rest] Cons.prems
      by (simp add: e eol_def skip_eol_def)
  next
    assume e: "e = [CR, LF]"
    show ?thesis using get_line [of l cch CR buf "LF # ?rest"] Cons.prems
      by (simp add: e eol_def skip_eol_def)
  qed
  then show ?case using Cons by (auto intro: reads_line)
qed

theorem textbuffer_lines_witness:
  "reads ''x'' 80 (Some [CHR ''a'', CR, LF, CR, LF, CHR ''b'', CR, LF]) [''a'', [], ''b'']"
  using textbuffer_lines [of "[''a'', [], ''b'']" 80 "[CR, LF]"] by (simp add: eol_def)

section \<open>Comments\<close>

text \<open>No comment starts in the string.\<close>

fun no_comment :: "string \<Rightarrow> bool" where
  "no_comment [] = True"
| "no_comment (c # cs) =
     (\<not> (c = CHR ''/'' \<and> (peek cs = CHR ''/'' \<or> peek cs = CHR ''*'')) \<and> no_comment cs)"

lemma preprocess_no_comment: "no_comment s \<Longrightarrow> preprocess_loop False False s = Ok s"
  by (induction s) auto

lemma no_comment_prefix: "no_comment (xs @ ys) \<Longrightarrow> no_comment xs"
proof (induction xs)
  case (Cons x xs)
  then show ?case by (cases xs) auto
qed simp

text \<open>The loop copies a first character that does not start a comment.\<close>

lemma preprocess_result:
  "\<exists>out. preprocess_loop fComment False s = Ok out \<and> no_comment out \<and>
    (\<not> fComment \<longrightarrow> peek s \<noteq> CHR ''/'' \<longrightarrow> peek out = peek s)"
proof (induction s arbitrary: fComment rule: length_induct)
  case (1 s)
  show ?case
  proof (cases s)
    case (Cons c cs)
    have IH: "\<exists>out. preprocess_loop b False r = Ok out \<and> no_comment out \<and>
      (\<not> b \<longrightarrow> peek r \<noteq> CHR ''/'' \<longrightarrow> peek out = peek r)" if "r = cs \<or> r = tl cs" for b r
      using 1 that Cons by auto
    from IH [of cs False] obtain out where out: "preprocess_loop False False cs = Ok out"
      "no_comment out" "peek cs \<noteq> CHR ''/'' \<Longrightarrow> peek out = peek cs" by auto
    show ?thesis
    proof (cases fComment)
      case True
      then show ?thesis using IH [of cs True] IH [of "tl cs" False] by (auto simp: Cons)
    next
      case False
      show ?thesis
      proof (cases "c = CHR ''/''")
        case c: True
        then show ?thesis using False out IH [of "tl cs" True] by (auto simp: Cons)
      next
        case c: False
        then show ?thesis using False out by (auto simp: Cons)
      qed
    qed
  qed simp
qed

lemma rtrim_prefix: "\<exists>ys. xs = rev (dropWhile P (rev xs)) @ ys"
proof -
  have "rev xs = takeWhile P (rev xs) @ dropWhile P (rev xs)" by simp
  then have "xs = rev (dropWhile P (rev xs)) @ rev (takeWhile P (rev xs))"
    by (metis rev_append rev_rev_ident)
  then show ?thesis by blast
qed

text \<open>
  \<open>PreProcessLine\<close> never runs past the end of its input, and a line it has processed has no
  comment left: processing it again changes nothing.
\<close>

theorem PreProcessLine_idempotent:
  "\<exists>out. PreProcessLine s = Ok out \<and> no_comment out \<and> PreProcessLine out = Ok out"
proof -
  let ?P = "\<lambda>c. c = CHR '' '' \<or> c = TAB"
  obtain o1 where o1: "preprocess_loop False False s = Ok o1" "no_comment o1"
    using preprocess_result [of False s] by auto
  let ?out = "rev (dropWhile ?P (rev o1))"
  have n: "no_comment ?out" using rtrim_prefix [of o1 ?P] o1(2) no_comment_prefix by metis
  have "PreProcessLine s = Ok ?out" using o1 by (simp add: PreProcessLine_def)
  moreover have "PreProcessLine ?out = Ok ?out"
    using preprocess_no_comment [OF n] by (simp add: PreProcessLine_def)
  ultimately show ?thesis using n by blast
qed

text \<open>The comment characters are not recognised as part of a string literal.\<close>

lemma PreProcessLine_in_string: "PreProcessLine (DQ # ''a//b'' @ [DQ]) = Ok (DQ # ''a'')"
  by (simp add: PreProcessLine_def)

text \<open>A tab at the end of a line is not trimmed, and one at its start makes the line empty.\<close>

lemma trim_keeps_tab: "trim (Some (''a'' @ [TAB])) = Some (''a'' @ [TAB])"
  and trimR_drops_all: "trimR (Some (TAB # ''a'')) = Some []"
  by (simp_all add: trim_end_def)

section \<open>Relative names\<close>

text \<open>
  A current directory other than the root of a drive: the first backslash is after the colon, and
  no index used is the zero of an array element that was not written.
\<close>

definition good_curdir :: "curdir \<Rightarrow> bool" where
  "good_curdir cd \<longleftrightarrow> cget (szCurDir cd) 1 = CHR '':'' \<and>
     (\<forall>i \<le> max 1 (cSlashes cd). 0 < slash_at cd i) \<and> CHR ''/'' \<notin> set (szCurDir cd)"

lemma norm_loop_le: "norm_loop i s = Some (j, r) \<Longrightarrow> j \<le> i \<and> set r \<subseteq> set s"
proof (induction i s rule: norm_loop.induct)
  case (2 i c cs)
  have sub: "set (drop 2 cs) \<subseteq> set (c # cs)" "set (tl cs) \<subseteq> set (c # cs)"
    by (auto dest: in_set_dropD list.set_sel(2) intro: in_set_dropD [of _ 1] simp: drop_Suc)
  consider "c = CHR ''.'' \<and> peek cs = CHR ''.'' \<and> cget cs 1 = BSL"
    | "\<not> (c = CHR ''.'' \<and> peek cs = CHR ''.'' \<and> cget cs 1 = BSL)" "c = CHR ''.'' \<and> peek cs = BSL"
    | "\<not> (c = CHR ''.'' \<and> peek cs = CHR ''.'' \<and> cget cs 1 = BSL)" "\<not> (c = CHR ''.'' \<and> peek cs = BSL)"
    by blast
  then show ?case
  proof cases
    case 1
    then have "norm_loop (if 0 < i then i - 1 else i) (drop 2 cs) = Some (j, r)" using 2(3) by simp
    from 2(1) [OF 1 this] show ?thesis using sub(1) by (auto split: if_splits)
  next
    case 2
    then have "norm_loop i (tl cs) = Some (j, r)" using "2.prems" by simp
    from "2.IH"(2) [OF 2 this] show ?thesis using sub(2) by auto
  next
    case 3
    then show ?thesis using "2.prems" by (simp only: norm_loop.simps if_False) auto
  qed
qed simp

lemma to_backslashes_id: "CHR ''/'' \<notin> set s \<Longrightarrow> to_backslashes s = s"
  by (induction s) (auto simp: to_backslashes_def)

lemma to_backslashes_no_slash: "CHR ''/'' \<notin> set (to_backslashes s)"
  by (auto simp: to_backslashes_def)

text \<open>
  In a current directory that is not the root of a drive, normalizing a name a second time
  changes nothing.
\<close>

theorem fileNormalize_idempotent:
  assumes "good_curdir cd"
  shows "fileNormalize cd (fileNormalize cd f) = fileNormalize cd f"
proof -
  let ?s = "to_backslashes f"
  have abs: "fileNormalize cd r = r" if "cget r 1 = CHR '':''" "CHR ''/'' \<notin> set r" for r
    using that by (simp add: fileNormalize_def to_backslashes_id Let_def)
  show ?thesis
  proof (cases "cget ?s 1 = CHR '':''")
    case True
    then have "fileNormalize cd f = ?s" by (simp add: fileNormalize_def Let_def)
    then show ?thesis using abs [OF True to_backslashes_no_slash] by simp
  next
    case False
    let ?n = "norm_loop (if peek ?s = BSL then 1 else cSlashes cd) ?s"
    show ?thesis
    proof (cases ?n)
      case None
      then have "fileNormalize cd f = ?s" using False by (simp add: fileNormalize_def Let_def)
      then show ?thesis using False None to_backslashes_id [OF to_backslashes_no_slash, of f]
        by (simp add: fileNormalize_def Let_def)
    next
      case (Some p)
      obtain i r where p: "p = (i, r)" by fastforce
      have "i \<le> max 1 (cSlashes cd)" and r: "set r \<subseteq> set ?s"
        using norm_loop_le [OF Some [unfolded p]] by (auto split: if_splits)
      then have pos: "0 < slash_at cd i" using assms by (simp add: good_curdir_def)
      let ?r = "take (slash_at cd i + 1) (szCurDir cd) @ r"
      have eq: "fileNormalize cd f = ?r" using False Some p by (simp add: fileNormalize_def Let_def)
      have col: "cget (szCurDir cd) 1 = CHR '':''" using assms by (simp add: good_curdir_def)
      then have "1 < length (szCurDir cd)" by (auto simp: cget_def split: if_splits)
      then have "cget ?r 1 = CHR '':''" using col pos by (simp add: cget_def nth_append)
      moreover have "CHR ''/'' \<notin> set ?r"
        using r to_backslashes_no_slash [of f] assms
        by (auto simp: good_curdir_def dest: in_set_takeD)
      ultimately show ?thesis using abs eq by simp
    qed
  qed
qed

text \<open>
  The names are wrong at the root of a drive, where the element of \<open>aiSlashes\<close> used was never
  written, and for a name that starts with a backslash, which is put under the first directory.
\<close>

lemma curdir_root: "fileNormalize (init_curdir ''c:/'') ''a.c'' = ''ca.c''"
  and curdir_dir: "fileNormalize (init_curdir ''c:/x/y'') ''../a.c'' = ''c:'' @ BSL # ''x'' @ BSL # ''a.c''"
  and curdir_rooted: "fileNormalize (init_curdir ''c:/x/y'') ''/a.c'' =
    ''c:'' @ BSL # ''x'' @ BSL # BSL # ''a.c''"
  by code_simp+

lemma normalize2_dotdot_slash:
  "fileNormalize2 (init_curdir ''c:/x/y'') ''../a.c'' [] =
    ''c:'' @ BSL # ''x'' @ BSL # ''y'' @ BSL # ''..'' @ BSL # ''a.c''"
  by code_simp

lemma good_curdir_example: "good_curdir (init_curdir ''c:/x'')"
  by code_simp

theorem fileNormalize_idempotent_witness:
  "fileNormalize (init_curdir ''c:/x'') (fileNormalize (init_curdir ''c:/x'') ''inc/a.h'') =
   fileNormalize (init_curdir ''c:/x'') ''inc/a.h''"
  by (rule fileNormalize_idempotent [OF good_curdir_example])

end
