(* ===== verification/FastdepCyclic.thy ===== *)
theory FastdepCyclic
  imports AvlCorrect FastdepTextProps
begin

text \<open>
  The dependency rules of \<open>src/src/fastdep/fastdep.c\<close> and the search for cyclic dependencies,
  \<open>depCheckCyclic\<close>: a depth-first search with a stack of 32 positions and a sorted history of at
  most 256 rules, which is searched by bisection.

  A \<open>DEPRULE\<close> starts with its tree node, so a rule is the node's address, its name is the node's
  key, and its other fields are in a map from addresses. The null-terminated array \<open>papszDep\<close> is
  the list of its strings, a null array is \<open>None\<close>, and a pointer into it is the rest of the list.
\<close>

record deprule =
  cDeps :: nat
  papszDep :: "string list option"
  cAlloc :: nat
  fUpdated :: bool
  szTS :: string

record depstate =
  pdepTree :: avlmem
  rules :: "addr \<Rightarrow> deprule"

definition DEPTH :: nat where "DEPTH = 32"

definition HISTORY :: nat where "HISTORY = 256"

text \<open>\<open>AVLGet\<close> on the tree of rules, followed by the tests for a rule with an array.\<close>

definition dep_array :: "depstate \<Rightarrow> string \<Rightarrow> (string \<times> string list) option option" where
  "dep_array st psz =
     map_option (\<lambda>p. case p of
         None \<Rightarrow> None
       | Some a \<Rightarrow> map_option (\<lambda>ds. (Key (cells (pdepTree st) a), ds)) (papszDep (rules st a)))
       (AVLGet (pdepTree st) psz)"

text \<open>
  The bisection, which returns the last comparison and its index. Entries at or past \<open>iHistory\<close> have
  not been written.
\<close>

partial_function (option) hist_search ::
  "string list \<Rightarrow> string \<Rightarrow> int \<Rightarrow> int \<Rightarrow> int \<Rightarrow> (unit, int \<times> int) outcome option" where
  "hist_search hist pszRule iStart iEnd j =
     (if j < 0 \<or> int (length hist) \<le> j then Some (Undef OutOfBounds)
      else
        let iCmp = strcmp pszRule (hist ! nat j)
        in if iCmp = 0 \<or> iEnd = iStart then Some (Ok (iCmp, j))
           else
             let iStart' = (if iCmp < 0 then iStart else j + 1);
                 iEnd' = (if iCmp < 0 then j - 1 else iEnd)
             in if iEnd' < iStart' then Some (Ok (iCmp, j))
                else hist_search hist pszRule iStart' iEnd' ((iStart' + iEnd') div 2))"

definition hist_insert :: "string list \<Rightarrow> string \<Rightarrow> int \<Rightarrow> int \<Rightarrow> string list" where
  "hist_insert hist pszRule iCmp j =
     (if length hist < HISTORY then
        let k = nat (if iCmp > 0 then j + 1 else j)
        in take k hist @ pszRule # drop k hist
      else hist)"

text \<open>
  The two nested loops: \<open>ppsz\<close> is the position in the array being processed and \<open>appsz\<close> the saved
  positions. The result is the return value and whether the error "too deep chain" was printed.
\<close>

partial_function (option) cyclic_loop ::
  "depstate \<Rightarrow> string \<Rightarrow> string list \<Rightarrow> string list list \<Rightarrow> string list
     \<Rightarrow> (unit, bool \<times> bool) outcome option" where
  "cyclic_loop st pszRule ppsz appsz hist =
     (case ppsz of
        [] \<Rightarrow> (case appsz of
                 [] \<Rightarrow> Some (Ok (False, False))
               | q # qs \<Rightarrow> cyclic_loop st pszRule q qs hist)
      | d # ds \<Rightarrow>
          if strcmp pszRule d = 0 then Some (Ok (True, False))
          else
            (case dep_array st d of
               None \<Rightarrow> None
             | Some None \<Rightarrow> cyclic_loop st pszRule ds appsz hist
             | Some (Some (name, deps)) \<Rightarrow>
                 if DEPTH \<le> length appsz then Some (Ok (False, True))
                 else
                   (case hist_search hist name 0 (int (length hist) - 1) (int (length hist) div 2) of
                      None \<Rightarrow> None
                    | Some (Undef u) \<Rightarrow> Some (Undef u)
                    | Some (Fatal e) \<Rightarrow> Some (Fatal e)
                    | Some (Ok (iCmp, j)) \<Rightarrow>
                        if iCmp = 0 then cyclic_loop st pszRule ds appsz hist
                        else cyclic_loop st pszRule deps (ds # appsz)
                               (hist_insert hist name iCmp j))))"

definition depCheckCyclic :: "depstate \<Rightarrow> addr \<Rightarrow> string \<Rightarrow> (unit, bool \<times> bool) outcome option" where
  "depCheckCyclic st pdepRule pszDep =
     (let pszRule = Key (cells (pdepTree st) pdepRule)
      in if strcmp pszRule pszDep = 0 then Some (Ok (True, False))
         else
           (case dep_array st pszDep of
              None \<Rightarrow> None
            | Some None \<Rightarrow> Some (Ok (False, False))
            | Some (Some (name, deps)) \<Rightarrow> cyclic_loop st pszRule deps [] [name]))"

section \<open>Adding dependencies\<close>

text \<open>
  \<open>depAddDepend\<close>: \<open>reallocOk\<close> and \<open>mallocOk\<close> say whether the two allocations succeed. The array has
  \<open>cAlloc\<close> elements; the new string and the terminator behind it must be inside. The outer option
  is the termination of the check.
\<close>

definition grow_deps :: "deprule \<Rightarrow> deprule" where
  "grow_deps r = r\<lparr>papszDep := Some (case papszDep r of None \<Rightarrow> [] | Some ds \<Rightarrow> ds),
     cAlloc := cDeps r + 50\<rparr>"

definition append_dep :: "bool \<Rightarrow> deprule \<Rightarrow> string \<Rightarrow> bool \<Rightarrow> (unit, deprule \<times> bool) outcome" where
  "append_dep mallocOk r pszDep fConvertName =
     (case papszDep r of
        None \<Rightarrow> Undef NullDeref
      | Some ds \<Rightarrow>
          if cAlloc r \<le> cDeps r then Undef OutOfBounds
          else if \<not> mallocOk then Ok (r, False)
          else
            obind (if fConvertName then depNameToReal pszDep else Ok (length pszDep, pszDep))
              (\<lambda>(cch, psz).
              if cAlloc r \<le> cDeps r + 1 then Undef OutOfBounds
              else Ok (r\<lparr>papszDep := Some (ds @ [psz]), cDeps := cDeps r + 1\<rparr>, True)))"

definition depAddDepend :: "bool \<Rightarrow> bool \<Rightarrow> depstate \<Rightarrow> addr \<Rightarrow> string \<Rightarrow> bool \<Rightarrow> bool
    \<Rightarrow> (unit, depstate \<times> bool) outcome option" where
  "depAddDepend reallocOk mallocOk st pdep pszDep fCheckCyclic fConvertName =
     (if pszDep = [] then Some (Ok (st, False))
      else
        map_option (\<lambda>res. obind res (\<lambda>(cyclic, warned).
          if cyclic then Ok (st, False)
          else
            let r = rules st pdep;
                grow = (cDeps r mod 48 = 0)
            in if grow \<and> \<not> reallocOk then
                 Ok (st\<lparr>rules := (rules st)(pdep := r\<lparr>papszDep := None, cDeps := 0\<rparr>)\<rparr>, False)
               else
                 obind (append_dep mallocOk (if grow then grow_deps r else r) pszDep fConvertName)
                   (\<lambda>(r, ok). Ok (st\<lparr>rules := (rules st)(pdep := r)\<rparr>, ok))))
        (if fCheckCyclic then depCheckCyclic st pdep pszDep else Some (Ok (False, False))))"

definition depMarkNotFound :: "depstate \<Rightarrow> addr \<Rightarrow> depstate" where
  "depMarkNotFound st pvRule = st\<lparr>rules := (rules st)(pvRule := (rules st pvRule)\<lparr>szTS := []\<rparr>)\<rparr>"

text \<open>
  \<open>depAddSrcAddDeps\<close> walks over a string of strings, here the list of them up to the empty one,
  and ignores what \<open>depAddDepend\<close> returns.
\<close>

fun depAddSrcAddDeps :: "depstate \<Rightarrow> addr \<Rightarrow> string list \<Rightarrow> (unit, depstate) outcome option" where
  "depAddSrcAddDeps st pvRule [] = Some (Ok st)"
| "depAddSrcAddDeps st pvRule (psz # pszz) =
     (case depAddDepend True True st pvRule psz False False of
        None \<Rightarrow> None
      | Some (Undef u) \<Rightarrow> Some (Undef u)
      | Some (Fatal e) \<Rightarrow> Some (Fatal e)
      | Some (Ok (st, ok)) \<Rightarrow> depAddSrcAddDeps st pvRule pszz)"

section \<open>The search for a cycle\<close>

text \<open>The edges from a rule with an array to its dependencies.\<close>

definition dep_edges :: "depstate \<Rightarrow> (string \<times> string) set" where
  "dep_edges st = {(x, y). \<exists>n ds. dep_array st x = Some (Some (n, ds)) \<and> y \<in> set ds}"

definition graph_ok :: "depstate \<Rightarrow> nat \<Rightarrow> bool" where
  "graph_ok st B \<longleftrightarrow> (\<forall>x. dep_array st x \<noteq> None) \<and>
     (\<forall>x n ds. dep_array st x = Some (Some (n, ds)) \<longrightarrow> n = x \<and> length ds \<le> B)"

lemma graph_ok_avl_map:
  assumes "avl_map (pdepTree st) xs"
  shows "\<exists>B. graph_ok st B"
proof -
  let ?len = "\<lambda>a. case papszDep (rules st a) of None \<Rightarrow> 0 | Some ds \<Rightarrow> length ds"
  have "dep_array st x = Some (Some (n, ds)) \<Longrightarrow> n = x \<and> length ds \<le> sum_list (map (?len \<circ> snd) xs)"
    for x n ds
  proof -
    assume "dep_array st x = Some (Some (n, ds))"
    then obtain a where a: "map_of xs x = Some a" "papszDep (rules st a) = Some ds"
      "n = Key (cells (pdepTree st) a)"
      using AVLGet_correct [OF assms, of x] by (auto simp: dep_array_def split: option.splits)
    then have "(x, a) \<in> set xs" by (simp add: map_of_SomeD)
    then have "?len a \<in> set (map (?len \<circ> snd) xs)" by force
    then have "?len a \<le> sum_list (map (?len \<circ> snd) xs)" by (intro member_le_sum_list) auto
    then show ?thesis using a avl_map_agree [OF assms \<open>(x, a) \<in> set xs\<close>] by simp
  qed
  moreover have "dep_array st x \<noteq> None" for x
    using AVLGet_correct [OF assms, of x] by (simp add: dep_array_def)
  ultimately show ?thesis unfolding graph_ok_def by blast
qed

lemma hist_search_ok:
  assumes "0 \<le> iStart" and "iStart \<le> j" and "j \<le> iEnd" and "iEnd < int (length hist)"
  shows "\<exists>c k. hist_search hist r iStart iEnd j = Some (Ok (c, k)) \<and> 0 \<le> k \<and>
    k < int (length hist) \<and> c = strcmp r (hist ! nat k)"
  using assms
proof (induction "nat (iEnd - iStart)" arbitrary: iStart iEnd j rule: less_induct)
  case less
  let ?c = "strcmp r (hist ! nat j)"
  let ?s = "if ?c < 0 then iStart else j + 1" and ?e = "if ?c < 0 then j - 1 else iEnd"
  show ?case
  proof (cases "?c = 0 \<or> iEnd = iStart \<or> ?e < ?s")
    case True
    then show ?thesis using less.prems by (subst hist_search.simps) (auto simp: Let_def)
  next
    case False
    have "\<exists>c k. hist_search hist r ?s ?e ((?s + ?e) div 2) = Some (Ok (c, k)) \<and> 0 \<le> k \<and>
      k < int (length hist) \<and> c = strcmp r (hist ! nat k)"
      by (rule less.hyps) (use less.prems False in \<open>auto split: if_splits\<close>)
    then show ?thesis using less.prems False
      by (subst hist_search.simps) (auto simp: Let_def)
  qed
qed

text \<open>The work left: a frame of the stack weighs more the nearer it is to the bottom.\<close>

fun frames_work :: "nat \<Rightarrow> string list list \<Rightarrow> nat" where
  "frames_work B [] = 0"
| "frames_work B (q # qs) = (length q + 1) * (B + 2) ^ (33 - length qs) + frames_work B qs"

lemma frames_work_push:
  assumes "length deps \<le> B" and "length qs < 32"
  shows "frames_work B (deps # ds # qs) < frames_work B ((d # ds) # qs)"
proof -
  obtain k where k: "33 - length qs = Suc k" "33 - length (ds # qs) = k"
    using assms(2) by (cases "33 - length qs") auto
  have "(length deps + 1) * (B + 2) ^ k < (B + 2) * (B + 2) ^ k"
    using assms(1) by (intro mult_strict_right_mono) auto
  then show ?thesis using k by simp
qed

definition closed_but :: "depstate \<Rightarrow> string \<Rightarrow> string set \<Rightarrow> string set \<Rightarrow> bool" where
  "closed_but st rule V P \<longleftrightarrow> (\<forall>v\<in>V. \<forall>y. (v, y) \<in> dep_edges st \<longrightarrow>
     y \<in> P \<or> (y \<noteq> rule \<and> (y \<in> V \<or> dep_array st y = Some None)))"

definition pend :: "string list list \<Rightarrow> string set" where
  "pend qs = \<Union> (set ` set qs)"

lemma cyclic_loop_ok:
  assumes "graph_ok st B" and "hist \<noteq> []" and "set hist \<subseteq> V" and "length qs \<le> 32"
    and "closed_but st rule V (pend (q # qs))" and "\<forall>y\<in>pend (q # qs). (s, y) \<in> (dep_edges st)\<^sup>*"
  shows "\<exists>b w. cyclic_loop st rule q qs hist = Some (Ok (b, w)) \<and>
    (b \<longrightarrow> \<not> w \<and> (s, rule) \<in> (dep_edges st)\<^sup>*) \<and>
    (\<not> b \<and> \<not> w \<longrightarrow> (\<exists>V'. V \<subseteq> V' \<and> closed_but st rule V' {}))"
  using assms
proof (induction "frames_work B (q # qs)" arbitrary: q qs hist V rule: less_induct)
  case less
  show ?case
  proof (cases q)
    case Nil
    show ?thesis
    proof (cases qs)
      case Nil
      then show ?thesis using less.prems(5) \<open>q = []\<close>
        by (subst cyclic_loop.simps) (auto simp: pend_def)
    next
      case (Cons q' qs')
      have "\<exists>b w. cyclic_loop st rule q' qs' hist = Some (Ok (b, w)) \<and>
        (b \<longrightarrow> \<not> w \<and> (s, rule) \<in> (dep_edges st)\<^sup>*) \<and>
        (\<not> b \<and> \<not> w \<longrightarrow> (\<exists>V'. V \<subseteq> V' \<and> closed_but st rule V' {}))"
        by (rule less.hyps) (use less.prems \<open>q = []\<close> Cons in \<open>auto simp: pend_def\<close>)
      then show ?thesis using \<open>q = []\<close> Cons by (subst cyclic_loop.simps) simp
    qed
  next
    case (Cons d ds)
    show ?thesis
    proof (cases "rule = d")
      case True
      then show ?thesis using less.prems(6) Cons
        by (subst cyclic_loop.simps) (auto simp: pend_def)
    next
      case ne: False
      then have cmp: "strcmp rule d \<noteq> 0" by simp
      have skip: "\<exists>b w. cyclic_loop st rule ds qs hist = Some (Ok (b, w)) \<and>
          (b \<longrightarrow> \<not> w \<and> (s, rule) \<in> (dep_edges st)\<^sup>*) \<and>
          (\<not> b \<and> \<not> w \<longrightarrow> (\<exists>V'. V \<subseteq> V' \<and> closed_but st rule V' {}))"
        if "d \<in> V \<or> dep_array st d = Some None"
      proof (rule less.hyps)
        show "frames_work B (ds # qs) < frames_work B (q # qs)" by (simp add: Cons)
        show "closed_but st rule V (pend (ds # qs))"
          using less.prems(5) that ne unfolding closed_but_def Cons pend_def by auto
        show "\<forall>y\<in>pend (ds # qs). (s, y) \<in> (dep_edges st)\<^sup>*"
          using less.prems(6) unfolding Cons pend_def by auto
      qed (use less.prems in auto)
      have "dep_array st d \<noteq> None" using less.prems(1) by (simp add: graph_ok_def)
      then consider "dep_array st d = Some None"
        | n deps where "dep_array st d = Some (Some (n, deps))"
        by (metis not_None_eq prod.exhaust)
      then show ?thesis
      proof cases
        case 1
        then show ?thesis using skip cmp Cons by (subst cyclic_loop.simps) simp
      next
        case 2
        then have n: "n = d" and B: "length deps \<le> B" using less.prems(1) by (auto simp: graph_ok_def)
        show ?thesis
        proof (cases "DEPTH \<le> length qs")
          case True
          then show ?thesis using 2 cmp Cons by (subst cyclic_loop.simps) auto
        next
          case False
          then have len: "length qs < 32" by (simp add: DEPTH_def)
          have "1 \<le> int (length hist)" using less.prems(2) by (cases hist) auto
          then have half: "0 \<le> int (length hist) div 2" "int (length hist) div 2 \<le> int (length hist) - 1"
            by presburger+
          from hist_search_ok [of 0 "int (length hist) div 2" "int (length hist) - 1" hist d]
          obtain c k where hs:
            "hist_search hist d 0 (int (length hist) - 1) (int (length hist) div 2) = Some (Ok (c, k))"
            "0 \<le> k" "k < int (length hist)" "c = strcmp d (hist ! nat k)"
            using half by auto
          show ?thesis
          proof (cases "c = 0")
            case True
            then have "d \<in> V" using hs less.prems(3) by (auto simp: nth_mem subset_iff)
            then show ?thesis using skip cmp Cons 2 False hs(1) True n
              by (subst cyclic_loop.simps) simp
          next
            case c: False
            let ?h = "hist_insert hist d c k"
            have h: "set ?h \<subseteq> insert d V" "?h \<noteq> []"
              using less.prems(2,3) by (auto simp: hist_insert_def Let_def dest: in_set_takeD in_set_dropD)
            have e: "(d, y) \<in> dep_edges st \<longleftrightarrow> y \<in> set deps" for y using 2 by (auto simp: dep_edges_def)
            have "\<exists>b w. cyclic_loop st rule deps (ds # qs) ?h = Some (Ok (b, w)) \<and>
              (b \<longrightarrow> \<not> w \<and> (s, rule) \<in> (dep_edges st)\<^sup>*) \<and>
              (\<not> b \<and> \<not> w \<longrightarrow> (\<exists>V'. insert d V \<subseteq> V' \<and> closed_but st rule V' {}))"
            proof (rule less.hyps)
              show "frames_work B (deps # ds # qs) < frames_work B (q # qs)"
                using frames_work_push [OF B len] Cons by simp
              show "closed_but st rule (insert d V) (pend (deps # ds # qs))"
                using less.prems(5) ne e unfolding closed_but_def Cons pend_def by auto
              have "(s, d) \<in> (dep_edges st)\<^sup>*" using less.prems(6) by (simp add: Cons pend_def)
              then have "\<forall>y\<in>set deps. (s, y) \<in> (dep_edges st)\<^sup>*"
                using e by (meson rtrancl.rtrancl_into_rtrancl)
              then show "\<forall>y\<in>pend (deps # ds # qs). (s, y) \<in> (dep_edges st)\<^sup>*"
                using less.prems(6) unfolding Cons pend_def by auto
            qed (use less.prems h len in auto)
            then show ?thesis using cmp Cons 2 False hs(1) c n
              by (subst cyclic_loop.simps) auto
          qed
        qed
      qed
    qed
  qed
qed

lemma depCheckCyclic_total:
  assumes "avl_map (pdepTree st) xs"
  shows "\<exists>cyclic warned. depCheckCyclic st pdepRule pszDep = Some (Ok (cyclic, warned)) \<and>
    (\<not> warned \<longrightarrow> cyclic = ((pszDep, Key (cells (pdepTree st) pdepRule)) \<in> (dep_edges st)\<^sup>*)) \<and>
    (warned \<longrightarrow> \<not> cyclic)"
proof -
  let ?rule = "Key (cells (pdepTree st) pdepRule)"
  obtain B where G: "graph_ok st B" using graph_ok_avl_map [OF assms] by blast
  show ?thesis
  proof (cases "?rule = pszDep")
    case True
    then have "depCheckCyclic st pdepRule pszDep = Some (Ok (True, False))"
      by (simp add: depCheckCyclic_def)
    then show ?thesis using True by auto
  next
    case ne: False
    have "dep_array st pszDep \<noteq> None" using G by (simp add: graph_ok_def)
    then consider "dep_array st pszDep = Some None"
      | n deps where "dep_array st pszDep = Some (Some (n, deps))"
      by (metis not_None_eq prod.exhaust)
    then show ?thesis
    proof cases
      case 1
      then have "(pszDep, y) \<notin> dep_edges st" for y by (simp add: dep_edges_def)
      then have "(pszDep, ?rule) \<notin> (dep_edges st)\<^sup>*" using ne by (metis converse_rtranclE)
      then show ?thesis using 1 ne by (auto simp: depCheckCyclic_def)
    next
      case 2
      then have n: "n = pszDep" using G by (simp add: graph_ok_def)
      have e: "(pszDep, y) \<in> dep_edges st \<longleftrightarrow> y \<in> set deps" for y using 2 by (auto simp: dep_edges_def)
      have "\<exists>b w. cyclic_loop st ?rule deps [] [pszDep] = Some (Ok (b, w)) \<and>
        (b \<longrightarrow> \<not> w \<and> (pszDep, ?rule) \<in> (dep_edges st)\<^sup>*) \<and>
        (\<not> b \<and> \<not> w \<longrightarrow> (\<exists>V'. {pszDep} \<subseteq> V' \<and> closed_but st ?rule V' {}))"
        by (rule cyclic_loop_ok [OF G]) (use e in \<open>auto simp: closed_but_def pend_def\<close>)
      then obtain b w where bw: "cyclic_loop st ?rule deps [] [pszDep] = Some (Ok (b, w))"
        "b \<Longrightarrow> \<not> w \<and> (pszDep, ?rule) \<in> (dep_edges st)\<^sup>*"
        "\<not> b \<and> \<not> w \<Longrightarrow> \<exists>V'. {pszDep} \<subseteq> V' \<and> closed_but st ?rule V' {}" by blast
      have no: "(pszDep, ?rule) \<notin> (dep_edges st)\<^sup>*" if "\<not> b \<and> \<not> w"
      proof
        obtain V where V: "pszDep \<in> V" "closed_but st ?rule V {}" using bw(3) \<open>\<not> b \<and> \<not> w\<close> by auto
        assume "(pszDep, ?rule) \<in> (dep_edges st)\<^sup>*"
        moreover have "y \<noteq> ?rule \<and> (y \<in> V \<or> dep_array st y = Some None)"
          if "(pszDep, y) \<in> (dep_edges st)\<^sup>*" for y
          using that
        proof (induction rule: rtrancl_induct)
          case base
          then show ?case using V(1) ne by auto
        next
          case (step y z)
          then have "y \<in> V" by (auto simp: dep_edges_def)
          then show ?case using V(2) step(2) by (auto simp: closed_but_def)
        qed
        ultimately show False by blast
      qed
      then show ?thesis using bw no ne 2 n by (auto simp: depCheckCyclic_def)
    qed
  qed
qed

text \<open>
  C27: On a well-formed tree of rules \<open>depCheckCyclic\<close> returns, whatever the cycles and the size of
  the history. When it answers TRUE, the rule can be reached from the dependency through the
  dependencies of rules; when it answers FALSE without having printed its error, it can not.
\<close>

theorem depCheckCyclic_correct:
  assumes "avl_map (pdepTree st) xs"
  shows "\<exists>cyclic warned. depCheckCyclic st pdepRule pszDep = Some (Ok (cyclic, warned)) \<and>
    (\<not> warned \<longrightarrow> cyclic = ((pszDep, Key (cells (pdepTree st) pdepRule)) \<in> (dep_edges st)\<^sup>*)) \<and>
    (warned \<longrightarrow> \<not> cyclic)"
  by (rule depCheckCyclic_total [OF assms])

text \<open>A tree with the rules \<open>A\<close>, which depends on \<open>B\<close>, \<open>B\<close>, which depends on \<open>c\<close>, and \<open>c\<close>.\<close>

definition three_rules :: depstate where
  "three_rules = \<lparr>pdepTree = mem_of three, rules = (\<lambda>a.
     \<lparr>cDeps = (if a = 3 then 0 else 1),
      papszDep = (if a = 1 then Some [''B''] else if a = 2 then Some [''c''] else None),
      cAlloc = 50, fUpdated = True, szTS = []\<rparr>)\<rparr>"

lemma avl_map_three_rules: "avl_map (pdepTree three_rules) [(''A'', 1), (''B'', 2), (''c'', 3)]"
  using avl_map_three by (simp add: three_rules_def)

theorem depCheckCyclic_correct_witness:
  "\<exists>cyclic warned. depCheckCyclic three_rules 3 ''A'' = Some (Ok (cyclic, warned)) \<and>
    (\<not> warned \<longrightarrow> cyclic = ((''A'', Key (cells (pdepTree three_rules) 3)) \<in> (dep_edges three_rules)\<^sup>*))"
  using depCheckCyclic_correct [OF avl_map_three_rules, of 3 "''A''"] by blast

section \<open>The array of dependencies\<close>

text \<open>
  Between two reallocations, which come at every multiple of 48, the array has room for the
  dependencies up to the next one and for the terminator.
\<close>

definition rule_ok :: "deprule \<Rightarrow> bool" where
  "rule_ok r \<longleftrightarrow> (case papszDep r of
     None \<Rightarrow> cDeps r = 0
   | Some ds \<Rightarrow> length ds = cDeps r \<and>
       (cDeps r mod 48 \<noteq> 0 \<longrightarrow> 48 * (cDeps r div 48) + 50 \<le> cAlloc r))"

definition dep_list :: "deprule \<Rightarrow> string list" where
  "dep_list r = (case papszDep r of None \<Rightarrow> [] | Some ds \<Rightarrow> ds)"

lemma room_48:
  fixes n :: nat
  shows "n + 1 < 48 * (n div 48) + 50"
    and "Suc n mod 48 \<noteq> 0 \<Longrightarrow> Suc n div 48 = n div 48"
    and "n mod 48 = 0 \<Longrightarrow> 48 * (n div 48) = n"
proof -
  have "n = 48 * (n div 48) + n mod 48" "n mod 48 < 48" by simp_all
  then show "n + 1 < 48 * (n div 48) + 50" by linarith
  show "Suc n mod 48 \<noteq> 0 \<Longrightarrow> Suc n div 48 = n div 48" by (simp add: div_Suc)
  show "n mod 48 = 0 \<Longrightarrow> 48 * (n div 48) = n" by auto
qed

lemma append_dep_ok:
  assumes "rule_ok r" and "fConvertName \<Longrightarrow> \<not> caret_open psz"
    and "r' = (if cDeps r mod 48 = 0 then grow_deps r else r)"
  shows "\<exists>r'' ok. append_dep mallocOk r' psz fConvertName = Ok (r'', ok) \<and> rule_ok r'' \<and>
    (ok = mallocOk) \<and> (if ok then \<exists>s. dep_list r'' = dep_list r @ [s] \<and> (\<not> fConvertName \<longrightarrow> s = psz)
      else dep_list r'' = dep_list r)"
proof -
  obtain ds where ds: "papszDep r' = Some ds" "ds = dep_list r" "length ds = cDeps r"
    "cDeps r' = cDeps r"
    using assms(1,3) by (auto simp: rule_ok_def grow_deps_def dep_list_def split: option.splits)
  have room: "cDeps r + 1 < cAlloc r'"
    "48 * (cDeps r div 48) + 50 \<le> cAlloc r'"
    using assms(1,3) room_48(1) [of "cDeps r"] room_48(3) [of "cDeps r"] ds
    by (auto simp: rule_ok_def grow_deps_def split: option.splits)
  obtain k s where s: "(if fConvertName then depNameToReal psz else Ok (length psz, psz)) = Ok (k, s)"
    "\<not> fConvertName \<longrightarrow> s = psz"
  proof (cases fConvertName)
    case True
    then obtain n r where "real_loop psz = Ok (n, r)"
      using real_loop_cases [of psz] assms(2) by auto
    then show thesis using that True by (simp add: depNameToReal_def)
  qed (use that in simp)
  show ?thesis
  proof (cases mallocOk)
    case False
    then have "append_dep mallocOk r' psz fConvertName = Ok (r', False)"
      using ds room by (simp add: append_dep_def)
    moreover have "rule_ok r'" using ds room by (simp add: rule_ok_def)
    ultimately show ?thesis using False ds by (auto simp: dep_list_def)
  next
    case True
    let ?r = "r'\<lparr>papszDep := Some (ds @ [s]), cDeps := Suc (cDeps r)\<rparr>"
    have "append_dep mallocOk r' psz fConvertName = Ok (?r, True)"
      using True ds room s(1) by (simp add: append_dep_def)
    moreover have "rule_ok ?r" using ds room room_48(2) [of "cDeps r"] by (simp add: rule_ok_def)
    moreover have "dep_list ?r = dep_list r @ [s]" using ds by (simp add: dep_list_def)
    ultimately show ?thesis using True s(2) by auto
  qed
qed

text \<open>
  Adding a dependency to a rule always stays inside the rule's array, whether allocations fail
  or not, and leaves every other rule alone; when it succeeds the dependency is the last of the
  rule, and otherwise the rule has the dependencies it had, or none after a failed
  reallocation.
\<close>

theorem depAddDepend_correct:
  assumes "avl_map (pdepTree st) xs" and "rule_ok (rules st pdep)"
    and "fConvertName \<Longrightarrow> \<not> caret_open pszDep"
  shows "\<exists>st' ok. depAddDepend reallocOk mallocOk st pdep pszDep fCheckCyclic fConvertName =
      Some (Ok (st', ok)) \<and>
    pdepTree st' = pdepTree st \<and> rule_ok (rules st' pdep) \<and>
    (\<forall>a. a \<noteq> pdep \<longrightarrow> rules st' a = rules st a) \<and>
    (if ok then \<exists>s. dep_list (rules st' pdep) = dep_list (rules st pdep) @ [s] \<and>
        (\<not> fConvertName \<longrightarrow> s = pszDep)
     else dep_list (rules st' pdep) \<in> {dep_list (rules st pdep), []})"
proof (cases "pszDep = []")
  case True
  then show ?thesis using assms(2) by (auto simp: depAddDepend_def)
next
  case False
  obtain cyc w where c: "(if fCheckCyclic then depCheckCyclic st pdep pszDep else Some (Ok (False, False)))
      = Some (Ok (cyc, w))"
    using depCheckCyclic_total [OF assms(1), of pdep pszDep] by (cases fCheckCyclic) auto
  let ?r = "rules st pdep" and ?grow = "cDeps (rules st pdep) mod 48 = 0"
  show ?thesis
  proof (cases cyc)
    case True
    then show ?thesis using False c assms(2) by (auto simp: depAddDepend_def)
  next
    case ncyc: False
    show ?thesis
    proof (cases "?grow \<and> \<not> reallocOk")
      case True
      then show ?thesis using False c ncyc
        by (auto simp: depAddDepend_def Let_def rule_ok_def dep_list_def)
    next
      case g: False
      from append_dep_ok [where mallocOk = mallocOk, OF assms(2,3) refl] obtain r' ok where
        r': "append_dep mallocOk (if ?grow then grow_deps ?r else ?r) pszDep fConvertName = Ok (r', ok)"
          "rule_ok r'" "ok = mallocOk"
          "if ok then \<exists>s. dep_list r' = dep_list ?r @ [s] \<and> (\<not> fConvertName \<longrightarrow> s = pszDep)
           else dep_list r' = dep_list ?r" by blast
      have "depAddDepend reallocOk mallocOk st pdep pszDep fCheckCyclic fConvertName =
          Some (Ok (st\<lparr>rules := (rules st)(pdep := r')\<rparr>, ok))"
        using False c ncyc g r'(1) by (auto simp: depAddDepend_def Let_def)
      then show ?thesis using r' by auto
    qed
  qed
qed

theorem depAddDepend_correct_witness:
  "\<exists>st' s. depAddDepend True True three_rules 3 ''A'' True False = Some (Ok (st', s)) \<and>
    rule_ok (rules st' 3)"
proof -
  have "rule_ok (rules three_rules 3)" by (simp add: three_rules_def rule_ok_def)
  from depAddDepend_correct [OF avl_map_three_rules this, of False "''A''" True True True]
  show ?thesis by auto
qed

end
