(* ===== verification/Hash.thy ===== *)
theory Hash
  imports CLib "HOL-Library.Word"
begin

unbundle bit_operations_syntax

text \<open>
  The open-addressing hash table of kmk, \<open>src/kmk/hash.c\<close> and \<open>src/kmk/hash.h\<close>, and the key
  callbacks that \<open>src/kmk/function.c\<close> passes to it.

  An item is a pointer, of the type variable \<open>'a\<close>; a slot of the vector is null, the address
  \<open>hash_deleted_item\<close> or an item (\<open>slot\<close>). The address of a slot is its index in the vector. The
  callbacks are null or functions on items. Sizes and counters are \<open>unsigned long\<close> (64 bits),
  the two hash values of a search are \<open>unsigned int\<close> (32 bits), and their arithmetic wraps. The
  vector of a freed table has no slots, so every later access is out of bounds.

  A table made by \<open>hash_init_strcached\<close> takes its hash values from the string cache: \<open>ht_strcache\<close>
  is then the function that reads the hash word stored in front of a cached string
  (\<open>strcache2_get_hash\<close>), and \<open>ht_off_string\<close> reads the string pointer of an item.

  The search loops are partial functions: \<open>None\<close> is a search that never returns. The statistics
  counters under \<open>MAKE_STATS\<close> (a debugging option) stay zero. \<open>xcalloc\<close> does not return on
  failure.
\<close>

type_synonym ulong = "64 word"
type_synonym uint32 = "32 word"

section \<open>Hash functions\<close>

fun STRING_HASH_1 :: "string \<Rightarrow> ulong \<Rightarrow> ulong" where
  "STRING_HASH_1 [] RESULT = RESULT"
| "STRING_HASH_1 (c # cs) RESULT =
     STRING_HASH_1 cs (RESULT + push_bit (cord (peek cs) AND 0xf) (of_nat (cord c)))"

fun STRING_HASH_2 :: "string \<Rightarrow> ulong \<Rightarrow> ulong" where
  "STRING_HASH_2 [] RESULT = RESULT"
| "STRING_HASH_2 (c # cs) RESULT =
     STRING_HASH_2 cs (RESULT + push_bit (cord (peek cs) AND 0x7) (of_nat (cord c)))"

text \<open>
  The macros for counted strings: \<open>n\<close> is the value of \<open>_n_\<close> after its decrement, and the key
  pointer is the one before its increment. The last character is added unshifted.
\<close>

fun string_n_loop :: "nat \<Rightarrow> nat \<Rightarrow> string \<Rightarrow> ulong \<Rightarrow> ulong" where
  "string_n_loop msk 0 s RESULT = RESULT + of_nat (cord (peek s))"
| "string_n_loop msk (Suc n) s RESULT =
     (if peek s = NUL then RESULT + of_nat (cord (cget s 1))
      else string_n_loop msk n (tl s)
             (RESULT + push_bit (cord (cget s 1) AND msk) (of_nat (cord (peek s)))))"

definition STRING_N_HASH_1 :: "string \<Rightarrow> nat \<Rightarrow> ulong \<Rightarrow> ulong" where
  "STRING_N_HASH_1 KEY N RESULT = string_n_loop 0xf (N - 1) KEY RESULT"

definition STRING_N_HASH_2 :: "string \<Rightarrow> nat \<Rightarrow> ulong \<Rightarrow> ulong" where
  "STRING_N_HASH_2 KEY N RESULT = string_n_loop 0x7 (N - 1) KEY RESULT"

definition STRING_COMPARE :: "string \<Rightarrow> string \<Rightarrow> int" where
  "STRING_COMPARE X Y = (if X = Y then 0 else strcmp X Y)"

definition INTEGER_HASH_1 :: "ulong \<Rightarrow> ulong \<Rightarrow> ulong" where
  "INTEGER_HASH_1 KEY RESULT = RESULT + KEY"

definition INTEGER_HASH_2 :: "ulong \<Rightarrow> ulong \<Rightarrow> ulong" where
  "INTEGER_HASH_2 KEY RESULT = RESULT + NOT KEY"

definition ADDRESS_HASH_1 :: "ulong \<Rightarrow> ulong \<Rightarrow> ulong" where
  "ADDRESS_HASH_1 KEY RESULT = INTEGER_HASH_1 (drop_bit 3 KEY) RESULT"

definition ADDRESS_HASH_2 :: "ulong \<Rightarrow> ulong \<Rightarrow> ulong" where
  "ADDRESS_HASH_2 KEY RESULT = INTEGER_HASH_2 (drop_bit 3 KEY) RESULT"

section \<open>The table\<close>

datatype 'a slot = Empty | Deleted | Item 'a

fun HASH_VACANT :: "'a slot \<Rightarrow> bool" where
  "HASH_VACANT (Item x) = False"
| "HASH_VACANT _ = True"

record 'a hash_table =
  ht_vec :: "'a slot list"
  ht_hash_1 :: "('a \<Rightarrow> ulong) option"
  ht_hash_2 :: "('a \<Rightarrow> ulong) option"
  ht_compare :: "('a \<Rightarrow> 'a \<Rightarrow> int) option"
  ht_size :: ulong
  ht_capacity :: ulong
  ht_fill :: ulong
  ht_empty_slots :: ulong
  ht_collisions :: ulong
  ht_lookups :: ulong
  ht_rehashes :: uint32
  ht_strcache :: "(ulong \<Rightarrow> uint32) option"
  ht_off_string :: "'a \<Rightarrow> ulong"

definition round_up_2 :: "ulong \<Rightarrow> ulong" where
  "round_up_2 n =
     (let n = n OR drop_bit 1 n;
          n = n OR drop_bit 2 n;
          n = n OR drop_bit 4 n;
          n = n OR drop_bit 8 n;
          n = n OR drop_bit 16 n;
          n = n OR drop_bit 32 n
      in n + 1)"

text \<open>\<open>hash_init\<close> sets every field, so it takes no earlier table.\<close>

definition hash_init :: "ulong \<Rightarrow> ('a \<Rightarrow> ulong) option \<Rightarrow> ('a \<Rightarrow> ulong) option
    \<Rightarrow> ('a \<Rightarrow> 'a \<Rightarrow> int) option \<Rightarrow> ('a \<Rightarrow> ulong) \<Rightarrow> 'a hash_table" where
  "hash_init size0 hash_1 hash_2 hash_cmp off0 =
     (let n = round_up_2 size0
      in \<lparr>ht_vec = replicate (unat n) Empty,
          ht_hash_1 = hash_1, ht_hash_2 = hash_2, ht_compare = hash_cmp,
          ht_size = n, ht_capacity = n - n div 16, ht_fill = 0, ht_empty_slots = n,
          ht_collisions = 0, ht_lookups = 0, ht_rehashes = 0,
          ht_strcache = None, ht_off_string = off0\<rparr>)"

definition hash_init_strcached :: "ulong \<Rightarrow> (ulong \<Rightarrow> uint32) \<Rightarrow> ('a \<Rightarrow> ulong)
    \<Rightarrow> ('a \<Rightarrow> ulong) \<Rightarrow> 'a hash_table" where
  "hash_init_strcached size0 strcache off_string off0 =
     (hash_init size0 None None None off0)\<lparr>ht_strcache := Some strcache, ht_off_string := off_string\<rparr>"

section \<open>Searching\<close>

text \<open>
  One probe of the search loop: the search is over (\<open>Inl\<close>), or goes on with the first deleted
  slot seen so far (\<open>Inr\<close>).
\<close>

definition probe :: "'a hash_table \<Rightarrow> 'a \<Rightarrow> nat \<Rightarrow> nat option
    \<Rightarrow> (unit, nat) outcome + nat option" where
  "probe ht key slot deleted_slot =
     (if slot \<ge> length (ht_vec ht) then Inl (Undef OutOfBounds)
      else case ht_vec ht ! slot of
        Empty \<Rightarrow> Inl (Ok (case deleted_slot of Some d \<Rightarrow> d | None \<Rightarrow> slot))
      | Deleted \<Rightarrow> Inr (if deleted_slot = None then Some slot else deleted_slot)
      | Item x \<Rightarrow>
          if key = x then Inl (Ok slot)
          else (case ht_compare ht of
              None \<Rightarrow> Inl (Undef NullDeref)
            | Some compare \<Rightarrow> if compare key x = 0 then Inl (Ok slot) else Inr deleted_slot))"

definition mask_hash :: "'a hash_table \<Rightarrow> uint32 \<Rightarrow> uint32" where
  "mask_hash ht hash_1 = ucast (ucast hash_1 AND (ht_size ht - 1))"

partial_function (option) find_slot_loop :: "'a hash_table \<Rightarrow> 'a \<Rightarrow> uint32 \<Rightarrow> uint32
    \<Rightarrow> nat option \<Rightarrow> (unit, nat) outcome option" where
  "find_slot_loop ht key hash_1 hash_2 deleted_slot =
     (let hash_1 = mask_hash ht hash_1
      in case probe ht key (unat hash_1) deleted_slot of
           Inl r \<Rightarrow> Some r
         | Inr deleted_slot \<Rightarrow>
             if hash_2 = 0 then
               (case ht_hash_2 ht of
                  None \<Rightarrow> Some (Undef NullDeref)
                | Some h \<Rightarrow>
                    let hash_2 = ucast (h key OR 1)
                    in find_slot_loop ht key (hash_1 + hash_2) hash_2 deleted_slot)
             else find_slot_loop ht key (hash_1 + hash_2) hash_2 deleted_slot)"

definition hash_find_slot :: "'a hash_table \<Rightarrow> 'a \<Rightarrow> (unit, nat) outcome option" where
  "hash_find_slot ht key =
     (case ht_hash_1 ht of
        None \<Rightarrow> Some (Undef NullDeref)
      | Some h \<Rightarrow>
          if ht_strcache ht \<noteq> None then Some (Undef AssertFailed)
          else find_slot_loop ht key (ucast (h key)) 0 None)"

text \<open>The hash of a cached string that is its address without the bits that are always zero.\<close>

definition strcache2_calc_ptr_hash :: "ulong \<Rightarrow> uint32" where
  "strcache2_calc_ptr_hash str = ucast (drop_bit 6 str)"

definition probe_strcached :: "'a hash_table \<Rightarrow> ulong \<Rightarrow> nat \<Rightarrow> nat option
    \<Rightarrow> (unit, nat) outcome + nat option" where
  "probe_strcached ht str1 slot deleted_slot =
     (if slot \<ge> length (ht_vec ht) then Inl (Undef OutOfBounds)
      else case ht_vec ht ! slot of
        Empty \<Rightarrow> Inl (Ok (case deleted_slot of Some d \<Rightarrow> d | None \<Rightarrow> slot))
      | Deleted \<Rightarrow> Inr (if deleted_slot = None then Some slot else deleted_slot)
      | Item x \<Rightarrow> if str1 = ht_off_string ht x then Inl (Ok slot) else Inr deleted_slot)"

partial_function (option) find_slot_strcached_loop :: "'a hash_table \<Rightarrow> ulong \<Rightarrow> uint32 \<Rightarrow> uint32
    \<Rightarrow> nat option \<Rightarrow> (unit, nat) outcome option" where
  "find_slot_strcached_loop ht str1 hash_1 hash_2 deleted_slot =
     (let hash_1 = mask_hash ht hash_1
      in case probe_strcached ht str1 (unat hash_1) deleted_slot of
           Inl r \<Rightarrow> Some r
         | Inr deleted_slot \<Rightarrow>
             find_slot_strcached_loop ht str1 (hash_1 + hash_2) hash_2 deleted_slot)"

text \<open>The first iteration is unrolled: it tests the string before the deleted slot.\<close>

definition hash_find_slot_strcached :: "'a hash_table \<Rightarrow> 'a \<Rightarrow> (unit, nat) outcome option" where
  "hash_find_slot_strcached ht key =
     (let str1 = ht_off_string ht key;
          hash_1 = strcache2_calc_ptr_hash str1
      in case ht_strcache ht of
           None \<Rightarrow> Some (Undef AssertFailed)
         | Some strcache2_get_hash \<Rightarrow>
             let hash_1 = mask_hash ht hash_1;
                 slot = unat hash_1;
                 hash_2 = strcache2_get_hash str1 OR 1
             in if slot \<ge> length (ht_vec ht) then Some (Undef OutOfBounds)
                else case ht_vec ht ! slot of
                  Empty \<Rightarrow> Some (Ok slot)
                | Item x \<Rightarrow>
                    if str1 = ht_off_string ht x then Some (Ok slot)
                    else find_slot_strcached_loop ht str1 (hash_1 + hash_2) hash_2 None
                | Deleted \<Rightarrow>
                    find_slot_strcached_loop ht str1 (hash_1 + hash_2) hash_2 (Some slot))"

text \<open>Sequencing of calls that may fault or not return.\<close>

definition then_do :: "('e, 'b) outcome option \<Rightarrow> ('b \<Rightarrow> ('e, 'c) outcome option)
    \<Rightarrow> ('e, 'c) outcome option" where
  "then_do m f =
     (case m of
        None \<Rightarrow> None
      | Some (Ok x) \<Rightarrow> f x
      | Some (Fatal e) \<Rightarrow> Some (Fatal e)
      | Some (Undef u) \<Rightarrow> Some (Undef u))"

lemma then_do_simps [simp]:
  "then_do (Some (Ok x)) f = f x"
  "then_do (Some (Undef u)) f = Some (Undef u)"
  "then_do (Some (Fatal e)) f = Some (Fatal e)"
  "then_do None f = None"
  by (simp_all add: then_do_def)

definition slot_at :: "'a hash_table \<Rightarrow> nat \<Rightarrow> (unit, 'a slot) outcome option" where
  "slot_at ht slot =
     (if slot < length (ht_vec ht) then Some (Ok (ht_vec ht ! slot)) else Some (Undef OutOfBounds))"

fun item_or_null :: "'a slot \<Rightarrow> 'a option" where
  "item_or_null (Item x) = Some x"
| "item_or_null _ = None"

definition hash_find_item :: "'a hash_table \<Rightarrow> 'a \<Rightarrow> (unit, 'a option) outcome option" where
  "hash_find_item ht key =
     then_do (hash_find_slot ht key) (\<lambda>slot.
     then_do (slot_at ht slot) (\<lambda>v. Some (Ok (item_or_null v))))"

definition hash_find_item_strcached :: "'a hash_table \<Rightarrow> 'a \<Rightarrow> (unit, 'a option) outcome option" where
  "hash_find_item_strcached ht key =
     then_do (hash_find_slot_strcached ht key) (\<lambda>slot.
     then_do (slot_at ht slot) (\<lambda>v. Some (Ok (item_or_null v))))"

section \<open>Rehashing and inserting\<close>

definition find_slot_any :: "'a hash_table \<Rightarrow> 'a \<Rightarrow> (unit, nat) outcome option" where
  "find_slot_any ht key =
     (if ht_strcache ht \<noteq> None then hash_find_slot_strcached ht key else hash_find_slot ht key)"

text \<open>The loop over the old vector; each item goes to the slot found for it in the new one.\<close>

fun rehash_loop :: "'a slot list \<Rightarrow> 'a hash_table \<Rightarrow> (unit, 'a hash_table) outcome option" where
  "rehash_loop [] ht = Some (Ok ht)"
| "rehash_loop (v # ovp) ht =
     (case v of
        Item x \<Rightarrow>
          then_do (find_slot_any ht x) (\<lambda>slot.
            rehash_loop ovp (ht\<lparr>ht_vec := (ht_vec ht)[slot := v]\<rparr>))
      | _ \<Rightarrow> rehash_loop ovp ht)"

definition grow :: "'a hash_table \<Rightarrow> 'a hash_table" where
  "grow ht =
     (if ht_fill ht \<ge> ht_capacity ht then
        (let size1 = ht_size ht * 2
         in ht\<lparr>ht_size := size1, ht_capacity := size1 - drop_bit 4 size1\<rparr>)
      else ht)"

definition hash_rehash :: "'a hash_table \<Rightarrow> (unit, 'a hash_table) outcome option" where
  "hash_rehash ht =
     (let old_vec = ht_vec ht;
          ht = grow ht;
          ht = ht\<lparr>ht_rehashes := ht_rehashes ht + 1, ht_vec := replicate (unat (ht_size ht)) Empty\<rparr>
      in then_do (rehash_loop old_vec ht) (\<lambda>ht.
           Some (Ok (ht\<lparr>ht_empty_slots := ht_size ht - ht_fill ht\<rparr>))))"

definition hash_insert_at :: "'a hash_table \<Rightarrow> 'a \<Rightarrow> nat
    \<Rightarrow> (unit, 'a hash_table \<times> nat) outcome option" where
  "hash_insert_at ht item slot =
     then_do (slot_at ht slot) (\<lambda>old_item.
       let ht = (if HASH_VACANT old_item then
                   (let ht = ht\<lparr>ht_fill := ht_fill ht + 1\<rparr>
                    in case old_item of
                         Empty \<Rightarrow> ht\<lparr>ht_empty_slots := ht_empty_slots ht - 1\<rparr>
                       | _ \<Rightarrow> ht)
                 else ht);
           ht = ht\<lparr>ht_vec := (ht_vec ht)[slot := Item item]\<rparr>
       in if ht_empty_slots ht < ht_size ht - ht_capacity ht then
            then_do (hash_rehash ht) (\<lambda>ht.
            then_do (find_slot_any ht item) (\<lambda>slot. Some (Ok (ht, slot))))
          else Some (Ok (ht, slot)))"

definition hash_insert :: "'a hash_table \<Rightarrow> 'a
    \<Rightarrow> (unit, 'a hash_table \<times> 'a option) outcome option" where
  "hash_insert ht item =
     then_do (hash_find_slot ht item) (\<lambda>slot.
     then_do (slot_at ht slot) (\<lambda>old_item.
     then_do (hash_insert_at ht item slot) (\<lambda>(ht, _).
       Some (Ok (ht, item_or_null old_item)))))"

definition hash_insert_strcached :: "'a hash_table \<Rightarrow> 'a
    \<Rightarrow> (unit, 'a hash_table \<times> 'a option) outcome option" where
  "hash_insert_strcached ht item =
     then_do (hash_find_slot_strcached ht item) (\<lambda>slot.
     then_do (slot_at ht slot) (\<lambda>old_item.
     then_do (hash_insert_at ht item slot) (\<lambda>(ht, _).
       Some (Ok (ht, item_or_null old_item)))))"

text \<open>\<open>hash_load\<close> on the items \<open>items\<close>, \<open>items + size\<close> and so on.\<close>

fun hash_load :: "'a hash_table \<Rightarrow> 'a list \<Rightarrow> (unit, 'a hash_table) outcome option" where
  "hash_load ht [] = Some (Ok ht)"
| "hash_load ht (x # items) =
     then_do (if ht_strcache ht \<noteq> None then hash_insert_strcached ht x else hash_insert ht x)
       (\<lambda>(ht, _). hash_load ht items)"

section \<open>Deleting\<close>

definition hash_delete_at :: "'a hash_table \<Rightarrow> nat
    \<Rightarrow> (unit, 'a hash_table \<times> 'a option) outcome option" where
  "hash_delete_at ht slot =
     then_do (slot_at ht slot) (\<lambda>v.
       case v of
         Item item \<Rightarrow>
           Some (Ok (ht\<lparr>ht_vec := (ht_vec ht)[slot := Deleted], ht_fill := ht_fill ht - 1\<rparr>, Some item))
       | _ \<Rightarrow> Some (Ok (ht, None)))"

definition hash_delete :: "'a hash_table \<Rightarrow> 'a
    \<Rightarrow> (unit, 'a hash_table \<times> 'a option) outcome option" where
  "hash_delete ht item = then_do (hash_find_slot ht item) (\<lambda>slot. hash_delete_at ht slot)"

definition hash_delete_strcached :: "'a hash_table \<Rightarrow> 'a
    \<Rightarrow> (unit, 'a hash_table \<times> 'a option) outcome option" where
  "hash_delete_strcached ht item =
     then_do (hash_find_slot_strcached ht item) (\<lambda>slot. hash_delete_at ht slot)"

text \<open>The items of the vector in its order: what the loops over all slots visit.\<close>

definition visited :: "'a slot list \<Rightarrow> 'a list" where
  "visited vec = concat (List.map (\<lambda>v. case v of Item x \<Rightarrow> [x] | _ \<Rightarrow> []) vec)"

text \<open>
  The functions that release items return them, in the order of the calls to \<open>free\<close> or
  \<open>alloccache_free\<close>.
\<close>

definition hash_free_items :: "'a hash_table \<Rightarrow> 'a hash_table \<times> 'a list" where
  "hash_free_items ht =
     (ht\<lparr>ht_vec := List.map (\<lambda>_. Empty) (ht_vec ht), ht_fill := 0, ht_empty_slots := ht_size ht\<rparr>,
      visited (ht_vec ht))"

definition hash_delete_items :: "'a hash_table \<Rightarrow> 'a hash_table" where
  "hash_delete_items ht =
     ht\<lparr>ht_vec := List.map (\<lambda>_. Empty) (ht_vec ht), ht_fill := 0, ht_collisions := 0,
        ht_lookups := 0, ht_rehashes := 0, ht_empty_slots := ht_size ht\<rparr>"

definition hash_free :: "'a hash_table \<Rightarrow> bool \<Rightarrow> 'a hash_table \<times> 'a list" where
  "hash_free ht free_items =
     (let (ht, freed) =
            (if free_items then hash_free_items ht
             else (ht\<lparr>ht_fill := 0, ht_empty_slots := ht_size ht\<rparr>, []))
      in (ht\<lparr>ht_vec := [], ht_capacity := 0\<rparr>, freed))"

section \<open>Visiting the items\<close>

text \<open>\<open>hash_map_arg\<close> threads the state of the callback through its calls.\<close>

definition hash_map_arg :: "'a hash_table \<Rightarrow> ('a \<Rightarrow> 's \<Rightarrow> 's) \<Rightarrow> 's \<Rightarrow> 's" where
  "hash_map_arg ht f s =
     foldl (\<lambda>s slot. if \<not> HASH_VACANT slot then (case slot of Item x \<Rightarrow> f x s | _ \<Rightarrow> s) else s)
       s (ht_vec ht)"

text \<open>
  \<open>hash_dump\<close>: the vector it returns, without the null at its end; \<open>qsort\<close> stands for the C
  library's sorting of the first \<open>ht_fill\<close> elements with the given comparison.
\<close>

fun dump_loop :: "'a slot list \<Rightarrow> 'a list \<Rightarrow> 'a list" where
  "dump_loop [] vector = vector"
| "dump_loop (v # slots) vector =
     dump_loop slots (case v of Item x \<Rightarrow> vector @ [x] | _ \<Rightarrow> vector)"

definition hash_dump :: "(('a \<Rightarrow> 'a \<Rightarrow> int) \<Rightarrow> 'a list \<Rightarrow> 'a list) \<Rightarrow> 'a hash_table
    \<Rightarrow> ('a \<Rightarrow> 'a \<Rightarrow> int) option \<Rightarrow> 'a list" where
  "hash_dump qsort ht compare =
     (let vector = dump_loop (ht_vec ht) []
      in case compare of
           None \<Rightarrow> vector
         | Some cmp \<Rightarrow>
             qsort cmp (take (unat (ht_fill ht)) vector) @ drop (unat (ht_fill ht)) vector)"

section \<open>The keys of the word table of function.c\<close>

text \<open>The parts of \<open>struct a_word\<close> that the callbacks read. A key is a pointer, read in \<open>mem\<close>.\<close>

record a_word =
  str :: string
  word_length :: int

definition a_word_hash_1 :: "('p \<Rightarrow> a_word) \<Rightarrow> 'p \<Rightarrow> ulong" where
  "a_word_hash_1 mem key = STRING_HASH_1 (str (mem key)) 0"

definition a_word_hash_2 :: "('p \<Rightarrow> a_word) \<Rightarrow> 'p \<Rightarrow> ulong" where
  "a_word_hash_2 mem key = STRING_HASH_2 (str (mem key)) 0"

definition a_word_hash_cmp :: "('p \<Rightarrow> a_word) \<Rightarrow> 'p \<Rightarrow> 'p \<Rightarrow> int" where
  "a_word_hash_cmp mem x y =
     (let result = word_length (mem x) - word_length (mem y)
      in if result \<noteq> 0 then result else STRING_COMPARE (str (mem x)) (str (mem y)))"

end
