(* ===== verification/HashProbe.thy ===== *)
theory HashProbe
  imports Hash
begin

unbundle bit_operations_syntax

text \<open>
  The probe sequence of the hash table: the odd increment makes it visit every slot, so a search
  ends when there is an empty slot. The contract on the callbacks is the locale \<open>hash_keys\<close>; the
  invariant \<open>hash_rep\<close> of the items is kept when an item is stored at the slot found for it and
  when an item is replaced by the deletion mark.
\<close>

lemma unat_mask_hash:
  assumes "ht_size ht = 2 ^ k" and "k \<le> 32"
  shows "unat (mask_hash ht h) = unat h mod 2 ^ k"
proof -
  have "ht_size ht - 1 = mask k"
    using assms(1) by (simp add: mask_eq_exp_minus_1)
  then have "mask_hash ht h = ucast (take_bit k (ucast h :: ulong))"
    by (simp add: mask_hash_def take_bit_eq_mask)
  also have "unat \<dots> = take_bit 32 (take_bit k (take_bit 64 (unat h)))"
    using assms(2) by (simp only: unsigned_ucast_eq unsigned_take_bit_eq) (simp add: min_def)
  also have "\<dots> = unat h mod 2 ^ k"
  proof -
    have "unat h < 2 ^ 32" using unsigned_less [of h, where ?'a = nat] by simp
    moreover from this have "unat h mod 2 ^ k < 2 ^ 32"
      by (rule le_less_trans [OF mod_less_eq_dividend])
    ultimately show ?thesis by (simp add: take_bit_eq_mod)
  qed
  finally show ?thesis .
qed

lemma unat_mask_hash_step:
  assumes "ht_size ht = 2 ^ k" and "k \<le> 32"
  shows "unat (mask_hash ht (mask_hash ht h + d)) = (unat h + unat d) mod 2 ^ k"
proof -
  have "(2::nat) ^ k dvd 2 ^ 32" using assms(2) by (rule le_imp_power_dvd)
  then show ?thesis
    by (simp add: unat_mask_hash [OF assms] unat_word_ariths mod_mod_cancel mod_add_left_eq)
qed

lemma odd_hash_2: "odd (unat (ucast (w OR 1 :: ulong) :: uint32))"
proof -
  have "bit (unat (ucast (w OR 1 :: ulong) :: uint32)) 0"
    by (simp only: bit_simps) simp
  then show ?thesis by (simp add: bit_0)
qed

lemma odd_hash_2_nonzero: "(ucast (w OR 1 :: ulong) :: uint32) \<noteq> 0"
  using odd_hash_2 [of w] by auto

section \<open>Probe sequences\<close>

text \<open>The slot of the \<open>j\<close>-th probe for a key.\<close>

definition slot_path :: "'a hash_table \<Rightarrow> 'a \<Rightarrow> nat \<Rightarrow> nat" where
  "slot_path ht key j =
     (unat (ucast (the (ht_hash_1 ht) key) :: uint32)
      + j * unat (ucast (the (ht_hash_2 ht) key OR 1) :: uint32)) mod length (ht_vec ht)"

lemma odd_step_inj:
  fixes a d :: nat
  assumes "odd d" and "(a + i * d) mod 2 ^ k = (a + j * d) mod 2 ^ k" and "i \<le> j" and "j < 2 ^ k"
  shows "i = j"
proof -
  have "2 ^ k dvd (a + j * d) - (a + i * d)"
    using mod_eq_dvd_iff_nat [of "a + i * d" "a + j * d" "2 ^ k"] assms(2,3)
    by (metis add_le_mono1 add.commute mult_le_mono1)
  also have "(a + j * d) - (a + i * d) = (j - i) * d"
    by (simp add: diff_mult_distrib)
  finally have "2 ^ k dvd j - i"
    using assms(1) by (simp add: coprime_dvd_mult_left_iff)
  then show "i = j" using assms(3,4) by (meson diff_diff_cancel dvd_imp_le le_less_trans leD diff_le_self nat_less_le zero_less_diff)
qed

lemma slot_path_covers:
  assumes "length (ht_vec ht) = 2 ^ k" and "i < length (ht_vec ht)"
  shows "\<exists>n < length (ht_vec ht). slot_path ht key n = i"
proof -
  let ?N = "length (ht_vec ht)"
  have "inj_on (slot_path ht key) {..<?N}"
  proof (rule linorder_inj_onI)
    fix x y assume "x < y" and xy: "x \<in> {..<?N}" "y \<in> {..<?N}"
    then show "slot_path ht key x \<noteq> slot_path ht key y"
      using odd_step_inj [OF odd_hash_2, where i = x and j = y and k = k] assms(1)
      unfolding slot_path_def by fastforce
  qed auto
  moreover have "slot_path ht key ` {..<?N} \<subseteq> {..<?N}"
    using assms by (auto simp: slot_path_def)
  ultimately have "slot_path ht key ` {..<?N} = {..<?N}"
    by (simp add: card_image card_subset_eq)
  then show ?thesis using assms(2) by (metis imageE lessThan_iff)
qed

section \<open>Lawful tables\<close>

text \<open>
  What a table asks of its callbacks: keys that compare equal form an equivalence, and they have
  the same hash values.
\<close>

locale hash_keys =
  fixes h1 :: "'a \<Rightarrow> ulong" and h2 :: "'a \<Rightarrow> ulong" and cmp :: "'a \<Rightarrow> 'a \<Rightarrow> int"
  assumes cmp_refl: "cmp x x = 0"
    and cmp_sym: "cmp x y = 0 \<Longrightarrow> cmp y x = 0"
    and cmp_trans: "cmp x y = 0 \<Longrightarrow> cmp y z = 0 \<Longrightarrow> cmp x z = 0"
    and h1_cong: "cmp x y = 0 \<Longrightarrow> h1 x = h1 y"
    and h2_cong: "cmp x y = 0 \<Longrightarrow> h2 x = h2 y"

definition hash_shape :: "('a \<Rightarrow> ulong) \<Rightarrow> ('a \<Rightarrow> ulong) \<Rightarrow> ('a \<Rightarrow> 'a \<Rightarrow> int) \<Rightarrow> 'a hash_table \<Rightarrow> bool" where
  "hash_shape h1 h2 cmp ht \<longleftrightarrow>
     ht_hash_1 ht = Some h1 \<and> ht_hash_2 ht = Some h2 \<and> ht_compare ht = Some cmp
     \<and> ht_strcache ht = None
     \<and> (\<exists>k \<le> 32. ht_size ht = 2 ^ k \<and> length (ht_vec ht) = 2 ^ k)"

lemma hash_shapeE:
  assumes "hash_shape h1 h2 cmp ht"
  obtains k where "k \<le> 32" and "ht_size ht = 2 ^ k" and "length (ht_vec ht) = 2 ^ k"
  using assms by (auto simp: hash_shape_def)

lemma slot_path_less [intro]: "hash_shape h1 h2 cmp ht \<Longrightarrow> slot_path ht key n < length (ht_vec ht)"
  by (auto simp: slot_path_def elim!: hash_shapeE)

text \<open>The search for a key ends at an empty slot or an item with that key.\<close>

fun stops :: "('a \<Rightarrow> 'a \<Rightarrow> int) \<Rightarrow> 'a \<Rightarrow> 'a slot \<Rightarrow> bool" where
  "stops cmp key Empty = True"
| "stops cmp key Deleted = False"
| "stops cmp key (Item x) = (key = x \<or> cmp key x = 0)"

lemma find_loop:
  assumes shape: "hash_shape h1 h2 cmp ht"
    and "j \<le> n"
    and "\<forall>m. j \<le> m \<and> m < n \<longrightarrow> \<not> stops cmp key (ht_vec ht ! slot_path ht key m)"
    and stop: "stops cmp key (ht_vec ht ! slot_path ht key n)"
    and "unat h mod length (ht_vec ht) = slot_path ht key j"
    and "hash_2 = 0 \<or> hash_2 = ucast (h2 key OR 1)"
  shows "\<exists>s. find_slot_loop ht key h hash_2 ds = Some (Ok s) \<and>
    (s = slot_path ht key n \<or>
     ht_vec ht ! slot_path ht key n = Empty \<and>
       (ds = Some s \<or> (\<exists>m. j \<le> m \<and> m < n \<and> s = slot_path ht key m \<and> ht_vec ht ! s = Deleted)))"
  using assms(2-)
proof (induction "n - j" arbitrary: j h hash_2 ds)
  case 0
  then have j: "j = n" by simp
  obtain k where k: "k \<le> 32" "ht_size ht = 2 ^ k" "length (ht_vec ht) = 2 ^ k"
    using shape by (rule hash_shapeE)
  have idx: "unat (mask_hash ht h) = slot_path ht key n"
    using unat_mask_hash [OF k(2,1)] "0.prems"(4) k(3) j by simp
  have len: "slot_path ht key n < length (ht_vec ht)" using shape by (rule slot_path_less)
  have "\<exists>s. probe ht key (slot_path ht key n) ds = Inl (Ok s) \<and>
    (s = slot_path ht key n \<or> ht_vec ht ! slot_path ht key n = Empty \<and> ds = Some s)"
    using stop len shape
    by (cases "ht_vec ht ! slot_path ht key n"; cases ds) (auto simp: probe_def hash_shape_def)
  then show ?case
    by (subst find_slot_loop.simps) (auto simp: idx)
next
  case (Suc x)
  then have j: "j < n" by simp
  obtain k where k: "k \<le> 32" "ht_size ht = 2 ^ k" "length (ht_vec ht) = 2 ^ k"
    using shape by (rule hash_shapeE)
  let ?p = "slot_path ht key j" and ?d = "ucast (h2 key OR 1) :: uint32"
  have idx: "unat (mask_hash ht h) = ?p"
    using unat_mask_hash [OF k(2,1)] Suc.prems(4) k(3) by simp
  have len: "?p < length (ht_vec ht)" using shape by (rule slot_path_less)
  have ns: "\<not> stops cmp key (ht_vec ht ! ?p)" using Suc.prems(2) j by simp
  let ?ds = "if ht_vec ht ! ?p = Deleted \<and> ds = None then Some ?p else ds"
  have probe: "probe ht key ?p ds = Inr ?ds"
    using ns len shape by (cases "ht_vec ht ! ?p") (auto simp: probe_def hash_shape_def)
  have step: "find_slot_loop ht key h hash_2 ds = find_slot_loop ht key (mask_hash ht h + ?d) ?d ?ds"
    using Suc.prems(5) shape odd_hash_2_nonzero [of "h2 key"]
    by (subst find_slot_loop.simps) (auto simp: idx probe hash_shape_def Let_def)
  have d: "the (ht_hash_2 ht) = h2" using shape by (simp add: hash_shape_def)
  have "unat (mask_hash ht h + ?d) mod 2 ^ k = (unat h + unat ?d) mod 2 ^ k"
    using unat_mask_hash_step [OF k(2,1), of h ?d] unat_mask_hash [OF k(2,1)] by simp
  also have "\<dots> = (unat h mod 2 ^ k + unat ?d) mod 2 ^ k"
    by (simp add: mod_add_left_eq)
  also have "\<dots> = slot_path ht key (Suc j)"
    using Suc.prems(4) by (simp add: slot_path_def k(3) d mod_add_left_eq mod_add_right_eq algebra_simps)
  finally have nxt: "unat (mask_hash ht h + ?d) mod length (ht_vec ht) = slot_path ht key (Suc j)"
    by (simp add: k(3))
  have "x = n - Suc j" using Suc.hyps(2) by simp
  moreover have "Suc j \<le> n" using j by simp
  moreover have "\<forall>m. Suc j \<le> m \<and> m < n \<longrightarrow> \<not> stops cmp key (ht_vec ht ! slot_path ht key m)"
    using Suc.prems(2) by simp
  ultimately obtain s where s: "find_slot_loop ht key (mask_hash ht h + ?d) ?d ?ds = Some (Ok s)"
    "s = slot_path ht key n \<or>
     ht_vec ht ! slot_path ht key n = Empty \<and>
       (?ds = Some s \<or> (\<exists>m. Suc j \<le> m \<and> m < n \<and> s = slot_path ht key m \<and> ht_vec ht ! s = Deleted))"
    using Suc.hyps(1) [OF _ _ _ stop nxt, of ?d ?ds] by blast
  moreover have "?ds = Some s \<Longrightarrow> ds = Some s \<or> s = ?p \<and> ht_vec ht ! s = Deleted"
    by (auto split: if_splits)
  moreover have "\<exists>m. j \<le> m \<and> m < n \<and> s = slot_path ht key m \<and> ht_vec ht ! s = Deleted"
    if "Suc j \<le> m \<and> m < n \<and> s = slot_path ht key m \<and> ht_vec ht ! s = Deleted" for m
    using that by (blast intro: Suc_leD)
  moreover have "\<exists>m. j \<le> m \<and> m < n \<and> s = slot_path ht key m \<and> ht_vec ht ! s = Deleted"
    if "s = ?p \<and> ht_vec ht ! s = Deleted"
    using that j by blast
  ultimately show ?case unfolding step by blast
qed

text \<open>The slot a search returns.\<close>

definition good_slot :: "('a \<Rightarrow> 'a \<Rightarrow> int) \<Rightarrow> 'a hash_table \<Rightarrow> 'a \<Rightarrow> nat \<Rightarrow> bool" where
  "good_slot cmp ht key s \<longleftrightarrow>
     (\<exists>n m. m \<le> n \<and> s = slot_path ht key m
        \<and> (\<forall>i < n. \<not> stops cmp key (ht_vec ht ! slot_path ht key i))
        \<and> stops cmp key (ht_vec ht ! slot_path ht key n)
        \<and> (m = n \<or> ht_vec ht ! slot_path ht key n = Empty \<and> ht_vec ht ! s = Deleted))"

lemma hash_find_slot_good:
  assumes shape: "hash_shape h1 h2 cmp ht" and "Empty \<in> set (ht_vec ht)"
  shows "\<exists>s. hash_find_slot ht key = Some (Ok s) \<and> good_slot cmp ht key s"
proof -
  obtain k where k: "k \<le> 32" "ht_size ht = 2 ^ k" "length (ht_vec ht) = 2 ^ k"
    using shape by (rule hash_shapeE)
  obtain i where "i < length (ht_vec ht)" "ht_vec ht ! i = Empty"
    using assms(2) by (auto simp: in_set_conv_nth)
  then have "\<exists>e. slot_path ht key e = i" using slot_path_covers [OF k(3)] by blast
  then obtain e where "slot_path ht key e = i" by blast
  with \<open>ht_vec ht ! i = Empty\<close> have e: "stops cmp key (ht_vec ht ! slot_path ht key e)"
    by simp
  obtain n where stop: "stops cmp key (ht_vec ht ! slot_path ht key n)"
    and before: "\<forall>m < n. \<not> stops cmp key (ht_vec ht ! slot_path ht key m)"
    using e exists_least_iff [of "\<lambda>n. stops cmp key (ht_vec ht ! slot_path ht key n)"] by blast
  have "unat (ucast (h1 key) :: uint32) mod length (ht_vec ht) = slot_path ht key 0"
    using shape by (simp add: slot_path_def hash_shape_def)
  then have "\<exists>s. find_slot_loop ht key (ucast (h1 key)) 0 None = Some (Ok s) \<and>
    (s = slot_path ht key n \<or>
     ht_vec ht ! slot_path ht key n = Empty \<and>
       (None = Some s \<or> (\<exists>m. 0 \<le> m \<and> m < n \<and> s = slot_path ht key m \<and> ht_vec ht ! s = Deleted)))"
    using find_loop [OF shape le0 _ stop, where h = "ucast (h1 key)" and ?hash_2.0 = 0 and ds = None] before
    by blast
  then obtain s where s: "find_slot_loop ht key (ucast (h1 key)) 0 None = Some (Ok s)"
    "s = slot_path ht key n \<or> ht_vec ht ! slot_path ht key n = Empty \<and>
       (\<exists>m < n. s = slot_path ht key m \<and> ht_vec ht ! s = Deleted)"
    by blast
  from s(2) have "good_slot cmp ht key s"
  proof (elim disjE conjE exE)
    assume "s = slot_path ht key n"
    then show ?thesis unfolding good_slot_def
      by (intro exI [of _ n] exI [of _ n]) (simp add: stop before)
  next
    fix m assume "ht_vec ht ! slot_path ht key n = Empty" "m < n" "s = slot_path ht key m"
      "ht_vec ht ! s = Deleted"
    then show ?thesis unfolding good_slot_def
      by (intro exI [of _ n] exI [of _ m]) (simp add: before)
  qed
  moreover have "hash_find_slot ht key = Some (Ok s)"
    using s(1) shape by (simp add: hash_find_slot_def hash_shape_def)
  ultimately show ?thesis by blast
qed

section \<open>The invariant of the items\<close>

definition hash_items :: "'a hash_table \<Rightarrow> 'a set" where
  "hash_items ht = {x. Item x \<in> set (ht_vec ht)}"

text \<open>Every item is reached from its hash value without crossing an empty slot.\<close>

definition reachable_items :: "'a hash_table \<Rightarrow> bool" where
  "reachable_items ht \<longleftrightarrow>
     (\<forall>i < length (ht_vec ht). \<forall>x. ht_vec ht ! i = Item x \<longrightarrow>
        (\<exists>n. slot_path ht x n = i \<and> (\<forall>m < n. ht_vec ht ! slot_path ht x m \<noteq> Empty)))"

definition distinct_keys :: "('a \<Rightarrow> 'a \<Rightarrow> int) \<Rightarrow> 'a slot list \<Rightarrow> bool" where
  "distinct_keys cmp vec \<longleftrightarrow>
     (\<forall>i < length vec. \<forall>j < length vec. \<forall>x y.
        vec ! i = Item x \<longrightarrow> vec ! j = Item y \<longrightarrow> cmp x y = 0 \<longrightarrow> i = j)"

definition hash_rep :: "('a \<Rightarrow> ulong) \<Rightarrow> ('a \<Rightarrow> ulong) \<Rightarrow> ('a \<Rightarrow> 'a \<Rightarrow> int) \<Rightarrow> 'a hash_table \<Rightarrow> bool" where
  "hash_rep h1 h2 cmp ht \<longleftrightarrow>
     hash_shape h1 h2 cmp ht \<and> reachable_items ht \<and> distinct_keys cmp (ht_vec ht)"

lemma slot_path_vec [simp]:
  "length vec = length (ht_vec ht) \<Longrightarrow> slot_path (ht\<lparr>ht_vec := vec\<rparr>) = slot_path ht"
  by (intro ext) (simp add: slot_path_def)

lemma slot_path_counts [simp]:
  "slot_path (ht\<lparr>ht_fill := f\<rparr>) = slot_path ht"
  "slot_path (ht\<lparr>ht_empty_slots := f\<rparr>) = slot_path ht"
  by (intro ext; simp add: slot_path_def)+

lemma hash_shape_vec [simp]:
  "length vec = length (ht_vec ht) \<Longrightarrow>
    hash_shape h1 h2 cmp (ht\<lparr>ht_vec := vec\<rparr>) = hash_shape h1 h2 cmp ht"
  by (simp add: hash_shape_def)

lemma hash_rep_counts [simp]:
  "hash_rep h1 h2 cmp (ht\<lparr>ht_fill := f\<rparr>) = hash_rep h1 h2 cmp ht"
  "hash_rep h1 h2 cmp (ht\<lparr>ht_empty_slots := f\<rparr>) = hash_rep h1 h2 cmp ht"
  by (simp_all add: hash_rep_def hash_shape_def reachable_items_def)

lemma good_slot_less: "hash_shape h1 h2 cmp ht \<Longrightarrow> good_slot cmp ht key s \<Longrightarrow> s < length (ht_vec ht)"
  by (auto simp: good_slot_def)

lemma good_slot_Item:
  assumes "good_slot cmp ht key s" and "ht_vec ht ! s = Item x"
  shows "key = x \<or> cmp key x = 0"
  using assms by (auto simp: good_slot_def)

context hash_keys
begin

lemma slot_path_cong:
  "hash_shape h1 h2 cmp ht \<Longrightarrow> cmp x y = 0 \<Longrightarrow> slot_path ht x = slot_path ht y"
  by (intro ext) (simp add: slot_path_def hash_shape_def h1_cong [of x y] h2_cong [of x y])

lemma key_compare: "key = x \<or> cmp key x = 0 \<longleftrightarrow> cmp key x = 0"
  using cmp_refl by auto

text \<open>A search that ends at a vacant slot has missed no item.\<close>

lemma good_slot_vacant:
  assumes rep: "hash_rep h1 h2 cmp ht" and good: "good_slot cmp ht key s"
    and "HASH_VACANT (ht_vec ht ! s)" and y: "y \<in> hash_items ht"
  shows "cmp key y \<noteq> 0"
proof
  assume eq: "cmp key y = 0"
  have shape: "hash_shape h1 h2 cmp ht" using rep by (simp add: hash_rep_def)
  obtain n where before: "\<forall>i < n. \<not> stops cmp key (ht_vec ht ! slot_path ht key i)"
    and empty: "ht_vec ht ! slot_path ht key n = Empty"
  proof -
    obtain n m where nm: "\<forall>i < n. \<not> stops cmp key (ht_vec ht ! slot_path ht key i)"
      "stops cmp key (ht_vec ht ! slot_path ht key n)" "s = slot_path ht key m"
      "m = n \<or> ht_vec ht ! slot_path ht key n = Empty"
      using good by (auto simp: good_slot_def)
    moreover have "ht_vec ht ! slot_path ht key n = Empty"
      using nm assms(3) by (cases "ht_vec ht ! slot_path ht key n") auto
    ultimately show thesis using that by blast
  qed
  obtain i where "i < length (ht_vec ht)" and i: "ht_vec ht ! i = Item y"
    using y by (auto simp: hash_items_def in_set_conv_nth)
  then obtain l where l: "slot_path ht y l = i" "\<forall>m < l. ht_vec ht ! slot_path ht y m \<noteq> Empty"
    using rep by (auto simp: hash_rep_def reachable_items_def)
  have path: "slot_path ht key = slot_path ht y" using slot_path_cong [OF shape eq] .
  show False
  proof (cases l n rule: linorder_cases)
    case less
    then show False using before l(1) i eq path by auto
  next
    case equal
    then show False using empty l(1) i path by simp
  next
    case greater
    then show False using empty l(2) path by simp
  qed
qed

text \<open>Storing an item at the slot found for it, and deleting the item of a slot.\<close>

lemma store_rep:
  assumes rep: "hash_rep h1 h2 cmp ht" and good: "good_slot cmp ht x s"
  shows "hash_rep h1 h2 cmp (ht\<lparr>ht_vec := (ht_vec ht)[s := Item x]\<rparr>)"
    and "hash_items (ht\<lparr>ht_vec := (ht_vec ht)[s := Item x]\<rparr>) = insert x {y \<in> hash_items ht. cmp x y \<noteq> 0}"
proof -
  let ?vec = "(ht_vec ht)[s := Item x]"
  have shape: "hash_shape h1 h2 cmp ht" and reach: "reachable_items ht"
    and dist: "distinct_keys cmp (ht_vec ht)"
    using rep by (simp_all add: hash_rep_def)
  have s: "s < length (ht_vec ht)" using good_slot_less [OF shape good] .
  have other: "j = s" if "j < length (ht_vec ht)" "ht_vec ht ! j = Item y" "cmp x y = 0" for j y
  proof -
    have y: "y \<in> hash_items ht" using that(1,2) nth_mem by (force simp: hash_items_def)
    show ?thesis
  proof (cases "ht_vec ht ! s")
    case (Item z)
    then have "cmp x z = 0" using good_slot_Item [OF good Item] cmp_refl by auto
    then have "cmp z y = 0" using that(3) cmp_sym cmp_trans by blast
    then show ?thesis using dist that s Item by (auto simp: distinct_keys_def)
  next
    case Empty
    then have "HASH_VACANT (ht_vec ht ! s)" by simp
    from good_slot_vacant [OF rep good this y] that(3) show ?thesis by simp
  next
    case Deleted
    then have "HASH_VACANT (ht_vec ht ! s)" by simp
    from good_slot_vacant [OF rep good this y] that(3) show ?thesis by simp
  qed
  qed
  have "reachable_items (ht\<lparr>ht_vec := ?vec\<rparr>)"
    unfolding reachable_items_def
  proof (intro allI impI)
    fix i y assume i: "i < length (ht_vec (ht\<lparr>ht_vec := ?vec\<rparr>))"
      "ht_vec (ht\<lparr>ht_vec := ?vec\<rparr>) ! i = Item y"
    have "\<exists>n. slot_path ht y n = i \<and> (\<forall>m < n. ht_vec ht ! slot_path ht y m \<noteq> Empty)"
    proof (cases "i = s")
      case True
      then have "y = x" using i by simp
      moreover obtain m where "s = slot_path ht x m"
        "\<forall>i < m. \<not> stops cmp x (ht_vec ht ! slot_path ht x i)"
        using good by (auto simp: good_slot_def)
      ultimately show ?thesis using True by (intro exI [of _ m]) auto
    next
      case False
      then show ?thesis using reach i by (simp add: reachable_items_def)
    qed
    then obtain n where "slot_path ht y n = i" "\<forall>m < n. ht_vec ht ! slot_path ht y m \<noteq> Empty"
      by blast
    then show "\<exists>n. slot_path (ht\<lparr>ht_vec := ?vec\<rparr>) y n = i \<and>
        (\<forall>m < n. ht_vec (ht\<lparr>ht_vec := ?vec\<rparr>) ! slot_path (ht\<lparr>ht_vec := ?vec\<rparr>) y m \<noteq> Empty)"
      using s by (intro exI [of _ n]) (auto simp: nth_list_update)
  qed
  moreover have "distinct_keys cmp ?vec"
    unfolding distinct_keys_def
  proof (intro allI impI)
    fix i j y z
    assume "i < length ?vec" "j < length ?vec" "?vec ! i = Item y" "?vec ! j = Item z" "cmp y z = 0"
    then show "i = j"
      using dist other [of i y] other [of j z] s cmp_sym
      by (auto simp: distinct_keys_def nth_list_update split: if_splits)
  qed
  ultimately show "hash_rep h1 h2 cmp (ht\<lparr>ht_vec := ?vec\<rparr>)"
    using shape by (simp add: hash_rep_def)
  show "hash_items (ht\<lparr>ht_vec := ?vec\<rparr>) = insert x {y \<in> hash_items ht. cmp x y \<noteq> 0}" (is "?L = ?R")
  proof (intro set_eqI)
    fix y
    have "y \<in> ?L \<longleftrightarrow> (\<exists>i < length (ht_vec ht). (if i = s then Item x else ht_vec ht ! i) = Item y)"
      by (auto simp: hash_items_def in_set_conv_nth nth_list_update)
    also have "\<dots> \<longleftrightarrow> y = x \<or> (\<exists>i < length (ht_vec ht). i \<noteq> s \<and> ht_vec ht ! i = Item y)"
      using s by (auto split: if_splits)
    also have "\<dots> \<longleftrightarrow> y \<in> ?R"
      using other good_slot_Item [OF good] cmp_refl
      by (auto simp: hash_items_def in_set_conv_nth)
    finally show "y \<in> ?L \<longleftrightarrow> y \<in> ?R" .
  qed
qed

lemma erase_rep:
  assumes rep: "hash_rep h1 h2 cmp ht" and s: "s < length (ht_vec ht)" "ht_vec ht ! s = Item x"
  shows "hash_rep h1 h2 cmp (ht\<lparr>ht_vec := (ht_vec ht)[s := Deleted]\<rparr>)"
    and "hash_items (ht\<lparr>ht_vec := (ht_vec ht)[s := Deleted]\<rparr>) = hash_items ht - {x}"
proof -
  let ?vec = "(ht_vec ht)[s := Deleted]"
  have reach: "reachable_items ht" and dist: "distinct_keys cmp (ht_vec ht)"
    using rep by (simp_all add: hash_rep_def)
  have "reachable_items (ht\<lparr>ht_vec := ?vec\<rparr>)"
    unfolding reachable_items_def
  proof (intro allI impI)
    fix i y assume "i < length (ht_vec (ht\<lparr>ht_vec := ?vec\<rparr>))"
      "ht_vec (ht\<lparr>ht_vec := ?vec\<rparr>) ! i = Item y"
    then have "i < length (ht_vec ht)" "ht_vec ht ! i = Item y"
      using s by (auto simp: nth_list_update split: if_splits)
    then obtain n where "slot_path ht y n = i" "\<forall>m < n. ht_vec ht ! slot_path ht y m \<noteq> Empty"
      using reach by (auto simp: reachable_items_def)
    then show "\<exists>n. slot_path (ht\<lparr>ht_vec := ?vec\<rparr>) y n = i \<and>
        (\<forall>m < n. ht_vec (ht\<lparr>ht_vec := ?vec\<rparr>) ! slot_path (ht\<lparr>ht_vec := ?vec\<rparr>) y m \<noteq> Empty)"
      using s by (intro exI [of _ n]) (auto simp: nth_list_update)
  qed
  moreover have "distinct_keys cmp ?vec"
    using dist s(1) by (auto simp: distinct_keys_def nth_list_update split: if_splits)
  ultimately show "hash_rep h1 h2 cmp (ht\<lparr>ht_vec := ?vec\<rparr>)"
    using rep by (simp add: hash_rep_def)
  show "hash_items (ht\<lparr>ht_vec := ?vec\<rparr>) = hash_items ht - {x}"
      (is "?L = ?R")
  proof (intro set_eqI)
    fix y
    have "y \<in> ?L \<longleftrightarrow> (\<exists>i < length (ht_vec ht). i \<noteq> s \<and> ht_vec ht ! i = Item y)"
      using s(1) by (auto simp: hash_items_def in_set_conv_nth nth_list_update split: if_splits)
    also have "\<dots> \<longleftrightarrow> y \<in> ?R"
    proof -
      have "ht_vec ht ! i \<noteq> Item x" if "i < length (ht_vec ht)" "i \<noteq> s" for i
        using dist s that cmp_refl [of x] by (auto simp: distinct_keys_def)
      then have "(\<exists>i < length (ht_vec ht). i \<noteq> s \<and> ht_vec ht ! i = Item y) \<longleftrightarrow>
          y \<noteq> x \<and> (\<exists>i < length (ht_vec ht). ht_vec ht ! i = Item y)"
        using s by (metis slot.inject)
      then show ?thesis by (simp add: hash_items_def in_set_conv_nth conj_commute)
    qed
    finally show "y \<in> ?L \<longleftrightarrow> y \<in> ?R" .
  qed
qed

end

section \<open>Counting slots\<close>

lemma set_visited [simp]: "set (visited vec) = {x. Item x \<in> set vec}"
  by (induction vec) (auto simp: visited_def split: slot.splits)

lemma visited_simps [simp]:
  "visited [] = []"
  "visited (Item x # vec) = x # visited vec"
  "visited (Empty # vec) = visited vec"
  "visited (Deleted # vec) = visited vec"
  by (simp_all add: visited_def)

lemma visited_replicate [simp]: "visited (replicate n Empty) = []"
  by (induction n) simp_all

lemma count_replicate_Empty [simp]: "count_list (replicate n a) a = n"
  by (induction n) simp_all

lemma length_visited_update:
  "s < length vec \<Longrightarrow> length (visited (vec[s := Item x])) =
     length (visited vec) + (if HASH_VACANT (vec ! s) then 1 else 0)"
proof (induction vec arbitrary: s)
  case (Cons v vec)
  then show ?case by (cases s; cases v) auto
qed simp

lemma length_visited_erase:
  "s < length vec \<Longrightarrow> vec ! s = Item x \<Longrightarrow>
     length (visited vec) = Suc (length (visited (vec[s := Deleted])))"
proof (induction vec arbitrary: s)
  case (Cons v vec)
  then show ?case by (cases s; cases v) auto
qed simp

lemma count_Empty_update:
  "s < length vec \<Longrightarrow> v \<noteq> Empty \<Longrightarrow>
     count_list vec Empty = count_list (vec[s := v]) Empty + (if vec ! s = Empty then 1 else 0)"
proof (induction vec arbitrary: s)
  case (Cons w vec)
  then show ?case by (cases s) auto
qed simp

lemma counts_le: "length (visited vec) + count_list vec Empty \<le> length vec"
proof (induction vec)
  case (Cons v vec)
  then show ?case by (cases v) auto
qed simp

lemma counts_no_Deleted: "Deleted \<notin> set vec \<Longrightarrow> length (visited vec) + count_list vec Empty = length vec"
proof (induction vec)
  case (Cons v vec)
  then show ?case by (cases v) auto
qed simp

lemma count_Empty_pos: "0 < count_list vec Empty \<longleftrightarrow> Empty \<in> set vec"
  using count_list_0_iff [of vec Empty] by auto

end
