(* ===== verification/HashTable.thy ===== *)
theory HashTable
  imports HashProbe
begin

unbundle bit_operations_syntax

text \<open>
  The invariant \<open>hash_ok\<close> of a table with its counters, and that rehashing, inserting at a found
  slot and deleting keep it and have the intended effect on the set of items.
\<close>

lemma two_power_le: "k \<le> 32 \<Longrightarrow> (2::nat) ^ k \<le> 4294967296"
  using power_increasing [of k 32 "2::nat"] by simp

lemma unat_two_power_64: "k \<le> 63 \<Longrightarrow> unat (2 ^ k :: ulong) = 2 ^ k"
proof (induction k)
  case (Suc k)
  have "(2::nat) ^ Suc k \<le> 2 ^ 63" using Suc.prems by (intro power_increasing) auto
  then show ?case using Suc by (simp add: unat_word_ariths)
qed simp

lemma unat_two_power: "k \<le> 32 \<Longrightarrow> unat (2 ^ k :: ulong) = 2 ^ k"
  by (rule unat_two_power_64) simp

lemma unat_size: 
  assumes "hash_shape h1 h2 cmp ht" 
  shows "unat (ht_size ht) = length (ht_vec ht)" and "length (ht_vec ht) \<le> 4294967296"
  using assms unat_two_power two_power_le by (auto elim!: hash_shapeE)

text \<open>
  The invariant of a table between two operations. From 16 slots on, at least a sixteenth of
  them is empty, so a search always ends.
\<close>

definition hash_ok :: "('a \<Rightarrow> ulong) \<Rightarrow> ('a \<Rightarrow> ulong) \<Rightarrow> ('a \<Rightarrow> 'a \<Rightarrow> int) \<Rightarrow> 'a hash_table \<Rightarrow> bool" where
  "hash_ok h1 h2 cmp ht \<longleftrightarrow>
     hash_rep h1 h2 cmp ht
     \<and> ht_capacity ht = ht_size ht - ht_size ht div 16
     \<and> unat (ht_fill ht) = length (visited (ht_vec ht))
     \<and> unat (ht_empty_slots ht) = count_list (ht_vec ht) Empty
     \<and> (16 \<le> length (ht_vec ht) \<longrightarrow> length (ht_vec ht) div 16 \<le> count_list (ht_vec ht) Empty)"

lemma hash_ok_shape: "hash_ok h1 h2 cmp ht \<Longrightarrow> hash_shape h1 h2 cmp ht"
  by (simp add: hash_ok_def hash_rep_def)

lemma hash_ok_Empty:
  assumes "hash_ok h1 h2 cmp ht" and "16 \<le> length (ht_vec ht)"
  shows "Empty \<in> set (ht_vec ht)"
proof -
  have "0 < length (ht_vec ht) div 16" using assms(2) by (simp add: div_greater_zero_iff)
  also have "\<dots> \<le> count_list (ht_vec ht) Empty" using assms by (simp add: hash_ok_def)
  finally show ?thesis by (simp add: count_Empty_pos)
qed

lemma distinct_keys_Cons:
  assumes "distinct_keys cmp (v # vec)"
  shows "distinct_keys cmp vec" and "v = Item x \<Longrightarrow> Item y \<in> set vec \<Longrightarrow> cmp x y \<noteq> 0"
proof -
  show "distinct_keys cmp vec"
    unfolding distinct_keys_def
  proof (intro allI impI)
    fix i j y z
    assume "i < length vec" "j < length vec" "vec ! i = Item y" "vec ! j = Item z" "cmp y z = 0"
    then show "i = j"
      using assms [unfolded distinct_keys_def, rule_format, of "Suc i" "Suc j" y z] by simp
  qed
  assume "v = Item x" "Item y \<in> set vec"
  then obtain j where "j < length vec" "vec ! j = Item y" by (auto simp: in_set_conv_nth)
  with \<open>v = Item x\<close> show "cmp x y \<noteq> 0"
    using assms [unfolded distinct_keys_def, rule_format, of 0 "Suc j" x y] by auto
qed

lemma distinct_keys_visited: "distinct_keys cmp vec \<Longrightarrow> sorted_wrt (\<lambda>x y. cmp x y \<noteq> 0) (visited vec)"
proof (induction vec)
  case (Cons v vec)
  then show ?case
    using distinct_keys_Cons [OF Cons.prems] by (cases v) auto
qed simp

lemma empty_table_rep:
  assumes "hash_shape h1 h2 cmp ht" and "\<forall>v \<in> set (ht_vec ht). v = Empty"
  shows "hash_rep h1 h2 cmp ht" and "hash_items ht = {}"
proof -
  have "ht_vec ht ! i = Empty" if "i < length (ht_vec ht)" for i
    using assms(2) that by (simp add: nth_mem)
  then show "hash_rep h1 h2 cmp ht"
    using assms(1) by (simp add: hash_rep_def reachable_items_def distinct_keys_def)
  show "hash_items ht = {}"
    using assms(2) by (auto simp: hash_items_def)
qed

context hash_keys
begin

lemma rehash_loop_ok:
  assumes "hash_rep h1 h2 cmp ht" and "Deleted \<notin> set (ht_vec ht)"
    and "sorted_wrt (\<lambda>x y. cmp x y \<noteq> 0) (visited vs)"
    and "\<forall>x \<in> set (visited vs). \<forall>y \<in> hash_items ht. cmp x y \<noteq> 0"
    and "length (visited vs) + length (visited (ht_vec ht)) \<le> length (ht_vec ht)"
  shows "\<exists>vec. rehash_loop vs ht = Some (Ok (ht\<lparr>ht_vec := vec\<rparr>)) \<and> length vec = length (ht_vec ht)
    \<and> hash_rep h1 h2 cmp (ht\<lparr>ht_vec := vec\<rparr>) \<and> Deleted \<notin> set vec
    \<and> hash_items (ht\<lparr>ht_vec := vec\<rparr>) = hash_items ht \<union> set (visited vs)
    \<and> length (visited vec) = length (visited vs) + length (visited (ht_vec ht))"
  using assms
proof (induction vs arbitrary: ht)
  case Nil
  then show ?case by (intro exI [of _ "ht_vec ht"]) simp
next
  case (Cons v vs)
  show ?case
  proof (cases v)
    case (Item x)
    have rep: "hash_rep h1 h2 cmp ht" and shape: "hash_shape h1 h2 cmp ht"
      using Cons.prems(1) by (simp_all add: hash_rep_def)
    have "Empty \<in> set (ht_vec ht)"
      using Cons.prems(5) counts_no_Deleted [OF Cons.prems(2)] Item
      by (simp add: count_Empty_pos flip: count_Empty_pos)
    then obtain s where find: "hash_find_slot ht x = Some (Ok s)" and good: "good_slot cmp ht x s"
      using hash_find_slot_good [OF shape] by blast
    have s: "s < length (ht_vec ht)" using good_slot_less [OF shape good] .
    have vacant: "HASH_VACANT (ht_vec ht ! s)"
    proof (cases "ht_vec ht ! s")
      case (Item y)
      then have "y \<in> hash_items ht" using s by (metis hash_items_def mem_Collect_eq nth_mem)
      moreover have "cmp x y = 0" using good_slot_Item [OF good Item] cmp_refl by auto
      ultimately show ?thesis using Cons.prems(4) \<open>v = Item x\<close> by simp
    qed simp_all
    let ?ht = "ht\<lparr>ht_vec := (ht_vec ht)[s := Item x]\<rparr>"
    have items: "hash_items ?ht = insert x (hash_items ht)"
      using store_rep(2) [OF rep good] Cons.prems(4) Item by auto
    have "\<exists>vec. rehash_loop vs ?ht = Some (Ok (?ht\<lparr>ht_vec := vec\<rparr>)) \<and> length vec = length (ht_vec ?ht)
      \<and> hash_rep h1 h2 cmp (?ht\<lparr>ht_vec := vec\<rparr>) \<and> Deleted \<notin> set vec
      \<and> hash_items (?ht\<lparr>ht_vec := vec\<rparr>) = hash_items ?ht \<union> set (visited vs)
      \<and> length (visited vec) = length (visited vs) + length (visited (ht_vec ?ht))"
    proof (rule Cons.IH)
      show "hash_rep h1 h2 cmp ?ht" by (rule store_rep(1) [OF rep good])
      show "Deleted \<notin> set (ht_vec ?ht)"
        using Cons.prems(2) set_update_subset_insert [of "ht_vec ht" s "Item x"] by auto
      show "sorted_wrt (\<lambda>x y. cmp x y \<noteq> 0) (visited vs)"
        using Cons.prems(3) Item by simp
      show "\<forall>y \<in> set (visited vs). \<forall>z \<in> hash_items ?ht. cmp y z \<noteq> 0"
        using Cons.prems(3,4) Item cmp_sym unfolding items by auto
      show "length (visited vs) + length (visited (ht_vec ?ht)) \<le> length (ht_vec ?ht)"
        using Cons.prems(5) Item vacant s by (simp add: length_visited_update)
    qed
    moreover have "ht_strcache ht = None" using shape by (simp add: hash_shape_def)
    ultimately show ?thesis
      using find Item items s vacant by (auto simp: find_slot_any_def length_visited_update)
  qed (use Cons in simp_all)
qed

end

text \<open>The table a rehash starts to fill.\<close>

lemma grow_shape:
  assumes shape: "hash_shape h1 h2 cmp ht"
    and cap: "ht_capacity ht = ht_size ht - ht_size ht div 16"
    and fill: "unat (ht_fill ht) \<le> length (ht_vec ht)"
    and room: "ht_fill ht < ht_capacity ht \<or> length (ht_vec ht) < 4294967296"
    and ht1: "ht1 = (grow ht)\<lparr>ht_rehashes := r, ht_vec := replicate (unat (ht_size (grow ht))) Empty\<rparr>"
  shows "hash_shape h1 h2 cmp ht1" and "ht_capacity ht1 = ht_size ht1 - ht_size ht1 div 16"
    and "ht_fill ht1 = ht_fill ht" and "set (ht_vec ht1) \<subseteq> {Empty}"
    and "length (ht_vec ht1) = length (ht_vec ht) \<or> length (ht_vec ht1) = 2 * length (ht_vec ht)
      \<and> length (ht_vec ht) - length (ht_vec ht) div 16 \<le> unat (ht_fill ht)"
    and "unat (ht_fill ht) + length (ht_vec ht1) div 16 \<le> length (ht_vec ht1)"
proof -
  obtain k where k: "k \<le> 32" "ht_size ht = 2 ^ k" "length (ht_vec ht) = 2 ^ k"
    using shape by (rule hash_shapeE)
  have size: "unat (ht_size ht) = 2 ^ k" using k unat_two_power by simp
  have div16: "drop_bit 4 x = x div 16" for x :: ulong
    by (simp add: drop_bit_eq_div)
  have "hash_shape h1 h2 cmp ht1 \<and> ht_capacity ht1 = ht_size ht1 - ht_size ht1 div 16
    \<and> (length (ht_vec ht1) = length (ht_vec ht) \<or> length (ht_vec ht1) = 2 * length (ht_vec ht)
      \<and> length (ht_vec ht) - length (ht_vec ht) div 16 \<le> unat (ht_fill ht))
    \<and> unat (ht_fill ht) + length (ht_vec ht1) div 16 \<le> length (ht_vec ht1)"
  proof (cases "ht_fill ht \<ge> ht_capacity ht")
    case True
    then have "2 ^ k < (4294967296::nat)" using room k(3) by auto
    then have "k < 32" using power_less_imp_less_exp [of "2::nat" k 32] by simp
    have sz: "ht_size (grow ht) = 2 ^ Suc k" using True k by (simp add: grow_def Let_def mult.commute)
    have len: "length (ht_vec ht1) = 2 ^ Suc k"
      using unat_two_power [of "Suc k"] \<open>k < 32\<close> by (simp add: ht1 sz)
    have "hash_shape h1 h2 cmp ht1"
      using shape len sz \<open>k < 32\<close> True k(2) unfolding hash_shape_def
      by (intro conjI exI [of _ "Suc k"]) (auto simp: ht1 grow_def Let_def mult.commute)
    moreover have "ht_capacity ht1 = ht_size ht1 - ht_size ht1 div 16"
      using True by (simp add: ht1 grow_def Let_def div16)
    moreover have "(2::nat) ^ Suc k div 16 \<le> 2 ^ k"
      by simp
    moreover have "2 ^ k - 2 ^ k div 16 \<le> unat (ht_fill ht)"
    proof -
      have "unat (ht_size ht - ht_size ht div 16) \<le> unat (ht_fill ht)"
        using True cap by (simp add: word_le_nat_alt)
      then show ?thesis by (simp add: unat_sub word_le_nat_alt unat_div size)
    qed
    ultimately show ?thesis using len k(3) fill by simp
  next
    case False
    have len: "length (ht_vec ht1) = 2 ^ k"
      using False size by (simp add: ht1 grow_def)
    have "hash_shape h1 h2 cmp ht1"
      using shape len k False unfolding hash_shape_def
      by (auto simp: ht1 grow_def)
    moreover have "ht_capacity ht1 = ht_size ht1 - ht_size ht1 div 16"
      using False cap by (simp add: ht1 grow_def)
    moreover have "unat (ht_fill ht) < unat (ht_size ht - ht_size ht div 16)"
      using False cap by (simp add: word_le_nat_alt)
    then have "unat (ht_fill ht) < 2 ^ k - 2 ^ k div 16"
      by (simp add: unat_sub word_le_nat_alt unat_div size)
    ultimately show ?thesis using len k(3) by simp
  qed
  then show "hash_shape h1 h2 cmp ht1" and "ht_capacity ht1 = ht_size ht1 - ht_size ht1 div 16"
    and "length (ht_vec ht1) = length (ht_vec ht) \<or> length (ht_vec ht1) = 2 * length (ht_vec ht)
      \<and> length (ht_vec ht) - length (ht_vec ht) div 16 \<le> unat (ht_fill ht)"
    and "unat (ht_fill ht) + length (ht_vec ht1) div 16 \<le> length (ht_vec ht1)"
    by simp_all
  show "ht_fill ht1 = ht_fill ht" by (simp add: ht1 grow_def Let_def)
  show "set (ht_vec ht1) \<subseteq> {Empty}" by (simp add: ht1 set_replicate_conv_if)
qed

context hash_keys
begin

lemma hash_rehash_ok:
  assumes rep: "hash_rep h1 h2 cmp ht"
    and cap: "ht_capacity ht = ht_size ht - ht_size ht div 16"
    and fill: "unat (ht_fill ht) = length (visited (ht_vec ht))"
    and room: "ht_fill ht < ht_capacity ht \<or> length (ht_vec ht) < 4294967296"
  shows "\<exists>ht'. hash_rehash ht = Some (Ok ht') \<and> hash_ok h1 h2 cmp ht' \<and> hash_items ht' = hash_items ht
    \<and> Deleted \<notin> set (ht_vec ht')
    \<and> (length (ht_vec ht') = length (ht_vec ht) \<or> length (ht_vec ht') = 2 * length (ht_vec ht)
      \<and> length (ht_vec ht) - length (ht_vec ht) div 16 \<le> unat (ht_fill ht'))"
proof -
  let ?ht1 = "(grow ht)\<lparr>ht_rehashes := ht_rehashes (grow ht) + 1,
    ht_vec := replicate (unat (ht_size (grow ht))) Empty\<rparr>"
  have shape: "hash_shape h1 h2 cmp ht" using rep by (simp add: hash_rep_def)
  have "unat (ht_fill ht) \<le> length (ht_vec ht)"
    using counts_le [of "ht_vec ht"] fill by simp
  note g = grow_shape [OF shape cap this room refl, of "ht_rehashes (grow ht) + 1"]
  have empty: "\<forall>v \<in> set (ht_vec ?ht1). v = Empty" using g(4) by auto
  note rep1 = empty_table_rep [OF g(1) empty]
  have vis: "visited (ht_vec ?ht1) = []" by simp
  have "sorted_wrt (\<lambda>x y. cmp x y \<noteq> 0) (visited (ht_vec ht))"
    using rep by (simp add: hash_rep_def distinct_keys_visited)
  then obtain vec where vec: "rehash_loop (ht_vec ht) ?ht1 = Some (Ok (?ht1\<lparr>ht_vec := vec\<rparr>))"
    "length vec = length (ht_vec ?ht1)" "hash_rep h1 h2 cmp (?ht1\<lparr>ht_vec := vec\<rparr>)"
    "hash_items (?ht1\<lparr>ht_vec := vec\<rparr>) = hash_items ht" "Deleted \<notin> set vec"
    "length (visited vec) = length (visited (ht_vec ht))"
    using rehash_loop_ok [OF rep1(1), of "ht_vec ht"] rep1(2) g(6) empty fill
    by (auto simp: vis hash_items_def)
  let ?ht' = "?ht1\<lparr>ht_vec := vec, ht_empty_slots := ht_size ?ht1 - ht_fill ?ht1\<rparr>"
  have size: "unat (ht_size ?ht1) = length vec"
    using unat_size(1) [OF g(1)] vec(2) by simp
  have "unat (ht_empty_slots ?ht') = length vec - unat (ht_fill ht)"
    using g(3,6) size vec(2) by (simp add: unat_sub word_le_nat_alt)
  also have "\<dots> = count_list vec Empty"
    using counts_no_Deleted [OF vec(5)] vec(6) fill by simp
  finally have cnt: "unat (ht_empty_slots ?ht') = count_list vec Empty" .
  have "hash_ok h1 h2 cmp ?ht'"
    unfolding hash_ok_def
  proof (intro conjI impI)
    show "hash_rep h1 h2 cmp ?ht'" using vec(3) by simp
    show "ht_capacity ?ht' = ht_size ?ht' - ht_size ?ht' div 16" using g(2) by simp
    show "unat (ht_fill ?ht') = length (visited (ht_vec ?ht'))" using g(3) vec(6) fill by simp
    show "unat (ht_empty_slots ?ht') = count_list (ht_vec ?ht') Empty" using cnt by simp
    show "length (ht_vec ?ht') div 16 \<le> count_list (ht_vec ?ht') Empty"
      using g(6) counts_no_Deleted [OF vec(5)] vec(2,6) fill by simp
  qed
  moreover have "hash_rehash ht = Some (Ok ?ht')"
    using vec(1) by (simp add: hash_rehash_def Let_def)
  ultimately show ?thesis
    using vec g(3,5) by (intro exI [of _ ?ht']) (simp add: hash_items_def)
qed

end

lemma unat_incr: "unat x < 2 ^ 64 - 1 \<Longrightarrow> unat (x + 1 :: ulong) = unat x + 1"
  by (simp add: unat_word_ariths)

lemma margin_unfold:
  assumes "ht_capacity ht = ht_size ht - ht_size ht div 16" and "hash_shape h1 h2 cmp ht"
  shows "e < ht_size ht - ht_capacity ht \<longleftrightarrow> unat e < length (ht_vec ht) div 16"
proof -
  have "ht_size ht - ht_capacity ht = ht_size ht div 16" using assms(1) by simp
  then show ?thesis using unat_size(1) [OF assms(2)] by (simp add: word_less_nat_alt unat_div)
qed

context hash_keys
begin

text \<open>The table after the store of \<open>hash_insert_at\<close>, before it may be rehashed.\<close>

lemma hash_insert_at_ok:
  assumes ok: "hash_ok h1 h2 cmp ht" and good: "good_slot cmp ht x s"
    and room: "length (ht_vec ht) < 4294967296"
  shows "\<exists>ht' s'. hash_insert_at ht x s = Some (Ok (ht', s')) \<and> hash_ok h1 h2 cmp ht'
    \<and> hash_items ht' = insert x {y \<in> hash_items ht. cmp x y \<noteq> 0}
    \<and> s' < length (ht_vec ht') \<and> ht_vec ht' ! s' = Item x
    \<and> (Deleted \<notin> set (ht_vec ht) \<longrightarrow> Deleted \<notin> set (ht_vec ht'))
    \<and> (length (ht_vec ht') = length (ht_vec ht) \<or> length (ht_vec ht') = 2 * length (ht_vec ht)
      \<and> length (ht_vec ht) - length (ht_vec ht) div 16 \<le> unat (ht_fill ht'))"
proof -
  have rep: "hash_rep h1 h2 cmp ht" and shape: "hash_shape h1 h2 cmp ht"
    and cap: "ht_capacity ht = ht_size ht - ht_size ht div 16"
    and fill: "unat (ht_fill ht) = length (visited (ht_vec ht))"
    and empty: "unat (ht_empty_slots ht) = count_list (ht_vec ht) Empty"
    using ok by (simp_all add: hash_ok_def hash_rep_def)
  have s: "s < length (ht_vec ht)" using good_slot_less [OF shape good] .
  let ?v = "ht_vec ht ! s" and ?vec = "(ht_vec ht)[s := Item x]"
  let ?fill = "if HASH_VACANT ?v then ht_fill ht + 1 else ht_fill ht"
  let ?empty = "if ?v = Empty then ht_empty_slots ht - 1 else ht_empty_slots ht"
  let ?ht = "ht\<lparr>ht_fill := ?fill, ht_empty_slots := ?empty, ht_vec := ?vec\<rparr>"
  have step: "hash_insert_at ht x s =
    (if ?empty < ht_size ht - ht_capacity ht then
       then_do (hash_rehash ?ht) (\<lambda>ht. then_do (find_slot_any ht x) (\<lambda>slot. Some (Ok (ht, slot))))
     else Some (Ok (?ht, s)))"
    using s by (cases ?v) (simp_all add: hash_insert_at_def slot_at_def Let_def)
  have "?ht = ht\<lparr>ht_vec := ?vec, ht_fill := ?fill, ht_empty_slots := ?empty\<rparr>"
    by simp
  then have rep': "hash_rep h1 h2 cmp ?ht"
    using store_rep(1) [OF rep good] by (simp only: hash_rep_counts)
  have shape': "hash_shape h1 h2 cmp ?ht" using rep' by (simp add: hash_rep_def)
  have items: "hash_items ?ht = insert x {y \<in> hash_items ht. cmp x y \<noteq> 0}"
    using store_rep(2) [OF rep good] by (simp add: hash_items_def)
  have "unat (ht_fill ht) \<le> 4294967296"
    using counts_le [of "ht_vec ht"] fill unat_size(2) [OF shape] by simp
  then have fill': "unat ?fill = length (visited ?vec)"
    using s fill by (simp add: unat_incr length_visited_update)
  have "count_list (ht_vec ht) Empty = count_list ?vec Empty + (if ?v = Empty then 1 else 0)"
    using s by (rule count_Empty_update) simp
  moreover from this have "ht_empty_slots ht \<noteq> 0" if "?v = Empty"
    using empty that by auto
  ultimately have empty': "unat ?empty = count_list ?vec Empty"
    using empty by (auto simp: unat_minus_one)
  show ?thesis
  proof (cases "?empty < ht_size ht - ht_capacity ht")
    case True
    then have "0 < length (ht_vec ht) div 16"
      unfolding margin_unfold [OF cap shape] by simp
    then have len16: "16 \<le> length (ht_vec ht)" by (simp add: div_greater_zero_iff)
    have "\<exists>ht'. hash_rehash ?ht = Some (Ok ht') \<and> hash_ok h1 h2 cmp ht' \<and> hash_items ht' = hash_items ?ht
      \<and> Deleted \<notin> set (ht_vec ht')
      \<and> (length (ht_vec ht') = length (ht_vec ?ht) \<or> length (ht_vec ht') = 2 * length (ht_vec ?ht)
        \<and> length (ht_vec ?ht) - length (ht_vec ?ht) div 16 \<le> unat (ht_fill ht'))"
      by (rule hash_rehash_ok) (use rep' cap fill' room in simp_all)
    then obtain ht' where re: "hash_rehash ?ht = Some (Ok ht')" and ok': "hash_ok h1 h2 cmp ht'"
      and items': "hash_items ht' = hash_items ?ht" and del: "Deleted \<notin> set (ht_vec ht')"
      and len: "length (ht_vec ht') = length (ht_vec ht) \<or> length (ht_vec ht') = 2 * length (ht_vec ht)
        \<and> length (ht_vec ht) - length (ht_vec ht) div 16 \<le> unat (ht_fill ht')"
      by auto
    have rep2: "hash_rep h1 h2 cmp ht'" and shape2: "hash_shape h1 h2 cmp ht'"
      using ok' by (simp_all add: hash_ok_def hash_rep_def)
    have "Empty \<in> set (ht_vec ht')"
      using hash_ok_Empty [OF ok'] len16 len by auto
    then obtain s' where find: "hash_find_slot ht' x = Some (Ok s')" and good': "good_slot cmp ht' x s'"
      using hash_find_slot_good [OF shape2] by blast
    have s': "s' < length (ht_vec ht')" using good_slot_less [OF shape2 good'] .
    have x: "x \<in> hash_items ht'" using items items' by simp
    have "\<not> HASH_VACANT (ht_vec ht' ! s')"
      using good_slot_vacant [OF rep2 good' _ x] cmp_refl by blast
    then obtain y where y: "ht_vec ht' ! s' = Item y" by (cases "ht_vec ht' ! s'") auto
    have "cmp x y = 0" using good_slot_Item [OF good' y] cmp_refl by auto
    moreover obtain i where "i < length (ht_vec ht')" "ht_vec ht' ! i = Item x"
      using x by (auto simp: hash_items_def in_set_conv_nth)
    ultimately have "ht_vec ht' ! s' = Item x"
      using rep2 s' y by (metis distinct_keys_def hash_rep_def)
    moreover have "ht_strcache ht' = None" using shape2 by (simp add: hash_shape_def)
    ultimately show ?thesis
      using True re find ok' items items' s' len del by (simp add: step find_slot_any_def)
  next
    case False
    have "hash_ok h1 h2 cmp ?ht"
      unfolding hash_ok_def
    proof (intro conjI impI)
      show "length (ht_vec ?ht) div 16 \<le> count_list (ht_vec ?ht) Empty"
        using False margin_unfold [OF cap shape] empty' by simp
    qed (use rep' cap fill' empty' in simp_all)
    moreover have "Deleted \<notin> set ?vec" if "Deleted \<notin> set (ht_vec ht)"
      using that set_update_subset_insert [of "ht_vec ht" s "Item x"] by auto
    ultimately show ?thesis using False items s by (simp add: step)
  qed
qed

lemma hash_find_ok:
  assumes ok: "hash_ok h1 h2 cmp ht" and "Empty \<in> set (ht_vec ht)"
  shows "\<exists>s. hash_find_slot ht key = Some (Ok s) \<and> good_slot cmp ht key s \<and> s < length (ht_vec ht)
    \<and> (case item_or_null (ht_vec ht ! s) of
         Some x \<Rightarrow> x \<in> hash_items ht \<and> cmp key x = 0
       | None \<Rightarrow> \<forall>x \<in> hash_items ht. cmp key x \<noteq> 0)"
proof -
  have rep: "hash_rep h1 h2 cmp ht" and shape: "hash_shape h1 h2 cmp ht"
    using ok by (simp_all add: hash_ok_def hash_rep_def)
  obtain s where find: "hash_find_slot ht key = Some (Ok s)" and good: "good_slot cmp ht key s"
    using hash_find_slot_good [OF shape assms(2)] by blast
  have s: "s < length (ht_vec ht)" using good_slot_less [OF shape good] .
  have "case item_or_null (ht_vec ht ! s) of
      Some x \<Rightarrow> x \<in> hash_items ht \<and> cmp key x = 0
    | None \<Rightarrow> \<forall>x \<in> hash_items ht. cmp key x \<noteq> 0"
  proof (cases "ht_vec ht ! s")
    case (Item x)
    then have "x \<in> hash_items ht" using s nth_mem by (force simp: hash_items_def)
    then show ?thesis using good_slot_Item [OF good Item] cmp_refl Item by auto
  qed (use good_slot_vacant [OF rep good] in auto)
  then show ?thesis using find good s by blast
qed

lemma hash_items_unique:
  assumes "hash_rep h1 h2 cmp ht" and "x \<in> hash_items ht" and "y \<in> hash_items ht" and "cmp x y = 0"
  shows "x = y"
  using assms by (auto simp: hash_items_def in_set_conv_nth hash_rep_def distinct_keys_def)

lemma hash_delete_at_ok:
  assumes ok: "hash_ok h1 h2 cmp ht" and s: "s < length (ht_vec ht)"
  shows "\<exists>ht'. hash_delete_at ht s = Some (Ok (ht', item_or_null (ht_vec ht ! s)))
    \<and> hash_ok h1 h2 cmp ht' \<and> hash_items ht' = hash_items ht - set_option (item_or_null (ht_vec ht ! s))
    \<and> length (ht_vec ht') = length (ht_vec ht)"
proof (cases "ht_vec ht ! s")
  case (Item x)
  have rep: "hash_rep h1 h2 cmp ht" using ok by (simp add: hash_ok_def)
  let ?ht = "ht\<lparr>ht_vec := (ht_vec ht)[s := Deleted], ht_fill := ht_fill ht - 1\<rparr>"
  have len: "length (visited (ht_vec ht)) = Suc (length (visited ((ht_vec ht)[s := Deleted])))"
    using s Item by (rule length_visited_erase)
  have "unat (ht_fill ht) = length (visited (ht_vec ht))" using ok by (simp add: hash_ok_def)
  then have fill: "unat (ht_fill ht - 1) = length (visited ((ht_vec ht)[s := Deleted]))"
    using len by (subst unat_minus_one) auto
  have cnt: "count_list ((ht_vec ht)[s := Deleted]) Empty = count_list (ht_vec ht) Empty"
    using count_Empty_update [OF s, of Deleted] Item by simp
  have "hash_ok h1 h2 cmp ?ht"
    unfolding hash_ok_def
  proof (intro conjI impI)
    show "hash_rep h1 h2 cmp ?ht" using erase_rep(1) [OF rep s Item] by simp
  qed (use ok fill cnt in \<open>simp_all add: hash_ok_def\<close>)
  moreover have "hash_items ?ht = hash_items ht - {x}"
    using erase_rep(2) [OF rep s Item] by (simp add: hash_items_def)
  ultimately show ?thesis using s Item by (simp add: hash_delete_at_def slot_at_def)
qed (use assms in \<open>auto simp: hash_delete_at_def slot_at_def\<close>)

end

end
