(* ===== verification/HashCached.thy ===== *)
theory HashCached
  imports HashTable
begin

unbundle bit_operations_syntax

text \<open>
  \<open>hash_init\<close> gives a table that satisfies the invariant; the callbacks of function.c and the
  tables of cached strings satisfy the contract \<open>hash_keys\<close>; the operations on a table of cached
  strings give the same results as those on a plain table.
\<close>

section \<open>Creating a table\<close>

text \<open>Each step of \<open>round_up_2\<close> doubles the distance over which the set bits are smeared.\<close>

definition smeared :: "ulong \<Rightarrow> nat \<Rightarrow> ulong \<Rightarrow> bool" where
  "smeared n m w \<longleftrightarrow> (\<forall>i. bit w i \<longleftrightarrow> (\<exists>j. i \<le> j \<and> j < i + m \<and> bit n j))"

lemma smeared_step:
  assumes "smeared n m w"
  shows "smeared n (2 * m) (w OR drop_bit m w)"
  unfolding smeared_def
proof
  fix i
  have "bit (w OR drop_bit m w) i \<longleftrightarrow> bit w i \<or> bit w (m + i)"
    by (simp add: bit_or_iff bit_drop_bit_eq)
  also have "\<dots> \<longleftrightarrow> (\<exists>j. i \<le> j \<and> j < i + m \<and> bit n j) \<or> (\<exists>j. m + i \<le> j \<and> j < m + i + m \<and> bit n j)"
    using assms by (simp add: smeared_def)
  also have "\<dots> \<longleftrightarrow> (\<exists>j. i \<le> j \<and> j < i + 2 * m \<and> bit n j)"
  proof -
    have "i \<le> j \<and> j < i + m \<or> m + i \<le> j \<and> j < m + i + m \<longleftrightarrow> i \<le> j \<and> j < i + 2 * m" for j
      by auto
    then show ?thesis by blast
  qed
  finally show "bit (w OR drop_bit m w) i \<longleftrightarrow> (\<exists>j. i \<le> j \<and> j < i + 2 * m \<and> bit n j)" .
qed

lemma round_up_2_smeared: "\<exists>w. round_up_2 n = w + 1 \<and> smeared n 64 w"
proof -
  have s: "smeared n 1 n" by (auto simp: smeared_def) (metis le_antisym less_Suc_eq_le)
  let ?n1 = "n OR drop_bit 1 n"
  let ?n2 = "?n1 OR drop_bit 2 ?n1"
  let ?n4 = "?n2 OR drop_bit 4 ?n2"
  let ?n8 = "?n4 OR drop_bit 8 ?n4"
  let ?n16 = "?n8 OR drop_bit 16 ?n8"
  have "smeared n 2 ?n1" using smeared_step [OF s] by simp
  then have "smeared n 4 ?n2" by (auto dest: smeared_step)
  then have "smeared n 8 ?n4" by (auto dest: smeared_step)
  then have "smeared n 16 ?n8" by (auto dest: smeared_step)
  then have "smeared n 32 ?n16" by (auto dest: smeared_step)
  then have "smeared n 64 (?n16 OR drop_bit 32 ?n16)" by (auto dest: smeared_step)
  then show ?thesis unfolding round_up_2_def Let_def by blast
qed

lemma round_up_2_power:
  assumes "unat n < 2 ^ t" and "t = 0 \<or> 2 ^ (t - 1) \<le> unat n" and "t < 64"
  shows "round_up_2 n = 2 ^ t"
proof -
  obtain w where w: "round_up_2 n = w + 1" "smeared n 64 w" using round_up_2_smeared by blast
  have high: "\<not> bit n j" if "t \<le> j" for j
  proof -
    have "unat n < 2 ^ j" using assms(1) that by (meson le_trans not_le one_le_numeral power_increasing)
    then have "\<not> bit (unat n) j" by (simp add: bit_iff_odd)
    then show ?thesis by (simp add: bit_unsigned_iff)
  qed
  have "w = mask t"
  proof (rule bit_eqI)
    fix i assume "possible_bit TYPE(ulong) i"
    then have i: "i < 64" by (simp add: possible_bit_def)
    have "bit n (t - 1)" if "0 < t"
    proof -
      have "2 ^ (t - 1) \<le> unat n" "unat n < 2 * 2 ^ (t - 1)"
        using assms(1,2) that by (auto simp flip: power_Suc)
      then have "unat n div 2 ^ (t - 1) = 1" by (simp add: div_nat_eqI)
      then have "bit (unat n) (t - 1)" by (simp add: bit_iff_odd)
      then show ?thesis by (simp add: bit_unsigned_iff)
    qed
    then have "(\<exists>j. i \<le> j \<and> j < i + 64 \<and> bit n j) \<longleftrightarrow> i < t"
      using high assms(3) by (auto intro!: exI [of _ "t - 1"]) (meson high leI le_trans)
    then show "bit w i \<longleftrightarrow> bit (mask t :: ulong) i"
      using w(2) i by (simp add: smeared_def bit_mask_iff)
  qed
  then show ?thesis using w(1) by (simp add: mask_eq_exp_minus_1)
qed

lemma round_up_2_ex:
  assumes "unat n < 2 ^ m" and "m < 64"
  shows "\<exists>t \<le> m. round_up_2 n = 2 ^ t \<and> unat n < 2 ^ t \<and> (t = 0 \<or> 2 ^ (t - 1) \<le> unat n)"
proof -
  obtain t where t: "unat n < 2 ^ t" "\<forall>k < t. \<not> unat n < 2 ^ k"
    using exists_least_iff [of "\<lambda>t. unat n < 2 ^ t"] assms(1) by blast
  have "t \<le> m" using t(2) assms(1) by (meson not_le)
  moreover have "t = 0 \<or> 2 ^ (t - 1) \<le> unat n"
    using t(2) by (cases t) (auto simp: not_less)
  ultimately show ?thesis using round_up_2_power [of n t] t(1) assms(2) by auto
qed

lemma hash_init_ok:
  assumes "unat size0 < 4294967296"
  shows "hash_ok h1 h2 cmp (hash_init size0 (Some h1) (Some h2) (Some cmp) off0)"
    and "hash_items (hash_init size0 (Some h1) (Some h2) (Some cmp) off0) = {}"
    and "unat size0 < length (ht_vec (hash_init size0 (Some h1) (Some h2) (Some cmp) off0))"
    and "length (ht_vec (hash_init size0 (Some h1) (Some h2) (Some cmp) off0)) \<le> 2 * unat size0 + 1"
    and "set (ht_vec (hash_init size0 (Some h1) (Some h2) (Some cmp) off0)) \<subseteq> {Empty}"
proof -
  let ?ht = "hash_init size0 (Some h1) (Some h2) (Some cmp) off0"
  obtain t where t: "t \<le> 32" "round_up_2 size0 = 2 ^ t" "unat size0 < 2 ^ t"
    "t = 0 \<or> 2 ^ (t - 1) \<le> unat size0"
    using round_up_2_ex [of size0 32] assms by auto
  have len: "length (ht_vec ?ht) = 2 ^ t" and size: "ht_size ?ht = 2 ^ t"
    using t unat_two_power by (simp_all add: hash_init_def Let_def)
  show set: "set (ht_vec ?ht) \<subseteq> {Empty}"
    by (auto simp: hash_init_def Let_def set_replicate_conv_if)
  have shape: "hash_shape h1 h2 cmp ?ht"
    using t(1) len size by (auto simp: hash_shape_def hash_init_def Let_def)
  note rep = empty_table_rep [OF shape]
  show "hash_items ?ht = {}" using rep(2) set by blast
  show "unat size0 < length (ht_vec ?ht)" using len t(3) by simp
  show "length (ht_vec ?ht) \<le> 2 * unat size0 + 1"
    using len t(4) by (cases t) auto
  have cnt: "count_list (ht_vec ?ht) Empty = 2 ^ t" "visited (ht_vec ?ht) = []"
    using t(1,2) unat_two_power by (simp_all add: hash_init_def Let_def)
  show "hash_ok h1 h2 cmp ?ht"
    unfolding hash_ok_def
  proof (intro conjI impI)
    show "hash_rep h1 h2 cmp ?ht" using rep(1) set by blast
    show "ht_capacity ?ht = ht_size ?ht - ht_size ?ht div 16"
      by (simp add: hash_init_def Let_def)
    show "unat (ht_fill ?ht) = length (visited (ht_vec ?ht))"
      by (simp add: hash_init_def Let_def)
    show "unat (ht_empty_slots ?ht) = count_list (ht_vec ?ht) Empty"
      using cnt(1) size t(1) unat_two_power by (simp add: hash_init_def Let_def)
    show "length (ht_vec ?ht) div 16 \<le> count_list (ht_vec ?ht) Empty"
      using cnt(1) len by simp
  qed
qed

section \<open>The contract on the callbacks of kmk\<close>

lemma STRING_COMPARE_eq [simp]: "STRING_COMPARE X Y = 0 \<longleftrightarrow> X = Y"
  by (simp add: STRING_COMPARE_def)

lemma a_word_hash_cmp_eq:
  "a_word_hash_cmp mem x y = 0 \<longleftrightarrow> word_length (mem x) = word_length (mem y) \<and> str (mem x) = str (mem y)"
  by (simp add: a_word_hash_cmp_def Let_def)

interpretation word_keys: hash_keys "a_word_hash_1 mem" "a_word_hash_2 mem" "a_word_hash_cmp mem"
  for mem :: "'p \<Rightarrow> a_word"
  by unfold_locales (auto simp: a_word_hash_cmp_eq a_word_hash_1_def a_word_hash_2_def)

text \<open>
  A table of cached strings works as a plain table whose callbacks read the hash of the address
  and the stored hash of the string, and compare the addresses.
\<close>

definition strcached_hash_1 :: "('a \<Rightarrow> ulong) \<Rightarrow> 'a \<Rightarrow> ulong" where
  "strcached_hash_1 off key = ucast (strcache2_calc_ptr_hash (off key))"

definition strcached_hash_2 :: "(ulong \<Rightarrow> uint32) \<Rightarrow> ('a \<Rightarrow> ulong) \<Rightarrow> 'a \<Rightarrow> ulong" where
  "strcached_hash_2 get_hash off key = ucast (get_hash (off key))"

definition strcached_cmp :: "('a \<Rightarrow> ulong) \<Rightarrow> 'a \<Rightarrow> 'a \<Rightarrow> int" where
  "strcached_cmp off x y = (if off x = off y then 0 else 1)"

interpretation strcached_keys:
  hash_keys "strcached_hash_1 off" "strcached_hash_2 get_hash off" "strcached_cmp off"
  for get_hash :: "ulong \<Rightarrow> uint32" and off :: "'a \<Rightarrow> ulong"
  by unfold_locales
    (auto simp: strcached_cmp_def strcached_hash_1_def strcached_hash_2_def split: if_splits)

section \<open>Tables of cached strings\<close>

definition as_plain :: "'a hash_table \<Rightarrow> 'a hash_table" where
  "as_plain ht =
     ht\<lparr>ht_hash_1 := Some (strcached_hash_1 (ht_off_string ht)),
        ht_hash_2 := Some (strcached_hash_2 (the (ht_strcache ht)) (ht_off_string ht)),
        ht_compare := Some (strcached_cmp (ht_off_string ht)),
        ht_strcache := None\<rparr>"

definition on_table :: "('a hash_table \<Rightarrow> 'a hash_table) \<Rightarrow> (unit, 'a hash_table \<times> 'r) outcome option
    \<Rightarrow> (unit, 'a hash_table \<times> 'r) outcome option" where
  "on_table f m = then_do m (\<lambda>(t, r). Some (Ok (f t, r)))"

lemma then_do_assoc: "then_do (then_do m f) g = then_do m (\<lambda>x. then_do (f x) g)"
  by (auto simp: then_do_def split: option.splits outcome.splits)

lemma as_plain_simps [simp]:
  "ht_vec (as_plain ht) = ht_vec ht" "ht_size (as_plain ht) = ht_size ht"
  "ht_capacity (as_plain ht) = ht_capacity ht" "ht_fill (as_plain ht) = ht_fill ht"
  "ht_empty_slots (as_plain ht) = ht_empty_slots ht" "ht_rehashes (as_plain ht) = ht_rehashes ht"
  "ht_strcache (as_plain ht) = None"
  "ht_hash_1 (as_plain ht) = Some (strcached_hash_1 (ht_off_string ht))"
  "ht_hash_2 (as_plain ht) = Some (strcached_hash_2 (the (ht_strcache ht)) (ht_off_string ht))"
  "ht_compare (as_plain ht) = Some (strcached_cmp (ht_off_string ht))"
  "as_plain (ht\<lparr>ht_vec := v\<rparr>) = (as_plain ht)\<lparr>ht_vec := v\<rparr>"
  "as_plain (ht\<lparr>ht_fill := f\<rparr>) = (as_plain ht)\<lparr>ht_fill := f\<rparr>"
  "as_plain (ht\<lparr>ht_empty_slots := f\<rparr>) = (as_plain ht)\<lparr>ht_empty_slots := f\<rparr>"
  "as_plain (ht\<lparr>ht_rehashes := r\<rparr>) = (as_plain ht)\<lparr>ht_rehashes := r\<rparr>"
  "as_plain (ht\<lparr>ht_size := f\<rparr>) = (as_plain ht)\<lparr>ht_size := f\<rparr>"
  "as_plain (ht\<lparr>ht_capacity := f\<rparr>) = (as_plain ht)\<lparr>ht_capacity := f\<rparr>"
  "slot_at (as_plain ht) = slot_at ht"
  "mask_hash (as_plain ht) = mask_hash ht"
  by (simp_all add: as_plain_def slot_at_def mask_hash_def fun_eq_iff)

lemma probe_plain: "probe (as_plain ht) key slot ds = probe_strcached ht (ht_off_string ht key) slot ds"
  by (auto simp: probe_def probe_strcached_def as_plain_def strcached_cmp_def split: slot.splits)

lemma ucast_hash_or: "(ucast (ucast w OR 1 :: ulong) :: uint32) = w OR 1"
  by (rule bit_eqI) (auto simp: bit_simps)

lemma ucast_hash: "(ucast (ucast w :: ulong) :: uint32) = w"
  by (rule bit_eqI) (auto simp: bit_simps)

lemma or_1_nonzero: "w OR 1 \<noteq> (0 :: uint32)"
proof -
  have "bit (w OR 1) 0" by (simp add: bit_simps)
  then show ?thesis by auto
qed

lemma strcached_loop_plain:
  assumes "ht_strcache ht = Some get"
  shows "find_slot_strcached_loop ht (ht_off_string ht key) h (get (ht_off_string ht key) OR 1) ds =
    find_slot_loop (as_plain ht) key h (get (ht_off_string ht key) OR 1) ds"
proof -
  let ?d = "get (ht_off_string ht key) OR 1"
  have "find_slot_loop (as_plain ht) key h ?d ds = Some r"
    if "find_slot_strcached_loop ht (ht_off_string ht key) h ?d ds = Some r" for r
  proof -
    have "str1 = ht_off_string ht key \<longrightarrow> d = ?d \<longrightarrow> ht1 = ht \<longrightarrow> find_slot_loop (as_plain ht) key h d ds = Some r"
      if "find_slot_strcached_loop ht1 str1 h d ds = Some r" for ht1 str1 d
      using that
    proof (rule find_slot_strcached_loop.raw_induct [rotated])
      fix loop and ht1 :: "'a hash_table" and str1 h d ds r
      assume IH: "\<And>ht1 str1 h d ds r. loop ht1 str1 h d ds = Some r \<Longrightarrow>
          str1 = ht_off_string ht key \<longrightarrow> d = ?d \<longrightarrow> ht1 = ht \<longrightarrow> find_slot_loop (as_plain ht) key h d ds = Some r"
        and eq: "(let h = mask_hash ht1 h in
           case probe_strcached ht1 str1 (unat h) ds of Inl r \<Rightarrow> Some r
           | Inr ds \<Rightarrow> loop ht1 str1 (h + d) d ds) = Some r"
      show "str1 = ht_off_string ht key \<longrightarrow> d = ?d \<longrightarrow> ht1 = ht \<longrightarrow> find_slot_loop (as_plain ht) key h d ds = Some r"
        using eq by (subst find_slot_loop.simps)
          (auto simp: Let_def probe_plain or_1_nonzero split: sum.splits intro: IH [rule_format])
    qed
    then show ?thesis using that by blast
  qed
  moreover have "find_slot_strcached_loop ht (ht_off_string ht key) h ?d ds = Some r"
    if "find_slot_loop (as_plain ht) key h ?d ds = Some r" for r
  proof -
    have "key1 = key \<longrightarrow> d = ?d \<longrightarrow> ht1 = as_plain ht \<longrightarrow>
        find_slot_strcached_loop ht (ht_off_string ht key) h d ds = Some r"
      if "find_slot_loop ht1 key1 h d ds = Some r" for ht1 key1 d
      using that
    proof (rule find_slot_loop.raw_induct [rotated])
      fix loop and ht1 :: "'a hash_table" and key1 h d ds r
      assume IH: "\<And>ht1 key1 h d ds r. loop ht1 key1 h d ds = Some r \<Longrightarrow>
          key1 = key \<longrightarrow> d = ?d \<longrightarrow> ht1 = as_plain ht \<longrightarrow>
          find_slot_strcached_loop ht (ht_off_string ht key) h d ds = Some r"
        and eq: "(let h = mask_hash ht1 h in
           case probe ht1 key1 (unat h) ds of Inl r \<Rightarrow> Some r
           | Inr ds \<Rightarrow>
             if d = 0 then
               (case ht_hash_2 ht1 of None \<Rightarrow> Some (Undef NullDeref)
                | Some f \<Rightarrow> let d = ucast (f key1 OR 1) in loop ht1 key1 (h + d) d ds)
             else loop ht1 key1 (h + d) d ds) = Some r"
      show "key1 = key \<longrightarrow> d = ?d \<longrightarrow> ht1 = as_plain ht \<longrightarrow>
          find_slot_strcached_loop ht (ht_off_string ht key) h d ds = Some r"
        using eq by (subst find_slot_strcached_loop.simps)
          (auto simp: Let_def probe_plain or_1_nonzero split: sum.splits intro: IH [rule_format])
    qed
    then show ?thesis using that by blast
  qed
  ultimately show ?thesis by (metis option.exhaust)
qed

lemma hash_find_slot_plain:
  assumes "ht_strcache ht \<noteq> None"
  shows "hash_find_slot (as_plain ht) key = hash_find_slot_strcached ht key"
proof -
  obtain get where get: "ht_strcache ht = Some get" using assms by blast
  let ?p = "unat (mask_hash ht (strcache2_calc_ptr_hash (ht_off_string ht key)))"
  have "hash_find_slot (as_plain ht) key =
    (case probe_strcached ht (ht_off_string ht key) ?p None of
       Inl r \<Rightarrow> Some r
     | Inr ds \<Rightarrow> find_slot_strcached_loop ht (ht_off_string ht key)
         (mask_hash ht (strcache2_calc_ptr_hash (ht_off_string ht key)) + (get (ht_off_string ht key) OR 1))
         (get (ht_off_string ht key) OR 1) ds)"
    using get unfolding hash_find_slot_def
    by (subst find_slot_loop.simps)
      (simp add: Let_def probe_plain strcached_loop_plain [OF get, of key]
        strcached_hash_1_def strcached_hash_2_def ucast_hash ucast_hash_or cong: sum.case_cong)
  also have "\<dots> = hash_find_slot_strcached ht key"
    using get by (auto simp: hash_find_slot_strcached_def probe_strcached_def Let_def split: slot.splits)
  finally show ?thesis .
qed

lemma rehash_loop_plain:
  assumes "ht_strcache ht \<noteq> None"
  shows "rehash_loop vs (as_plain ht) =
    then_do (rehash_loop vs ht) (\<lambda>ht. Some (Ok (as_plain ht)))"
  using assms
proof (induction vs arbitrary: ht)
  case (Cons v vs)
  have "rehash_loop vs ((as_plain ht)\<lparr>ht_vec := w\<rparr>) =
      then_do (rehash_loop vs (ht\<lparr>ht_vec := w\<rparr>)) (\<lambda>ht. Some (Ok (as_plain ht)))" for w
    using Cons.IH [of "ht\<lparr>ht_vec := w\<rparr>"] Cons.prems by simp
  then show ?case
    using Cons.IH [of ht] Cons.prems
    by (cases v) (simp_all add: find_slot_any_def hash_find_slot_plain then_do_assoc)
qed simp

lemma rehash_loop_strcache: "rehash_loop vs ht = Some (Ok ht') \<Longrightarrow> ht_strcache ht' = ht_strcache ht"
proof (induction vs arbitrary: ht)
  case (Cons v vs)
  then show ?case
    by (cases v) (auto simp: then_do_def split: option.splits outcome.splits)
qed simp

lemma hash_rehash_plain:
  assumes "ht_strcache ht \<noteq> None"
  shows "hash_rehash (as_plain ht) = then_do (hash_rehash ht) (\<lambda>ht. Some (Ok (as_plain ht)))"
proof -
  have g: "grow (as_plain ht) = as_plain (grow ht)"
    by (simp add: grow_def Let_def)
  have s: "ht_strcache (grow ht) \<noteq> None"
    using assms by (simp add: grow_def Let_def)
  let ?ht1 = "(grow ht)\<lparr>ht_rehashes := ht_rehashes (grow ht) + 1,
    ht_vec := replicate (unat (ht_size (grow ht))) Empty\<rparr>"
  have "rehash_loop (ht_vec ht) (as_plain ?ht1) =
    then_do (rehash_loop (ht_vec ht) ?ht1) (\<lambda>ht. Some (Ok (as_plain ht)))"
    by (rule rehash_loop_plain) (use s in simp)
  then show ?thesis by (simp add: hash_rehash_def Let_def g then_do_assoc)
qed

lemma then_do_cong:
  "m = m' \<Longrightarrow> (\<And>x. m' = Some (Ok x) \<Longrightarrow> f x = f' x) \<Longrightarrow> then_do m f = then_do m' f'"
  by (auto simp: then_do_def split: option.splits outcome.splits)

lemma hash_rehash_strcache: "hash_rehash ht = Some (Ok ht') \<Longrightarrow> ht_strcache ht' = ht_strcache ht"
  by (auto simp: hash_rehash_def Let_def grow_def then_do_def
      split: option.splits outcome.splits if_splits dest!: rehash_loop_strcache)

lemma hash_insert_at_plain:
  assumes "ht_strcache ht \<noteq> None"
  shows "hash_insert_at (as_plain ht) x s = on_table as_plain (hash_insert_at ht x s)"
proof (cases "s < length (ht_vec ht)")
  case True
  let ?ht1 = "\<lambda>ht. (let ht = (if HASH_VACANT (ht_vec ht ! s) then
                   (let ht = ht\<lparr>ht_fill := ht_fill ht + 1\<rparr>
                    in case ht_vec ht ! s of
                         Empty \<Rightarrow> ht\<lparr>ht_empty_slots := ht_empty_slots ht - 1\<rparr>
                       | _ \<Rightarrow> ht)
                 else ht)
      in ht\<lparr>ht_vec := (ht_vec ht)[s := Item x]\<rparr>)"
  let ?rest = "\<lambda>ht. if ht_empty_slots ht < ht_size ht - ht_capacity ht then
            then_do (hash_rehash ht) (\<lambda>ht.
            then_do (find_slot_any ht x) (\<lambda>slot. Some (Ok (ht, slot))))
          else Some (Ok (ht, s))"
  have step: "hash_insert_at ht' x s = ?rest (?ht1 ht')" if "ht_vec ht' = ht_vec ht" for ht' :: "'a hash_table"
    using True that by (simp add: hash_insert_at_def slot_at_def Let_def)
  have ht1: "?ht1 (as_plain ht) = as_plain (?ht1 ht)"
    by (cases "ht_vec ht ! s") (simp_all add: Let_def)
  have sc: "ht_strcache (?ht1 ht) \<noteq> None"
    using assms by (cases "ht_vec ht ! s") (simp_all add: Let_def)
  have rest: "?rest (as_plain ht1) = on_table as_plain (?rest ht1)" if sc1: "ht_strcache ht1 \<noteq> None" for ht1
  proof -
    have find: "find_slot_any (as_plain ht2) x = find_slot_any ht2 x"
      if "hash_rehash ht1 = Some (Ok ht2)" for ht2
      using hash_rehash_strcache [OF that] sc1 by (simp add: find_slot_any_def hash_find_slot_plain)
    show ?thesis
      by (auto simp: hash_rehash_plain [OF sc1] on_table_def then_do_assoc find intro!: then_do_cong)
  qed
  show ?thesis
    unfolding step [OF refl] step [OF as_plain_simps(1)] ht1 by (rule rest [OF sc])
next
  case False
  then show ?thesis by (simp add: hash_insert_at_def slot_at_def on_table_def)
qed

lemma hash_insert_plain:
  assumes "ht_strcache ht \<noteq> None"
  shows "hash_insert (as_plain ht) x = on_table as_plain (hash_insert_strcached ht x)"
  unfolding hash_insert_def hash_insert_strcached_def hash_find_slot_plain [OF assms]
    hash_insert_at_plain [OF assms] on_table_def
  by (auto simp: then_do_assoc intro!: then_do_cong)

lemma hash_delete_at_plain: "hash_delete_at (as_plain ht) s = on_table as_plain (hash_delete_at ht s)"
  by (auto simp: hash_delete_at_def on_table_def slot_at_def split: slot.splits)

end
