(* ===== verification/HashCorrect.thy ===== *)
theory HashCorrect
  imports HashCached
begin

unbundle bit_operations_syntax

text \<open>
  What the operations of the hash table promise to their callers.
\<close>

section \<open>Searching, inserting and deleting\<close>

lemma distinct_visited:
  assumes "hash_keys h1 h2 cmp" and "hash_ok h1 h2 cmp ht"
  shows "distinct (visited (ht_vec ht))"
proof -
  have "sorted_wrt (\<lambda>x y. cmp x y \<noteq> 0) (visited (ht_vec ht))"
    using assms(2) by (simp add: hash_ok_def hash_rep_def distinct_keys_visited)
  moreover have "distinct xs" if "sorted_wrt (\<lambda>x y. cmp x y \<noteq> 0) xs" for xs
    using that hash_keys.cmp_refl [OF assms(1)] by (induction xs) auto
  ultimately show ?thesis by blast
qed

lemma card_hash_items:
  assumes "hash_keys h1 h2 cmp" and "hash_ok h1 h2 cmp ht"
  shows "unat (ht_fill ht) = card (hash_items ht)"
proof -
  have "distinct (visited (ht_vec ht))"
    using assms by (rule distinct_visited)
  then have "card (set (visited (ht_vec ht))) = length (visited (ht_vec ht))" by (rule distinct_card)
  then show ?thesis using assms(2) by (simp add: hash_ok_def hash_items_def)
qed

lemma find_item_total:
  assumes "hash_keys h1 h2 cmp" and ok: "hash_ok h1 h2 cmp ht" and "Empty \<in> set (ht_vec ht)"
  shows "\<exists>r. hash_find_item ht key = Some (Ok r)
    \<and> (\<forall>x. r = Some x \<longleftrightarrow> x \<in> hash_items ht \<and> cmp key x = 0)"
proof -
  obtain s where s: "hash_find_slot ht key = Some (Ok s)" "s < length (ht_vec ht)"
    "case item_or_null (ht_vec ht ! s) of
       Some x \<Rightarrow> x \<in> hash_items ht \<and> cmp key x = 0
     | None \<Rightarrow> \<forall>x \<in> hash_items ht. cmp key x \<noteq> 0"
    using hash_keys.hash_find_ok [OF assms(1) ok assms(3), of key] by blast
  have rep: "hash_rep h1 h2 cmp ht" using ok by (simp add: hash_ok_def)
  have "x = y" if "x \<in> hash_items ht" "y \<in> hash_items ht" "cmp key x = 0" "cmp key y = 0" for x y
    using hash_keys.hash_items_unique [OF assms(1) rep that(1,2)]
      hash_keys.cmp_sym [OF assms(1) that(3)] hash_keys.cmp_trans [OF assms(1) _ that(4)] by blast
  then have "\<forall>x. item_or_null (ht_vec ht ! s) = Some x \<longleftrightarrow> x \<in> hash_items ht \<and> cmp key x = 0"
    using s(3) by (auto split: option.splits)
  then show ?thesis
    using s(1,2) by (intro exI [of _ "item_or_null (ht_vec ht ! s)"]) (simp add: hash_find_item_def slot_at_def)
qed

lemma insert_total:
  assumes "hash_keys h1 h2 cmp" and ok: "hash_ok h1 h2 cmp ht" and "Empty \<in> set (ht_vec ht)"
    and room: "length (ht_vec ht) < 4294967296"
  shows "\<exists>ht' old. hash_insert ht item = Some (Ok (ht', old))
    \<and> hash_ok h1 h2 cmp ht'
    \<and> hash_items ht' = insert item {y \<in> hash_items ht. cmp item y \<noteq> 0}
    \<and> (\<forall>x. old = Some x \<longleftrightarrow> x \<in> hash_items ht \<and> cmp item x = 0)
    \<and> (Deleted \<notin> set (ht_vec ht) \<longrightarrow> Deleted \<notin> set (ht_vec ht'))
    \<and> (length (ht_vec ht') = length (ht_vec ht) \<or> length (ht_vec ht') = 2 * length (ht_vec ht)
        \<and> length (ht_vec ht) - length (ht_vec ht) div 16 \<le> card (hash_items ht'))"
proof -
  obtain s where s: "hash_find_slot ht item = Some (Ok s)" "good_slot cmp ht item s" "s < length (ht_vec ht)"
    using hash_keys.hash_find_ok [OF assms(1) ok assms(3), of item] by blast
  obtain r where r: "hash_find_item ht item = Some (Ok r)"
    "\<forall>x. r = Some x \<longleftrightarrow> x \<in> hash_items ht \<and> cmp item x = 0"
    using find_item_total [OF assms(1-3)] by blast
  have "r = item_or_null (ht_vec ht ! s)"
    using r(1) s(1,3) by (simp add: hash_find_item_def slot_at_def)
  moreover obtain ht' s' where ins: "hash_insert_at ht item s = Some (Ok (ht', s'))"
    and ok': "hash_ok h1 h2 cmp ht'"
    and rest: "hash_items ht' = insert item {y \<in> hash_items ht. cmp item y \<noteq> 0}"
      "Deleted \<notin> set (ht_vec ht) \<longrightarrow> Deleted \<notin> set (ht_vec ht')"
      "length (ht_vec ht') = length (ht_vec ht) \<or> length (ht_vec ht') = 2 * length (ht_vec ht)
        \<and> length (ht_vec ht) - length (ht_vec ht) div 16 \<le> unat (ht_fill ht')"
    using hash_keys.hash_insert_at_ok [OF assms(1) ok s(2) room] by blast
  ultimately show ?thesis
    using s r(2) ok' rest card_hash_items [OF assms(1) ok']
    by (intro exI [of _ ht'] exI [of _ r]) (simp add: hash_insert_def slot_at_def)
qed

lemma delete_total:
  assumes "hash_keys h1 h2 cmp" and ok: "hash_ok h1 h2 cmp ht" and "Empty \<in> set (ht_vec ht)"
  shows "\<exists>ht' old. hash_delete ht item = Some (Ok (ht', old))
    \<and> hash_ok h1 h2 cmp ht'
    \<and> hash_items ht' = {y \<in> hash_items ht. cmp item y \<noteq> 0}
    \<and> (\<forall>x. old = Some x \<longleftrightarrow> x \<in> hash_items ht \<and> cmp item x = 0)
    \<and> length (ht_vec ht') = length (ht_vec ht)"
proof -
  obtain s where s: "hash_find_slot ht item = Some (Ok s)" "s < length (ht_vec ht)"
    using hash_keys.hash_find_ok [OF assms(1) ok assms(3), of item] by blast
  obtain r where r: "hash_find_item ht item = Some (Ok r)"
    "\<forall>x. r = Some x \<longleftrightarrow> x \<in> hash_items ht \<and> cmp item x = 0"
    using find_item_total [OF assms(1-3)] by blast
  have old: "r = item_or_null (ht_vec ht ! s)"
    using r(1) s by (simp add: hash_find_item_def slot_at_def)
  have "hash_items ht - set_option r = {y \<in> hash_items ht. cmp item y \<noteq> 0}"
    using r(2) by auto
  then show ?thesis
    using hash_keys.hash_delete_at_ok [OF assms(1) ok s(2)] s r(2) old
    by (auto simp: hash_delete_def)
qed

text \<open>
  C32: In a well-formed table with an empty slot, \<open>hash_find_item\<close> returns: the item of the table
  that compares equal to the key if there is one, and null otherwise.
\<close>

theorem hash_find_item_correct:
  assumes "hash_keys h1 h2 cmp" and "hash_ok h1 h2 cmp ht" and "Empty \<in> set (ht_vec ht)"
  shows "\<exists>r. hash_find_item ht key = Some (Ok r)
    \<and> (\<forall>x. r = Some x \<longleftrightarrow> x \<in> hash_items ht \<and> cmp key x = 0)"
  using assms by (rule find_item_total)

text \<open>
  C15: \<open>hash_insert\<close> refines insertion into a set of items with distinct keys: it returns the item
  with the same key, which it replaces, or null. The invariant is kept, through a rehash too, and
  a table of at least 16 slots is left with an empty slot. The vector keeps its size or is doubled,
  and it is doubled only when the load limit is reached.
\<close>

theorem hash_insert_correct:
  assumes "hash_keys h1 h2 cmp" and "hash_ok h1 h2 cmp ht" and "Empty \<in> set (ht_vec ht)"
    and "length (ht_vec ht) < 4294967296"
  shows "\<exists>ht' old. hash_insert ht item = Some (Ok (ht', old))
    \<and> hash_ok h1 h2 cmp ht'
    \<and> (16 \<le> length (ht_vec ht) \<longrightarrow> Empty \<in> set (ht_vec ht'))
    \<and> hash_items ht' = insert item {y \<in> hash_items ht. cmp item y \<noteq> 0}
    \<and> (\<forall>x. old = Some x \<longleftrightarrow> x \<in> hash_items ht \<and> cmp item x = 0)
    \<and> (length (ht_vec ht') = length (ht_vec ht) \<or> length (ht_vec ht') = 2 * length (ht_vec ht)
        \<and> length (ht_vec ht) - length (ht_vec ht) div 16 \<le> card (hash_items ht'))"
proof -
  obtain ht' old where "hash_insert ht item = Some (Ok (ht', old))" and ok': "hash_ok h1 h2 cmp ht'"
    and "hash_items ht' = insert item {y \<in> hash_items ht. cmp item y \<noteq> 0}"
      "\<forall>x. old = Some x \<longleftrightarrow> x \<in> hash_items ht \<and> cmp item x = 0"
      and len: "length (ht_vec ht') = length (ht_vec ht) \<or> length (ht_vec ht') = 2 * length (ht_vec ht)
        \<and> length (ht_vec ht) - length (ht_vec ht) div 16 \<le> card (hash_items ht')"
    using insert_total [OF assms] by blast
  moreover have "Empty \<in> set (ht_vec ht')" if "16 \<le> length (ht_vec ht)"
    using hash_ok_Empty [OF ok'] len that by auto
  ultimately show ?thesis by blast
qed

text \<open>
  \<open>hash_delete\<close> removes the item with the given key and returns it, and changes nothing else of
  the set of items; the invariant is kept.
\<close>

theorem hash_delete_correct:
  assumes "hash_keys h1 h2 cmp" and "hash_ok h1 h2 cmp ht" and "Empty \<in> set (ht_vec ht)"
  shows "\<exists>ht' old. hash_delete ht item = Some (Ok (ht', old))
    \<and> hash_ok h1 h2 cmp ht'
    \<and> hash_items ht' = {y \<in> hash_items ht. cmp item y \<noteq> 0}
    \<and> (\<forall>x. old = Some x \<longleftrightarrow> x \<in> hash_items ht \<and> cmp item x = 0)
    \<and> length (ht_vec ht') = length (ht_vec ht)"
  using assms by (rule delete_total)

section \<open>A search that does not return\<close>

lemma find_slot_loop_full:
  assumes "\<And>h ds r. probe ht key (unat (mask_hash ht h)) ds \<noteq> Inl r" and "ht_hash_2 ht \<noteq> None"
  shows "find_slot_loop ht key h d ds = None"
proof -
  have "False" if "find_slot_loop ht key h d ds = Some r" for r
  proof -
    have "ht1 = ht \<and> key1 = key \<longrightarrow> False" if "find_slot_loop ht1 key1 h d ds = Some r" for ht1 key1
    proof (rule find_slot_loop.raw_induct [OF _ that])
      fix loop and ht1 :: "'a hash_table" and key1 h d ds r
      assume "\<And>ht1 key1 h d ds r. loop ht1 key1 h d ds = Some r \<Longrightarrow> ht1 = ht \<and> key1 = key \<longrightarrow> False"
        and "(let h = mask_hash ht1 h in
           case probe ht1 key1 (unat h) ds of Inl r \<Rightarrow> Some r
           | Inr ds \<Rightarrow>
             if d = 0 then
               (case ht_hash_2 ht1 of None \<Rightarrow> Some (Undef NullDeref)
                | Some f \<Rightarrow> let d = ucast (f key1 OR 1) in loop ht1 key1 (h + d) d ds)
             else loop ht1 key1 (h + d) d ds) = Some r"
      then show "ht1 = ht \<and> key1 = key \<longrightarrow> False"
        using assms by (auto simp: Let_def split: sum.splits if_splits option.splits)
    qed
    then show ?thesis using that by blast
  qed
  then show ?thesis by (metis option.exhaust)
qed

text \<open>
  C33: A search for a key that is not in the table does not return when the table has no empty
  slot. The instance after \<open>one_slot\<close> below gives such a table that \<open>hash_init\<close> and one insertion make.
\<close>

theorem hash_find_slot_full:
  assumes "hash_shape h1 h2 cmp ht" and "Empty \<notin> set (ht_vec ht)"
    and "\<forall>x \<in> hash_items ht. key \<noteq> x \<and> cmp key x \<noteq> 0"
  shows "hash_find_slot ht key = None"
proof -
  obtain k where k: "k \<le> 32" "ht_size ht = 2 ^ k" "length (ht_vec ht) = 2 ^ k"
    using assms(1) by (rule hash_shapeE)
  have "probe ht key (unat (mask_hash ht h)) ds \<noteq> Inl r" for h ds r
  proof -
    have i: "unat (mask_hash ht h) < length (ht_vec ht)"
      using unat_mask_hash [OF k(2,1), of h] k(3) by simp
    have mem: "ht_vec ht ! unat (mask_hash ht h) \<in> set (ht_vec ht)" using i by simp
    show ?thesis
    proof (cases "ht_vec ht ! unat (mask_hash ht h)")
      case (Item x)
      then have "x \<in> hash_items ht" using i nth_mem by (force simp: hash_items_def)
      then show ?thesis using i Item assms(1,3) by (simp add: probe_def hash_shape_def)
    next
      case Empty
      then show ?thesis using assms(2) mem by simp
    next
      case Deleted
      then show ?thesis using i by (simp add: probe_def)
    qed
  qed
  moreover have "ht_hash_2 ht \<noteq> None" using assms(1) by (simp add: hash_shape_def)
  ultimately have "find_slot_loop ht key h d ds = None" for h d ds by (rule find_slot_loop_full)
  then show ?thesis
    using assms(1) by (simp add: hash_find_slot_def hash_shape_def)
qed

section \<open>A table of words\<close>

definition two_words :: "nat \<Rightarrow> a_word" where
  "two_words p = \<lparr>str = (if p = 0 then ''a'' else ''b''), word_length = 1\<rparr>"

definition word_table :: "(nat \<Rightarrow> a_word) \<Rightarrow> ulong \<Rightarrow> nat hash_table" where
  "word_table mem n =
     hash_init n (Some (a_word_hash_1 mem)) (Some (a_word_hash_2 mem)) (Some (a_word_hash_cmp mem)) (\<lambda>_. 0)"

abbreviation word_table_ok :: "(nat \<Rightarrow> a_word) \<Rightarrow> nat hash_table \<Rightarrow> bool" where
  "word_table_ok mem \<equiv> hash_ok (a_word_hash_1 mem) (a_word_hash_2 mem) (a_word_hash_cmp mem)"

lemma two_words_cmp [simp]: "a_word_hash_cmp two_words x y = 0 \<longleftrightarrow> (x = 0 \<longleftrightarrow> y = 0)"
  by (simp add: a_word_hash_cmp_eq two_words_def)

lemma word_table_ok:
  assumes "unat n < 4294967296"
  shows "word_table_ok mem (word_table mem n)" and "hash_items (word_table mem n) = {}"
    and "unat n < length (ht_vec (word_table mem n))"
    and "length (ht_vec (word_table mem n)) \<le> 2 * unat n + 1"
    and "set (ht_vec (word_table mem n)) \<subseteq> {Empty}"
  unfolding word_table_def by (rule hash_init_ok [OF assms])+

lemma word_table_32:
  "word_table_ok two_words (word_table two_words 20)" "hash_items (word_table two_words 20) = {}"
  "Empty \<in> set (ht_vec (word_table two_words 20))" "16 \<le> length (ht_vec (word_table two_words 20))"
  "length (ht_vec (word_table two_words 20)) < 4294967296"
proof -
  note t = word_table_ok [of 20 two_words, simplified]
  show "word_table_ok two_words (word_table two_words 20)" "hash_items (word_table two_words 20) = {}"
    using t by simp_all
  show "16 \<le> length (ht_vec (word_table two_words 20))"
    "length (ht_vec (word_table two_words 20)) < 4294967296"
    using t(3,4) by simp_all
  show "Empty \<in> set (ht_vec (word_table two_words 20))"
    using t(3,5) by (cases "ht_vec (word_table two_words 20)") auto
qed

lemma two_words_inserted:
  "\<exists>ht. hash_insert (word_table two_words 20) 0 = Some (Ok (ht, None)) \<and> word_table_ok two_words ht
    \<and> hash_items ht = {0} \<and> Empty \<in> set (ht_vec ht) \<and> length (ht_vec ht) < 4294967296"
proof -
  note t = word_table_32
  obtain ht old where ht: "hash_insert (word_table two_words 20) 0 = Some (Ok (ht, old))"
    "word_table_ok two_words ht" "hash_items ht = {0}" "\<forall>x. old \<noteq> Some x"
    "length (ht_vec ht) = length (ht_vec (word_table two_words 20))
      \<or> length (ht_vec ht) = 2 * length (ht_vec (word_table two_words 20))"
    using insert_total [OF word_keys.hash_keys_axioms t(1,3,5), of 0] t(2) by auto
  have "old = None" using ht(4) by (cases old) auto
  moreover have "Empty \<in> set (ht_vec ht)"
    using hash_ok_Empty [OF ht(2)] t(4) ht(5) by auto
  moreover have "length (ht_vec ht) < 4294967296"
    using ht(5) word_table_ok(4) [of 20 two_words] by auto
  ultimately show ?thesis using ht(1-3) by blast
qed

theorem hash_find_item_correct_witness:
  "\<exists>ht. hash_insert (word_table two_words 20) 0 = Some (Ok (ht, None))
    \<and> hash_find_item ht 0 = Some (Ok (Some 0)) \<and> hash_find_item ht 1 = Some (Ok None)"
proof -
  obtain ht where ht: "hash_insert (word_table two_words 20) 0 = Some (Ok (ht, None))"
    "word_table_ok two_words ht" "hash_items ht = {0}" "Empty \<in> set (ht_vec ht)"
    using two_words_inserted by blast
  note find = hash_find_item_correct [OF word_keys.hash_keys_axioms ht(2,4), unfolded ht(3) two_words_cmp]
  obtain r where "hash_find_item ht 0 = Some (Ok r)" "r = Some 0"
    using find [of 0] by blast
  moreover obtain r' where r': "hash_find_item ht 1 = Some (Ok r')"
    "\<forall>x. r' = Some x \<longleftrightarrow> x \<in> {0} \<and> (1 = (0::nat)) = (x = 0)"
    using find [of 1] by blast
  moreover have "r' = None" using r'(2) by (cases r') auto
  ultimately show ?thesis using ht(1) by blast
qed

theorem hash_insert_correct_witness:
  "\<exists>ht ht'. hash_insert (word_table two_words 20) 0 = Some (Ok (ht, None))
    \<and> hash_insert ht 1 = Some (Ok (ht', None)) \<and> hash_items ht' = {0, 1}"
proof -
  obtain ht where ht: "hash_insert (word_table two_words 20) 0 = Some (Ok (ht, None))"
    "word_table_ok two_words ht" "hash_items ht = {0}" "Empty \<in> set (ht_vec ht)" "length (ht_vec ht) < 4294967296"
    using two_words_inserted by blast
  note ins = hash_insert_correct [OF word_keys.hash_keys_axioms ht(2,4,5), unfolded ht(3) two_words_cmp]
  obtain ht' old where new: "hash_insert ht 1 = Some (Ok (ht', old))"
    "hash_items ht' = insert 1 {y \<in> {0}. (1 = (0::nat)) \<noteq> (y = 0)}"
    "\<forall>x. old = Some x \<longleftrightarrow> x \<in> {0} \<and> (1 = (0::nat)) = (x = 0)"
    using ins [of 1] by (elim exE conjE)
  have "hash_items ht' = {0, 1}" using new(2) by auto
  moreover have "old = None" using new(3) by (cases old) auto
  ultimately show ?thesis using ht(1) new(1) by blast
qed

theorem hash_delete_correct_witness:
  "\<exists>ht ht'. hash_insert (word_table two_words 20) 0 = Some (Ok (ht, None))
    \<and> hash_delete ht 0 = Some (Ok (ht', Some 0)) \<and> hash_items ht' = {}"
proof -
  obtain ht where ht: "hash_insert (word_table two_words 20) 0 = Some (Ok (ht, None))"
    "word_table_ok two_words ht" "hash_items ht = {0}" "Empty \<in> set (ht_vec ht)"
    using two_words_inserted by blast
  note del = hash_delete_correct [OF word_keys.hash_keys_axioms ht(2,4), unfolded ht(3) two_words_cmp]
  obtain ht' old where new: "hash_delete ht 0 = Some (Ok (ht', old))"
    "hash_items ht' = {y \<in> {0}. (0 = (0::nat)) \<noteq> (y = 0)}"
    "\<forall>x. old = Some x \<longleftrightarrow> x \<in> {0} \<and> (0 = (0::nat)) = (x = 0)"
    using del [of 0] by blast
  have "hash_items ht' = {}" using new(2) by auto
  moreover have "old = Some 0" using new(3) by blast
  ultimately show ?thesis using ht(1) new(1) by blast
qed

text \<open>A table created for no items has one slot, and the first insertion fills it.\<close>

lemma one_slot:
  "hash_insert (word_table two_words 0) 0 = Some (Ok ((word_table two_words 0)
     \<lparr>ht_vec := [Item 0], ht_fill := 1, ht_empty_slots := 0\<rparr>, None))"
proof -
  have r: "round_up_2 0 = 1" by (simp add: round_up_2_def)
  have f: "hash_find_slot (word_table two_words 0) 0 = Some (Ok 0)"
    by (simp add: hash_find_slot_def word_table_def hash_init_def r find_slot_loop.simps mask_hash_def probe_def)
  show ?thesis
    by (simp add: hash_insert_def f slot_at_def hash_insert_at_def)
      (simp add: word_table_def hash_init_def r)
qed

theorem hash_find_slot_full_witness:
  "\<exists>ht. hash_insert (word_table two_words 0) 0 = Some (Ok (ht, None)) \<and> hash_find_slot ht 1 = None"
proof -
  let ?ht = "(word_table two_words 0)\<lparr>ht_vec := [Item 0], ht_fill := 1, ht_empty_slots := 0\<rparr>"
  have r: "round_up_2 0 = 1" by (simp add: round_up_2_def)
  have "hash_shape (a_word_hash_1 two_words) (a_word_hash_2 two_words) (a_word_hash_cmp two_words) ?ht"
    by (auto simp: hash_shape_def word_table_def hash_init_def r intro!: exI [of _ 0])
  then have "hash_find_slot ?ht 1 = None"
    by (rule hash_find_slot_full) (auto simp: hash_items_def)
  then show ?thesis using one_slot by blast
qed

section \<open>Sizes\<close>

text \<open>
  \<open>round_up_2\<close> gives the least power of two that is greater than its argument: a table always
  has more slots than the number of items it is created for.
\<close>

theorem round_up_2_correct:
  assumes "unat n < 2 ^ 63"
  shows "\<exists>t \<le> 63. unat (round_up_2 n) = 2 ^ t \<and> unat n < 2 ^ t \<and> (\<forall>s. unat n < 2 ^ s \<longrightarrow> t \<le> s)"
proof -
  obtain t where t: "t \<le> 63" "round_up_2 n = 2 ^ t" "unat n < 2 ^ t" "t = 0 \<or> 2 ^ (t - 1) \<le> unat n"
    using round_up_2_ex [OF assms] by auto
  have "t \<le> s" if "unat n < 2 ^ s" for s
  proof (rule ccontr)
    assume "\<not> t \<le> s"
    then have "s \<le> t - 1" and "t \<noteq> 0" by auto
    then have "(2::nat) ^ s \<le> 2 ^ (t - 1)" by (intro power_increasing) auto
    moreover have "2 ^ (t - 1) \<le> unat n" using t(4) \<open>t \<noteq> 0\<close> by simp
    ultimately show False using that by linarith
  qed
  moreover have "unat (round_up_2 n) = 2 ^ t"
    using t(1,2) by (simp add: unat_two_power_64)
  ultimately show ?thesis using t(1,3) by blast
qed

theorem round_up_2_correct_witness: "unat (round_up_2 8) = 16"
proof -
  obtain t where t: "unat (round_up_2 8) = 2 ^ t" "(8::nat) < 2 ^ t" "\<forall>s. (8::nat) < 2 ^ s \<longrightarrow> t \<le> s"
    using round_up_2_correct [of 8] by auto
  have "t \<le> 4" using t(3) [rule_format, of 4] by simp
  moreover have "\<not> t \<le> 3"
  proof
    assume "t \<le> 3"
    then have "(2::nat) ^ t \<le> 2 ^ 3" by (intro power_increasing) auto
    then show False using t(2) by simp
  qed
  ultimately have "t = 4" by simp
  then show ?thesis using t(1) by simp
qed

section \<open>Tables of cached strings\<close>

text \<open>
  C37: A table whose keys come from a string cache behaves as a plain table whose callbacks compare
  the string addresses: the unrolled search, the insertion with its rehash and the deletion give
  the same results.
\<close>

theorem hash_strcached_equivalent:
  assumes "ht_strcache ht \<noteq> None"
  shows "hash_find_item_strcached ht key = hash_find_item (as_plain ht) key
    \<and> on_table as_plain (hash_insert_strcached ht item) = hash_insert (as_plain ht) item
    \<and> on_table as_plain (hash_delete_strcached ht item) = hash_delete (as_plain ht) item"
  by (simp add: hash_insert_plain [OF assms] hash_find_item_strcached_def hash_find_item_def
      hash_find_slot_plain [OF assms] hash_delete_def hash_delete_strcached_def hash_delete_at_plain
      on_table_def then_do_assoc)

definition strcached_table :: "ulong hash_table" where
  "strcached_table = hash_init_strcached 20 (\<lambda>_. 0) id id"

theorem hash_strcached_equivalent_witness:
  "hash_find_item_strcached strcached_table 64 = hash_find_item (as_plain strcached_table) 64"
  using hash_strcached_equivalent [of strcached_table 64]
  by (simp add: strcached_table_def hash_init_strcached_def)

end
