(* ===== verification/StrHash.thy ===== *)
theory StrHash
  imports Hash
begin

unbundle bit_operations_syntax

text \<open>
  The hash functions and the comparison of kmk's string cache, \<open>src/kmk/strcache2.c\<close>.

  \<open>unsigned int\<close>, \<open>uint32_t\<close> and the \<open>int\<close>s of the comparison are 32-bit words, with the arithmetic of
  the target. A \<open>char\<close> is signed, so converting it extends its sign. \<open>tolower\<close> leaves characters
  outside ASCII alone. The words that the code reads through cast pointers are little-endian.
\<close>

section \<open>Hashing\<close>

definition strcache2_get_unaligned_16bits :: "string \<Rightarrow> uint32" where
  "strcache2_get_unaligned_16bits ptr = of_nat (cord (peek ptr)) OR push_bit 8 (of_nat (cord (cget ptr 1)))"

definition char_int :: "char \<Rightarrow> uint32" where
  "char_int c = word_of_int (schar c)"

fun hash_loop :: "nat \<Rightarrow> uint32 \<Rightarrow> string \<Rightarrow> uint32 \<times> string" where
  "hash_loop 0 hash s = (hash, s)"
| "hash_loop (Suc len) hash s =
     (let hash = hash + strcache2_get_unaligned_16bits s;
          tmp = push_bit 11 (strcache2_get_unaligned_16bits (drop 2 s)) XOR hash;
          hash = push_bit 16 hash XOR tmp;
          hash = hash + drop_bit 11 hash
      in hash_loop len hash (drop 4 s))"

definition hash_remainder :: "nat \<Rightarrow> uint32 \<Rightarrow> string \<Rightarrow> uint32" where
  "hash_remainder rem hash s =
     (if rem = 3 then
        (let hash = hash + strcache2_get_unaligned_16bits s;
             hash = hash XOR push_bit 16 hash;
             hash = hash XOR push_bit 18 (char_int (cget s 2))
         in hash + drop_bit 11 hash)
      else if rem = 2 then
        (let hash = hash + strcache2_get_unaligned_16bits s;
             hash = hash XOR push_bit 11 hash
         in hash + drop_bit 17 hash)
      else if rem = 1 then
        (let hash = hash + char_int (peek s);
             hash = hash XOR push_bit 10 hash
         in hash + drop_bit 1 hash)
      else hash)"

definition hash_avalanche :: "uint32 \<Rightarrow> uint32" where
  "hash_avalanche hash =
     (let hash = hash XOR push_bit 3 hash;
          hash = hash + drop_bit 5 hash;
          hash = hash XOR push_bit 4 hash;
          hash = hash + drop_bit 17 hash;
          hash = hash XOR push_bit 25 hash
      in hash + drop_bit 6 hash)"

definition strcache2_case_sensitive_hash :: "string \<Rightarrow> nat \<Rightarrow> uint32" where
  "strcache2_case_sensitive_hash s len =
     (let (hash, s) = hash_loop (len div 4) (of_nat len) s
      in hash_avalanche (hash_remainder (len mod 4) hash s))"

fun ihash_loop :: "uint32 \<Rightarrow> uint32 \<Rightarrow> nat \<Rightarrow> string \<Rightarrow> uint32" where
  "ihash_loop hash ch0 len s =
     (if len \<ge> 2 then
        (let ch1 = char_int (tolower (peek s));
             hash = hash + push_bit (unat (ch1 AND 0xf)) ch0;
             ch0 = char_int (tolower (cget s 1));
             hash = hash + push_bit (unat (ch0 AND 0xf)) ch1
         in ihash_loop hash ch0 (len - 2) (drop 2 s))
      else if len = 1 then
        (let ch1 = char_int (tolower (peek s));
             hash = hash + push_bit (unat (ch1 AND 0xf)) ch0
         in hash + ch1)
      else hash + ch0)"

declare ihash_loop.simps [simp del]

definition strcache2_case_insensitive_hash :: "string \<Rightarrow> nat \<Rightarrow> uint32" where
  "strcache2_case_insensitive_hash s len =
     (if len \<ge> 2 then ihash_loop 0 (char_int (tolower (peek s))) (len - 1) (tl s)
      else if len = 1 then
        (let hash = char_int (peek s)
         in hash + push_bit (unat (hash AND 0xf)) hash)
      else 0)"

section \<open>Comparing\<close>

text \<open>\<open>*(int32_t * )xs\<close>, and the four bytes put together one by one for an unaligned pointer.\<close>

definition int32_at :: "string \<Rightarrow> uint32" where
  "int32_at xs = of_nat (cord (cget xs 0) + cord (cget xs 1) * 2 ^ 8 + cord (cget xs 2) * 2 ^ 16 + cord (cget xs 3) * 2 ^ 24)"

definition int32_bytes :: "string \<Rightarrow> uint32" where
  "int32_bytes xs =
     ((push_bit 24 (char_int (cget xs 3)) OR push_bit 16 (char_int (cget xs 2)))
      OR push_bit 8 (char_int (cget xs 1))) OR char_int (cget xs 0)"

text \<open>The loop over blocks of eight bytes: a result that is not zero, or the rest of the strings.\<close>

fun cmp_blocks :: "(string \<Rightarrow> uint32) \<Rightarrow> nat \<Rightarrow> string \<Rightarrow> string \<Rightarrow> uint32 + string \<times> string" where
  "cmp_blocks get 0 xs ys = Inr (xs, ys)"
| "cmp_blocks get (Suc len) xs ys =
     (let result = (get xs - int32_at ys) OR (get (drop 4 xs) - int32_at (drop 4 ys))
      in if result \<noteq> 0 then Inl result else cmp_blocks get len (drop 8 xs) (drop 8 ys))"

definition char_diff :: "string \<Rightarrow> string \<Rightarrow> nat \<Rightarrow> uint32" where
  "char_diff xs ys i = word_of_int (schar (cget xs i) - schar (cget ys i))"

definition remainder_aligned :: "nat \<Rightarrow> string \<Rightarrow> string \<Rightarrow> uint32" where
  "remainder_aligned n xs ys =
     (if n = 7 then int32_at xs - int32_at ys OR char_diff xs ys 6 OR char_diff xs ys 5 OR char_diff xs ys 4
      else if n = 6 then int32_at xs - int32_at ys OR char_diff xs ys 5 OR char_diff xs ys 4
      else if n = 5 then int32_at xs - int32_at ys OR char_diff xs ys 4
      else if n = 4 then int32_at xs - int32_at ys
      else if n = 3 then char_diff xs ys 2 OR char_diff xs ys 1 OR char_diff xs ys 0
      else if n = 2 then char_diff xs ys 1 OR char_diff xs ys 0
      else if n = 1 then char_diff xs ys 0
      else 0)"

fun remainder_unaligned :: "nat \<Rightarrow> string \<Rightarrow> string \<Rightarrow> uint32 \<Rightarrow> uint32" where
  "remainder_unaligned 0 xs ys result = result"
| "remainder_unaligned (Suc i) xs ys result = remainder_unaligned i xs ys (result OR char_diff xs ys i)"

definition strcache2_memcmp_inlined :: "bool \<Rightarrow> string \<Rightarrow> string \<Rightarrow> nat \<Rightarrow> uint32" where
  "strcache2_memcmp_inlined aligned xs ys len =
     (if aligned then
        (case cmp_blocks int32_at (len div 8) xs ys of
           Inl result \<Rightarrow> result
         | Inr (xs, ys) \<Rightarrow> remainder_aligned (len mod 8) xs ys)
      else
        (case cmp_blocks int32_bytes (len div 8) xs ys of
           Inl result \<Rightarrow> result
         | Inr (xs, ys) \<Rightarrow> remainder_unaligned (len mod 8) xs ys 0))"

section \<open>The comparison is zero for equal strings only\<close>

lemma char_diff_0: "char_diff xs ys i = 0 \<longleftrightarrow> cget xs i = cget ys i"
proof -
  have b: "- 128 \<le> schar c" "schar c \<le> 127" for c using cord_less_256 [of c] by (auto simp: schar_def)
  let ?d = "schar (cget xs i) - schar (cget ys i)"
  have "\<bar>?d\<bar> < 4294967296" using b [of "cget xs i"] b [of "cget ys i"] by linarith
  then have "(word_of_int ?d :: uint32) = 0 \<longleftrightarrow> ?d = 0"
    using dvd_imp_le_int [of ?d 4294967296] by (auto simp: word_of_int_eq_0_iff simp del: of_int_diff)
  then show ?thesis by (simp add: char_diff_def)
qed

lemma or_eq_0: "x OR y = 0 \<longleftrightarrow> x = 0 \<and> y = (0 :: uint32)"
  by (auto simp: bit_eq_iff bit_or_iff)

lemma base256_inject: "a < 256 \<Longrightarrow> a' < 256 \<Longrightarrow> a + 256 * x = a' + 256 * x' \<longleftrightarrow> a = a' \<and> x = x'"
  for a a' x x' :: nat
proof -
  assume a: "a < 256" "a' < 256"
  have "(a + 256 * x) mod 256 = a" "(a' + 256 * x') mod 256 = a'" using a by simp_all
  then show ?thesis by (metis add_left_cancel mult_left_cancel zero_neq_numeral)
qed

lemma of_nat_uint32_inject: "x < 2 ^ 32 \<Longrightarrow> y < 2 ^ 32 \<Longrightarrow> (of_nat x :: uint32) = of_nat y \<longleftrightarrow> x = y"
  by (simp add: word_of_nat_eq_iff take_bit_nat_eq_self)

lemma all_less_k:
  "(\<forall>i<2. P i) \<longleftrightarrow> P 0 \<and> P 1" "(\<forall>i<3. P i) \<longleftrightarrow> P 0 \<and> P 1 \<and> P 2"
  "(\<forall>i<4. P i) \<longleftrightarrow> P 0 \<and> P 1 \<and> P 2 \<and> P 3" "(\<forall>i<5. P i) \<longleftrightarrow> (\<forall>i<4. P i) \<and> P 4"
  "(\<forall>i<6. P i) \<longleftrightarrow> (\<forall>i<5. P i) \<and> P 5" "(\<forall>i<7. P i) \<longleftrightarrow> (\<forall>i<6. P i) \<and> P (6 :: nat)"
  by (auto simp: eval_nat_numeral All_less_Suc)

lemma int32_at_eq: "int32_at xs = int32_at ys \<longleftrightarrow> (\<forall>i<4. cget xs i = cget ys i)"
proof -
  let ?v = "\<lambda>xs. cord (cget xs 0) + cord (cget xs 1) * 2 ^ 8 + cord (cget xs 2) * 2 ^ 16 + cord (cget xs 3) * 2 ^ 24"
  have v: "?v xs = cord (cget xs 0) + 256 * (cord (cget xs 1) + 256 * (cord (cget xs 2) + 256 * cord (cget xs 3)))" for xs
    by simp
  have l: "?v xs < 2 ^ 32" for xs
    using cord_less_256 [of "cget xs 0"] cord_less_256 [of "cget xs 1"] cord_less_256 [of "cget xs 2"]
      cord_less_256 [of "cget xs 3"] by simp
  have "int32_at xs = int32_at ys \<longleftrightarrow> ?v xs = ?v ys"
    unfolding int32_at_def by (rule of_nat_uint32_inject [OF l l])
  also have "\<dots> \<longleftrightarrow> cget xs 0 = cget ys 0 \<and> cget xs 1 = cget ys 1 \<and> cget xs 2 = cget ys 2 \<and> cget xs 3 = cget ys 3"
    unfolding v by (simp only: base256_inject [OF cord_less_256 cord_less_256] mult_left_cancel cord_inject)
  also have "\<dots> \<longleftrightarrow> (\<forall>i<4. cget xs i = cget ys i)" by (simp only: all_less_k)
  finally show ?thesis .
qed

lemma all_less_add: "(\<forall>i<m + n. P i) \<longleftrightarrow> (\<forall>i<m. P i) \<and> (\<forall>i<n. P (m + i))" for m n :: nat
  by (metis add_diff_inverse_nat nat_add_left_cancel_less trans_less_add1)

lemma cget_drop: "cget (drop k xs) i = cget xs (k + i)"
  by (auto simp: cget_def add.commute)

lemma cmp_blocks_eq:
  assumes "\<And>k. get (drop k xs) = int32_at (drop k xs)"
  shows "cmp_blocks get n xs ys = Inr (xs', ys') \<longleftrightarrow>
    xs' = drop (8 * n) xs \<and> ys' = drop (8 * n) ys \<and> (\<forall>i<8 * n. cget xs i = cget ys i)"
  using assms
proof (induction n arbitrary: xs ys)
  case (Suc n)
  have g: "get xs = int32_at xs" "get (drop 4 xs) = int32_at (drop 4 xs)" using Suc.prems [of 0] Suc.prems [of 4] by simp_all
  have "(get xs - int32_at ys) OR (get (drop 4 xs) - int32_at (drop 4 ys)) = 0 \<longleftrightarrow>
      (\<forall>i<4. cget xs i = cget ys i) \<and> (\<forall>i<4. cget xs (4 + i) = cget ys (4 + i))"
    unfolding g or_eq_0 right_minus_eq int32_at_eq cget_drop by (rule refl)
  also have "\<dots> \<longleftrightarrow> (\<forall>i<8. cget xs i = cget ys i)"
    using all_less_add [where P = "\<lambda>i. cget xs i = cget ys i" and m = 4 and n = 4] by (simp del: all_less_k)
  finally have r: "(get xs - int32_at ys) OR (get (drop 4 xs) - int32_at (drop 4 ys)) = 0 \<longleftrightarrow> (\<forall>i<8. cget xs i = cget ys i)" .
  have IH: "cmp_blocks get n (drop 8 xs) (drop 8 ys) = Inr (xs', ys') \<longleftrightarrow>
      xs' = drop (8 * n) (drop 8 xs) \<and> ys' = drop (8 * n) (drop 8 ys) \<and> (\<forall>i<8 * n. cget (drop 8 xs) i = cget (drop 8 ys) i)"
    by (rule Suc.IH) (use Suc.prems in \<open>simp\<close>)
  have "(\<forall>i<8 * Suc n. cget xs i = cget ys i) \<longleftrightarrow>
      (\<forall>i<8. cget xs i = cget ys i) \<and> (\<forall>i<8 * n. cget xs (8 + i) = cget ys (8 + i))"
    using all_less_add [where P = "\<lambda>i. cget xs i = cget ys i" and m = 8 and n = "8 * n"] by (simp add: add.commute)
  moreover have "drop (8 * n) (drop 8 zs) = drop (8 * Suc n) zs" for zs :: string by (simp add: add.commute)
  ultimately show ?case
    using IH r unfolding cget_drop by (simp add: Let_def)
qed auto

lemma remainder_unaligned_0: "remainder_unaligned n xs ys r = 0 \<longleftrightarrow> r = 0 \<and> (\<forall>i<n. cget xs i = cget ys i)"
  by (induction n xs ys r rule: remainder_unaligned.induct) (auto simp: or_eq_0 char_diff_0 less_Suc_eq)

lemma remainder_aligned_0: "n < 8 \<Longrightarrow> remainder_aligned n xs ys = 0 \<longleftrightarrow> (\<forall>i<n. cget xs i = cget ys i)"
proof -
  assume "n < 8"
  then consider "n = 0" | "n = 1" | "n = 2" | "n = 3" | "n = 4" | "n = 5" | "n = 6" | "n = 7" by linarith
  then show ?thesis
    by cases (simp_all add: remainder_aligned_def or_eq_0 char_diff_0 int32_at_eq all_less_k del: cget_0, auto)
qed

lemma cget_take_eq:
  assumes "n \<le> length xs" and "n \<le> length ys"
  shows "(\<forall>i<n. cget xs i = cget ys i) \<longleftrightarrow> take n xs = take n ys"
  using assms by (auto simp: list_eq_iff_nth_eq cget_def)

lemma or_add: "a < 2 ^ n \<Longrightarrow> push_bit n b OR a = b * 2 ^ n + (a :: nat)"
proof -
  assume "a < 2 ^ n"
  then have a: "take_bit n a = a" by (rule take_bit_nat_eq_self)
  have "push_bit n b + take_bit n a = push_bit n b OR take_bit n a"
    by (rule disjunctive_add) (auto simp: bit_take_bit_iff bit_push_bit_iff)
  then show ?thesis unfolding a by (simp add: push_bit_eq_mult)
qed

lemma char_int_ascii: "cord c < 128 \<Longrightarrow> char_int c = of_nat (cord c)"
  by (simp add: char_int_def schar_def)

text \<open>The bytes put together are the word when no byte has its sign bit set.\<close>

lemma int32_bytes_ascii:
  assumes "\<forall>i<4. cord (cget zs i) < 128"
  shows "int32_bytes zs = int32_at zs"
proof -
  let ?c = "\<lambda>i. cord (cget zs i)"
  have c: "?c 0 < 128" "?c 1 < 128" "?c 2 < 128" "?c 3 < 128" using assms by (simp_all del: cget_0)
  have "int32_bytes zs = of_nat (((push_bit 24 (?c 3) OR push_bit 16 (?c 2)) OR push_bit 8 (?c 1)) OR ?c 0)"
    using c by (simp add: int32_bytes_def char_int_ascii of_nat_or_eq of_nat_push_bit)
  also have "((push_bit 24 (?c 3) OR push_bit 16 (?c 2)) OR push_bit 8 (?c 1)) OR ?c 0
      = push_bit 8 (push_bit 8 (push_bit 8 (?c 3) OR ?c 2) OR ?c 1) OR ?c 0"
    by (simp add: push_bit_or)
  also have "\<dots> = ((?c 3 * 2 ^ 8 + ?c 2) * 2 ^ 8 + ?c 1) * 2 ^ 8 + ?c 0"
    by (subst (1 2 3) or_add) (use c in simp_all)
  finally show ?thesis by (simp add: int32_at_def algebra_simps)
qed

lemma memcmp_inlined_0:
  assumes "aligned \<or> (\<forall>c\<in>set xs. cord c < 128)" and "len \<le> length xs" and "len \<le> length ys"
  shows "strcache2_memcmp_inlined aligned xs ys len = 0 \<longleftrightarrow> take len xs = take len ys"
proof -
  let ?get = "if aligned then int32_at else int32_bytes"
  have get: "?get (drop k xs) = int32_at (drop k xs)" for k
  proof (cases aligned)
    case False
    then have "cord (cget xs i) < 128" for i using assms(1) by (auto simp: cget_def cord_def)
    then show ?thesis using False int32_bytes_ascii [of "drop k xs"] by (simp add: cget_drop)
  qed simp
  let ?n = "8 * (len div 8)" and ?m = "len mod 8"
  have split: "(\<forall>i<len. cget xs i = cget ys i) \<longleftrightarrow>
      (\<forall>i<?n. cget xs i = cget ys i) \<and> (\<forall>i<?m. cget (drop ?n xs) i = cget (drop ?n ys) i)"
    unfolding cget_drop using all_less_add [where P = "\<lambda>i. cget xs i = cget ys i" and m = ?n and n = ?m] by (simp add: mult.commute)
  let ?rem = "\<lambda>xs ys. if aligned then remainder_aligned ?m xs ys else remainder_unaligned ?m xs ys 0"
  have m: "strcache2_memcmp_inlined aligned xs ys len =
      (case cmp_blocks ?get (len div 8) xs ys of Inl result \<Rightarrow> result | Inr (xs, ys) \<Rightarrow> ?rem xs ys)"
    by (cases aligned) (simp_all add: strcache2_memcmp_inlined_def split: sum.splits)
  have inl: "cmp_blocks get n xs ys = Inl r \<Longrightarrow> r \<noteq> 0" for get n xs ys r
    by (induction get n xs ys rule: cmp_blocks.induct) (auto simp: Let_def split: if_splits)
  show ?thesis
  proof (cases "cmp_blocks ?get (len div 8) xs ys")
    case (Inl r)
    then have "\<not> (\<forall>i<?n. cget xs i = cget ys i)" using cmp_blocks_eq [of ?get xs, OF get] by (metis Inr_not_Inl)
    then show ?thesis using m inl [OF Inl] Inl split cget_take_eq [OF assms(2,3)] by simp
  next
    case (Inr p)
    then have "p = (drop ?n xs, drop ?n ys) \<and> (\<forall>i<?n. cget xs i = cget ys i)"
      using cmp_blocks_eq [of ?get xs, OF get] by (metis prod.collapse)
    then show ?thesis
      using m Inr split cget_take_eq [OF assms(2,3)]
      by (auto simp: remainder_aligned_0 remainder_unaligned_0)
  qed
qed


text \<open>An unaligned string whose first byte has its sign bit set is different from itself.\<close>

lemma int32_bytes_sign:
  assumes "128 \<le> cord (peek xs)" and "cord (cget xs 3) < 128"
  shows "int32_bytes xs \<noteq> int32_at xs"
proof
  assume e: "int32_bytes xs = int32_at xs"
  let ?k = "schar (peek xs)"
  have "- (2 ^ 31) \<le> ?k" "?k < 0" using assms(1) cord_less_256 [of "peek xs"] by (auto simp: schar_def)
  then have "?k div 2 ^ 31 = - 1" by (simp add: div_pos_neg_trivial)
  then have "bit ?k 31" by (simp add: bit_iff_odd)
  then have "bit (int32_bytes xs) 31"
    by (simp add: int32_bytes_def bit_or_iff char_int_def bit_word_of_int_iff)
  moreover have "\<not> bit (int32_at xs) 31"
  proof -
    let ?v = "cord (cget xs 0) + cord (cget xs 1) * 2 ^ 8 + cord (cget xs 2) * 2 ^ 16 + cord (cget xs 3) * 2 ^ 24"
    have "?v < 2 ^ 31"
      using assms(2) cord_less_256 [of "cget xs 0"] cord_less_256 [of "cget xs 1"] cord_less_256 [of "cget xs 2"] by simp
    then have "\<not> bit ?v 31" by (simp add: bit_iff_odd)
    then show ?thesis unfolding int32_at_def bit_of_nat_iff by simp
  qed
  ultimately show False using e by simp
qed

lemma memcmp_inlined_sign:
  assumes "8 \<le> len" and "128 \<le> cord (peek xs)" and "cord (cget xs 3) < 128"
  shows "strcache2_memcmp_inlined False xs xs len \<noteq> 0"
proof -
  obtain n where "len div 8 = Suc n" using assms(1) by (cases "len div 8") auto
  then show ?thesis
    using int32_bytes_sign [OF assms(2,3)]
    by (simp add: strcache2_memcmp_inlined_def Let_def or_eq_0)
qed

section \<open>The case-insensitive hash\<close>

lemma cord_tolower: "cord (tolower c) = (if isupper c then cord c + 32 else cord c)"
  by (simp add: tolower_def cord_def isupper_def of_char_of)

lemma tolower_tolower [simp]: "tolower (tolower c) = tolower c"
  using cord_tolower [of c] by (auto simp: tolower_def [of "tolower c"] isupper_def)

lemma tolower_NUL [simp]: "tolower NUL = NUL"
  by (simp add: tolower_def isupper_def cord_def)

lemma peek_map_tolower [simp]: "peek (map tolower s) = tolower (peek s)"
  by (cases s) simp_all

lemma cget_map_tolower [simp]: "cget (map tolower s) i = tolower (cget s i)"
  by (simp add: cget_def)

lemma ihash_loop_lower: "ihash_loop hash ch0 len (map tolower s) = ihash_loop hash ch0 len s"
proof (induction hash ch0 len s rule: ihash_loop.induct)
  case (1 hash ch0 len s)
  then show ?case
    by (subst (1 2) ihash_loop.simps) (simp add: Let_def drop_map)
qed

lemma case_insensitive_hash_lower:
  "len \<noteq> 1 \<Longrightarrow> strcache2_case_insensitive_hash (map tolower s) len = strcache2_case_insensitive_hash s len"
  by (simp add: strcache2_case_insensitive_hash_def ihash_loop_lower flip: map_tl)

text \<open>The hash of a single character is taken without \<open>tolower\<close>: the two cases of a letter differ.\<close>

lemma single_hash_ascii:
  assumes "cord c < 128"
  shows "strcache2_case_insensitive_hash [c] 1 = of_nat (cord c + cord c * 2 ^ (cord c mod 16))"
proof -
  let ?n = "cord c"
  have "?n AND 15 = ?n mod 16"
    using take_bit_eq_mask [of 4 ?n] by (simp add: mask_eq_exp_minus_1 take_bit_eq_mod)
  then have "(of_nat ?n AND 15 :: uint32) = of_nat (?n mod 16)"
    using of_nat_and_eq [of ?n 15, where 'a = uint32] by simp
  moreover have "unat (of_nat (?n mod 16) :: uint32) = ?n mod 16"
    by (simp add: unat_of_nat take_bit_eq_mod)
  ultimately have "unat (of_nat ?n AND 15 :: uint32) = ?n mod 16" by simp
  then show ?thesis
    using assms by (simp add: strcache2_case_insensitive_hash_def char_int_ascii Let_def push_bit_eq_mult mult.commute)
qed

lemma single_hash_inject:
  assumes "tolower a = tolower b" and "strcache2_case_insensitive_hash [a] 1 = strcache2_case_insensitive_hash [b] 1"
  shows "a = b"
proof -
  have *: "strcache2_case_insensitive_hash [c] 1 \<noteq> strcache2_case_insensitive_hash [tolower c] 1" if "isupper c" for c
  proof
    assume e: "strcache2_case_insensitive_hash [c] 1 = strcache2_case_insensitive_hash [tolower c] 1"
    have n: "cord c \<le> 90" "cord (tolower c) = cord c + 32" using that by (auto simp: isupper_def cord_tolower)
    let ?v = "\<lambda>n :: nat. n + n * 2 ^ (cord c mod 16)"
    have "?v n < 2 ^ 32" if "n < 128" for n
    proof -
      have "(2 :: nat) ^ (cord c mod 16) \<le> 2 ^ 15" by (rule power_increasing) auto
      then have "n * 2 ^ (cord c mod 16) \<le> 127 * 2 ^ 15" using that by (intro mult_le_mono) auto
      then show ?thesis using that by simp
    qed
    moreover have "(of_nat (?v (cord c)) :: uint32) = of_nat (?v (cord c + 32))"
    proof -
      have m: "(cord c + 32) mod 16 = cord c mod 16"
        using mod_mult_self2 [of "cord c" 16 2] by simp
      have "of_nat (?v (cord c)) = strcache2_case_insensitive_hash [c] 1"
        by (rule single_hash_ascii [symmetric]) (use n in simp)
      also note e
      also have "strcache2_case_insensitive_hash [tolower c] 1 = of_nat (?v (cord c + 32))"
        using single_hash_ascii [of "tolower c"] n(1) unfolding n(2) m by simp
      finally show ?thesis .
    qed
    ultimately have "?v (cord c) = ?v (cord c + 32)" using n by (simp only: of_nat_uint32_inject)
    then show False by (simp add: add_mult_distrib)
  qed
  have id: "tolower c = c" if "\<not> isupper c" for c using that by (simp add: tolower_def)
  consider "isupper a" "isupper b" | "isupper a" "\<not> isupper b" | "\<not> isupper a" "isupper b" | "\<not> isupper a" "\<not> isupper b"
    by blast
  then show ?thesis
  proof cases
    case 1
    then have "cord a + 32 = cord b + 32" using arg_cong [OF assms(1), of cord] by (simp add: cord_tolower)
    then show ?thesis by simp
  next
    case 2
    then show ?thesis using * [of a] assms id [of b] by simp
  next
    case 3
    then show ?thesis using * [of b] assms id [of a] by simp
  next
    case 4
    then show ?thesis using assms(1) id by simp
  qed
qed

end
