(* ===== verification/StrCache.thy ===== *)
theory StrCache
  imports StrHash
begin

text \<open>
  The string cache of kmk, \<open>src/kmk/strcache2.c\<close> and \<open>src/kmk/strcache2.h\<close>: every string is stored once,
  so that strings can be compared by their addresses.

  Addresses and sizes are natural numbers, on a 64-bit target: \<open>struct strcache2_seg\<close> has 40 bytes,
  \<open>struct strcache2_entry\<close> 24, and entries are aligned to 64. A collision chain is the list of its
  entries, each with its address and the string behind it; the list of segments is in the order of
  their \<open>next\<close> pointers. \<open>xmalloc\<close> is a parameter that gets the segments in use and the size. The
  argument \<open>aligned\<close> says whether the string pointer is a multiple of four. Counters under
  \<open>MAKE_STATS\<close>, which is off in release builds, are left out; an \<open>assert\<close> that fails is a fault.
\<close>

section \<open>Data\<close>

record strcache2_seg =
  seg_start :: nat
  seg_size :: nat
  seg_avail :: nat
  seg_cursor :: nat

record strcache2_entry =
  entry_addr :: nat
  entry_user :: nat
  entry_hash :: uint32
  entry_length :: nat
  entry_str :: string

record strcache2 =
  hash_tab :: "strcache2_entry list list"
  case_insensitive :: bool
  hash_mask :: uint32
  entry_count :: nat
  collision_count :: nat
  rehash_count :: nat
  init_size :: nat
  hash_size :: nat
  def_seg_size :: nat
  segments :: "strcache2_seg list"

definition STRCACHE2_ENTRY_ALIGNMENT :: nat where
  "STRCACHE2_ENTRY_ALIGNMENT = 2 ^ 6"

definition STRCACHE2_MOD_IT :: "strcache2 \<Rightarrow> uint32 \<Rightarrow> nat" where
  "STRCACHE2_MOD_IT cache hash = unat (hash AND hash_mask cache)"

text \<open>\<open>(const char * )(entry + 1)\<close>.\<close>

definition entry_string :: "strcache2_entry \<Rightarrow> nat" where
  "entry_string entry = entry_addr entry + 24"

section \<open>Comparing\<close>

definition strcache2_is_equal :: "strcache2_entry \<Rightarrow> bool \<Rightarrow> string \<Rightarrow> nat \<Rightarrow> uint32 \<Rightarrow> bool" where
  "strcache2_is_equal entry aligned s len hash =
     (if entry_hash entry \<noteq> hash \<or> entry_length entry \<noteq> len then False
      else strcache2_memcmp_inlined aligned s (entry_str entry) len = 0)"

text \<open>\<open>_memicmp\<close> of strings of the same length.\<close>

definition strcache2_is_iequal :: "strcache2_entry \<Rightarrow> string \<Rightarrow> nat \<Rightarrow> uint32 \<Rightarrow> bool" where
  "strcache2_is_iequal entry s len hash =
     (if entry_hash entry \<noteq> hash \<or> entry_length entry \<noteq> len then False
      else map tolower (take len (entry_str entry)) = map tolower (take len s))"

section \<open>Growing\<close>

text \<open>One entry goes from the old table to the head of its chain in the new one.\<close>

definition rehash_entry :: "strcache2 \<Rightarrow> strcache2_entry \<Rightarrow> strcache2" where
  "rehash_entry cache entry =
     (let dst = STRCACHE2_MOD_IT cache (entry_hash entry);
          chain = hash_tab cache ! dst
      in cache\<lparr>collision_count := (if chain \<noteq> [] then collision_count cache + 1 else collision_count cache),
               hash_tab := (hash_tab cache)[dst := entry # chain]\<rparr>)"

definition strcache2_rehash :: "strcache2 \<Rightarrow> strcache2" where
  "strcache2_rehash cache =
     (let src_tab = hash_tab cache;
          size2 = 2 * hash_size cache mod 2 ^ 32;
          cache = cache\<lparr>hash_size := size2,
                        hash_mask := push_bit 1 (hash_mask cache) OR 1,
                        rehash_count := 2 * rehash_count cache mod 2 ^ 32,
                        hash_tab := replicate size2 [],
                        collision_count := 0\<rparr>
      in fold (\<lambda>chain cache. foldl rehash_entry cache chain) (rev src_tab) cache)"

section \<open>Memory\<close>

definition strcache2_new_seg :: "(strcache2_seg list \<Rightarrow> nat \<Rightarrow> nat) \<Rightarrow> strcache2 \<Rightarrow> nat \<Rightarrow> (unit, strcache2) outcome" where
  "strcache2_new_seg xmalloc cache minlen =
     (let sz = (if def_seg_size cache < minlen + 40 + STRCACHE2_ENTRY_ALIGNMENT
                then (minlen * 2 + 0xfff) div 0x1000 * 0x1000 else def_seg_size cache);
          block = xmalloc (segments cache) sz;
          start = block + 40;
          off = start mod STRCACHE2_ENTRY_ALIGNMENT;
          pad = (if off \<noteq> 0 then STRCACHE2_ENTRY_ALIGNMENT - off else 0)
      in if sz < 40 + pad then Undef OutOfBounds
         else if sz - 40 - pad \<le> minlen then Undef AssertFailed
         else Ok (cache\<lparr>segments :=
                    \<lparr>seg_start = start + pad, seg_size = sz - 40 - pad, seg_avail = sz - 40 - pad,
                     seg_cursor = start + pad\<rparr> # segments cache\<rparr>))"

text \<open>The first segment with enough room gives \<open>sz\<close> bytes.\<close>

fun take_room :: "nat \<Rightarrow> strcache2_seg list \<Rightarrow> (nat \<times> strcache2_seg list) option" where
  "take_room sz [] = None"
| "take_room sz (seg # segs) =
     (if seg_avail seg < sz then map_option (\<lambda>(p, segs). (p, seg # segs)) (take_room sz segs)
      else Some (seg_cursor seg, seg\<lparr>seg_cursor := seg_cursor seg + sz, seg_avail := seg_avail seg - sz\<rparr> # segs))"

definition entry_space :: "nat \<Rightarrow> nat" where
  "entry_space len =
     (let sz = (len + 1 + 24) mod 2 ^ 32
      in (sz + STRCACHE2_ENTRY_ALIGNMENT - 1) mod 2 ^ 32 div STRCACHE2_ENTRY_ALIGNMENT * STRCACHE2_ENTRY_ALIGNMENT)"

definition alloc_entry :: "(strcache2_seg list \<Rightarrow> nat \<Rightarrow> nat) \<Rightarrow> strcache2 \<Rightarrow> nat \<Rightarrow> (unit, nat \<times> strcache2) outcome" where
  "alloc_entry xmalloc cache sz =
     (if segments cache = [] then Undef NullDeref
      else case take_room sz (segments cache) of
        Some (p, segs) \<Rightarrow> Ok (p, cache\<lparr>segments := segs\<rparr>)
      | None \<Rightarrow>
          obind (strcache2_new_seg xmalloc cache sz) (\<lambda>cache.
            case take_room sz (segments cache) of
              Some (p, segs) \<Rightarrow> Ok (p, cache\<lparr>segments := segs\<rparr>)
            | None \<Rightarrow> Undef OutOfBounds))"

section \<open>Entering and looking up\<close>

definition strcache2_enter_string :: "(strcache2_seg list \<Rightarrow> nat \<Rightarrow> nat) \<Rightarrow> strcache2 \<Rightarrow> nat \<Rightarrow> string \<Rightarrow> nat \<Rightarrow> uint32
    \<Rightarrow> (unit, strcache2 \<times> nat) outcome" where
  "strcache2_enter_string xmalloc cache idx s len hash =
     (let sz = entry_space len
      in obind (alloc_entry xmalloc cache sz) (\<lambda>(p, cache).
           if p mod STRCACHE2_ENTRY_ALIGNMENT \<noteq> 0 then Undef AssertFailed
           else if 24 + len + 1 > sz then Undef OutOfBounds
           else if idx \<ge> length (hash_tab cache) then Undef OutOfBounds
           else
             (let entry = \<lparr>entry_addr = p, entry_user = 0, entry_hash = hash, entry_length = len, entry_str = take len s\<rparr>;
                  chain = hash_tab cache ! idx;
                  cache = cache\<lparr>collision_count := (if chain \<noteq> [] then collision_count cache + 1 else collision_count cache),
                                hash_tab := (hash_tab cache)[idx := entry # chain],
                                entry_count := entry_count cache + 1\<rparr>;
                  cache = (if entry_count cache \<ge> rehash_count cache then strcache2_rehash cache else cache)
              in Ok (cache, entry_string entry))))"

text \<open>The search in a chain: the first two entries, then the loop over the rest.\<close>

fun find_entry :: "(strcache2_entry \<Rightarrow> bool) \<Rightarrow> strcache2_entry list \<Rightarrow> strcache2_entry option" where
  "find_entry eq [] = None"
| "find_entry eq (entry # chain) = (if eq entry then Some entry else find_entry eq chain)"

definition lookup_entry :: "(strcache2_entry \<Rightarrow> bool) \<Rightarrow> strcache2_entry list \<Rightarrow> strcache2_entry option" where
  "lookup_entry eq chain =
     (case chain of
        [] \<Rightarrow> None
      | entry # chain \<Rightarrow>
          if eq entry then Some entry
          else case chain of
            [] \<Rightarrow> None
          | entry # chain \<Rightarrow> if eq entry then Some entry else find_entry eq chain)"

definition find_or_enter :: "(strcache2_seg list \<Rightarrow> nat \<Rightarrow> nat) \<Rightarrow> (strcache2_entry \<Rightarrow> bool) \<Rightarrow> strcache2 \<Rightarrow> string \<Rightarrow> nat
    \<Rightarrow> uint32 \<Rightarrow> (unit, strcache2 \<times> nat) outcome" where
  "find_or_enter xmalloc eq cache s len hash =
     (let idx = STRCACHE2_MOD_IT cache hash
      in if idx \<ge> length (hash_tab cache) then Undef OutOfBounds
         else case lookup_entry eq (hash_tab cache ! idx) of
           None \<Rightarrow> strcache2_enter_string xmalloc cache idx s len hash
         | Some entry \<Rightarrow> Ok (cache, entry_string entry))"

definition find_only :: "(strcache2_entry \<Rightarrow> bool) \<Rightarrow> strcache2 \<Rightarrow> uint32 \<Rightarrow> (unit, nat option) outcome" where
  "find_only eq cache hash =
     (let idx = STRCACHE2_MOD_IT cache hash
      in if idx \<ge> length (hash_tab cache) then Undef OutOfBounds
         else Ok (map_option entry_string (lookup_entry eq (hash_tab cache ! idx))))"

definition strcache2_add :: "(strcache2_seg list \<Rightarrow> nat \<Rightarrow> nat) \<Rightarrow> strcache2 \<Rightarrow> bool \<Rightarrow> string \<Rightarrow> nat
    \<Rightarrow> (unit, strcache2 \<times> nat) outcome" where
  "strcache2_add xmalloc cache aligned s len =
     (let hash = strcache2_case_sensitive_hash s len
      in if case_insensitive cache \<or> NUL \<in> set (take len s) then Undef AssertFailed
         else find_or_enter xmalloc (\<lambda>entry. strcache2_is_equal entry aligned s len hash) cache s len hash)"

definition strcache2_add_hashed :: "(strcache2_seg list \<Rightarrow> nat \<Rightarrow> nat) \<Rightarrow> strcache2 \<Rightarrow> bool \<Rightarrow> string \<Rightarrow> nat \<Rightarrow> uint32
    \<Rightarrow> (unit, strcache2 \<times> nat) outcome" where
  "strcache2_add_hashed xmalloc cache aligned s len hash =
     (if case_insensitive cache \<or> NUL \<in> set (take len s) then Undef AssertFailed
      else if hash \<noteq> strcache2_case_sensitive_hash s len then Undef AssertFailed
      else find_or_enter xmalloc (\<lambda>entry. strcache2_is_equal entry aligned s len hash) cache s len hash)"

definition strcache2_lookup :: "strcache2 \<Rightarrow> bool \<Rightarrow> string \<Rightarrow> nat \<Rightarrow> (unit, nat option) outcome" where
  "strcache2_lookup cache aligned s len =
     (let hash = strcache2_case_sensitive_hash s len
      in if case_insensitive cache \<or> NUL \<in> set (take len s) then Undef AssertFailed
         else find_only (\<lambda>entry. strcache2_is_equal entry aligned s len hash) cache hash)"

definition strcache2_iadd :: "(strcache2_seg list \<Rightarrow> nat \<Rightarrow> nat) \<Rightarrow> strcache2 \<Rightarrow> string \<Rightarrow> nat
    \<Rightarrow> (unit, strcache2 \<times> nat) outcome" where
  "strcache2_iadd xmalloc cache s len =
     (let hash = strcache2_case_insensitive_hash s len
      in if \<not> case_insensitive cache \<or> NUL \<in> set (take len s) then Undef AssertFailed
         else find_or_enter xmalloc (\<lambda>entry. strcache2_is_iequal entry s len hash) cache s len hash)"

definition strcache2_iadd_hashed :: "(strcache2_seg list \<Rightarrow> nat \<Rightarrow> nat) \<Rightarrow> strcache2 \<Rightarrow> string \<Rightarrow> nat \<Rightarrow> uint32
    \<Rightarrow> (unit, strcache2 \<times> nat) outcome" where
  "strcache2_iadd_hashed xmalloc cache s len hash =
     (if \<not> case_insensitive cache \<or> NUL \<in> set (take len s) then Undef AssertFailed
      else if hash \<noteq> strcache2_case_insensitive_hash s len then Undef AssertFailed
      else find_or_enter xmalloc (\<lambda>entry. strcache2_is_iequal entry s len hash) cache s len hash)"

definition strcache2_ilookup :: "strcache2 \<Rightarrow> string \<Rightarrow> nat \<Rightarrow> (unit, nat option) outcome" where
  "strcache2_ilookup cache s len =
     (let hash = strcache2_case_insensitive_hash s len
      in if \<not> case_insensitive cache \<or> NUL \<in> set (take len s) then Undef AssertFailed
         else find_only (\<lambda>entry. strcache2_is_iequal entry s len hash) cache hash)"

section \<open>Checking and initialization\<close>

definition strcache2_is_cached :: "strcache2 \<Rightarrow> nat \<Rightarrow> bool" where
  "strcache2_is_cached cache p \<longleftrightarrow>
     p mod 8 = 0
     \<and> (\<exists>seg\<in>set (segments cache). (p + (2 ^ 64 - seg_start seg)) mod 2 ^ 64 < seg_size seg)"

text \<open>The entry in front of a string; 0 stands for success.\<close>

definition strcache2_verify_entry :: "strcache2 \<Rightarrow> strcache2_entry \<Rightarrow> int" where
  "strcache2_verify_entry cache entry =
     (if entry_addr entry mod STRCACHE2_ENTRY_ALIGNMENT \<noteq> 0 then -1
      else if length (takeWhile (\<lambda>c. c \<noteq> NUL) (take (entry_length entry + 1) (entry_str entry @ [NUL]))) \<noteq> entry_length entry then -1
      else if (if case_insensitive cache then strcache2_case_insensitive_hash (entry_str entry) (entry_length entry)
               else strcache2_case_sensitive_hash (entry_str entry) (entry_length entry)) \<noteq> entry_hash entry then -1
      else 0)"

definition strcache2_get_entry :: "strcache2 \<Rightarrow> nat \<Rightarrow> strcache2_entry option" where
  "strcache2_get_entry cache p = find (\<lambda>entry. entry_string entry = p) (concat (hash_tab cache))"

definition strcache2_get_len :: "strcache2 \<Rightarrow> nat \<Rightarrow> nat option" where
  "strcache2_get_len cache p = map_option entry_length (strcache2_get_entry cache p)"

definition strcache2_get_hash :: "strcache2 \<Rightarrow> nat \<Rightarrow> uint32 option" where
  "strcache2_get_hash cache p = map_option entry_hash (strcache2_get_entry cache p)"

function init_shift :: "nat \<Rightarrow> nat \<Rightarrow> nat" where
  "init_shift sz hash_shift = (if hash_shift < 32 \<and> 2 ^ hash_shift < sz then init_shift sz (hash_shift + 1) else hash_shift)"
  by auto
termination by (relation "measure (\<lambda>(_, k). 32 - k)") auto

declare init_shift.simps [simp del]

definition strcache2_init :: "(strcache2_seg list \<Rightarrow> nat \<Rightarrow> nat) \<Rightarrow> nat \<Rightarrow> nat \<Rightarrow> bool \<Rightarrow> bool \<Rightarrow> (unit, strcache2) outcome" where
  "strcache2_init xmalloc sz seg_sz insensitive thread_safe =
     (if thread_safe then Undef AssertFailed
      else if sz \<noteq> 0 \<and> sz > 2 ^ 31 then Undef AssertFailed
      else
        (let hash_shift = (if sz = 0 then 16 else init_shift sz 8);
             seg_sz = (if seg_sz = 0 then 1024 * 1024
                       else if seg_sz < 40 * 10 then 40 * 10
                       else if seg_sz mod 0x1000 < 0xf00 then (seg_sz + 0xfff) mod 2 ^ 32 div 0x1000 * 0x1000
                       else seg_sz)
         in strcache2_new_seg xmalloc
              \<lparr>hash_tab = replicate (2 ^ hash_shift) [], case_insensitive = insensitive,
               hash_mask = of_nat (2 ^ hash_shift - 1), entry_count = 0, collision_count = 0,
               rehash_count = 2 ^ hash_shift div 4 * 3, init_size = 2 ^ hash_shift, hash_size = 2 ^ hash_shift,
               def_seg_size = seg_sz, segments = []\<rparr> 0))"

end
