(* ===== verification/StrCacheTab.thy ===== *)
theory StrCacheTab
  imports StrCache "HOL-Library.Multiset"
begin

text \<open>
  The hash table of the string cache: every entry is in the chain its hash selects, the collision
  counter counts the entries that are not the first of their chain, and rehashing keeps the entries.
\<close>

section \<open>Searching a chain\<close>

lemma find_entry_eq: "find_entry eq chain = find eq chain"
  by (induction eq chain rule: find_entry.induct) auto

lemma lookup_entry_eq: "lookup_entry eq chain = find eq chain"
  by (auto simp: lookup_entry_def find_entry_eq split: list.split)

section \<open>Well-formed tables\<close>

abbreviation entries :: "strcache2 \<Rightarrow> strcache2_entry list" where
  "entries cache \<equiv> concat (hash_tab cache)"

definition collisions :: "strcache2_entry list list \<Rightarrow> nat" where
  "collisions tab = (\<Sum>chain\<leftarrow>tab. length chain - 1)"

definition tab_ok :: "nat \<Rightarrow> strcache2 \<Rightarrow> bool" where
  "tab_ok k cache \<longleftrightarrow>
     hash_size cache = 2 ^ k \<and> hash_mask cache = mask k \<and> length (hash_tab cache) = 2 ^ k
     \<and> (\<forall>i<2 ^ k. \<forall>e\<in>set (hash_tab cache ! i). unat (entry_hash e) mod 2 ^ k = i)
     \<and> collision_count cache = collisions (hash_tab cache)"

lemma mod_it: "tab_ok k cache \<Longrightarrow> STRCACHE2_MOD_IT cache hash = unat hash mod 2 ^ k"
proof -
  assume "tab_ok k cache"
  then have "STRCACHE2_MOD_IT cache hash = unat (take_bit k hash)"
    by (simp only: STRCACHE2_MOD_IT_def tab_ok_def take_bit_eq_mask)
  also have "\<dots> = unat hash mod 2 ^ k" unfolding unsigned_take_bit_eq by (simp add: take_bit_eq_mod)
  finally show ?thesis .
qed

lemma mset_concat_update:
  "i < length xs \<Longrightarrow> mset (concat (xs[i := e # xs ! i])) = add_mset e (mset (concat xs))"
  by (induction xs arbitrary: i) (auto split: nat.split)

lemma collisions_update:
  "i < length xs \<Longrightarrow> collisions (xs[i := e # xs ! i]) = collisions xs + (if xs ! i \<noteq> [] then 1 else 0)"
proof (induction xs arbitrary: i)
  case (Cons x xs)
  then show ?case by (cases i; cases x) (auto simp: collisions_def)
qed simp

lemma rehash_entry_more [simp]:
  "entry_count (rehash_entry cache e) = entry_count cache"
  "rehash_count (rehash_entry cache e) = rehash_count cache"
  "case_insensitive (rehash_entry cache e) = case_insensitive cache"
  "def_seg_size (rehash_entry cache e) = def_seg_size cache"
  "segments (rehash_entry cache e) = segments cache"
  by (simp_all add: rehash_entry_def Let_def)

text \<open>Putting an entry at the head of its chain, as entering and rehashing do.\<close>

lemma tab_ok_insert:
  assumes "tab_ok k cache" and "i = unat (entry_hash e) mod 2 ^ k"
    and "hash_tab cache' = (hash_tab cache)[i := e # hash_tab cache ! i]"
    and "collision_count cache' = (if hash_tab cache ! i \<noteq> [] then collision_count cache + 1 else collision_count cache)"
    and "hash_size cache' = hash_size cache" and "hash_mask cache' = hash_mask cache"
  shows "tab_ok k cache' \<and> mset (entries cache') = add_mset e (mset (entries cache))"
proof -
  have i: "i < length (hash_tab cache)" using assms(1,2) by (simp add: tab_ok_def)
  show ?thesis
    using assms i by (auto simp: tab_ok_def mset_concat_update collisions_update nth_list_update)
qed

lemma rehash_entry_ok:
  assumes "tab_ok k cache"
  shows "tab_ok k (rehash_entry cache e) \<and> mset (entries (rehash_entry cache e)) = add_mset e (mset (entries cache))"
  by (rule tab_ok_insert [OF assms refl]) (simp_all add: rehash_entry_def Let_def mod_it [OF assms])

lemma rehash_entries_ok:
  "tab_ok k cache \<Longrightarrow> tab_ok k (foldl rehash_entry cache es)
    \<and> mset (entries (foldl rehash_entry cache es)) = mset (entries cache) + mset es
    \<and> entry_count (foldl rehash_entry cache es) = entry_count cache
    \<and> rehash_count (foldl rehash_entry cache es) = rehash_count cache
    \<and> case_insensitive (foldl rehash_entry cache es) = case_insensitive cache
    \<and> def_seg_size (foldl rehash_entry cache es) = def_seg_size cache
    \<and> segments (foldl rehash_entry cache es) = segments cache"
proof (induction es arbitrary: cache)
  case (Cons e es)
  then show ?case using rehash_entry_ok [OF Cons.prems, of e] Cons.IH [of "rehash_entry cache e"] by simp
qed simp

lemma fold_foldl: "fold (\<lambda>chain c. foldl f c chain) chs c = foldl f c (concat chs)"
  by (induction chs arbitrary: c) auto

lemma mset_concat_rev: "mset (concat (rev xs)) = mset (concat xs)"
  by (induction xs) auto

lemma mask_double: "push_bit 1 (mask k) OR 1 = (mask (Suc k) :: uint32)"
  by (simp add: mask_Suc_double push_bit_eq_mult or.commute mult.commute)

lemma tab_ok_empty:
  "hash_size cache = 2 ^ k \<Longrightarrow> hash_mask cache = mask k \<Longrightarrow> hash_tab cache = replicate (2 ^ k) [] \<Longrightarrow>
    collision_count cache = 0 \<Longrightarrow> tab_ok k cache \<and> entries cache = []"
  by (auto simp: tab_ok_def collisions_def sum_list_replicate)

text \<open>Rehashing doubles the table and keeps the entries.\<close>

lemma rehash_ok:
  assumes "tab_ok k cache" and "k < 31" and "rehash_count cache = 2 ^ k div 4 * 3" and "2 \<le> k"
  shows "tab_ok (Suc k) (strcache2_rehash cache)
    \<and> mset (entries (strcache2_rehash cache)) = mset (entries cache)
    \<and> rehash_count (strcache2_rehash cache) = 2 ^ Suc k div 4 * 3
    \<and> entry_count (strcache2_rehash cache) = entry_count cache
    \<and> case_insensitive (strcache2_rehash cache) = case_insensitive cache
    \<and> def_seg_size (strcache2_rehash cache) = def_seg_size cache
    \<and> segments (strcache2_rehash cache) = segments cache"
proof -
  let ?c = "cache\<lparr>hash_size := 2 * hash_size cache mod 2 ^ 32, hash_mask := push_bit 1 (hash_mask cache) OR 1,
    rehash_count := 2 * rehash_count cache mod 2 ^ 32, hash_tab := replicate (2 * hash_size cache mod 2 ^ 32) [],
    collision_count := 0\<rparr>"
  have r: "strcache2_rehash cache = foldl rehash_entry ?c (concat (rev (hash_tab cache)))"
    by (simp only: strcache2_rehash_def Let_def fold_foldl)
  have s: "2 * hash_size cache mod 2 ^ 32 = 2 ^ Suc k"
  proof -
    have "(2 :: nat) ^ Suc k < 2 ^ 32" using assms(2) by (intro power_strict_increasing) auto
    then show ?thesis using assms(1) by (simp add: tab_ok_def)
  qed
  have q: "2 * rehash_count cache mod 2 ^ 32 = 2 ^ Suc k div 4 * 3"
  proof -
    obtain j where j: "k = j + 2" using assms(4) le_Suc_ex by (metis add.commute)
    have "(2 :: nat) ^ j \<le> 2 ^ 28" using assms(2) j by (intro power_increasing) auto
    then have "2 * (2 ^ j * 3) < (2 :: nat) ^ 32" by simp
    then show ?thesis using assms(3) j by (simp add: power_add)
  qed
  have "tab_ok (Suc k) ?c \<and> entries ?c = []"
  proof (rule tab_ok_empty)
    show "hash_mask ?c = mask (Suc k)" using assms(1) mask_double [of k] by (simp add: tab_ok_def)
  qed (simp_all only: s, simp_all)
  then show ?thesis
    using rehash_entries_ok [of "Suc k" ?c "concat (rev (hash_tab cache))"] q unfolding r
    by (simp add: mset_concat_rev)
qed

end
