(* ===== verification/StrCacheMem.thy ===== *)
theory StrCacheMem
  imports StrCacheTab
begin

text \<open>
  The memory of the string cache: segments do not overlap, an entry lies in the used part of a
  segment, and entries do not overlap each other.
\<close>

definition seg_ok :: "strcache2_seg \<Rightarrow> bool" where
  "seg_ok seg \<longleftrightarrow>
     seg_cursor seg + seg_avail seg = seg_start seg + seg_size seg \<and> seg_start seg \<le> seg_cursor seg
     \<and> seg_start seg mod 64 = 0 \<and> seg_cursor seg mod 64 = 0"

definition apart :: "nat \<Rightarrow> nat \<Rightarrow> nat \<Rightarrow> nat \<Rightarrow> bool" where
  "apart a m b n \<longleftrightarrow> a + m \<le> b \<or> b + n \<le> a"

abbreviation seg_apart :: "strcache2_seg \<Rightarrow> strcache2_seg \<Rightarrow> bool" where
  "seg_apart s t \<equiv> apart (seg_start s) (seg_size s) (seg_start t) (seg_size t)"

definition segs_ok :: "strcache2_seg list \<Rightarrow> bool" where
  "segs_ok segs \<longleftrightarrow> (\<forall>seg\<in>set segs. seg_ok seg) \<and> sorted_wrt seg_apart segs"

text \<open>A range inside the used part of a segment.\<close>

definition used :: "strcache2_seg list \<Rightarrow> nat \<Rightarrow> nat \<Rightarrow> bool" where
  "used segs p n \<longleftrightarrow> (\<exists>seg\<in>set segs. seg_start seg \<le> p \<and> p + n \<le> seg_cursor seg)"

text \<open>What \<open>malloc\<close> promises: a block that is not in use.\<close>

definition malloc_ok :: "(strcache2_seg list \<Rightarrow> nat \<Rightarrow> nat) \<Rightarrow> bool" where
  "malloc_ok xmalloc \<longleftrightarrow>
     (\<forall>segs sz. \<forall>seg\<in>set segs. apart (xmalloc segs sz) sz (seg_start seg) (seg_size seg))"

lemma take_room_cases:
  assumes "take_room sz segs = Some (p, segs')"
  obtains a seg b where "segs = a @ seg # b" and "p = seg_cursor seg" and "sz \<le> seg_avail seg"
    and "segs' = a @ seg\<lparr>seg_cursor := seg_cursor seg + sz, seg_avail := seg_avail seg - sz\<rparr> # b"
  using assms
proof (induction segs arbitrary: thesis segs')
  case (Cons t segs)
  show ?case
  proof (cases "seg_avail t < sz")
    case True
    then obtain segs2 where t: "take_room sz segs = Some (p, segs2)" "segs' = t # segs2" using Cons.prems(2) by auto
    show ?thesis
    proof (rule Cons.IH [OF _ t(1)])
      fix a seg b
      assume "segs = a @ seg # b" "p = seg_cursor seg" "sz \<le> seg_avail seg"
        "segs2 = a @ seg\<lparr>seg_cursor := seg_cursor seg + sz, seg_avail := seg_avail seg - sz\<rparr> # b"
      then show thesis using t(2) by (intro Cons.prems(1) [of "t # a" seg b]) auto
    qed
  next
    case False
    then show ?thesis using Cons.prems by (intro Cons.prems(1) [of "[]" t segs]) auto
  qed
qed simp

lemma apart_sym: "apart a m b n \<longleftrightarrow> apart b n a m"
  by (auto simp: apart_def)

text \<open>Taking room keeps the segments in order, and the room is not used before.\<close>

lemma take_room_ok:
  assumes "take_room sz segs = Some (p, segs')" and "segs_ok segs" and "sz mod 64 = 0" and "n \<le> sz"
  shows "segs_ok segs'" and "p mod 64 = 0" and "used segs' p n"
    and "used segs q m \<Longrightarrow> used segs' q m" and "used segs q m \<Longrightarrow> apart q m p n"
proof -
  obtain a s b where s: "segs = a @ s # b" "p = seg_cursor s" "sz \<le> seg_avail s"
    "segs' = a @ s\<lparr>seg_cursor := seg_cursor s + sz, seg_avail := seg_avail s - sz\<rparr> # b"
    using take_room_cases [OF assms(1)] .
  have ok: "seg_ok s" using assms(2) s(1) by (simp add: segs_ok_def)
  show "segs_ok segs'"
    using assms(2,3) s ok
    by (auto simp: segs_ok_def seg_ok_def sorted_wrt_append mod_add_eq [of _ 64, symmetric])
  show "p mod 64 = 0" using ok s(2) by (simp add: seg_ok_def)
  show "used segs' p n" using ok s assms(4) by (auto simp: used_def seg_ok_def)
  show "used segs q m \<Longrightarrow> used segs' q m"
    unfolding used_def s(1,4) by fastforce
  show "apart q m p n" if u: "used segs q m"
  proof -
    obtain t where t: "t \<in> set segs" "seg_start t \<le> q" "q + m \<le> seg_cursor t" using u by (auto simp: used_def)
    then consider "t = s" | "t \<in> set a" | "t \<in> set b" using s(1) by auto
    then show ?thesis
    proof cases
      case 1
      then show ?thesis using t s(2) by (simp add: apart_def)
    next
      case 2
      then have "seg_apart t s" "seg_ok t" using assms(2) s(1) by (auto simp: segs_ok_def sorted_wrt_append)
      then show ?thesis using t s ok assms(4) by (auto simp: apart_def seg_ok_def)
    next
      case 3
      then have "seg_apart s t" "seg_ok t" using assms(2) s(1) by (auto simp: segs_ok_def sorted_wrt_append)
      then show ?thesis using t s ok assms(4) by (auto simp: apart_def seg_ok_def)
    qed
  qed
qed

lemma ENTRY_ALIGNMENT: "STRCACHE2_ENTRY_ALIGNMENT = 64"
  by (simp add: STRCACHE2_ENTRY_ALIGNMENT_def)

text \<open>A new segment has room for the string it is made for.\<close>

lemma new_seg_ok:
  assumes "malloc_ok xmalloc" and "segs_ok (segments cache)" and "400 \<le> def_seg_size cache"
  obtains seg where "strcache2_new_seg xmalloc cache minlen = Ok (cache\<lparr>segments := seg # segments cache\<rparr>)"
    and "segs_ok (seg # segments cache)" and "minlen < seg_avail seg"
proof -
  define sz where "sz = (if def_seg_size cache < minlen + 40 + 64
      then (minlen * 2 + 0xfff) div 0x1000 * 0x1000 else def_seg_size cache)"
  define start where "start = xmalloc (segments cache) sz + 40"
  define pad where "pad = (if start mod 64 \<noteq> 0 then 64 - start mod 64 else 0)"
  have pad: "pad \<le> 63" "(start + pad) mod 64 = 0" unfolding pad_def by presburger+
  have sz: "minlen + 103 < sz"
  proof (cases "def_seg_size cache < minlen + 40 + 64")
    case True
    then have "296 < minlen" using assms(3) by simp
    moreover have "(minlen * 2 + 0xfff) mod 0x1000 \<le> 0xfff" by (simp add: less_Suc_eq_le [symmetric])
    ultimately have "minlen + 103 < (minlen * 2 + 0xfff) div 0x1000 * 0x1000"
      using div_mod_decomp [of "minlen * 2 + 0xfff" "0x1000"] by linarith
    then show ?thesis using True by (simp add: sz_def)
  qed (simp add: sz_def)
  let ?seg = "\<lparr>seg_start = start + pad, seg_size = sz - 40 - pad, seg_avail = sz - 40 - pad, seg_cursor = start + pad\<rparr>"
  have "strcache2_new_seg xmalloc cache minlen = Ok (cache\<lparr>segments := ?seg # segments cache\<rparr>)"
    using sz pad(1)
    unfolding strcache2_new_seg_def Let_def ENTRY_ALIGNMENT sz_def [symmetric] start_def [symmetric] pad_def [symmetric]
    by simp
  moreover have "segs_ok (?seg # segments cache)"
  proof -
    have "seg_ok ?seg" using pad(2) by (simp add: seg_ok_def)
    moreover have "seg_apart ?seg t" if "t \<in> set (segments cache)" for t
    proof -
      have "apart (xmalloc (segments cache) sz) sz (seg_start t) (seg_size t)"
        using assms(1) that by (simp add: malloc_ok_def)
      then show ?thesis using sz pad(1) by (auto simp: apart_def start_def)
    qed
    ultimately show ?thesis using assms(2) by (simp add: segs_ok_def)
  qed
  ultimately show thesis using sz pad(1) by (intro that [of ?seg]) auto
qed

end
