(* ===== verification/StrCacheProps.thy ===== *)
theory StrCacheProps
  imports StrCacheMem
begin

text \<open>
  The string cache as a map from strings to addresses. The locale \<open>string_keys\<close> states what the two
  kinds of caches, case sensitive and not, rely on of their hash and comparison; it is interpreted
  by both.
\<close>

section \<open>The invariant\<close>

definition entry_ok :: "(string \<Rightarrow> uint32) \<Rightarrow> strcache2_seg list \<Rightarrow> strcache2_entry \<Rightarrow> bool" where
  "entry_ok hash_of segs e \<longleftrightarrow>
     entry_length e = length (entry_str e) \<and> entry_hash e = hash_of (entry_str e) \<and> NUL \<notin> set (entry_str e)
     \<and> entry_addr e mod 64 = 0 \<and> used segs (entry_addr e) (entry_length e + 25)"

definition entries_apart :: "strcache2_entry list \<Rightarrow> bool" where
  "entries_apart es \<longleftrightarrow> distinct (map entry_addr es)
     \<and> (\<forall>e\<in>set es. \<forall>f\<in>set es. entry_addr e \<noteq> entry_addr f \<longrightarrow>
          apart (entry_addr e) (entry_length e + 25) (entry_addr f) (entry_length f + 25))"

definition entries_ok :: "(string \<Rightarrow> uint32) \<Rightarrow> (string \<Rightarrow> string) \<Rightarrow> strcache2 \<Rightarrow> bool" where
  "entries_ok hash_of key cache \<longleftrightarrow>
     entry_count cache = length (entries cache)
     \<and> (\<forall>e\<in>set (entries cache). entry_ok hash_of (segments cache) e)
     \<and> distinct (map (\<lambda>e. key (entry_str e)) (entries cache))
     \<and> entries_apart (entries cache)
     \<and> segs_ok (segments cache) \<and> segments cache \<noteq> [] \<and> 400 \<le> def_seg_size cache"

definition cache_ok :: "(string \<Rightarrow> uint32) \<Rightarrow> (string \<Rightarrow> string) \<Rightarrow> strcache2 \<Rightarrow> bool" where
  "cache_ok hash_of key cache \<longleftrightarrow>
     (\<exists>k. 8 \<le> k \<and> k \<le> 31 \<and> tab_ok k cache \<and> rehash_count cache = 2 ^ k div 4 * 3)
     \<and> entry_count cache < rehash_count cache \<and> entries_ok hash_of key cache"

text \<open>The abstraction: where a string with this key is.\<close>

definition cache_map :: "(string \<Rightarrow> string) \<Rightarrow> strcache2 \<Rightarrow> string \<rightharpoonup> nat" where
  "cache_map key cache = map_of (map (\<lambda>e. (key (entry_str e), entry_string e)) (entries cache))"

section \<open>Memory for an entry\<close>

lemma entry_space_ok:
  assumes "len < 2 ^ 32 - 88"
  shows "entry_space len mod 64 = 0" and "len + 25 \<le> entry_space len"
proof -
  have "entry_space len = (len + 88) div 64 * 64"
    using assms by (simp add: entry_space_def ENTRY_ALIGNMENT Let_def)
  moreover have "len + 25 \<le> (len + 88) div 64 * 64"
    using div_mod_decomp [of "len + 88" 64] mod_less_divisor [of 64 "len + 88"] by linarith
  ultimately show "entry_space len mod 64 = 0" and "len + 25 \<le> entry_space len" by simp_all
qed

lemma alloc_entry_ok:
  assumes "malloc_ok xmalloc" and "segs_ok (segments cache)" and "segments cache \<noteq> []" and "400 \<le> def_seg_size cache"
    and "sz mod 64 = 0" and "n \<le> sz"
  obtains p segs where "alloc_entry xmalloc cache sz = Ok (p, cache\<lparr>segments := segs\<rparr>)"
    and "segs_ok segs" and "segs \<noteq> []" and "p mod 64 = 0" and "used segs p n"
    and "\<forall>q m. used (segments cache) q m \<longrightarrow> used segs q m \<and> apart q m p n"
proof (cases "take_room sz (segments cache)")
  case (Some r)
  then obtain p segs where r: "take_room sz (segments cache) = Some (p, segs)" by (cases r) auto
  have "segs \<noteq> []" using take_room_cases [OF r] by blast
  then show thesis
    using take_room_ok [OF r assms(2,5,6)] r assms(3) by (intro that [of p segs]) (auto simp: alloc_entry_def)
next
  case None
  obtain seg where seg: "strcache2_new_seg xmalloc cache sz = Ok (cache\<lparr>segments := seg # segments cache\<rparr>)"
    "segs_ok (seg # segments cache)" "sz < seg_avail seg"
    using new_seg_ok [OF assms(1,2,4)] .
  then obtain p segs where r: "take_room sz (seg # segments cache) = Some (p, segs)" by simp
  have "segs \<noteq> []" using take_room_cases [OF r] by blast
  moreover have "used (segments cache) q m \<Longrightarrow> used (seg # segments cache) q m" for q m by (auto simp: used_def)
  ultimately show thesis
    using take_room_ok [OF r seg(2) assms(5,6)] r assms(3) None seg(1)
    by (intro that [of p segs]) (auto simp: alloc_entry_def)
qed

section \<open>Entering\<close>

lemma used_entry: "entry_ok h segs e \<Longrightarrow> (\<And>q m. used segs q m \<Longrightarrow> used segs' q m) \<Longrightarrow> entry_ok h segs' e"
  unfolding entry_ok_def by blast

lemma mset_eq_entries:
  assumes "mset es = mset fs"
  shows "set es = set fs" and "length es = length fs" and "distinct (map f es) = distinct (map f fs)"
proof -
  show "set es = set fs" "length es = length fs" using assms by (auto dest: mset_eq_setD mset_eq_length)
  have "mset (map f es) = mset (map f fs)" using assms by simp
  then show "distinct (map f es) = distinct (map f fs)" by (rule mset_eq_imp_distinct_iff)
qed

lemma cache_map_mset:
  assumes "mset (entries cache') = add_mset e (mset (entries cache))"
    and "distinct (map (\<lambda>e. key (entry_str e)) (e # entries cache))"
  shows "cache_map key cache' = (cache_map key cache)(key (entry_str e) \<mapsto> entry_string e)"
proof -
  let ?f = "\<lambda>e. (key (entry_str e), entry_string e)"
  have m: "mset (entries cache') = mset (e # entries cache)" using assms(1) by simp
  have "distinct (map fst (map ?f (e # entries cache)))" using assms(2) by (simp add: comp_def)
  moreover have "distinct (map fst (map ?f (entries cache')))"
    using assms(2) mset_eq_entries(3) [OF m, of "\<lambda>e. key (entry_str e)"] by (simp add: comp_def)
  ultimately have "map_of (map ?f (entries cache')) = map_of (map ?f (e # entries cache))"
    using mset_eq_entries(1) [OF m] by (subst map_of_inject_set) simp_all
  then show ?thesis by (simp add: cache_map_def)
qed


lemma cache_map_perm:
  assumes "mset (entries cache') = mset (entries cache)" and "distinct (map (\<lambda>e. key (entry_str e)) (entries cache))"
  shows "cache_map key cache' = cache_map key cache"
  using assms mset_eq_entries(1) [OF assms(1)] mset_eq_entries(3) [OF assms(1), of "\<lambda>e. key (entry_str e)"]
  unfolding cache_map_def by (subst map_of_inject_set) (simp_all add: comp_def)

lemma entries_ok_perm:
  assumes "entries_ok h key cache" and m: "mset (entries cache') = mset (entries cache)"
    and "entry_count cache' = entry_count cache" "segments cache' = segments cache" "def_seg_size cache' = def_seg_size cache"
  shows "entries_ok h key cache'"
  using assms mset_eq_entries(1,2) [OF m] mset_eq_entries(3) [OF m, of "\<lambda>e. key (entry_str e)"]
    mset_eq_entries(3) [OF m, of entry_addr]
  unfolding entries_ok_def entries_apart_def by simp

lemma entries_ok_insert:
  assumes ok: "entries_ok h key cache" and m: "mset (entries cache') = add_mset e (mset (entries cache))"
    and e: "entry_ok h (segments cache') e"
    and u: "\<And>q n. used (segments cache) q n \<Longrightarrow> used (segments cache') q n \<and> apart q n (entry_addr e) (entry_length e + 25)"
    and fresh: "key (entry_str e) \<notin> (\<lambda>e. key (entry_str e)) ` set (entries cache)"
    and more: "entry_count cache' = entry_count cache + 1" "segs_ok (segments cache')" "segments cache' \<noteq> []"
      "def_seg_size cache' = def_seg_size cache"
  shows "entries_ok h key cache'" and "entry_addr e \<notin> entry_addr ` set (entries cache)"
proof -
  have m2: "mset (entries cache') = mset (e # entries cache)" using m by simp
  have ap: "apart (entry_addr f) (entry_length f + 25) (entry_addr e) (entry_length e + 25)" if "f \<in> set (entries cache)" for f
    using ok u that unfolding entries_ok_def entry_ok_def by blast
  then show new: "entry_addr e \<notin> entry_addr ` set (entries cache)" by (fastforce simp: apart_def)
  have "entry_ok h (segments cache') f" if "f \<in> set (entries cache)" for f
    using ok u that used_entry [of h "segments cache" f "segments cache'"] unfolding entries_ok_def by blast
  moreover have "entries_apart (e # entries cache)"
    using ok ap new apart_sym unfolding entries_ok_def entries_apart_def by auto
  then have "entries_apart (entries cache')"
    using mset_eq_entries(1) [OF m2] mset_eq_entries(3) [OF m2, of entry_addr] unfolding entries_apart_def by simp
  moreover have "distinct (map (\<lambda>e. key (entry_str e)) (entries cache'))"
    using ok fresh mset_eq_entries(3) [OF m2, of "\<lambda>e. key (entry_str e)"] by (simp add: entries_ok_def)
  ultimately show "entries_ok h key cache'"
    using ok e more mset_eq_entries(1,2) [OF m2] unfolding entries_ok_def by simp
qed


lemma cache_map_None: "cache_map key cache t = None \<longleftrightarrow> t \<notin> (\<lambda>e. key (entry_str e)) ` set (entries cache)"
  by (auto simp: cache_map_def map_of_eq_None_iff image_iff)

lemma cache_map_ran: "p \<in> ran (cache_map key cache) \<Longrightarrow> \<exists>e\<in>set (entries cache). p = entry_string e"
  unfolding cache_map_def by (auto simp: ran_def simp del: set_concat dest!: map_of_SomeD)

text \<open>Growing the table, when it is three quarters full.\<close>

lemma grow_ok:
  assumes "tab_ok k cache" and "8 \<le> k" and "k \<le> 31" and "rehash_count cache = 2 ^ k div 4 * 3"
    and "entries_ok h key cache" and "entry_count cache \<le> rehash_count cache" and "entry_count cache < 3 * 2 ^ 29"
  defines "grown \<equiv> (if entry_count cache \<ge> rehash_count cache then strcache2_rehash cache else cache)"
  shows "cache_ok h key grown \<and> cache_map key grown = cache_map key cache
    \<and> case_insensitive grown = case_insensitive cache \<and> entry_count grown = entry_count cache"
proof (cases "entry_count cache \<ge> rehash_count cache")
  case False
  then show ?thesis using assms by (auto simp: cache_ok_def)
next
  case True
  obtain j where j: "k = j + 2" using assms(2) le_Suc_ex [of 2 k] by auto
  have c: "entry_count cache = 2 ^ k div 4 * 3" using True assms(4,6) by simp
  have "k < 31"
  proof (rule ccontr)
    assume "\<not> k < 31"
    then have "k = 31" using assms(3) by simp
    then show False using c assms(7) by simp
  qed
  then have r: "tab_ok (Suc k) (strcache2_rehash cache)" "mset (entries (strcache2_rehash cache)) = mset (entries cache)"
    "rehash_count (strcache2_rehash cache) = 2 ^ Suc k div 4 * 3" "entry_count (strcache2_rehash cache) = entry_count cache"
    "case_insensitive (strcache2_rehash cache) = case_insensitive cache"
    "def_seg_size (strcache2_rehash cache) = def_seg_size cache" "segments (strcache2_rehash cache) = segments cache"
    using rehash_ok [OF assms(1) _ assms(4)] assms(2) by auto
  have "entries_ok h key (strcache2_rehash cache)"
    by (rule entries_ok_perm [OF assms(5) r(2,4,7,6)])
  moreover have "entry_count (strcache2_rehash cache) < rehash_count (strcache2_rehash cache)"
    using c r(3,4) by (simp add: j power_add)
  moreover have "cache_map key (strcache2_rehash cache) = cache_map key cache"
    using assms(5) by (intro cache_map_perm [OF r(2)]) (simp add: entries_ok_def)
  ultimately show ?thesis
    using True r \<open>k < 31\<close> assms(2) unfolding grown_def cache_ok_def by (auto intro!: exI [of _ "Suc k"])
qed

lemma enter_ok:
  assumes "malloc_ok xmalloc" and ok: "cache_ok h key cache" and "NUL \<notin> set s" and len: "length s < 2 ^ 32 - 88"
    and count: "entry_count cache + 1 < 3 * 2 ^ 29" and fresh: "cache_map key cache (key s) = None"
  obtains cache' p where
    "strcache2_enter_string xmalloc cache (STRCACHE2_MOD_IT cache (h s)) s (length s) (h s) = Ok (cache', p)"
    and "cache_ok h key cache'" and "cache_map key cache' = (cache_map key cache)(key s \<mapsto> p)"
    and "p \<notin> ran (cache_map key cache)"
    and "case_insensitive cache' = case_insensitive cache" and "entry_count cache' = entry_count cache + 1"
proof -
  obtain k where k: "8 \<le> k" "k \<le> 31" "tab_ok k cache" "rehash_count cache = 2 ^ k div 4 * 3"
    and eo: "entries_ok h key cache" and lt: "entry_count cache < rehash_count cache"
    using ok by (auto simp: cache_ok_def)
  note sp = entry_space_ok [OF len]
  have mem: "segs_ok (segments cache)" "segments cache \<noteq> []" "400 \<le> def_seg_size cache"
    using eo by (auto simp: entries_ok_def)
  obtain p segs where a: "alloc_entry xmalloc cache (entry_space (length s)) = Ok (p, cache\<lparr>segments := segs\<rparr>)"
    and segs: "segs_ok segs" "segs \<noteq> []" "p mod 64 = 0" "used segs p (length s + 25)"
      "\<forall>q m. used (segments cache) q m \<longrightarrow> used segs q m \<and> apart q m p (length s + 25)"
    using alloc_entry_ok [OF assms(1) mem sp(1,2)] .
  let ?idx = "STRCACHE2_MOD_IT cache (h s)"
  have idx: "?idx = unat (h s) mod 2 ^ k" "?idx < length (hash_tab cache)"
    using mod_it [OF k(3)] k(3) by (auto simp: tab_ok_def)
  let ?e = "\<lparr>entry_addr = p, entry_user = 0, entry_hash = h s, entry_length = length s, entry_str = take (length s) s\<rparr>"
  let ?c = "cache\<lparr>segments := segs,
      collision_count := (if hash_tab cache ! ?idx \<noteq> [] then collision_count cache + 1 else collision_count cache),
      hash_tab := (hash_tab cache)[?idx := ?e # hash_tab cache ! ?idx], entry_count := entry_count cache + 1\<rparr>"
  let ?g = "if entry_count ?c \<ge> rehash_count ?c then strcache2_rehash ?c else ?c"
  have t: "tab_ok k ?c \<and> mset (entries ?c) = add_mset ?e (mset (entries cache))"
    by (rule tab_ok_insert [OF k(3), of _ ?e]) (use idx in simp_all)
  have e: "entry_ok h (segments ?c) ?e" using assms(3) segs(3,4) by (simp add: entry_ok_def)
  have new: "key (entry_str ?e) \<notin> (\<lambda>e. key (entry_str e)) ` set (entries cache)"
    using fresh unfolding cache_map_None by simp
  have eo2: "entries_ok h key ?c" and addr: "entry_addr ?e \<notin> entry_addr ` set (entries cache)"
    using entries_ok_insert [OF eo conjunct2 [OF t] e _ new] segs by simp_all
  have g: "cache_ok h key ?g \<and> cache_map key ?g = cache_map key ?c \<and> case_insensitive ?g = case_insensitive ?c
      \<and> entry_count ?g = entry_count ?c"
    by (rule grow_ok [OF conjunct1 [OF t] k(1,2) _ eo2]) (use k(4) lt count in simp_all)
  have "strcache2_enter_string xmalloc cache ?idx s (length s) (h s) = Ok (?g, entry_string ?e)"
    using a segs(3) sp(2) idx(2) by (simp add: strcache2_enter_string_def ENTRY_ALIGNMENT Let_def)
  moreover have "cache_map key ?c = (cache_map key cache)(key s \<mapsto> entry_string ?e)"
    using cache_map_mset [OF conjunct2 [OF t], of key] eo new by (simp add: entries_ok_def)
  moreover have "entry_string ?e \<notin> ran (cache_map key cache)"
    using addr cache_map_ran [of "entry_string ?e" key cache] by (auto simp: entry_string_def)
  ultimately show thesis using g by (intro that [of ?g "entry_string ?e"]) auto
qed

end
