(* ===== verification/StrCacheCorrect.thy ===== *)
theory StrCacheCorrect
  imports StrCacheProps
begin

text \<open>
  What the string cache promises: it interns strings. A string that is there keeps its address, a new
  one gets an address that no other string has, so that two strings added have the same address
  exactly when they are equal.
\<close>

text \<open>The abstract operation, on a map from keys to addresses.\<close>

definition interns :: "(string \<rightharpoonup> nat) \<Rightarrow> string \<Rightarrow> (string \<rightharpoonup> nat) \<Rightarrow> nat \<Rightarrow> bool" where
  "interns m t m' p \<longleftrightarrow> (case m t of Some q \<Rightarrow> m' = m \<and> p = q | None \<Rightarrow> m' = m(t \<mapsto> p) \<and> p \<notin> ran m)"

section \<open>The contract of hash and comparison\<close>

locale string_keys =
  fixes hash_of :: "string \<Rightarrow> uint32"
    and key :: "string \<Rightarrow> string"
    and eq :: "string \<Rightarrow> strcache2_entry \<Rightarrow> bool"
    and usable :: "string \<Rightarrow> bool"
  assumes eq_key: "usable s \<Longrightarrow> entry_length e = length (entry_str e) \<Longrightarrow> entry_hash e = hash_of (entry_str e) \<Longrightarrow>
      eq s e \<longleftrightarrow> key (entry_str e) = key s"
    and hash_key: "key s = key t \<Longrightarrow> hash_of s = hash_of t"
begin

lemma lookup_key:
  assumes ok: "cache_ok hash_of key cache" and s: "usable s"
  shows "STRCACHE2_MOD_IT cache (hash_of s) < length (hash_tab cache)"
    and "map_option entry_string (lookup_entry (eq s) (hash_tab cache ! STRCACHE2_MOD_IT cache (hash_of s)))
      = cache_map key cache (key s)"
proof -
  let ?idx = "STRCACHE2_MOD_IT cache (hash_of s)" and ?f = "\<lambda>e. (key (entry_str e), entry_string e)"
  obtain k where k: "tab_ok k cache" and eo: "entries_ok hash_of key cache" using ok by (auto simp: cache_ok_def)
  show idx: "?idx < length (hash_tab cache)" using mod_it [OF k] k by (simp add: tab_ok_def)
  have eqv: "eq s e \<longleftrightarrow> key (entry_str e) = key s" if "e \<in> set (entries cache)" for e
    using eq_key [OF s] eo that by (auto simp: entries_ok_def entry_ok_def)
  have sub: "set (hash_tab cache ! ?idx) \<subseteq> set (entries cache)" using nth_mem [OF idx] by auto
  have d: "distinct (map fst (map ?f (entries cache)))" using eo by (simp add: entries_ok_def comp_def)
  show "map_option entry_string (lookup_entry (eq s) (hash_tab cache ! ?idx)) = cache_map key cache (key s)"
  proof (cases "find (eq s) (hash_tab cache ! ?idx)")
    case None
    have "key (entry_str e) \<noteq> key s" if e: "e \<in> set (entries cache)" for e
    proof
      assume same: "key (entry_str e) = key s"
      obtain i where i: "i < length (hash_tab cache)" "e \<in> set (hash_tab cache ! i)"
      proof -
        obtain chain where "chain \<in> set (hash_tab cache)" "e \<in> set chain" using e by auto
        then show thesis using that by (metis in_set_conv_nth)
      qed
      have "entry_hash e = hash_of s" using eo e hash_key [OF same] by (auto simp: entries_ok_def entry_ok_def)
      moreover have "unat (entry_hash e) mod 2 ^ k = i" using k i by (simp add: tab_ok_def)
      ultimately have "i = ?idx" using mod_it [OF k] by simp
      then show False using None i(2) eqv [OF e] same by (auto simp: find_None_iff)
    qed
    then have "cache_map key cache (key s) = None" unfolding cache_map_None by fastforce
    then show ?thesis using None by (simp add: lookup_entry_eq)
  next
    case (Some e)
    then have e: "e \<in> set (entries cache)" "eq s e" using sub by (auto simp: find_Some_iff dest: nth_mem)
    then have "(key s, entry_string e) \<in> set (map ?f (entries cache))" using eqv by force
    then have "cache_map key cache (key s) = Some (entry_string e)"
      unfolding cache_map_def using map_of_eq_Some_iff [OF d] by simp
    then show ?thesis using Some by (simp add: lookup_entry_eq)
  qed
qed

lemma find_only_ok:
  "cache_ok hash_of key cache \<Longrightarrow> usable s \<Longrightarrow> find_only (eq s) cache (hash_of s) = Ok (cache_map key cache (key s))"
  using lookup_key [of cache s] by (simp add: find_only_def Let_def)

lemma find_or_enter_ok:
  assumes "malloc_ok xmalloc" and ok: "cache_ok hash_of key cache" and s: "usable s" "NUL \<notin> set s" "length s < 2 ^ 32 - 88"
    and count: "entry_count cache + 1 < 3 * 2 ^ 29"
  obtains cache' p where "find_or_enter xmalloc (eq s) cache s (length s) (hash_of s) = Ok (cache', p)"
    and "cache_ok hash_of key cache'" and "interns (cache_map key cache) (key s) (cache_map key cache') p"
    and "case_insensitive cache' = case_insensitive cache" and "entry_count cache' \<le> entry_count cache + 1"
proof (cases "cache_map key cache (key s)")
  case (Some q)
  then obtain e where "lookup_entry (eq s) (hash_tab cache ! STRCACHE2_MOD_IT cache (hash_of s)) = Some e" "entry_string e = q"
    using lookup_key [OF ok s(1)] by auto
  then show thesis
    using Some ok lookup_key(1) [OF ok s(1)] by (intro that [of cache q]) (auto simp: find_or_enter_def interns_def Let_def)
next
  case None
  then have "lookup_entry (eq s) (hash_tab cache ! STRCACHE2_MOD_IT cache (hash_of s)) = None"
    using lookup_key [OF ok s(1)] by simp
  moreover obtain cache' p where e: "strcache2_enter_string xmalloc cache (STRCACHE2_MOD_IT cache (hash_of s)) s (length s) (hash_of s) = Ok (cache', p)"
    "cache_ok hash_of key cache'" "cache_map key cache' = (cache_map key cache)(key s \<mapsto> p)" "p \<notin> ran (cache_map key cache)"
    "case_insensitive cache' = case_insensitive cache" "entry_count cache' = entry_count cache + 1"
    using enter_ok [OF assms(1) ok s(2,3) count None] .
  ultimately show thesis
    using None lookup_key(1) [OF ok s(1)] by (intro that [of cache' p]) (auto simp: find_or_enter_def interns_def Let_def)
qed

end

section \<open>The two kinds of caches\<close>

abbreviation hash_str :: "string \<Rightarrow> uint32" where
  "hash_str s \<equiv> strcache2_case_sensitive_hash s (length s)"

abbreviation hash_istr :: "string \<Rightarrow> uint32" where
  "hash_istr s \<equiv> strcache2_case_insensitive_hash s (length s)"

definition ascii :: "string \<Rightarrow> bool" where
  "ascii s \<longleftrightarrow> (\<forall>c\<in>set s. cord c < 128)"

text \<open>Case-insensitive caches do tell the cases of a letter apart when it is the whole string.\<close>

definition ikey :: "string \<Rightarrow> string" where
  "ikey s = (if length s = 1 then s else map tolower s)"

lemma length_ikey [simp]: "length (ikey s) = length s"
  by (simp add: ikey_def)

interpretation sensitive: string_keys hash_str "\<lambda>s. s" "\<lambda>s e. strcache2_is_equal e aligned s (length s) (hash_str s)"
    "\<lambda>s. aligned \<or> ascii s" for aligned
proof unfold_locales
  fix s and e :: strcache2_entry
  assume "aligned \<or> ascii s" "entry_length e = length (entry_str e)" "entry_hash e = hash_str (entry_str e)"
  then show "strcache2_is_equal e aligned s (length s) (hash_str s) \<longleftrightarrow> entry_str e = s"
    using memcmp_inlined_0 [of aligned s "length s" "entry_str e"] by (auto simp: strcache2_is_equal_def ascii_def)
qed simp

interpretation insensitive: string_keys hash_istr ikey "\<lambda>s e. strcache2_is_iequal e s (length s) (hash_istr s)" "\<lambda>s. True"
proof unfold_locales
  fix s t :: string
  assume k: "ikey s = ikey t"
  then have l: "length s = length t" by (metis length_ikey)
  show "hash_istr s = hash_istr t"
  proof (cases "length s = 1")
    case False
    then show ?thesis
      using k l case_insensitive_hash_lower [of "length s" s] case_insensitive_hash_lower [of "length s" t] by (simp add: ikey_def)
  qed (use k l in \<open>simp add: ikey_def\<close>)
next
  fix s and e :: strcache2_entry
  assume e: "entry_length e = length (entry_str e)" "entry_hash e = hash_istr (entry_str e)"
  show "strcache2_is_iequal e s (length s) (hash_istr s) \<longleftrightarrow> ikey (entry_str e) = ikey s"
  proof (cases "length (entry_str e) = length s")
    case False
    then show ?thesis using e by (metis length_ikey strcache2_is_iequal_def)
  next
    case True
    show ?thesis
    proof (cases "length s = 1")
      case True
      then obtain a b where "s = [a]" "entry_str e = [b]" using \<open>length (entry_str e) = length s\<close> by (auto simp: length_Suc_conv)
      then show ?thesis using e single_hash_inject [of b a] by (auto simp: strcache2_is_iequal_def ikey_def)
    next
      case False
      have "hash_istr (entry_str e) = hash_istr s" if "map tolower (entry_str e) = map tolower s"
        using that False True case_insensitive_hash_lower [of "length s" s] case_insensitive_hash_lower [of "length s" "entry_str e"] by simp
      then show ?thesis using e True False by (auto simp: strcache2_is_iequal_def ikey_def)
    qed
  qed
qed


section \<open>Initialization\<close>

lemma init_shift_bounds:
  "k \<le> 31 \<Longrightarrow> sz \<le> 2 ^ 31 \<Longrightarrow> k \<le> init_shift sz k \<and> init_shift sz k \<le> 31 \<and> sz \<le> 2 ^ init_shift sz k"
proof (induction sz k rule: init_shift.induct)
  case (1 sz k)
  show ?case
  proof (cases "k < 32 \<and> 2 ^ k < sz")
    case True
    then have "k < 31" using 1(3) by (cases "k = 31") auto
    then show ?thesis using 1 True by (subst (1 2 3) init_shift.simps) auto
  next
    case False
    then show ?thesis using 1(2) by (subst (1 2 3) init_shift.simps) auto
  qed
qed

text \<open>A new cache is empty and well-formed, and its table has at least the size asked for.\<close>

lemma init_ok:
  assumes "malloc_ok xmalloc" and "sz \<le> 2 ^ 31" and "seg_sz \<le> 2 ^ 32 - 4096"
  obtains cache where "strcache2_init xmalloc sz seg_sz insensitive False = Ok cache"
    and "cache_ok h key cache" and "cache_map key cache = Map.empty" and "case_insensitive cache = insensitive"
    and "entry_count cache = 0" and "sz \<le> hash_size cache"
proof -
  let ?k = "if sz = 0 then 16 else init_shift sz 8"
  let ?s = "if seg_sz = 0 then 1024 * 1024 else if seg_sz < 40 * 10 then 40 * 10
    else if seg_sz mod 0x1000 < 0xf00 then (seg_sz + 0xfff) mod 2 ^ 32 div 0x1000 * 0x1000 else seg_sz"
  let ?c = "\<lparr>hash_tab = replicate (2 ^ ?k) [], case_insensitive = insensitive,
     hash_mask = of_nat (2 ^ ?k - 1), entry_count = 0, collision_count = 0,
     rehash_count = 2 ^ ?k div 4 * 3, init_size = 2 ^ ?k, hash_size = 2 ^ ?k,
     def_seg_size = ?s, segments = []\<rparr>"
  have k: "8 \<le> ?k" "?k \<le> 31" "sz \<le> 2 ^ ?k" using init_shift_bounds [of 8 sz] assms(2) by auto
  have s: "400 \<le> ?s"
  proof (cases "seg_sz < 400 \<or> \<not> seg_sz mod 0x1000 < 0xf00")
    case False
    have "(seg_sz + 0xfff) mod 0x1000 \<le> 0xfff" by (simp add: less_Suc_eq_le [symmetric])
    then have "seg_sz \<le> (seg_sz + 0xfff) div 0x1000 * 0x1000"
      using div_mod_decomp [of "seg_sz + 0xfff" "0x1000"] by linarith
    then show ?thesis using False assms(3) by simp
  qed auto
  obtain seg where seg: "strcache2_new_seg xmalloc ?c 0 = Ok (?c\<lparr>segments := seg # segments ?c\<rparr>)" "segs_ok (seg # segments ?c)"
    by (rule new_seg_ok [OF assms(1), of ?c 0]) (use s in \<open>simp_all add: segs_ok_def\<close>)
  let ?d = "?c\<lparr>segments := seg # segments ?c\<rparr>"
  have mask: "(of_nat (2 ^ n - 1) :: uint32) = mask n" for n
    by (simp add: mask_eq_exp_minus_1 of_nat_diff)
  have t: "tab_ok ?k ?d \<and> entries ?d = []"
    by (rule tab_ok_empty) (simp_all only: strcache2.simps mask)
  have pos: "2 \<le> n \<Longrightarrow> 0 < (2 :: nat) ^ n div 4 * 3" for n
    using power_increasing [of 2 n "2 :: nat"] by (simp add: div_greater_zero_iff)
  have "0 < rehash_count ?d" using pos [of ?k] k(1) by (simp only: strcache2.simps)
  moreover have "entries_ok h key ?d"
    using t s seg(2) by (simp add: entries_ok_def entries_apart_def)
  ultimately have "cache_ok h key ?d"
    using k t unfolding cache_ok_def by (intro conjI exI [of _ ?k]) simp_all
  moreover have "strcache2_init xmalloc sz seg_sz insensitive False = Ok ?d"
    using assms(2) seg(1) by (simp add: strcache2_init_def Let_def del: One_nat_def)
  moreover have "cache_map key ?d = Map.empty" using t by (simp add: cache_map_def)
  ultimately show thesis using k(3) by (intro that [of ?d]) simp_all
qed


text \<open>An allocator that places every block behind the segments there are.\<close>

definition bump :: "strcache2_seg list \<Rightarrow> nat \<Rightarrow> nat" where
  "bump segs sz = foldr (\<lambda>seg a. max (seg_start seg + seg_size seg) a) segs 0"

lemma bump_ok: "malloc_ok bump"
proof -
  have "seg \<in> set segs \<Longrightarrow> seg_start seg + seg_size seg \<le> bump segs sz" for seg segs sz
    by (induction segs) (auto simp: bump_def)
  then show ?thesis by (simp add: malloc_ok_def apart_def)
qed

section \<open>Adding and looking up\<close>

text \<open>\<open>strcache2_add\<close> on a well-formed cache.\<close>

lemma add_interns:
  assumes "malloc_ok xmalloc" and "cache_ok hash_str (\<lambda>s. s) cache" and "\<not> case_insensitive cache"
    and "aligned \<or> ascii s" and "NUL \<notin> set s" and "length s < 2 ^ 32 - 88" and "entry_count cache + 1 < 3 * 2 ^ 29"
  obtains cache' p where "strcache2_add xmalloc cache aligned s (length s) = Ok (cache', p)"
    and "cache_ok hash_str (\<lambda>s. s) cache'" and "interns (cache_map (\<lambda>s. s) cache) s (cache_map (\<lambda>s. s) cache') p"
    and "\<not> case_insensitive cache'" and "entry_count cache' \<le> entry_count cache + 1"
proof -
  obtain cache' p where f: "find_or_enter xmalloc (\<lambda>e. strcache2_is_equal e aligned s (length s) (hash_str s)) cache s (length s) (hash_str s) = Ok (cache', p)"
    "cache_ok hash_str (\<lambda>s. s) cache'" "interns (cache_map (\<lambda>s. s) cache) s (cache_map (\<lambda>s. s) cache') p"
    "case_insensitive cache' = case_insensitive cache" "entry_count cache' \<le> entry_count cache + 1"
    using sensitive.find_or_enter_ok [OF assms(1,2,4,5,6,7)] .
  then show thesis using assms(3,5) by (intro that [of cache' p]) (simp_all add: strcache2_add_def)
qed

text \<open>
  C10: Adding a string to a well-formed cache returns, keeps the cache well-formed and interns the
  string, for an aligned string or one of ASCII characters, within the bounds of the 32-bit sizes.
\<close>

theorem strcache2_add_interns:
  assumes "malloc_ok xmalloc" and "cache_ok hash_str (\<lambda>s. s) cache" and "\<not> case_insensitive cache"
    and "aligned \<or> ascii s" and "NUL \<notin> set s" and "length s < 2 ^ 32 - 88" and "entry_count cache + 1 < 3 * 2 ^ 29"
  shows "\<exists>cache' p. strcache2_add xmalloc cache aligned s (length s) = Ok (cache', p)
    \<and> cache_ok hash_str (\<lambda>s. s) cache' \<and> \<not> case_insensitive cache'
    \<and> interns (cache_map (\<lambda>s. s) cache) s (cache_map (\<lambda>s. s) cache') p"
  using add_interns [OF assms] by blast

theorem strcache2_add_interns_witness:
  "\<exists>cache cache' p. strcache2_init bump 1 0 False False = Ok cache
    \<and> strcache2_add bump cache False ''kBuild'' (length ''kBuild'') = Ok (cache', p) \<and> cache_map (\<lambda>s. s) cache' ''kBuild'' = Some p"
proof -
  obtain cache where c: "strcache2_init bump 1 0 False False = Ok cache" "cache_ok hash_str (\<lambda>s. s) cache"
    "cache_map (\<lambda>s. s) cache = Map.empty" "\<not> case_insensitive cache" "entry_count cache = 0"
    by (rule init_ok [OF bump_ok, of 1 0 False hash_str "\<lambda>s. s"]) auto
  have "ascii ''kBuild''" by (simp add: ascii_def cord_def)
  then show ?thesis
    using strcache2_add_interns [OF bump_ok c(2,4), of False "''kBuild''"] c by (auto simp: interns_def)
qed

lemma iadd_interns:
  assumes "malloc_ok xmalloc" and "cache_ok hash_istr ikey cache" and "case_insensitive cache"
    and "NUL \<notin> set s" and "length s < 2 ^ 32 - 88" and "entry_count cache + 1 < 3 * 2 ^ 29"
  obtains cache' p where "strcache2_iadd xmalloc cache s (length s) = Ok (cache', p)"
    and "cache_ok hash_istr ikey cache'" and "interns (cache_map ikey cache) (ikey s) (cache_map ikey cache') p"
    and "case_insensitive cache'" and "entry_count cache' \<le> entry_count cache + 1"
proof -
  obtain cache' p where f: "find_or_enter xmalloc (\<lambda>e. strcache2_is_iequal e s (length s) (hash_istr s)) cache s (length s) (hash_istr s) = Ok (cache', p)"
    "cache_ok hash_istr ikey cache'" "interns (cache_map ikey cache) (ikey s) (cache_map ikey cache') p"
    "case_insensitive cache' = case_insensitive cache" "entry_count cache' \<le> entry_count cache + 1"
    using insensitive.find_or_enter_ok [OF assms(1,2) TrueI assms(4,5,6)] .
  then show thesis using assms(3,4) by (intro that [of cache' p]) (simp_all add: strcache2_iadd_def)
qed

text \<open>The case-insensitive operations, up to the case of letters in strings of more than one character.\<close>

theorem strcache2_iadd_interns:
  assumes "malloc_ok xmalloc" and "cache_ok hash_istr ikey cache" and "case_insensitive cache"
    and "NUL \<notin> set s" and "length s < 2 ^ 32 - 88" and "entry_count cache + 1 < 3 * 2 ^ 29"
  shows "\<exists>cache' p. strcache2_iadd xmalloc cache s (length s) = Ok (cache', p)
    \<and> cache_ok hash_istr ikey cache' \<and> case_insensitive cache'
    \<and> interns (cache_map ikey cache) (ikey s) (cache_map ikey cache') p"
  using iadd_interns [OF assms] by blast

theorem strcache2_iadd_interns_witness:
  "\<exists>cache cache' p. strcache2_init bump 1 0 True False = Ok cache
    \<and> strcache2_iadd bump cache ''kBuild'' (length ''kBuild'') = Ok (cache', p) \<and> cache_map ikey cache' ''kbuild'' = Some p"
proof -
  obtain cache where c: "strcache2_init bump 1 0 True False = Ok cache" "cache_ok hash_istr ikey cache"
    "cache_map ikey cache = Map.empty" "case_insensitive cache" "entry_count cache = 0"
    by (rule init_ok [OF bump_ok, of 1 0 True hash_istr ikey]) auto
  have "ikey ''kBuild'' = ''kbuild''" by code_simp
  then show ?thesis
    using strcache2_iadd_interns [OF bump_ok c(2,4), of "''kBuild''"] c by (auto simp: interns_def)
qed


text \<open>Looking up reads the map.\<close>

lemma lookup_reads:
  assumes "cache_ok hash_str (\<lambda>s. s) cache" and "\<not> case_insensitive cache" and "aligned \<or> ascii s" and "NUL \<notin> set s"
  shows "strcache2_lookup cache aligned s (length s) = Ok (cache_map (\<lambda>s. s) cache s)"
  using sensitive.find_only_ok [OF assms(1,3)] assms(2,4) by (simp add: strcache2_lookup_def)

text \<open>Strings are added one after another, each with an aligned pointer or not.\<close>

fun add_all :: "(strcache2_seg list \<Rightarrow> nat \<Rightarrow> nat) \<Rightarrow> strcache2 \<Rightarrow> (bool \<times> string) list \<Rightarrow> (unit, strcache2 \<times> nat list) outcome" where
  "add_all xmalloc cache [] = Ok (cache, [])"
| "add_all xmalloc cache ((aligned, s) # ss) =
     obind (strcache2_add xmalloc cache aligned s (length s)) (\<lambda>(cache, p).
     obind (add_all xmalloc cache ss) (\<lambda>(cache, ps). Ok (cache, p # ps)))"

lemma interns_mono: "interns m t m' p \<Longrightarrow> m \<subseteq>\<^sub>m m' \<and> m' t = Some p"
  by (auto simp: interns_def map_le_def split: option.splits)

lemma interns_inj: "interns m t m' p \<Longrightarrow> inj_on m (dom m) \<Longrightarrow> inj_on m' (dom m')"
  by (auto simp: interns_def inj_on_def ran_def split: option.splits)

definition addable :: "bool \<times> string \<Rightarrow> bool" where
  "addable q \<longleftrightarrow> (fst q \<or> ascii (snd q)) \<and> NUL \<notin> set (snd q) \<and> length (snd q) < 2 ^ 32 - 88"

lemma add_all_ok:
  assumes "malloc_ok xmalloc" and "cache_ok hash_str (\<lambda>s. s) cache" and "\<not> case_insensitive cache"
    and "list_all addable ss" and "entry_count cache + length ss < 3 * 2 ^ 29"
  shows "\<exists>cache' ps. add_all xmalloc cache ss = Ok (cache', ps)
    \<and> cache_ok hash_str (\<lambda>s. s) cache' \<and> \<not> case_insensitive cache'
    \<and> cache_map (\<lambda>s. s) cache \<subseteq>\<^sub>m cache_map (\<lambda>s. s) cache'
    \<and> (inj_on (cache_map (\<lambda>s. s) cache) (dom (cache_map (\<lambda>s. s) cache)) \<longrightarrow>
       inj_on (cache_map (\<lambda>s. s) cache') (dom (cache_map (\<lambda>s. s) cache')))
    \<and> list_all2 (\<lambda>q p. cache_map (\<lambda>s. s) cache' (snd q) = Some p) ss ps"
  using assms
proof (induction ss arbitrary: cache)
  case (Cons q ss)
  obtain aligned s where q: "q = (aligned, s)" by (cases q)
  have usable: "aligned \<or> ascii s" "NUL \<notin> set s" "length s < 2 ^ 32 - 88" using Cons.prems(4) q by (auto simp: addable_def)
  have "entry_count cache + 1 < 3 * 2 ^ 29" using Cons.prems(5) by simp
  then obtain c1 p where a: "strcache2_add xmalloc cache aligned s (length s) = Ok (c1, p)" "cache_ok hash_str (\<lambda>s. s) c1"
    "interns (cache_map (\<lambda>s. s) cache) s (cache_map (\<lambda>s. s) c1) p" "\<not> case_insensitive c1" "entry_count c1 \<le> entry_count cache + 1"
    using add_interns [OF Cons.prems(1,2,3) usable] by blast
  have "list_all addable ss" "entry_count c1 + length ss < 3 * 2 ^ 29" using Cons.prems(4,5) a(5) by auto
  then obtain c2 ps where r: "add_all xmalloc c1 ss = Ok (c2, ps)" "cache_ok hash_str (\<lambda>s. s) c2" "\<not> case_insensitive c2"
    "cache_map (\<lambda>s. s) c1 \<subseteq>\<^sub>m cache_map (\<lambda>s. s) c2"
    "inj_on (cache_map (\<lambda>s. s) c1) (dom (cache_map (\<lambda>s. s) c1)) \<longrightarrow> inj_on (cache_map (\<lambda>s. s) c2) (dom (cache_map (\<lambda>s. s) c2))"
    "list_all2 (\<lambda>q p. cache_map (\<lambda>s. s) c2 (snd q) = Some p) ss ps"
    using Cons.IH [OF Cons.prems(1) a(2,4)] by blast
  have "cache_map (\<lambda>s. s) c2 s = Some p"
    using interns_mono [OF a(3)] r(4) by (auto simp: map_le_def dom_def)
  then show ?case
    using a(1) r q interns_mono [OF a(3)] interns_inj [OF a(3)] map_le_trans by auto
qed simp

text \<open>
  C4: Fewer than \<open>3 * 2 ^ 29\<close> strings are added to a new cache, each through a pointer that is aligned
  or to a string of ASCII characters, without a zero byte and of a length below \<open>2 ^ 32 - 88\<close>
  (\<open>addable\<close>); \<open>malloc\<close> returns blocks that are not in use. Then all are added, and two of them get the
  same address exactly when they are equal. The condition on the pointers is needed: a string with
  other characters that is added through an unaligned pointer is entered a second time (lemma
  \<open>strcache2_lookup_unaligned\<close>).
\<close>

theorem string_cache_addresses:
  assumes "malloc_ok xmalloc" and "sz \<le> 2 ^ 31" and "seg_sz \<le> 2 ^ 32 - 4096"
    and "list_all addable ss" and "length ss < 3 * 2 ^ 29"
  shows "\<exists>cache ps. obind (strcache2_init xmalloc sz seg_sz False False) (\<lambda>cache. add_all xmalloc cache ss) = Ok (cache, ps)
    \<and> length ps = length ss
    \<and> (\<forall>i<length ss. \<forall>j<length ss. ps ! i = ps ! j \<longleftrightarrow> snd (ss ! i) = snd (ss ! j))"
proof -
  obtain c where c: "strcache2_init xmalloc sz seg_sz False False = Ok c" "cache_ok hash_str (\<lambda>s. s) c"
    "cache_map (\<lambda>s. s) c = Map.empty" "case_insensitive c = False" "entry_count c = 0"
    by (rule init_ok [OF assms(1,2,3), of False hash_str "\<lambda>s. s"])
  have "entry_count c + length ss < 3 * 2 ^ 29" "\<not> case_insensitive c" using c(4,5) assms(5) by simp_all
  then obtain d ps where d: "add_all xmalloc c ss = Ok (d, ps)" "inj_on (cache_map (\<lambda>s. s) d) (dom (cache_map (\<lambda>s. s) d))"
    and l: "list_all2 (\<lambda>q p. cache_map (\<lambda>s. s) d (snd q) = Some p) ss ps"
    using add_all_ok [OF assms(1) c(2) _ assms(4)] c(3) by auto
  have "ps ! i = ps ! j \<longleftrightarrow> snd (ss ! i) = snd (ss ! j)" if ij: "i < length ss" "j < length ss" for i j
  proof -
    have m: "cache_map (\<lambda>s. s) d (snd (ss ! i)) = Some (ps ! i)" "cache_map (\<lambda>s. s) d (snd (ss ! j)) = Some (ps ! j)"
      using list_all2_nthD [OF l] ij by auto
    then show ?thesis using inj_onD [OF d(2), of "snd (ss ! i)" "snd (ss ! j)"] by (auto simp: dom_def)
  qed
  then show ?thesis using c(1) d(1) list_all2_lengthD [OF l] by auto
qed

theorem string_cache_addresses_witness:
  "\<exists>cache p q r. obind (strcache2_init bump 0 0 False False) (\<lambda>cache. add_all bump cache [(False, ''a.c''), (True, ''b.c''), (True, ''a.c'')])
      = Ok (cache, [p, q, r]) \<and> p = r \<and> p \<noteq> q"
proof -
  let ?ss = "[(False, ''a.c''), (True, ''b.c''), (True, ''a.c'')]"
  have "list_all addable ?ss" by (simp add: addable_def ascii_def cord_def)
  then obtain cache ps where c: "obind (strcache2_init bump 0 0 False False) (\<lambda>cache. add_all bump cache ?ss) = Ok (cache, ps)"
    "length ps = length ?ss" "\<forall>i<length ?ss. \<forall>j<length ?ss. ps ! i = ps ! j \<longleftrightarrow> snd (?ss ! i) = snd (?ss ! j)"
    using string_cache_addresses [OF bump_ok, of 0 0 ?ss] by auto
  then obtain p q r where ps: "ps = [p, q, r]" by (auto simp: length_Suc_conv)
  have "p = r" using c(3)[rule_format, of 0 2] ps by simp
  moreover have "p \<noteq> q" using c(3)[rule_format, of 0 1] ps by simp
  ultimately show ?thesis using c(1) ps by blast
qed


section \<open>Checks of a cache\<close>

lemma verify_ok:
  assumes "cache_ok (if case_insensitive cache then hash_istr else hash_str) key cache" and "e \<in> set (entries cache)"
  shows "strcache2_verify_entry cache e = 0"
proof -
  let ?h = "if case_insensitive cache then hash_istr else hash_str"
  have e: "entry_length e = length (entry_str e)" "entry_hash e = ?h (entry_str e)" "NUL \<notin> set (entry_str e)" "entry_addr e mod 64 = 0"
    using assms unfolding cache_ok_def entries_ok_def entry_ok_def by blast+
  have "takeWhile (\<lambda>c. c \<noteq> NUL) (entry_str e @ [NUL]) = entry_str e"
    using e(3) by (subst takeWhile_append2) auto
  then show ?thesis using e by (simp add: strcache2_verify_entry_def ENTRY_ALIGNMENT)
qed

text \<open>
  C38: After strings are added to a new cache, every entry passes the check of \<open>strcache2_verify_entry\<close>, and
  the counters agree with the table.
\<close>

theorem strcache2_verify_entry_ok:
  assumes "malloc_ok xmalloc" and "sz \<le> 2 ^ 31" and "seg_sz \<le> 2 ^ 32 - 4096"
    and "list_all addable ss" and "length ss < 3 * 2 ^ 29"
  shows "\<exists>cache ps. obind (strcache2_init xmalloc sz seg_sz False False) (\<lambda>cache. add_all xmalloc cache ss) = Ok (cache, ps)
    \<and> (\<forall>e\<in>set (entries cache). strcache2_verify_entry cache e = 0)
    \<and> entry_count cache = length (entries cache)
    \<and> collision_count cache = (\<Sum>chain\<leftarrow>hash_tab cache. length chain - 1)"
proof -
  obtain c where c: "strcache2_init xmalloc sz seg_sz False False = Ok c" "cache_ok hash_str (\<lambda>s. s) c"
    "case_insensitive c = False" "entry_count c = 0"
    by (rule init_ok [OF assms(1,2,3), of False hash_str "\<lambda>s. s"])
  have "entry_count c + length ss < 3 * 2 ^ 29" "\<not> case_insensitive c" using c(3,4) assms(5) by simp_all
  then obtain d ps where d: "add_all xmalloc c ss = Ok (d, ps)" "cache_ok hash_str (\<lambda>s. s) d" "\<not> case_insensitive d"
    using add_all_ok [OF assms(1) c(2) _ assms(4)] by blast
  have "\<forall>e\<in>set (entries d). strcache2_verify_entry d e = 0"
    using verify_ok [of d "\<lambda>s. s"] d(2,3) by simp
  moreover have "entry_count d = length (entries d)" "collision_count d = (\<Sum>chain\<leftarrow>hash_tab d. length chain - 1)"
    using d(2) by (auto simp: cache_ok_def entries_ok_def tab_ok_def collisions_def)
  ultimately show ?thesis using c(1) d(1) by auto
qed

theorem strcache2_verify_entry_ok_witness:
  "\<exists>cache ps. obind (strcache2_init bump 300 0 False False) (\<lambda>cache. add_all bump cache [(True, ''x'')]) = Ok (cache, ps)
    \<and> entry_count cache = length (entries cache)"
proof -
  have "list_all addable [(True, ''x'')]" by (simp add: addable_def)
  then show ?thesis using strcache2_verify_entry_ok [OF bump_ok, of 300 0 "[(True, ''x'')]"] by auto
qed

section \<open>Where interning fails\<close>

text \<open>
  A cached string that begins with a character outside ASCII is found through an aligned pointer,
  but not through an unaligned one.
\<close>

theorem strcache2_lookup_unaligned:
  assumes ok: "cache_ok hash_str (\<lambda>s. s) cache" and "\<not> case_insensitive cache" and "NUL \<notin> set s"
    and p: "cache_map (\<lambda>s. s) cache s = Some p"
    and s: "8 \<le> length s" "128 \<le> cord (peek s)" "cord (cget s 3) < 128"
  shows "strcache2_lookup cache True s (length s) = Ok (Some p) \<and> strcache2_lookup cache False s (length s) \<noteq> Ok (Some p)"
proof (rule conjI)
  show "strcache2_lookup cache True s (length s) = Ok (Some p)"
    using lookup_reads [OF ok assms(2) _ assms(3), of True] p by simp
  show "strcache2_lookup cache False s (length s) \<noteq> Ok (Some p)"
  proof
    assume "strcache2_lookup cache False s (length s) = Ok (Some p)"
    then obtain e where e: "STRCACHE2_MOD_IT cache (hash_str s) < length (hash_tab cache)"
      "find (\<lambda>e. strcache2_is_equal e False s (length s) (hash_str s)) (hash_tab cache ! STRCACHE2_MOD_IT cache (hash_str s)) = Some e"
      "entry_string e = p"
      by (auto simp: strcache2_lookup_def find_only_def lookup_entry_eq Let_def split: if_splits)
    have "e \<in> set (hash_tab cache ! STRCACHE2_MOD_IT cache (hash_str s))" and eq: "strcache2_is_equal e False s (length s) (hash_str s)"
      using e(2) by (auto simp: find_Some_iff)
    then have e_in: "e \<in> set (entries cache)" using nth_mem [OF e(1)] by auto
    obtain f where f: "f \<in> set (entries cache)" "entry_str f = s" "entry_string f = p"
      using p unfolding cache_map_def by (auto simp del: set_concat dest!: map_of_SomeD)
    have "distinct (map entry_addr (entries cache))" using ok by (simp add: cache_ok_def entries_ok_def entries_apart_def)
    then have "e = f" using e(3) f e_in by (auto simp: distinct_map entry_string_def simp del: set_concat dest: inj_onD)
    then show False
      using eq f(2) memcmp_inlined_sign [OF s] by (auto simp: strcache2_is_equal_def split: if_splits)
  qed
qed

theorem strcache2_lookup_unaligned_witness:
  "\<exists>cache p. strcache2_lookup cache True (CHR 0xC3 # CHR 0xA9 # ''t.text'') 8 = Ok (Some p)
    \<and> strcache2_lookup cache False (CHR 0xC3 # CHR 0xA9 # ''t.text'') 8 \<noteq> Ok (Some p)"
proof -
  let ?s = "CHR 0xC3 # CHR 0xA9 # ''t.text''"
  have l: "length ?s = 8" by simp
  obtain c where c: "cache_ok hash_str (\<lambda>s. s) c" "case_insensitive c = False" "entry_count c = 0"
    by (rule init_ok [OF bump_ok, of 1 0 False hash_str "\<lambda>s. s"]) simp_all
  have n: "NUL \<notin> set ?s" by simp
  obtain d p where d: "cache_ok hash_str (\<lambda>s. s) d" "\<not> case_insensitive d" "interns (cache_map (\<lambda>s. s) c) ?s (cache_map (\<lambda>s. s) d) p"
    by (rule add_interns [OF bump_ok c(1), of True ?s]) (use c(2,3) n in simp_all)
  have "cache_map (\<lambda>s. s) d ?s = Some p" using interns_mono [OF d(3)] by simp
  then have "strcache2_lookup d True ?s (length ?s) = Ok (Some p) \<and> strcache2_lookup d False ?s (length ?s) \<noteq> Ok (Some p)"
    using strcache2_lookup_unaligned [OF d(1,2) n] by (simp add: cord_def)
  then show ?thesis unfolding l by blast
qed

text \<open>A case-insensitive cache keeps the two cases of a string of one letter apart.\<close>

theorem strcache2_iadd_one_letter:
  assumes "malloc_ok xmalloc" and "isupper c"
  shows "\<exists>c0 c1 c2 p q. strcache2_init xmalloc 1 0 True False = Ok c0
    \<and> strcache2_iadd xmalloc c0 [c] 1 = Ok (c1, p) \<and> strcache2_iadd xmalloc c1 [tolower c] 1 = Ok (c2, q) \<and> p \<noteq> q"
proof -
  obtain c0 where c0: "strcache2_init xmalloc 1 0 True False = Ok c0" "cache_ok hash_istr ikey c0"
    "cache_map ikey c0 = Map.empty" "case_insensitive c0 = True" "entry_count c0 = 0"
    by (rule init_ok [OF assms(1), of 1 0 True hash_istr ikey]) simp_all
  have ne: "tolower c \<noteq> c" using assms(2) cord_tolower [of c] by (metis add_cancel_left_right zero_neq_numeral)
  have nul: "NUL \<notin> set [c]" "NUL \<notin> set [tolower c]"
  proof -
    have "cord NUL < cord c" "cord NUL < cord (tolower c)"
      using assms(2) cord_tolower [of c] by (auto simp: isupper_def cord_def [of NUL])
    then show "NUL \<notin> set [c]" "NUL \<notin> set [tolower c]" by auto
  qed
  obtain c1 p where c1: "strcache2_iadd xmalloc c0 [c] (length [c]) = Ok (c1, p)" "cache_ok hash_istr ikey c1"
    "interns (cache_map ikey c0) (ikey [c]) (cache_map ikey c1) p" "case_insensitive c1" "entry_count c1 \<le> entry_count c0 + 1"
    by (rule iadd_interns [OF assms(1) c0(2) _ nul(1)]) (use c0(4,5) in simp_all)
  obtain c2 q where c2: "strcache2_iadd xmalloc c1 [tolower c] (length [tolower c]) = Ok (c2, q)"
    "interns (cache_map ikey c1) (ikey [tolower c]) (cache_map ikey c2) q"
    by (rule iadd_interns [OF assms(1) c1(2,4) nul(2)]) (use c0(5) c1(5) in simp_all)
  have m: "cache_map ikey c1 = [[c] \<mapsto> p]" using c1(3) c0(3) by (simp add: interns_def ikey_def)
  have "q \<notin> ran (cache_map ikey c1)" using c2(2) m ne by (simp add: interns_def ikey_def)
  then show ?thesis using c0(1) c1(1) c2(1) m by auto
qed

theorem strcache2_iadd_one_letter_witness:
  "\<exists>c0 c1 c2 p q. strcache2_init bump 1 0 True False = Ok c0
    \<and> strcache2_iadd bump c0 ''A'' 1 = Ok (c1, p) \<and> strcache2_iadd bump c1 [tolower CHR ''A''] 1 = Ok (c2, q) \<and> p \<noteq> q"
  by (rule strcache2_iadd_one_letter [OF bump_ok]) (simp add: isupper_def cord_def)

end
