(* ===== verification/MakeText.thy ===== *)
theory MakeText
  imports CLib
begin

text \<open>
  The scanning routines of make: the character map of \<open>src/kmk/main.c\<close> and \<open>makeint.h\<close>, the token
  functions of \<open>src/kmk/misc.c\<close>, the quoting of stop characters of \<open>src/kmk/read.c\<close>, and the
  substitution functions at the head of \<open>src/kmk/function.c\<close>.

  A \<open>char const *\<close> into a string is the suffix it points to (theory \<open>CLib\<close>). The variable buffer
  is the text written to it so far: \<open>variable_buffer_output\<close> appends to it, and \<open>--o\<close> drops its last
  character. The macro \<open>HAVE_DOS_PATHS\<close> is a parameter of the definitions that test it.
\<close>

section \<open>The character map\<close>

datatype map_flag =
    MAP_NUL | MAP_BLANK | MAP_NEWLINE | MAP_COMMENT | MAP_SEMI | MAP_EQUALS | MAP_COLON | MAP_PERCENT
  | MAP_PIPE | MAP_DOT | MAP_COMMA | MAP_VARIABLE | MAP_DIRSEP | MAP_USERFUNC

definition MAP_SPACE :: "map_flag set" where
  "MAP_SPACE = {MAP_BLANK, MAP_NEWLINE}"

text \<open>The assignments of \<open>initialize_stopchar_map\<close> for one character, and the loop's addition to it.\<close>

definition stopchar_base :: "bool \<Rightarrow> char \<Rightarrow> map_flag set" where
  "stopchar_base HAVE_DOS_PATHS c =
     (if c = NUL then {MAP_NUL} else {}) \<union>
     (if c = CHR ''#'' then {MAP_COMMENT} else {}) \<union>
     (if c = CHR '';'' then {MAP_SEMI} else {}) \<union>
     (if c = CHR ''='' then {MAP_EQUALS} else {}) \<union>
     (if c = CHR '':'' then {MAP_COLON} else {}) \<union>
     (if c = CHR ''%'' then {MAP_PERCENT} else {}) \<union>
     (if c = CHR ''|'' then {MAP_PIPE} else {}) \<union>
     (if c = CHR ''.'' then {MAP_DOT, MAP_USERFUNC} else {}) \<union>
     (if c = CHR '','' then {MAP_COMMA} else {}) \<union>
     (if c = CHR ''$'' then {MAP_VARIABLE} else {}) \<union>
     (if c = CHR ''-'' \<or> c = CHR ''_'' then {MAP_USERFUNC} else {}) \<union>
     (if c = CHR '' '' \<or> c = CHR 0x09 then {MAP_BLANK} else {}) \<union>
     (if c = CHR ''/'' \<or> HAVE_DOS_PATHS \<and> c = CHR 0x5C then {MAP_DIRSEP} else {})"

definition stopchar_map :: "bool \<Rightarrow> char \<Rightarrow> map_flag set" where
  "stopchar_map dos c =
     (let m = stopchar_base dos c
      in if c = NUL then m
         else if isspace c \<and> MAP_BLANK \<notin> m then insert MAP_NEWLINE m
         else if isalpha c \<or> isdigit c then insert MAP_USERFUNC m
         else m)"

definition STOP_SET :: "bool \<Rightarrow> char \<Rightarrow> map_flag set \<Rightarrow> bool" where
  "STOP_SET dos c m \<longleftrightarrow> stopchar_map dos c \<inter> m \<noteq> {}"

lemma STOP_SET_union: "STOP_SET dos c (a \<union> b) \<longleftrightarrow> STOP_SET dos c a \<or> STOP_SET dos c b"
  by (auto simp: STOP_SET_def)

lemma STOP_SET_insert: "STOP_SET dos c (insert f m) \<longleftrightarrow> STOP_SET dos c {f} \<or> STOP_SET dos c m"
  by (auto simp: STOP_SET_def)

lemma STOP_SET_insert2 [simp]:
  "STOP_SET dos c (insert f (insert g m)) \<longleftrightarrow> STOP_SET dos c {f} \<or> STOP_SET dos c (insert g m)"
  by (auto simp: STOP_SET_def)

lemma STOP_SET_empty [simp]: "\<not> STOP_SET dos c {}"
  by (simp add: STOP_SET_def)

lemma in_single_if: "x \<in> (if b then {y} else {}) \<longleftrightarrow> b \<and> x = y"
  and in_double_if: "x \<in> (if b then {y, z} else {}) \<longleftrightarrow> b \<and> (x = y \<or> x = z)"
  by simp_all

lemma in_stopchar_base:
  "f \<in> stopchar_base dos c \<longleftrightarrow>
     c = NUL \<and> f = MAP_NUL \<or> c = CHR ''#'' \<and> f = MAP_COMMENT \<or> c = CHR '';'' \<and> f = MAP_SEMI
     \<or> c = CHR ''='' \<and> f = MAP_EQUALS \<or> c = CHR '':'' \<and> f = MAP_COLON \<or> c = CHR ''%'' \<and> f = MAP_PERCENT
     \<or> c = CHR ''|'' \<and> f = MAP_PIPE \<or> c = CHR ''.'' \<and> (f = MAP_DOT \<or> f = MAP_USERFUNC)
     \<or> c = CHR '','' \<and> f = MAP_COMMA \<or> c = CHR ''$'' \<and> f = MAP_VARIABLE
     \<or> (c = CHR ''-'' \<or> c = CHR ''_'') \<and> f = MAP_USERFUNC
     \<or> (c = CHR '' '' \<or> c = CHR 0x09) \<and> f = MAP_BLANK
     \<or> (c = CHR ''/'' \<or> dos \<and> c = CHR 0x5C) \<and> f = MAP_DIRSEP"
  by (simp only: stopchar_base_def Un_iff in_single_if in_double_if disj_assoc)

lemma in_stopchar_map:
  "f \<in> stopchar_map dos c \<longleftrightarrow> f \<in> stopchar_base dos c
     \<or> c \<noteq> NUL \<and> isspace c \<and> MAP_BLANK \<notin> stopchar_base dos c \<and> f = MAP_NEWLINE
     \<or> c \<noteq> NUL \<and> \<not> (isspace c \<and> MAP_BLANK \<notin> stopchar_base dos c) \<and> (isalpha c \<or> isdigit c) \<and> f = MAP_USERFUNC"
  by (auto simp: stopchar_map_def Let_def)

lemma STOP_SET_single: "STOP_SET dos c {f} \<longleftrightarrow> f \<in> stopchar_map dos c"
  by (auto simp: STOP_SET_def)

lemma STOP_SET_NUL [simp]: "STOP_SET dos c {MAP_NUL} \<longleftrightarrow> c = NUL"
  and STOP_SET_BLANK [simp]: "STOP_SET dos c {MAP_BLANK} \<longleftrightarrow> ISBLANK c"
  and STOP_SET_DIRSEP [simp]: "STOP_SET dos c {MAP_DIRSEP} \<longleftrightarrow> c = CHR ''/'' \<or> dos \<and> c = CHR 0x5C"
  and STOP_SET_DOT [simp]: "STOP_SET dos c {MAP_DOT} \<longleftrightarrow> c = CHR ''.''"
  and STOP_SET_PERCENT [simp]: "STOP_SET dos c {MAP_PERCENT} \<longleftrightarrow> c = CHR ''%''"
  and STOP_SET_VARIABLE [simp]: "STOP_SET dos c {MAP_VARIABLE} \<longleftrightarrow> c = CHR ''$''"
  by (simp_all add: STOP_SET_single in_stopchar_map in_stopchar_base ISBLANK_def)

lemma STOP_SET_NEWLINE: "STOP_SET dos c {MAP_NEWLINE} \<longleftrightarrow> c \<noteq> NUL \<and> isspace c \<and> \<not> ISBLANK c"
  by (simp add: STOP_SET_single in_stopchar_map in_stopchar_base ISBLANK_def)

lemma not_ISBLANK_NUL [simp]: "\<not> ISBLANK NUL" and not_ISSPACE_NUL [simp]: "\<not> ISSPACE NUL"
  by (simp_all add: ISBLANK_def ISSPACE_def isspace_def cord_def)

lemma STOP_SET_SPACE [simp]: "STOP_SET dos c MAP_SPACE \<longleftrightarrow> ISSPACE c"
proof -
  have "ISBLANK c \<Longrightarrow> isspace c"
    by (auto simp: ISBLANK_def isspace_def cord_def)
  moreover have "\<not> isspace NUL" by (simp add: isspace_def cord_def)
  ultimately show ?thesis
    unfolding MAP_SPACE_def by (subst STOP_SET_insert) (auto simp: ISSPACE_def STOP_SET_NEWLINE)
qed

section \<open>Tokens\<close>

text \<open>\<open>NEXT_TOKEN\<close> and \<open>END_OF_TOKEN\<close>, the bodies of \<open>next_token\<close> and \<open>end_of_token\<close>.\<close>

fun next_token :: "string \<Rightarrow> string" where
  "next_token [] = []"
| "next_token (c # s) = (if ISSPACE c then next_token s else c # s)"

fun end_of_token :: "string \<Rightarrow> string" where
  "end_of_token [] = []"
| "end_of_token (c # s) =
     (if \<not> STOP_SET False c (MAP_SPACE \<union> {MAP_NUL}) then end_of_token s else c # s)"

lemma STOP_SET_SPACE_NUL [simp]: "STOP_SET dos c (insert MAP_NUL MAP_SPACE) \<longleftrightarrow> ISSPACE c \<or> c = NUL"
  by (subst STOP_SET_insert) auto

lemma next_token_dropWhile: "next_token s = dropWhile ISSPACE s"
  by (induction s) auto

lemma end_of_token_dropWhile: "end_of_token s = dropWhile (\<lambda>c. \<not> ISSPACE c \<and> c \<noteq> NUL) s"
  by (induction s) auto

lemma length_next_token: "length (next_token s) \<le> length s"
  by (simp add: next_token_dropWhile length_dropWhile_le)

lemma length_end_of_token: "length (end_of_token s) \<le> length s"
  by (simp add: end_of_token_dropWhile length_dropWhile_le)

definition MY_IS_BLANK :: "char \<Rightarrow> bool" where
  "MY_IS_BLANK ch = ISBLANK ch"

definition MY_IS_BLANK_OR_EOS :: "char \<Rightarrow> bool" where
  "MY_IS_BLANK_OR_EOS ch \<longleftrightarrow> ISBLANK ch \<or> ch = NUL"

lemma blank_not_Nil: "MY_IS_BLANK (peek p) \<Longrightarrow> p \<noteq> []"
  and word_not_Nil: "\<not> MY_IS_BLANK_OR_EOS (peek p) \<Longrightarrow> p \<noteq> []"
  by (auto simp: MY_IS_BLANK_def MY_IS_BLANK_OR_EOS_def)

text \<open>The two loops of \<open>find_next_token\<close> look at four characters a round.\<close>

function skip_blanks4 :: "string \<Rightarrow> string option" where
  "skip_blanks4 p =
     (if \<not> MY_IS_BLANK (peek p) then (if peek p = NUL then None else Some p)
      else if \<not> MY_IS_BLANK (cget p 1) then (if cget p 1 = NUL then None else Some (drop 1 p))
      else if \<not> MY_IS_BLANK (cget p 2) then (if cget p 2 = NUL then None else Some (drop 2 p))
      else if \<not> MY_IS_BLANK (cget p 3) then (if cget p 3 = NUL then None else Some (drop 3 p))
      else skip_blanks4 (drop 4 p))"
  by auto
termination by (relation "measure length") (auto dest: blank_not_Nil)

declare skip_blanks4.simps [simp del]

function skip_word4 :: "string \<Rightarrow> string" where
  "skip_word4 e =
     (if MY_IS_BLANK_OR_EOS (peek e) then e
      else if MY_IS_BLANK_OR_EOS (cget e 1) then drop 1 e
      else if MY_IS_BLANK_OR_EOS (cget e 2) then drop 2 e
      else if MY_IS_BLANK_OR_EOS (cget e 3) then drop 3 e
      else skip_word4 (drop 4 e))"
  by auto
termination by (relation "measure length") (auto dest: word_not_Nil)

declare skip_word4.simps [simp del]

text \<open>\<open>find_next_token\<close> returns the token's suffix, its length and the new \<open>*ptr\<close>.\<close>

definition find_next_token :: "string \<Rightarrow> (string \<times> nat \<times> string) option" where
  "find_next_token ptr =
     (case skip_blanks4 ptr of
        None \<Rightarrow> None
      | Some p \<Rightarrow>
          let e = skip_word4 (drop 1 p)
          in Some (p, length p - length e, e))"

lemma length_skip_blanks4: "skip_blanks4 p = Some q \<Longrightarrow> q \<noteq> [] \<and> length q \<le> length p"
proof (induction p rule: skip_blanks4.induct)
  case (1 p)
  show ?case
  proof (cases "MY_IS_BLANK (peek p) \<and> MY_IS_BLANK (cget p 1) \<and> MY_IS_BLANK (cget p 2) \<and> MY_IS_BLANK (cget p 3)")
    case True
    then have "skip_blanks4 (drop 4 p) = Some q" using "1.prems" by (subst (asm) skip_blanks4.simps) simp
    then show ?thesis using "1.IH" True by fastforce
  next
    case False
    have nz: "cget p n \<noteq> NUL \<Longrightarrow> n < length p" for n by (simp add: cget_def split: if_splits)
    show ?thesis
      using "1.prems" False nz [of 0] nz [of 1] nz [of 2] nz [of 3]
      by (subst (asm) skip_blanks4.simps) (auto split: if_splits)
  qed
qed

lemma length_skip_word4: "length (skip_word4 e) \<le> length e"
proof (induction e rule: skip_word4.induct)
  case (1 e)
  then show ?case by (subst skip_word4.simps) (simp split: if_split, linarith)
qed

lemma find_next_token_shorter: "find_next_token ptr = Some (p, n, ptr') \<Longrightarrow> length ptr' < length ptr"
proof -
  assume *: "find_next_token ptr = Some (p, n, ptr')"
  then have p: "skip_blanks4 ptr = Some p" and e: "ptr' = skip_word4 (drop 1 p)"
    by (auto simp: find_next_token_def Let_def split: option.splits)
  have "p \<noteq> [] \<and> length p \<le> length ptr" using p by (rule length_skip_blanks4)
  then show ?thesis
    unfolding e using length_skip_word4 [of "drop 1 p"] by (cases p) auto
qed

text \<open>The unrolled loops are the plain ones.\<close>

declare dropWhile_eq_Nil_conv [simp del]

definition nonblank :: "char \<Rightarrow> bool" where
  "nonblank c \<longleftrightarrow> \<not> ISBLANK c"

lemma dropWhile_ISBLANK_Cons: "dropWhile ISBLANK s = c # q \<Longrightarrow> nonblank c"
  by (simp add: dropWhile_eq_Cons_conv nonblank_def)

lemma take4_cases:
  obtains "p = []" | a where "p = [a]" | a b where "p = [a, b]" | a b c where "p = [a, b, c]"
  | a b c d q where "p = a # b # c # d # q"
  by (metis list.exhaust)

lemma skip_blanks4_eq: "skip_blanks4 p = (let q = dropWhile ISBLANK p in if peek q = NUL then None else Some q)"
proof (induction p rule: skip_blanks4.induct)
  case (1 p)
  show ?case
    by (cases p rule: take4_cases; subst skip_blanks4.simps) (use 1 in \<open>auto simp: MY_IS_BLANK_def Let_def\<close>)
qed

lemma skip_word4_eq: "skip_word4 e = dropWhile (\<lambda>c. \<not> ISBLANK c \<and> c \<noteq> NUL) e"
proof (induction e rule: skip_word4.induct)
  case (1 e)
  show ?case
    by (cases e rule: take4_cases; subst skip_word4.simps) (use 1 in \<open>auto simp: MY_IS_BLANK_OR_EOS_def\<close>)
qed

lemma dropWhile_nonblank_rest: "dropWhile nonblank p = [] \<or> ISBLANK (peek (dropWhile nonblank p))"
  by (induction p) (auto simp: nonblank_def)

lemma dropWhile_no_NUL:
  "NUL \<notin> set s \<Longrightarrow> dropWhile (\<lambda>c. \<not> ISBLANK c \<and> c \<noteq> NUL) s = dropWhile nonblank s"
  "NUL \<notin> set s \<Longrightarrow> takeWhile (\<lambda>c. \<not> ISBLANK c \<and> c \<noteq> NUL) s = takeWhile nonblank s"
  by (induction s) (auto simp: nonblank_def)

lemma find_next_token_eq:
  assumes "NUL \<notin> set ptr"
  shows "find_next_token ptr =
    (let p = dropWhile ISBLANK ptr
     in if p = [] then None else Some (p, length (takeWhile nonblank p), dropWhile nonblank p))"
proof -
  let ?p = "dropWhile ISBLANK ptr"
  have nz: "NUL \<notin> set ?p" using assms by (meson set_dropWhileD)
  show ?thesis
  proof (cases ?p)
    case Nil
    then show ?thesis by (simp add: find_next_token_def skip_blanks4_eq)
  next
    case (Cons c q)
    have "\<not> ISBLANK c" using Cons by (simp add: dropWhile_eq_Cons_conv)
    moreover have "c \<noteq> NUL" and q: "NUL \<notin> set q" using nz Cons by auto
    moreover have "length q = length (takeWhile nonblank q) + length (dropWhile nonblank q)"
      by (metis length_append takeWhile_dropWhile_id)
    ultimately show ?thesis
      using Cons by (simp add: find_next_token_def skip_blanks4_eq skip_word4_eq dropWhile_no_NUL Let_def nonblank_def)
  qed
qed

text \<open>The words of a string, the reference the word functions are measured by.\<close>

function words_of :: "string \<Rightarrow> string list" where
  "words_of s =
     (let p = dropWhile ISBLANK s
      in if p = [] then [] else takeWhile nonblank p # words_of (dropWhile nonblank p))"
  by auto
termination
proof (relation "measure length")
  fix s p :: string
  assume p: "p = dropWhile ISBLANK s" "p \<noteq> []"
  then obtain c q where "p = c # q" by (meson neq_Nil_conv)
  moreover have "nonblank c" using p(1) \<open>p = c # q\<close> dropWhile_ISBLANK_Cons [of s c q] by simp
  ultimately have "dropWhile nonblank p = dropWhile nonblank (tl p)" by (simp only: dropWhile.simps if_True list.sel)
  also have "length \<dots> \<le> length (tl p)" by (rule length_dropWhile_le)
  also have "\<dots> < length p" using p by simp
  also have "\<dots> \<le> length s" unfolding p by (rule length_dropWhile_le)
  finally show "(dropWhile nonblank p, s) \<in> measure length" by simp
qed simp

declare words_of.simps [simp del]

lemma words_of_Nil [simp]: "words_of [] = []"
  by (simp add: words_of.simps)

lemma words_of_blank [simp]: "ISBLANK c \<Longrightarrow> words_of (c # s) = words_of s"
  by (subst (1 2) words_of.simps) simp

definition is_word :: "string \<Rightarrow> bool" where
  "is_word w \<longleftrightarrow> w \<noteq> [] \<and> (\<forall>c\<in>set w. nonblank c)"

lemma takeWhile_nonblank_append: "\<forall>c\<in>set w. nonblank c \<Longrightarrow> takeWhile nonblank (w @ s) = w @ takeWhile nonblank s"
  and dropWhile_nonblank_append: "\<forall>c\<in>set w. nonblank c \<Longrightarrow> dropWhile nonblank (w @ s) = dropWhile nonblank s"
  by (induction w) auto

lemma words_of_word:
  assumes "is_word w" and "s = [] \<or> ISBLANK (peek s)"
  shows "words_of (w @ s) = w # words_of s"
proof -
  have "dropWhile ISBLANK (w @ s) = w @ s"
    using assms(1) by (cases w) (auto simp: is_word_def nonblank_def)
  moreover have "takeWhile nonblank s = []" "dropWhile nonblank s = s"
    using assms(2) by (cases s; simp add: nonblank_def)+
  ultimately show ?thesis
    using assms(1) by (subst words_of.simps) (simp add: is_word_def takeWhile_nonblank_append dropWhile_nonblank_append)
qed

lemma is_word_words_of: "w \<in> set (words_of s) \<Longrightarrow> is_word w"
proof (induction s rule: words_of.induct)
  case (1 s)
  let ?p = "dropWhile ISBLANK s"
  have "?p \<noteq> []" using "1.prems" by (subst (asm) words_of.simps) (auto simp: Let_def split: if_splits)
  then obtain c q where p: "?p = c # q" "nonblank c"
    using dropWhile_ISBLANK_Cons by (cases ?p) auto
  have "w = takeWhile nonblank ?p \<or> w \<in> set (words_of (dropWhile nonblank ?p))"
    using "1.prems" \<open>?p \<noteq> []\<close> by (subst (asm) words_of.simps) (auto simp: Let_def)
  then show ?case
  proof
    assume "w = takeWhile nonblank ?p"
    then show ?thesis using p by (auto simp: is_word_def dest: set_takeWhileD)
  next
    assume "w \<in> set (words_of (dropWhile nonblank ?p))"
    then show ?thesis using "1.IH" \<open>?p \<noteq> []\<close> by simp
  qed
qed

text \<open>
  \<open>find_end_of_variable_expansion\<close>: \<open>s\<close> is behind \<open>$(\<close>, and the text ends at \<open>eos\<close>, the end of the
  list, or at a null character.
\<close>

fun end_of_expansion :: "char \<Rightarrow> char \<Rightarrow> int \<Rightarrow> string \<Rightarrow> string" where
  "end_of_expansion openparen closeparen levels [] = []"
| "end_of_expansion openparen closeparen levels (ch # s) =
     (if ch \<noteq> NUL then
        if ch \<noteq> closeparen then
          end_of_expansion openparen closeparen (if ch \<noteq> openparen then levels else levels + 1) s
        else if levels \<le> 1 then ch # s
        else end_of_expansion openparen closeparen (levels - 1) s
      else ch # s)"

definition find_end_of_variable_expansion :: "string \<Rightarrow> (unit, string) outcome" where
  "find_end_of_variable_expansion s =
     (if peek s \<noteq> CHR ''$'' \<or> \<not> (cget s 1 = CHR ''('' \<or> cget s 1 = CHR ''{'') then Undef AssertFailed
      else Ok (end_of_expansion (cget s 1) (if cget s 1 = CHR ''('' then CHR '')'' else CHR ''}'') 0 (drop 2 s)))"

text \<open>
  \<open>find_next_token_eos\<close> on the text up to \<open>eos\<close>; \<open>at_eos\<close> is the character there, which is read
  behind a dollar sign that is the last character. A walk past \<open>eos\<close> does not end there any more.
\<close>

fun skip_blanks_eos :: "string \<Rightarrow> string option" where
  "skip_blanks_eos [] = None"
| "skip_blanks_eos (ch # p) =
     (if STOP_SET False ch {MAP_BLANK} then skip_blanks_eos p
      else if \<not> STOP_SET False ch {MAP_NUL} then Some (ch # p)
      else None)"

lemma length_end_of_expansion: "length (end_of_expansion a b l s) \<le> length s"
  by (induction a b l s rule: end_of_expansion.induct) auto

lemma find_end_of_variable_expansion_shorter:
  "find_end_of_variable_expansion (ch # e) = Ok e' \<Longrightarrow> length e' \<le> length e"
proof -
  assume "find_end_of_variable_expansion (ch # e) = Ok e'"
  then obtain a b where "e' = end_of_expansion a b 0 (drop 2 (ch # e))"
    unfolding find_end_of_variable_expansion_def by (metis outcome.distinct(3) outcome.inject(1))
  then have "length e' \<le> length (drop 2 (ch # e))" by (simp only: length_end_of_expansion)
  then show ?thesis by simp
qed

function skip_word_eos :: "char \<Rightarrow> string \<Rightarrow> (unit, string) outcome" where
  "skip_word_eos at_eos [] = Ok []"
| "skip_word_eos at_eos (ch # e) =
     (if \<not> STOP_SET False ch {MAP_NUL, MAP_BLANK, MAP_VARIABLE} then skip_word_eos at_eos e
      else if STOP_SET False ch {MAP_VARIABLE} then
        (if length e \<noteq> 1 then
           (let ch2 = (if e = [] then at_eos else peek e)
            in if ch2 = ch then (if e = [] then Undef OutOfBounds else skip_word_eos at_eos (tl e))
               else if ch = CHR ''('' \<or> ch = CHR ''}'' then
                 (case find_end_of_variable_expansion (ch # e) of
                    Ok e' \<Rightarrow> skip_word_eos at_eos e'
                  | Fatal x \<Rightarrow> Fatal x
                  | Undef u \<Rightarrow> Undef u)
               else skip_word_eos at_eos e)
         else Ok e)
      else Ok (ch # e))"
  by pat_completeness auto
termination
proof (relation "measure (length \<circ> snd)")
  fix at_eos ch e e'
  assume "find_end_of_variable_expansion (ch # e) = Ok e'"
  then have "length e' \<le> length e" by (rule find_end_of_variable_expansion_shorter)
  then show "((at_eos, e'), at_eos, ch # e) \<in> measure (length \<circ> snd)" by simp
qed simp_all

definition find_next_token_eos :: "char \<Rightarrow> string \<Rightarrow> (unit, (string \<times> nat \<times> string) option) outcome" where
  "find_next_token_eos at_eos ptr =
     (case skip_blanks_eos ptr of
        None \<Rightarrow> Ok None
      | Some p \<Rightarrow> obind (skip_word_eos at_eos p) (\<lambda>e. Ok (Some (p, length p - length e, e))))"

end
