(* ===== verification/MakeSubst.thy ===== *)
theory MakeSubst
  imports MakeText
begin

text \<open>
  Quoting of stop characters (\<open>find_char_unquote\<close> and its kin of \<open>src/kmk/read.c\<close>), matching against
  patterns with a percent sign and the substitution functions of \<open>src/kmk/function.c\<close>.

  The quoting functions compact their string in place. A position is the part \<open>pre\<close> of the string
  before it and the rest; the functions return the string and the offset of the stop character.
\<close>

section \<open>Finding unquoted characters\<close>

definition backslashes :: "string \<Rightarrow> nat" where
  "backslashes pre = length (takeWhile (\<lambda>c. c = CHR 0x5C) (rev pre))"

text \<open>The \<open>memmove\<close>: of \<open>n\<close> backslashes before the position, \<open>n div 2\<close> stay.\<close>

definition swallow :: "string \<Rightarrow> string" where
  "swallow pre = take (length pre - (backslashes pre - backslashes pre div 2)) pre"

text \<open>
  The skipping of the contents of a variable reference; it returns the skipped text, with the
  closing parenthesis, and the rest.
\<close>

fun skip_reference :: "char \<Rightarrow> char \<Rightarrow> nat \<Rightarrow> string \<Rightarrow> string \<times> string" where
  "skip_reference openparen closeparen pcount [] = ([], [])"
| "skip_reference openparen closeparen pcount (ch # p) =
     (if ch = NUL then ([], ch # p)
      else if ch = openparen then
        (let (a, b) = skip_reference openparen closeparen (pcount + 1) p in (ch # a, b))
      else if ch = closeparen then
        (if pcount - 1 = 0 then ([ch], p)
         else (let (a, b) = skip_reference openparen closeparen (pcount - 1) p in (ch # a, b)))
      else (let (a, b) = skip_reference openparen closeparen pcount p in (ch # a, b)))"

lemma skip_reference_append: "skip_reference a b n p = (x, y) \<Longrightarrow> p = x @ y"
  by (induction a b n p arbitrary: x y rule: skip_reference.induct)
    (auto split: if_splits prod.splits)

lemma length_skip_reference: "length (snd (skip_reference a b n p)) \<le> length p"
  using skip_reference_append [of a b n p] by (cases "skip_reference a b n p") auto

function unquote_loop :: "bool \<Rightarrow> map_flag set \<Rightarrow> string \<Rightarrow> string \<Rightarrow> string \<times> nat option" where
  "unquote_loop dos mp pre [] = (pre, None)"
| "unquote_loop dos mp pre (c # p) =
     (if \<not> STOP_SET dos c mp then unquote_loop dos mp (pre @ [c]) p
      else if c = NUL then (pre @ c # p, None)
      else if STOP_SET dos c {MAP_VARIABLE} then
        (if peek p = NUL then (pre @ c # p, None)
         else
           (let openparen = peek p;
                (skipped, rest) =
                  (if openparen = CHR ''('' \<or> openparen = CHR ''{'' then
                     skip_reference openparen (if openparen = CHR ''('' then CHR '')'' else CHR ''}'') 1 (tl p)
                   else ([], tl p))
            in unquote_loop dos mp (pre @ [c, openparen] @ skipped) rest))
      else if backslashes pre \<noteq> 0 then
        (if even (backslashes pre) then (swallow pre @ c # p, Some (length (swallow pre)))
         else unquote_loop dos mp (swallow pre @ [c]) p)
      else (pre @ c # p, Some (length pre)))"
  by pat_completeness auto
termination
proof (relation "measure (\<lambda>(_, _, _, p). length p)")
  fix dos mp pre c p openparen and x :: "string \<times> string" and skipped rest
  assume p: "peek p \<noteq> NUL" and "openparen = peek p"
    and x: "x = (if openparen = CHR ''('' \<or> openparen = CHR ''{'' then
      skip_reference openparen (if openparen = CHR ''('' then CHR '')'' else CHR ''}'') 1 (tl p) else ([], tl p))"
    and "(skipped, rest) = x"
  then have "rest = snd x" by (metis snd_conv)
  then have "length rest \<le> length (tl p)"
    unfolding x by (cases "openparen = CHR ''('' \<or> openparen = CHR ''{''")
      (simp_all only: if_True if_False length_skip_reference snd_conv order_refl)
  then show "((dos, mp, pre @ [c, openparen] @ skipped, rest), dos, mp, pre, c # p)
      \<in> measure (\<lambda>(_, _, _, p). length p)" by simp
qed simp_all

definition find_char_unquote :: "bool \<Rightarrow> string \<Rightarrow> map_flag set \<Rightarrow> string \<times> nat option" where
  "find_char_unquote dos s mp = unquote_loop dos (insert MAP_NUL mp) [] s"

text \<open>
  \<open>find_char_unquote_0\<close> also returns \<open>*eosp\<close> as an offset; \<open>memchr\<close> may give null there.
\<close>

fun memchr :: "string \<Rightarrow> char \<Rightarrow> nat option" where
  "memchr [] c = None"
| "memchr (x # s) c = (if x = c then Some 0 else map_option Suc (memchr s c))"

definition find_char_unquote_0 :: "bool \<Rightarrow> string \<Rightarrow> char \<Rightarrow> map_flag set
    \<Rightarrow> (unit, string \<times> nat option \<times> nat option) outcome" where
  "find_char_unquote_0 dos s stop1 mp =
     (if MAP_VARIABLE \<in> mp \<or> mp = {} \<or> \<not> mp \<subseteq> stopchar_map dos stop1 then Undef AssertFailed
      else case memchr s stop1 of
        None \<Rightarrow> Ok (s, None, Some (length s))
      | Some p \<Rightarrow>
          if p = 0 \<or> s ! (p - 1) \<noteq> CHR 0x5C then Ok (s, Some p, Some (length s))
          else
            (let (s', r) = find_char_unquote dos s mp
             in Ok (s', r, if length s' < length s then Some (length s') else None)))"

definition find_percent :: "string \<Rightarrow> (unit, string \<times> nat option) outcome" where
  "find_percent pattern =
     obind (find_char_unquote_0 False pattern CHR ''%'' {MAP_PERCENT}) (\<lambda>(s, p, eos). Ok (s, p))"

text \<open>
  \<open>find_percent_cached\<close> works on a copy, which goes into the string cache when it was changed. The
  cache stores equal strings once, so the string returned is all that matters.
\<close>

fun percent_loop :: "string \<Rightarrow> string \<Rightarrow> string \<times> nat option" where
  "percent_loop pre [] = (pre, None)"
| "percent_loop pre (c # p) =
     (if \<not> STOP_SET False c {MAP_PERCENT, MAP_NUL} then percent_loop (pre @ [c]) p
      else if c = NUL then (pre @ c # p, None)
      else if last pre \<noteq> CHR 0x5C then (pre @ c # p, Some (length pre))
      else if even (backslashes pre) then (swallow pre @ c # p, Some (length (swallow pre)))
      else percent_loop (swallow pre @ [c]) p)"

definition find_percent_cached :: "string \<Rightarrow> string \<times> nat option" where
  "find_percent_cached s =
     (if peek s = CHR ''%'' then (s, Some 0) else percent_loop [] s)"

section \<open>Patterns\<close>

fun strneq :: "string \<Rightarrow> string \<Rightarrow> nat \<Rightarrow> bool" where
  "strneq a b 0 = True"
| "strneq a b (Suc n) = (peek a = peek b \<and> (peek a = NUL \<or> strneq (tl a) (tl b) n))"

definition pattern_matches :: "string \<Rightarrow> nat option \<Rightarrow> string \<Rightarrow> (unit, bool) outcome" where
  "pattern_matches pattern percent str =
     obind
       (case percent of
          None \<Rightarrow> find_percent pattern
        | Some n \<Rightarrow> Ok (pattern, Some n))
       (\<lambda>(pattern, percent). case percent of
          None \<Rightarrow> Ok (pattern = str)
        | Some n \<Rightarrow>
            let sfx = drop (Suc n) pattern;
                sfxlen = length sfx;
                strlength = length str
            in if strlength < n + sfxlen \<or> \<not> strneq pattern str n then Ok False
               else Ok (strcmp sfx (drop (strlength - sfxlen) str) = 0))"

definition pattern_matches_ex :: "string \<Rightarrow> nat \<Rightarrow> nat \<Rightarrow> string \<Rightarrow> nat \<Rightarrow> bool" where
  "pattern_matches_ex pattern percent sfxlen str strlength =
     (if strlength < percent + sfxlen
         \<or> \<not> strneq pattern str percent
         \<or> strcmp (drop (Suc percent) pattern) (drop (strlength - sfxlen) str) \<noteq> 0
      then False else True)"

section \<open>Substitution\<close>

definition variable_buffer_output :: "string \<Rightarrow> string \<Rightarrow> nat \<Rightarrow> string" where
  "variable_buffer_output ptr s len = ptr @ take len s"

fun strstr :: "string \<Rightarrow> string \<Rightarrow> string option" where
  "strstr t s =
     (if take (length s) t = s then Some t
      else case t of [] \<Rightarrow> None | _ # t' \<Rightarrow> strstr t' s)"

declare strstr.simps [simp del]

lemma length_strstr: "strstr t s = Some p \<Longrightarrow> length p \<le> length t"
proof (induction t)
  case Nil
  then show ?case by (simp add: strstr.simps split: if_splits)
next
  case (Cons c t)
  then show ?case by (subst (asm) (2) strstr.simps) (auto split: if_splits)
qed

text \<open>
  The loop of \<open>subst_expand\<close>; \<open>t\<close> and the match \<open>p\<close> are suffixes of \<open>txt\<close>.
\<close>

definition match_at :: "string \<Rightarrow> string \<Rightarrow> nat \<Rightarrow> bool \<Rightarrow> string option" where
  "match_at t subst slen by_word =
     (if by_word \<and> slen = 0 then Some (end_of_token (next_token t)) else strstr t subst)"

lemma length_match_at: "match_at t subst slen by_word = Some p \<Longrightarrow> length p \<le> length t"
  using length_end_of_token [of "next_token t"] length_next_token [of t]
  by (auto simp: match_at_def dest: length_strstr split: if_splits)

definition struck_out :: "string \<Rightarrow> string \<Rightarrow> nat \<Rightarrow> bool \<Rightarrow> bool" where
  "struck_out txt p slen by_word \<longleftrightarrow>
     by_word \<and> (length p < length txt \<and> \<not> ISSPACE (txt ! (length txt - length p - 1))
                \<or> \<not> STOP_SET False (cget p slen) (MAP_SPACE \<union> {MAP_NUL}))"

lemma shrinks_by_word:
  assumes "peek (end_of_token (next_token t)) \<noteq> NUL"
  shows "length (end_of_token (next_token t)) < length t"
proof (cases t)
  case Nil
  then show ?thesis using assms by simp
next
  case (Cons c s)
  show ?thesis
  proof (cases "ISSPACE c")
    case True
    then show ?thesis
      using Cons length_end_of_token [of "next_token s"] length_next_token [of s] by simp
  next
    case False
    have "c \<noteq> NUL" using assms False Cons by auto
    then show ?thesis using Cons False length_end_of_token [of s] by simp
  qed
qed

lemma shrinks_match_at:
  assumes "match_at t subst slen by_word = Some p" and "slen \<noteq> 0 \<or> by_word" and "peek (drop slen p) \<noteq> NUL"
  shows "length (drop slen p) < length t"
proof (cases "slen = 0")
  case True
  then show ?thesis using assms shrinks_by_word by (auto simp: match_at_def)
next
  case False
  have "drop slen p \<noteq> []" using assms(3) by auto
  then show ?thesis using length_match_at [OF assms(1)] False by simp
qed

text \<open>The loop is entered with \<open>slen \<noteq> 0 \<or> by_word\<close> only; the test of \<open>subst_expand\<close> sees to it.\<close>

function subst_loop :: "string \<Rightarrow> string \<Rightarrow> string \<Rightarrow> nat \<Rightarrow> nat \<Rightarrow> bool \<Rightarrow> string \<Rightarrow> string \<Rightarrow> string" where
  "subst_loop txt subst replace slen rlen by_word o1 t =
     (if slen = 0 \<and> \<not> by_word then o1
      else case match_at t subst slen by_word of
        None \<Rightarrow> variable_buffer_output o1 t (length t)
      | Some p \<Rightarrow>
          let o2 = (if length p < length t then variable_buffer_output o1 t (length t - length p) else o1);
              o3 = (if struck_out txt p slen by_word then variable_buffer_output o2 subst slen
                    else if rlen > 0 then variable_buffer_output o2 replace rlen
                    else o2);
              t' = drop slen p
          in if peek t' \<noteq> NUL then subst_loop txt subst replace slen rlen by_word o3 t' else o3)"
  by auto
termination
  by (relation "measure (\<lambda>(_, _, _, _, _, _, _, t). length t)") (use shrinks_match_at in auto)

declare subst_loop.simps [simp del]

definition subst_expand :: "string \<Rightarrow> string \<Rightarrow> string \<Rightarrow> string \<Rightarrow> nat \<Rightarrow> nat \<Rightarrow> bool \<Rightarrow> string" where
  "subst_expand o1 txt subst replace slen rlen by_word =
     (if slen = 0 \<and> \<not> by_word then
        (let o2 = variable_buffer_output o1 txt (length txt)
         in if rlen > 0 then variable_buffer_output o2 replace rlen else o2)
      else subst_loop txt subst replace slen rlen by_word o1 txt)"

section \<open>Pattern substitution\<close>

text \<open>
  \<open>while ((t = find_next_token (&text, &len)) != 0)\<close>: the body gets the token's suffix and its
  length.
\<close>

function token_loop :: "('s \<Rightarrow> string \<Rightarrow> nat \<Rightarrow> 's) \<Rightarrow> 's \<Rightarrow> string \<Rightarrow> 's" where
  "token_loop body s ptr =
     (case find_next_token ptr of
        None \<Rightarrow> s
      | Some (p, len, ptr') \<Rightarrow> token_loop body (body s p len) ptr')"
  by auto
termination
  by (relation "measure (\<lambda>(_, _, ptr). length ptr)") (auto dest: find_next_token_shorter)

declare token_loop.simps [simp del]

text \<open>
  \<open>pattern_percent\<close> and \<open>replace_percent\<close> are offsets of the character after the percent sign. The
  function \<open>fail\<close> collects the three tests of the loop body.
\<close>

definition patsubst_fail :: "string \<Rightarrow> nat \<Rightarrow> nat \<Rightarrow> nat \<Rightarrow> string \<Rightarrow> nat \<Rightarrow> bool" where
  "patsubst_fail pattern pattern_percent pre post t len =
     (let fail1 = (len < pre + post);
          fail2 = (if \<not> fail1 \<and> pre > 0
                      \<and> (peek t \<noteq> peek pattern
                         \<or> cget t (pre - 1) \<noteq> cget pattern (pattern_percent - 2)
                         \<or> \<not> strneq (drop 1 t) (drop 1 pattern) (pre - 1)) then True else fail1)
      in if \<not> fail2 \<and> post > 0
            \<and> (cget t (len - 1) \<noteq> cget pattern (pattern_percent + (post - 1))
               \<or> cget t (len - post) \<noteq> cget pattern pattern_percent
               \<or> \<not> strneq (drop (len - post) t) (drop pattern_percent pattern) (post - 1)) then True else fail2)"

definition patsubst_body :: "string \<Rightarrow> string \<Rightarrow> nat \<Rightarrow> nat option \<Rightarrow> string \<times> bool \<Rightarrow> string \<Rightarrow> nat \<Rightarrow> string \<times> bool" where
  "patsubst_body pattern replace pattern_percent replace_percent = (\<lambda>(o1, doneany) t len.
     let (rpre, rpost) = (case replace_percent of
            Some r \<Rightarrow> (r - 1, length (drop r replace))
          | None \<Rightarrow> (length replace, 0));
         pre = pattern_percent - 1;
         post = length (drop pattern_percent pattern);
         fail = patsubst_fail pattern pattern_percent pre post t len;
         o2 = (if fail then variable_buffer_output o1 t len
               else
                 (let o2 = variable_buffer_output o1 replace rpre
                  in case replace_percent of
                       None \<Rightarrow> o2
                     | Some r \<Rightarrow>
                         (let o3 = variable_buffer_output o2 (drop pre t) (len - (pre + post))
                          in variable_buffer_output o3 (drop r replace) rpost)))
     in if fail \<or> rpre > 0 \<or> replace_percent \<noteq> None \<and> len + rpost > 0
        then (variable_buffer_output o2 '' '' 1, True)
        else (o2, doneany))"

text \<open>\<open>if (doneany) --o;\<close> at the end of the loops that put a space behind every word.\<close>

definition kill_last :: "string \<times> bool \<Rightarrow> string" where
  "kill_last r = (if snd r then butlast (fst r) else fst r)"

definition patsubst_expand_pat :: "string \<Rightarrow> string \<Rightarrow> string \<Rightarrow> string \<Rightarrow> nat option \<Rightarrow> nat option \<Rightarrow> string" where
  "patsubst_expand_pat o1 txt pattern replace pattern_percent replace_percent =
     (case pattern_percent of
        None \<Rightarrow> subst_expand o1 txt pattern replace (length pattern) (length replace) True
      | Some pp \<Rightarrow>
          kill_last (token_loop (patsubst_body pattern replace pp replace_percent) (o1, False) txt))"

definition patsubst_expand :: "string \<Rightarrow> string \<Rightarrow> string \<Rightarrow> string \<Rightarrow> (unit, string) outcome" where
  "patsubst_expand o1 txt pattern replace =
     obind (find_percent pattern) (\<lambda>(pattern, pattern_percent).
     obind (find_percent replace) (\<lambda>(replace, replace_percent).
       Ok (patsubst_expand_pat o1 txt pattern replace
             (map_option Suc pattern_percent) (map_option Suc replace_percent))))"

end
