(* ===== verification/MakeSubstProps.thy ===== *)
theory MakeSubstProps
  imports MakeSubst
begin

text \<open>
  What the substitution functions compute: \<open>$(subst)\<close> replaces the occurrences from the left,
  \<open>$(patsubst)\<close> maps a function over the words of its text, and the search for a percent sign in a
  cached string finds what the search in a writable string finds.
\<close>

section \<open>Loops over the words\<close>

text \<open>A body that only looks at the token is folded over the words of the text.\<close>

lemma token_loop_foldl:
  assumes "NUL \<notin> set ptr"
    and "\<And>s w r. is_word w \<Longrightarrow> NUL \<notin> set (w @ r) \<Longrightarrow> r = [] \<or> ISBLANK (peek r) \<Longrightarrow> body s (w @ r) (length w) = g s w"
  shows "token_loop body s ptr = foldl g s (words_of ptr)"
  using assms(1)
proof (induction ptr arbitrary: s rule: words_of.induct)
  case (1 ptr)
  let ?p = "dropWhile ISBLANK ptr"
  let ?w = "takeWhile nonblank ?p" and ?r = "dropWhile nonblank ?p"
  show ?case
  proof (cases "?p = []")
    case True
    then show ?thesis
      using 1 by (simp add: token_loop.simps words_of.simps find_next_token_eq)
  next
    case False
    have "?w \<in> set (words_of ptr)" using False by (subst words_of.simps) (simp add: Let_def)
    then have w: "is_word ?w" by (rule is_word_words_of)
    have p: "?p = ?w @ ?r" by simp
    have nz: "NUL \<notin> set (?w @ ?r)" using "1.prems" by (metis p set_dropWhileD)
    have r: "?r = [] \<or> ISBLANK (peek ?r)" by (rule dropWhile_nonblank_rest)
    have "token_loop body s ptr = token_loop body (body s ?p (length ?w)) ?r"
      using "1.prems" False by (subst token_loop.simps) (simp add: find_next_token_eq Let_def)
    also have "body s ?p (length ?w) = g s ?w" using assms(2) [OF w nz r] by simp
    also have "token_loop body (g s ?w) ?r = foldl g (g s ?w) (words_of ?r)"
      using nz by (intro "1.IH" [OF refl False]) (metis Un_iff set_append)
    also have "\<dots> = foldl g s (words_of ptr)"
      using False by (subst (2) words_of.simps) (simp add: Let_def)
    finally show ?thesis .
  qed
qed

text \<open>Words with a space between them.\<close>

fun join_words :: "string list \<Rightarrow> string" where
  "join_words [] = []"
| "join_words [w] = w"
| "join_words (w # v # ws) = w @ '' '' @ join_words (v # ws)"

definition spaced :: "string list \<Rightarrow> string" where
  "spaced ws = concat (map (\<lambda>w. w @ '' '') ws)"

lemma spaced_simps [simp]: "spaced [] = []" "spaced (w # ws) = w @ '' '' @ spaced ws" "spaced (ws @ vs) = spaced ws @ spaced vs"
  by (simp_all add: spaced_def)

lemma butlast_spaced: "ws \<noteq> [] \<Longrightarrow> spaced ws = join_words ws @ '' ''"
  by (induction ws rule: join_words.induct) auto

text \<open>Most loops put a text and a space out for some of the words.\<close>

lemma foldl_outputs:
  "foldl (\<lambda>(o1, any) w. case f w of None \<Rightarrow> (o1, any) | Some x \<Rightarrow> (o1 @ x @ '' '', True)) (o0, a) ws
     = (o0 @ spaced (List.map_filter f ws), a \<or> List.map_filter f ws \<noteq> [])"
  by (induction ws arbitrary: o0 a) (auto simp: map_filter_simps split: option.split)

lemma token_words:
  assumes "NUL \<notin> set txt"
    and "\<And>o1 any w r. is_word w \<Longrightarrow> NUL \<notin> set (w @ r) \<Longrightarrow> r = [] \<or> ISBLANK (peek r) \<Longrightarrow>
      body (o1, any) (w @ r) (length w) = (case f w of None \<Rightarrow> (o1, any) | Some x \<Rightarrow> (o1 @ x @ '' '', True))"
  shows "kill_last (token_loop body (o1, False) txt) = o1 @ join_words (List.map_filter f (words_of txt))"
proof -
  let ?ws = "List.map_filter f (words_of txt)"
  have "token_loop body (o1, False) txt =
      foldl (\<lambda>(o1, any) w. case f w of None \<Rightarrow> (o1, any) | Some x \<Rightarrow> (o1 @ x @ '' '', True)) (o1, False) (words_of txt)"
  proof (rule token_loop_foldl [OF assms(1)])
    fix s :: "string \<times> bool" and w r
    assume "is_word w" and "NUL \<notin> set (w @ r)" and "r = [] \<or> ISBLANK (peek r)"
    then show "body s (w @ r) (length w) = (\<lambda>(o1, any) w. case f w of None \<Rightarrow> (o1, any) | Some x \<Rightarrow> (o1 @ x @ '' '', True)) s w"
      using assms(2) by (cases s) (simp only: prod.case)
  qed
  then show ?thesis
    by (cases "?ws = []") (simp_all add: foldl_outputs kill_last_def butlast_spaced butlast_append)
qed

section \<open>Comparing prefixes\<close>

lemma strneq_take:
  assumes "NUL \<notin> set a" and "NUL \<notin> set b"
  shows "strneq a b n \<longleftrightarrow> take n a = take n b"
  using assms
proof (induction n arbitrary: a b)
  case (Suc n)
  then show ?case by (cases a; cases b) auto
qed simp

lemma cget_append_left: "i < length w \<Longrightarrow> cget (w @ r) i = w ! i"
  by (simp add: cget_def nth_append)

lemma take_eq_by_ends:
  assumes "0 < n" and "n \<le> length a" and "n \<le> length b"
  shows "take n a = take n b \<longleftrightarrow>
    peek a = peek b \<and> cget a (n - 1) = cget b (n - 1) \<and> take (n - 1) (drop 1 a) = take (n - 1) (drop 1 b)"
proof -
  obtain m where n: "n = Suc m" using assms(1) gr0_implies_Suc by blast
  obtain x a' y b' where ab: "a = x # a'" "b = y # b'"
    using assms n by (metis Suc_le_length_iff)
  have "take m a' = take m b' \<Longrightarrow> x = y \<Longrightarrow> cget (x # a') m = cget (y # b') m"
    using assms n ab
    by (cases m) (auto simp: cget_def dest: arg_cong [where f = "\<lambda>l. l ! (m - 1)"])
  then show ?thesis using n ab by auto
qed

text \<open>The reference for one word: the pattern is \<open>pre % post\<close>.\<close>

definition matches_pattern :: "string \<Rightarrow> string \<Rightarrow> string \<Rightarrow> bool" where
  "matches_pattern pre post w \<longleftrightarrow>
     length pre + length post \<le> length w \<and> take (length pre) w = pre \<and> drop (length w - length post) w = post"

definition stem :: "string \<Rightarrow> string \<Rightarrow> string \<Rightarrow> string" where
  "stem pre post w = take (length w - (length pre + length post)) (drop (length pre) w)"

lemma matches_pattern_iff: "matches_pattern pre post w \<longleftrightarrow> (\<exists>s. w = pre @ s @ post)"
proof
  assume m: "matches_pattern pre post w"
  have "w = take (length pre) w @ drop (length pre) w" by simp
  also have "drop (length pre) w = take (length w - length post - length pre) (drop (length pre) w)
      @ drop (length w - length post - length pre) (drop (length pre) w)" by (simp only: append_take_drop_id)
  also have "drop (length w - length post - length pre) (drop (length pre) w) = drop (length w - length post) w"
    using m by (simp add: matches_pattern_def)
  finally show "\<exists>s. w = pre @ s @ post" using m unfolding matches_pattern_def by metis
qed (auto simp: matches_pattern_def)

lemma stem_unique: "w = pre @ s @ post \<Longrightarrow> stem pre post w = s"
  by (simp add: stem_def)

lemma drop_eq_by_ends:
  assumes "0 < length b" and "length b \<le> length w" and "NUL \<notin> set (w @ r)" and "NUL \<notin> set b"
  shows "drop (length w - length b) w = b \<longleftrightarrow>
    cget (w @ r) (length w - 1) = cget b (length b - 1) \<and> cget (w @ r) (length w - length b) = cget b 0
    \<and> strneq (drop (length w - length b) (w @ r)) b (length b - 1)"
proof -
  let ?v = "drop (length w - length b) w"
  obtain x y where b: "b = x @ [y]" using assms(1) by (metis length_greater_0_conv rev_exhaust)
  have lv: "length ?v = length b" using assms(2) by simp
  then obtain x' y' where v: "?v = x' @ [y']" using assms(1) by (metis length_greater_0_conv rev_exhaust)
  have "length ?v = Suc (length x')" using v by (simp only: length_append_singleton)
  then have lx: "length x' = length x" using lv b by simp
  have "cget (w @ r) (length w - 1) = y'"
  proof -
    have "cget (w @ r) (length w - 1) = w ! (length w - 1)"
      using assms by (intro cget_append_left) linarith
    also have "\<dots> = last w" using assms(1,2) by (metis last_conv_nth length_0_conv not_less_zero order_le_less_trans leD gr0I)
    also have "\<dots> = last ?v" using assms(1,2) by (intro last_drop [symmetric]) linarith
    finally show ?thesis using v by simp
  qed
  moreover have "cget b (length b - 1) = y" using b by (simp add: cget_def)
  moreover have "strneq (drop (length w - length b) (w @ r)) b (length b - 1) \<longleftrightarrow> x' = x"
  proof -
    have "drop (length w - length b) (w @ r) = ?v @ r" using assms(2) by simp
    moreover have "NUL \<notin> set (?v @ r)" using assms(3) by (auto dest: in_set_dropD)
    ultimately have "strneq (drop (length w - length b) (w @ r)) b (length b - 1)
        \<longleftrightarrow> take (length b - 1) (?v @ r) = take (length b - 1) b"
      unfolding \<open>drop (length w - length b) (w @ r) = ?v @ r\<close> using assms(4) by (metis strneq_take)
    moreover have "length x + (length w - Suc (length x)) - length w = 0" using assms(2) b by simp
    ultimately show ?thesis using v b lx by simp
  qed
  moreover have "x' = x \<and> y' = y \<Longrightarrow> cget (w @ r) (length w - length b) = cget b 0"
  proof -
    assume "x' = x \<and> y' = y"
    then have vb: "?v = b" using v b by simp
    have "cget (w @ r) (length w - length b) = w ! (length w - length b)"
      using assms by (intro cget_append_left) linarith
    also have "\<dots> = peek ?v" using assms(1,2) by (metis Cons_nth_drop_Suc diff_less le_zero_eq neq0_conv peek.simps(2))
    finally show ?thesis using vb by simp
  qed
  ultimately show ?thesis using v b by auto
qed


lemma take_eq_prefix:
  assumes "is_word w" and "NUL \<notin> set (w @ r)" and "NUL \<notin> set pat" and "n \<le> length w" and "n \<le> length pat" and "0 < n"
  shows "take n w = take n pat \<longleftrightarrow>
    peek (w @ r) = peek pat \<and> cget (w @ r) (n - 1) = cget pat (n - 1) \<and> strneq (drop 1 (w @ r)) (drop 1 pat) (n - 1)"
proof -
  have "take n w = take n pat \<longleftrightarrow> take n (w @ r) = take n pat" using assms by simp
  moreover have "NUL \<notin> set (drop 1 (w @ r))" and "NUL \<notin> set (drop 1 pat)"
    using assms by (meson in_set_dropD)+
  then have "strneq (drop 1 (w @ r)) (drop 1 pat) (n - 1)
      \<longleftrightarrow> take (n - 1) (drop 1 (w @ r)) = take (n - 1) (drop 1 pat)"
    by (rule strneq_take)
  moreover have "n \<le> length (w @ r)" using assms by simp
  ultimately show ?thesis using assms take_eq_by_ends [of n "w @ r" pat] by simp
qed

section \<open>Pattern substitution\<close>

lemma patsubst_fail_iff:
  assumes "is_word w" and "NUL \<notin> set (w @ r)" and "NUL \<notin> set (pre @ post)"
  shows "patsubst_fail (pre @ CHR ''%'' # post) (Suc (length pre)) (length pre) (length post) (w @ r) (length w)
    \<longleftrightarrow> \<not> matches_pattern pre post w"
proof (cases "length pre + length post \<le> length w")
  case False
  then show ?thesis by (simp add: patsubst_fail_def matches_pattern_def)
next
  case True
  let ?pat = "pre @ CHR ''%'' # post"
  have post: "drop (Suc (length pre)) ?pat = post" by simp
  have "length pre > 0 \<and> (peek (w @ r) \<noteq> peek ?pat \<or> cget (w @ r) (length pre - 1) \<noteq> cget ?pat (Suc (length pre) - 2)
      \<or> \<not> strneq (drop 1 (w @ r)) (drop 1 ?pat) (length pre - 1)) \<longleftrightarrow> take (length pre) w \<noteq> pre" (is "?two \<longleftrightarrow> _")
  proof (cases "length pre > 0")
    case pos: True
    have "Suc (length pre) - 2 = length pre - 1" by simp
    moreover have "take (length pre) ?pat = pre" by simp
    moreover have "NUL \<notin> set ?pat" using assms by simp
    ultimately show ?thesis
      using take_eq_prefix [of w r ?pat "length pre"] assms True pos by fastforce
  qed simp
  moreover have "length post > 0 \<and> (cget (w @ r) (length w - 1) \<noteq> cget ?pat (Suc (length pre) + (length post - 1))
      \<or> cget (w @ r) (length w - length post) \<noteq> cget ?pat (Suc (length pre))
      \<or> \<not> strneq (drop (length w - length post) (w @ r)) post (length post - 1))
      \<longleftrightarrow> drop (length w - length post) w \<noteq> post" (is "?three \<longleftrightarrow> _")
  proof (cases "length post > 0")
    case pos: True
    have c: "cget ?pat (Suc (length pre) + n) = cget post n" for n
      by (simp add: cget_def nth_append)
    have c0: "cget ?pat (Suc (length pre)) = cget post 0" using c [of 0] by simp
    have "length post \<le> length w" and "NUL \<notin> set post" using assms True by auto
    then show ?thesis
      unfolding c c0 using drop_eq_by_ends [of post w r] assms(2) pos by blast
  qed simp
  ultimately show ?thesis
    unfolding patsubst_fail_def matches_pattern_def Let_def post
    using True by (simp only: not_less) auto
qed

text \<open>What the loop appends for a word: \<open>replacement\<close>, and a space unless there is nothing.\<close>

definition replacement :: "string \<Rightarrow> string \<Rightarrow> string \<Rightarrow> string option \<Rightarrow> string \<Rightarrow> string" where
  "replacement pre post rpre rpost w =
     (if matches_pattern pre post w then
        (case rpost of None \<Rightarrow> rpre | Some q \<Rightarrow> rpre @ stem pre post w @ q)
      else w)"

definition replace_text :: "string \<Rightarrow> string option \<Rightarrow> string" where
  "replace_text rpre rpost = (case rpost of None \<Rightarrow> rpre | Some q \<Rightarrow> rpre @ CHR ''%'' # q)"

definition patsubst_word :: "string \<Rightarrow> string \<Rightarrow> string \<Rightarrow> string option \<Rightarrow> string \<Rightarrow> string option" where
  "patsubst_word pre post rpre rpost w =
     (if rpost = None \<and> rpre = [] \<and> matches_pattern pre post w then None
      else Some (replacement pre post rpre rpost w))"

lemma patsubst_body_eq:
  assumes "is_word w" and "NUL \<notin> set (w @ r)" and "NUL \<notin> set (pre @ post)"
  shows "patsubst_body (pre @ CHR ''%'' # post) (replace_text rpre rpost) (Suc (length pre))
      (map_option (\<lambda>_. Suc (length rpre)) rpost) (o1, any) (w @ r) (length w) =
    (case patsubst_word pre post rpre rpost w of None \<Rightarrow> (o1, any) | Some x \<Rightarrow> (o1 @ x @ '' '', True))"
proof -
  have "w \<noteq> []" using assms(1) by (simp add: is_word_def)
  note fail = patsubst_fail_iff [OF assms]
  show ?thesis
  proof (cases rpost)
    case None
    then show ?thesis
      unfolding patsubst_body_def prod.case
      by (simp add: fail Let_def patsubst_word_def replacement_def replace_text_def variable_buffer_output_def)
  next
    case (Some q)
    have "length pre + length post \<le> length w \<Longrightarrow>
        take (length w - (length pre + length post)) (drop (length pre) (w @ r)) = stem pre post w"
      by (simp add: stem_def)
    then show ?thesis
      unfolding patsubst_body_def prod.case
      using Some \<open>w \<noteq> []\<close>
      by (simp add: fail Let_def patsubst_word_def replacement_def replace_text_def
          variable_buffer_output_def matches_pattern_def)
  qed
qed

lemma patsubst_pat_eq:
  assumes "NUL \<notin> set txt" and "NUL \<notin> set (pre @ post)"
  shows "patsubst_expand_pat o1 txt (pre @ CHR ''%'' # post) (replace_text rpre rpost)
      (Some (Suc (length pre))) (map_option (\<lambda>_. Suc (length rpre)) rpost) =
    o1 @ join_words (List.map_filter (patsubst_word pre post rpre rpost) (words_of txt))"
  unfolding patsubst_expand_pat_def option.case
  by (rule token_words [OF assms(1)]) (rule patsubst_body_eq [OF _ _ assms(2)])

section \<open>Finding the percent sign\<close>

lemma memchr_None: "c \<notin> set s \<Longrightarrow> memchr s c = None"
  by (induction s) auto

lemma memchr_append: "c \<notin> set a \<Longrightarrow> memchr (a @ c # b) c = Some (length a)"
  by (induction a) auto

lemma STOP_SET_PERCENT_NUL: "STOP_SET dos c {MAP_PERCENT, MAP_NUL} \<longleftrightarrow> c = CHR ''%'' \<or> c = NUL"
  and STOP_SET_NUL_PERCENT: "STOP_SET dos c {MAP_NUL, MAP_PERCENT} \<longleftrightarrow> c = CHR ''%'' \<or> c = NUL"
  by auto

lemma percent_in_map [simp]: "MAP_PERCENT \<in> stopchar_map dos CHR ''%''"
  by (simp add: in_stopchar_map in_stopchar_base)

lemma find_percent_plain:
  assumes "CHR ''%'' \<notin> set pre" and "pre = [] \<or> last pre \<noteq> CHR 0x5C"
  shows "find_percent (pre @ CHR ''%'' # post) = Ok (pre @ CHR ''%'' # post, Some (length pre))"
proof -
  have "length pre = 0 \<or> (pre @ CHR ''%'' # post) ! (length pre - 1) \<noteq> CHR 0x5C"
    using assms(2) by (cases "pre = []") (auto simp: nth_append last_conv_nth)
  then show ?thesis
    by (auto simp: find_percent_def find_char_unquote_0_def memchr_append [OF assms(1)])
qed

lemma find_percent_none: "CHR ''%'' \<notin> set s \<Longrightarrow> find_percent s = Ok (s, None)"
  by (simp add: find_percent_def find_char_unquote_0_def memchr_None)

text \<open>The loop of the cached version is the general loop for the percent sign.\<close>

lemma backslashes_0: "pre = [] \<or> last pre \<noteq> CHR 0x5C \<longleftrightarrow> backslashes pre = 0"
  by (cases pre rule: rev_cases) (auto simp: backslashes_def)

lemma percent_loop_eq:
  "NUL \<notin> set p \<Longrightarrow> pre \<noteq> [] \<or> peek p \<noteq> CHR ''%'' \<Longrightarrow>
     percent_loop pre p = unquote_loop False {MAP_NUL, MAP_PERCENT} pre p"
proof (induction p arbitrary: pre)
  case (Cons c p)
  show ?case
  proof (cases "c = CHR ''%''")
    case False
    then show ?thesis
      using Cons by (simp add: STOP_SET_PERCENT_NUL STOP_SET_NUL_PERCENT)
  next
    case True
    then have "pre \<noteq> []" using Cons.prems by simp
    then show ?thesis
      using Cons True backslashes_0 [of pre]
      by (simp add: STOP_SET_PERCENT_NUL STOP_SET_NUL_PERCENT)
  qed
qed simp

lemma percent_loop_skip:
  "CHR ''%'' \<notin> set a \<Longrightarrow> NUL \<notin> set a \<Longrightarrow> percent_loop pre (a @ p) = percent_loop (pre @ a) p"
  by (induction a arbitrary: pre) (auto simp: STOP_SET_PERCENT_NUL)

lemma find_percent_ok:
  assumes "NUL \<notin> set s"
  shows "find_percent s = Ok (find_percent_cached s)"
proof (cases "CHR ''%'' \<in> set s")
  case False
  then show ?thesis
    using percent_loop_skip [of s "[]" "[]"] assms
    by (cases s) (auto simp: find_percent_none find_percent_cached_def)
next
  case True
  then obtain a b where s: "s = a @ CHR ''%'' # b" and a: "CHR ''%'' \<notin> set a"
    by (meson split_list_first)
  have nz: "NUL \<notin> set a" using assms s by simp
  show ?thesis
  proof (cases "a = []")
    case True
    then show ?thesis using s find_percent_plain [of "[]" b] by (simp add: find_percent_cached_def)
  next
    case ne: False
    then have pk: "peek s \<noteq> CHR ''%''" using s a by (cases a) auto
    have cached: "find_percent_cached s = percent_loop [] s" using pk by (simp add: find_percent_cached_def)
    show ?thesis
    proof (cases "last a = CHR 0x5C")
      case False
      have "percent_loop [] s = percent_loop a (CHR ''%'' # b)"
        using percent_loop_skip [of a "[]" "CHR ''%'' # b"] a nz s by simp
      then show ?thesis
        using s ne a False find_percent_plain [of a b] cached by (simp add: STOP_SET_PERCENT_NUL)
    next
      case True
      then have "s ! (length a - 1) = CHR 0x5C" using s ne by (simp add: nth_append last_conv_nth)
      then have "find_percent s = Ok (unquote_loop False {MAP_NUL, MAP_PERCENT} [] s)"
        using memchr_append [OF a, of b] s ne
        by (auto simp: find_percent_def find_char_unquote_0_def find_char_unquote_def split: prod.splits)
      then show ?thesis using cached percent_loop_eq [of s "[]"] assms pk by simp
    qed
  qed
qed

text \<open>The search for a percent sign in a cached string gives the string and the position that the search in
  a writable string gives, with the same quoting backslashes removed.\<close>

theorem find_percent_cached_correct:
  assumes "NUL \<notin> set s"
  shows "find_percent s = Ok (find_percent_cached s)"
  using assms by (rule find_percent_ok)

theorem find_percent_cached_correct_witness:
  "find_percent_cached (''a'' @ CHR 0x5C # ''%b%c'') = (''a%b%c'', Some 3) \<and> find_percent (''a'' @ CHR 0x5C # ''%b%c'') = Ok (''a%b%c'', Some 3)"
proof -
  have "find_percent_cached (''a'' @ CHR 0x5C # ''%b%c'') = (''a%b%c'', Some 3)"
    by (simp add: find_percent_cached_def STOP_SET_PERCENT_NUL swallow_def backslashes_def)
  then show ?thesis using find_percent_cached_correct [of "(''a'' @ CHR 0x5C # ''%b%c'')"] by simp
qed

text \<open>The pattern and the replacement as they are written, without backslashes before a percent sign.\<close>

definition plain :: "string \<Rightarrow> bool" where
  "plain s \<longleftrightarrow> CHR ''%'' \<notin> set s \<and> (s = [] \<or> last s \<noteq> CHR 0x5C)"

text \<open>C24: The words that match the pattern are replaced, the text that matched the percent sign taking the
  place of the percent sign of the replacement, and the others are kept; a space separates the words. A
  word whose replacement has no percent sign and is empty is left out. The pattern and the replacement
  have no quoted percent sign.\<close>

theorem patsubst_expand_correct:
  assumes "NUL \<notin> set txt" and "NUL \<notin> set (pre @ post)" and "plain pre" and "plain rpre"
  shows "patsubst_expand o1 txt (pre @ CHR ''%'' # post) (replace_text rpre rpost) =
    Ok (o1 @ join_words (List.map_filter (patsubst_word pre post rpre rpost) (words_of txt)))"
proof -
  have "find_percent (replace_text rpre rpost) = Ok (replace_text rpre rpost, map_option (\<lambda>_. length rpre) rpost)"
    using assms(4) find_percent_plain [of rpre] find_percent_none [of rpre]
    by (cases rpost) (auto simp: replace_text_def plain_def)
  moreover have "find_percent (pre @ CHR ''%'' # post) = Ok (pre @ CHR ''%'' # post, Some (length pre))"
    using assms(3) by (intro find_percent_plain) (auto simp: plain_def)
  moreover have "map_option Suc (map_option (\<lambda>_. length rpre) rpost) = map_option (\<lambda>_. Suc (length rpre)) rpost"
    by (cases rpost) auto
  ultimately show ?thesis
    using patsubst_pat_eq [OF assms(1,2), of o1 rpre rpost] by (simp add: patsubst_expand_def)
qed

theorem patsubst_expand_correct_witness:
  "patsubst_expand ''x'' ''a.c  b.h c.c'' ''%.c'' ''o/%.o'' = Ok ''xo/a.o b.h o/c.o''"
proof -
  have "join_words (List.map_filter (patsubst_word [] ''.c'' ''o/'' (Some ''.o'')) (words_of ''a.c  b.h c.c'')) = ''o/a.o b.h o/c.o''"
    by code_simp
  then show ?thesis
    using patsubst_expand_correct [of "''a.c  b.h c.c''" "[]" "''.c''" "''o/''" "''x''" "Some ''.o''"]
    by (simp add: plain_def replace_text_def)
qed

section \<open>Plain substitution\<close>

function replace_all :: "string \<Rightarrow> string \<Rightarrow> string \<Rightarrow> string" where
  "replace_all subst rep t =
     (case t of
        [] \<Rightarrow> []
      | c # t' \<Rightarrow>
          if subst \<noteq> [] \<and> take (length subst) t = subst then rep @ replace_all subst rep (drop (length subst) t)
          else c # replace_all subst rep t')"
  by auto
termination by (relation "measure (\<lambda>(_, _, t). length t)") auto

declare replace_all.simps [simp del]

lemma replace_all_no_match:
  assumes "strstr t subst = Some p" and "subst \<noteq> []"
  shows "replace_all subst rep t = take (length t - length p) t @ replace_all subst rep p
    \<and> take (length subst) p = subst \<and> p \<noteq> [] \<and> length p \<le> length t"
  using assms(1)
proof (induction t)
  case Nil
  then show ?case using assms(2) by (simp add: strstr.simps split: if_splits)
next
  case (Cons c t)
  show ?case
  proof (cases "take (length subst) (c # t) = subst")
    case True
    then show ?thesis using Cons.prems by (subst (asm) strstr.simps) auto
  next
    case False
    then have "strstr t subst = Some p" using Cons.prems by (subst (asm) strstr.simps) auto
    then have IH: "replace_all subst rep t = take (length t - length p) t @ replace_all subst rep p
      \<and> take (length subst) p = subst \<and> p \<noteq> [] \<and> length p \<le> length t" by (rule Cons.IH)
    have "replace_all subst rep (c # t) = c # replace_all subst rep t"
      using False by (subst replace_all.simps) auto
    then show ?thesis using IH by (simp add: Suc_diff_le)
  qed
qed

lemma replace_all_none: "strstr t subst = None \<Longrightarrow> replace_all subst rep t = t"
proof (induction t)
  case (Cons c t)
  then have "take (length subst) (c # t) \<noteq> subst" and "strstr t subst = None"
    by (auto simp: strstr.simps [of "c # t"] split: if_splits)
  with Cons show ?case by (subst replace_all.simps) auto
qed (simp add: replace_all.simps)

lemma variable_buffer_output_pos: "(if 0 < length s then variable_buffer_output o1 s (length s) else o1) = o1 @ s"
  by (simp add: variable_buffer_output_def)

lemma subst_loop_eq:
  assumes "subst \<noteq> []"
  shows "NUL \<notin> set t \<Longrightarrow>
    subst_loop txt subst rep (length subst) (length rep) False o1 t = o1 @ replace_all subst rep t"
proof (induction t arbitrary: o1 rule: measure_induct_rule [of length])
  case (less t)
  show ?case
  proof (cases "strstr t subst")
    case None
    then show ?thesis
      using assms by (subst subst_loop.simps) (simp add: match_at_def replace_all_none variable_buffer_output_def)
  next
    case (Some p)
    let ?t' = "drop (length subst) p"
    note r = replace_all_no_match [OF Some assms, of rep]
    have p: "replace_all subst rep p = rep @ replace_all subst rep ?t'"
      using r assms by (cases p; subst replace_all.simps) auto
    have "set p \<subseteq> set t" using Some
    proof (induction t)
      case (Cons c t)
      then show ?case by (subst (asm) (2) strstr.simps) (auto split: if_splits)
    qed (simp add: strstr.simps split: if_splits)
    then have nz: "NUL \<notin> set ?t'" using less.prems by (meson in_set_dropD subsetD)
    have "length ?t' < length t" using r assms by (cases subst; cases p) auto
    then have IH: "subst_loop txt subst rep (length subst) (length rep) False o2 ?t' = o2 @ replace_all subst rep ?t'" for o2
      using nz by (rule less.IH)
    have "subst_loop txt subst rep (length subst) (length rep) False o1 t =
        (let o3 = o1 @ take (length t - length p) t @ rep
         in if peek ?t' \<noteq> NUL then subst_loop txt subst rep (length subst) (length rep) False o3 ?t' else o3)"
      using assms Some
      by (subst subst_loop.simps) (simp add: match_at_def struck_out_def variable_buffer_output_def Let_def)
    also have "\<dots> = o1 @ take (length t - length p) t @ rep @ replace_all subst rep ?t'"
    proof (cases ?t')
      case Nil
      then show ?thesis by (simp add: replace_all.simps)
    next
      case (Cons c q)
      then have "peek ?t' \<noteq> NUL" using nz by auto
      then show ?thesis using IH by simp
    qed
    finally show ?thesis using r p by simp
  qed
qed

text \<open>Plain substitution replaces the occurrences found from left to right, without overlaps; an empty
  string is found at the end of the text only.\<close>

theorem subst_expand_correct:
  assumes "NUL \<notin> set txt"
  shows "subst_expand o1 txt subst rep (length subst) (length rep) False =
    o1 @ (if subst = [] then txt @ rep else replace_all subst rep txt)"
  using subst_loop_eq [of subst "txt" "txt" rep o1] assms
  by (simp add: subst_expand_def variable_buffer_output_def Let_def)

theorem subst_expand_correct_witness:
  "subst_expand ''x'' ''aabab'' ''ab'' ''c'' 2 1 False = ''xacc''"
proof -
  have "replace_all ''ab'' ''c'' ''aabab'' = ''acc''" by code_simp
  then show ?thesis using subst_expand_correct [of "''aabab''" "''x''" "''ab''" "''c''"] by (simp add: numeral_2_eq_2)
qed

text \<open>By words, an empty string is replaced at the end of the text only, and only behind a space.\<close>

lemma nth_before: "t = a @ b \<Longrightarrow> a \<noteq> [] \<Longrightarrow> t ! (length t - length b - 1) = last a"
  by (simp add: nth_append last_conv_nth)

lemma subst_loop_empty_word:
  assumes "NUL \<notin> set txt"
  shows "txt = u @ t \<Longrightarrow> t \<noteq> [] \<or> txt = [] \<Longrightarrow>
    subst_loop txt [] rep 0 (length rep) True o1 t = o1 @ t @ (if txt = [] \<or> ISSPACE (last txt) then rep else [])"
proof (induction t arbitrary: o1 u rule: measure_induct_rule [of length])
  case (less t)
  let ?n = "next_token t"
  let ?p = "end_of_token ?n"
  let ?w = "takeWhile (\<lambda>c. \<not> ISSPACE c \<and> c \<noteq> NUL) ?n"
  let ?b = "takeWhile ISSPACE t"
  have t: "t = ?b @ ?w @ ?p"
    by (simp add: end_of_token_dropWhile next_token_dropWhile)
  have lt: "length t = length ?b + length ?w + length ?p"
    using arg_cong [OF t, of length] by (simp only: length_append add.assoc)
  have txt_eq: "txt = u @ ?b @ ?w @ ?p"
    by (rule trans [OF less.prems(1) arg_cong [OF t, of "append u"]])
  have lx: "length txt = length u + length t" using less.prems(1) by simp
  have tk: "take (length t - length ?p) t = ?b @ ?w"
    using arg_cong [OF t, of "take (length ?b + length ?w)"] arg_cong [OF t, of length] by simp
  have nzt: "NUL \<notin> set t" using assms less.prems by simp
  have pk: "?p = [] \<or> ISSPACE (peek ?p)"
  proof (cases ?p)
    case (Cons c q)
    then have "ISSPACE c \<or> c = NUL" by (simp add: end_of_token_dropWhile dropWhile_eq_Cons_conv)
    moreover have "c \<in> set t" using Cons by (subst t) simp
    ultimately show ?thesis using nzt Cons by auto
  qed simp
  have "txt = (u @ ?b @ ?w) @ ?p" unfolding append_assoc by (rule txt_eq)
  then have before: "txt ! (length txt - length ?p - 1) = last (u @ ?b @ ?w)" if "u @ ?b @ ?w \<noteq> []"
    using that by (rule nth_before)
  have step: "subst_loop txt [] rep 0 (length rep) True o1 t =
      (let o2 = o1 @ ?b @ ?w;
           o3 = (if struck_out txt ?p 0 True then o2 else o2 @ rep)
       in if peek ?p \<noteq> NUL then subst_loop txt [] rep 0 (length rep) True o3 ?p else o3)"
  proof -
    have "length ?p < length t \<or> ?b @ ?w = []" using lt by fastforce
    then show ?thesis
      using tk by (subst subst_loop.simps) (auto simp: match_at_def variable_buffer_output_def Let_def)
  qed
  have struck: "struck_out txt ?p 0 True \<longleftrightarrow> length ?p < length txt \<and> \<not> ISSPACE (txt ! (length txt - length ?p - 1))"
    using pk by (auto simp: struck_out_def)
  show ?case
  proof (cases ?n)
    case Nil
    then have p: "?p = []" "?w = []" by simp_all
    then have tb: "t = ?b" using t by simp
    show ?thesis
    proof (cases "txt = []")
      case True
      then show ?thesis using step struck p tb by simp
    next
      case False
      then have "txt ! (length txt - 1) = last txt" by (simp add: last_conv_nth)
      then show ?thesis using step struck p tb False by simp
    qed
  next
    case (Cons c q)
    have "c \<in> set t" using Cons by (metis list.set_intros(1) next_token_dropWhile set_dropWhileD)
    then have "c \<noteq> NUL" using nzt by auto
    moreover have "\<not> ISSPACE c" using Cons by (simp add: next_token_dropWhile dropWhile_eq_Cons_conv)
    ultimately have c: "\<not> ISSPACE c" "c \<noteq> NUL" by simp_all
    then have w: "?w \<noteq> []" using Cons by simp
    then have wpos: "0 < length ?w" by (rule length_greater_0_conv [THEN iffD2])
    have "last ?w \<in> set ?n \<and> \<not> ISSPACE (last ?w) \<and> last ?w \<noteq> NUL"
      using last_in_set [OF w] by (rule set_takeWhileD)
    then have nsp: "\<not> ISSPACE (last ?w)" by (elim conjE)
    have "length ?p < length txt" using lt lx wpos by linarith
    then have st: "struck_out txt ?p 0 True" using struck before w nsp by simp
    show ?thesis
    proof (cases "?p = []")
      case True
      have "last txt = last ?w" 
        unfolding txt_eq True append_Nil2 using w by (simp only: last_appendR append_is_Nil_conv not_False_eq_True simp_thms)
      moreover have "txt \<noteq> []" using less.prems Cons by auto
      ultimately show ?thesis using step st True nsp t by simp
    next
      case False
      then have nn: "peek ?p \<noteq> NUL" using pk by auto
      have "length ?p < length t" using lt wpos by linarith
      moreover have "txt = (u @ ?b @ ?w) @ ?p" unfolding append_assoc by (rule txt_eq)
      ultimately have "subst_loop txt [] rep 0 (length rep) True (o1 @ ?b @ ?w) ?p
          = (o1 @ ?b @ ?w) @ ?p @ (if txt = [] \<or> ISSPACE (last txt) then rep else [])"
        using False by (intro less.IH) auto
      also have "\<dots> = o1 @ (?b @ ?w @ ?p) @ (if txt = [] \<or> ISSPACE (last txt) then rep else [])"
        by (simp only: append_assoc)
      also have "\<dots> = o1 @ t @ (if txt = [] \<or> ISSPACE (last txt) then rep else [])"
        by (rule arg_cong [OF t [symmetric]])
      finally show ?thesis unfolding step Let_def using st nn by (simp only: if_True not_False_eq_True)
    qed
  qed
qed

text \<open>By words, an empty string is replaced once at most: at the end of an empty text or of a text that
  ends in white space. The end of a word is always struck out.\<close>

theorem subst_expand_empty_word:
  assumes "NUL \<notin> set txt"
  shows "subst_expand o1 txt [] rep 0 (length rep) True =
    o1 @ txt @ (if txt = [] \<or> ISSPACE (last txt) then rep else [])"
  using subst_loop_empty_word [OF assms, of "[]" "txt" rep o1] by (cases "txt") (simp_all add: subst_expand_def)

theorem subst_expand_empty_word_witness:
  "subst_expand [] ''a b'' [] ''x'' 0 1 True = ''a b'' \<and> subst_expand [] ''a '' [] ''x'' 0 1 True = ''a x''"
proof -
  have "ISSPACE CHR '' ''" "\<not> ISSPACE CHR ''b''" by code_simp+
  then show ?thesis
    using subst_expand_empty_word [of "''a b''" "[]" "''x''"] subst_expand_empty_word [of "''a ''" "[]" "''x''"]
    by simp
qed

end
