(* ===== verification/MakeWords.thy ===== *)
theory MakeWords
  imports MakeSubst
begin

text \<open>
  The functions of \<open>src/kmk/function.c\<close> that take words: joining, selecting and counting words, the
  parts of file names, prefixes and suffixes, and the two functions that look variables up. A
  function gets the variable buffer \<open>o1\<close> and its expanded arguments, and returns the buffer.

  \<open>fatal\<close> ends the process; its message is a value of \<open>make_error\<close>. Variables are looked up and
  expanded by \<open>variable.c\<close> and \<open>expand.c\<close>, which are parameters here.
\<close>

datatype make_error =
    NonNumeric string string
  | WordNotPositive
  | WordlistStart int
  | NotNameOrValue string string
  | InsertBounds string string
  | SubstrBounds string
  | SubstrNegative string
  | TranslatePad string

section \<open>Substitution and joining\<close>

definition func_patsubst :: "string \<Rightarrow> string list \<Rightarrow> (unit, string) outcome" where
  "func_patsubst o1 argv = patsubst_expand o1 (argv ! 2) (argv ! 0) (argv ! 1)"

definition func_subst :: "string \<Rightarrow> string list \<Rightarrow> string" where
  "func_subst o1 argv =
     subst_expand o1 (argv ! 2) (argv ! 0) (argv ! 1) (length (argv ! 0)) (length (argv ! 1)) False"

definition token_output :: "string \<Rightarrow> (string \<times> nat \<times> string) option \<Rightarrow> string \<Rightarrow> string \<times> string" where
  "token_output o1 t iterator =
     (case t of
        None \<Rightarrow> (o1, iterator)
      | Some (tp, len, iterator') \<Rightarrow> (variable_buffer_output o1 tp len, iterator'))"

function join_loop :: "string \<times> bool \<Rightarrow> string \<Rightarrow> string \<Rightarrow> string \<times> bool" where
  "join_loop r list1 list2 =
     (let tp = find_next_token list1;
          (o2, list1') = token_output (fst r) tp list1;
          pp = find_next_token list2;
          (o3, list2') = token_output o2 pp list2
      in if tp \<noteq> None \<or> pp \<noteq> None
         then join_loop (variable_buffer_output o3 '' '' 1, True) list1' list2'
         else (o3, snd r))"
  by auto
termination
proof (relation "measure (\<lambda>(_, a, b). length a + length b)")
  fix r :: "string \<times> bool" and a b :: string and tp pp x y o2 a' o3 b'
  assume tp: "tp = find_next_token a" and x: "x = token_output (fst r) tp a" "(o2, a') = x"
    and pp: "pp = find_next_token b" and y: "y = token_output o2 pp b" "(o3, b') = y"
    and some: "tp \<noteq> None \<or> pp \<noteq> None"
  have "length a' \<le> length a \<and> (tp \<noteq> None \<longrightarrow> length a' < length a)"
    using tp x find_next_token_shorter [of a]
    by (cases tp) (auto simp: token_output_def split: prod.splits dest: sym)
  moreover have "length b' \<le> length b \<and> (pp \<noteq> None \<longrightarrow> length b' < length b)"
    using pp y find_next_token_shorter [of b]
    by (cases pp) (auto simp: token_output_def split: prod.splits dest: sym)
  ultimately show "(((variable_buffer_output o3 '' '' 1, True), a', b'), r, a, b)
      \<in> measure (\<lambda>(_, a, b). length a + length b)"
    using some by auto
qed simp

declare join_loop.simps [simp del]

definition func_join :: "string \<Rightarrow> string list \<Rightarrow> string" where
  "func_join o1 argv = kill_last (join_loop (o1, False) (argv ! 0) (argv ! 1))"

definition func_addsuffix_addprefix :: "string \<Rightarrow> string list \<Rightarrow> string \<Rightarrow> string" where
  "func_addsuffix_addprefix o1 argv funcname =
     (let fixlen = length (argv ! 0);
          is_addprefix = (cget funcname 3 = CHR ''p'');
          is_addsuffix = (\<not> is_addprefix)
      in kill_last (token_loop
           (\<lambda>(o1, doneany) p len.
              let o2 = (if is_addprefix then variable_buffer_output o1 (argv ! 0) fixlen else o1);
                  o3 = variable_buffer_output o2 p len;
                  o4 = (if is_addsuffix then variable_buffer_output o3 (argv ! 0) fixlen else o3)
              in (variable_buffer_output o4 '' '' 1, True))
           (o1, False) (argv ! 1)))"

section \<open>Parts of file names\<close>

text \<open>\<open>scan_back\<close> is the loop that walks \<open>p\<close> back from \<open>p2 + len - 1\<close>; \<open>None\<close> stands for \<open>p < p2\<close>.\<close>

fun scan_back :: "bool \<Rightarrow> map_flag set \<Rightarrow> string \<Rightarrow> nat \<Rightarrow> nat option" where
  "scan_back dos stop p2 0 = None"
| "scan_back dos stop p2 (Suc i) = (if \<not> STOP_SET dos (cget p2 i) stop then scan_back dos stop p2 i else Some i)"

definition notdir_suffix_body :: "bool \<Rightarrow> bool \<Rightarrow> string \<times> bool \<Rightarrow> string \<Rightarrow> nat \<Rightarrow> string \<times> bool" where
  "notdir_suffix_body dos is_suffix = (\<lambda>(o1, doneany) p2 len.
     let is_notdir = (\<not> is_suffix);
         stop = {MAP_DIRSEP} \<union> (if is_suffix then {MAP_DOT} else {});
         space = (\<lambda>o2. (variable_buffer_output o2 '' '' 1, True))
     in case scan_back dos stop p2 len of
          Some p \<Rightarrow>
            if is_notdir then space (variable_buffer_output o1 (drop (Suc p) p2) (len - Suc p))
            else if cget p2 p \<noteq> CHR ''.'' then (o1, doneany)
            else space (variable_buffer_output o1 (drop p p2) (len - p))
        | None \<Rightarrow>
            if dos \<and> is_notdir \<and> cget p2 0 \<noteq> NUL \<and> cget p2 1 = CHR '':''
            then space (variable_buffer_output o1 (drop 2 p2) (len - 2))
            else if is_notdir then space (variable_buffer_output o1 p2 len)
            else (o1, doneany))"

definition func_notdir_suffix :: "bool \<Rightarrow> string \<Rightarrow> string list \<Rightarrow> string \<Rightarrow> string" where
  "func_notdir_suffix dos o1 argv funcname =
     (let is_suffix = (cget funcname 0 = CHR ''s'')
      in kill_last (token_loop (notdir_suffix_body dos is_suffix) (o1, False) (argv ! 0)))"

definition basename_dir_body :: "bool \<Rightarrow> bool \<Rightarrow> string \<times> bool \<Rightarrow> string \<Rightarrow> nat \<Rightarrow> string \<times> bool" where
  "basename_dir_body dos is_basename = (\<lambda>(o1, doneany) p2 len.
     let is_dir = (\<not> is_basename);
         stop = {MAP_DIRSEP} \<union> (if is_basename then {MAP_DOT} else {}) \<union> {MAP_NUL};
         found = scan_back dos stop p2 len;
         p = the found;
         o2 = (if found \<noteq> None \<and> is_dir then variable_buffer_output o1 p2 (Suc p)
               else if found \<noteq> None \<and> cget p2 p = CHR ''.'' then variable_buffer_output o1 p2 p
               else if dos \<and> cget p2 0 \<noteq> NUL \<and> cget p2 1 = CHR '':'' \<and> is_dir then variable_buffer_output o1 p2 2
               else if is_dir then variable_buffer_output o1 ''./'' 2
               else variable_buffer_output o1 p2 len)
     in (variable_buffer_output o2 '' '' 1, True))"

definition func_basename_dir :: "bool \<Rightarrow> string \<Rightarrow> string list \<Rightarrow> string \<Rightarrow> string" where
  "func_basename_dir dos o1 argv funcname =
     (let is_basename = (cget funcname 0 = CHR ''b'')
      in kill_last (token_loop (basename_dir_body dos is_basename) (o1, False) (argv ! 0)))"

definition IS_PATHSEP :: "bool \<Rightarrow> char \<Rightarrow> bool" where
  "IS_PATHSEP dos c \<longleftrightarrow> (if dos then c = CHR ''/'' \<or> c = CHR 0x5C else c = CHR ''/'')"

text \<open>\<open>while (len > 0 && !IS_PATHSEP (*p2)) p2++, len--;\<close> and its counterpart.\<close>

fun skip_name :: "bool \<Rightarrow> string \<Rightarrow> nat \<Rightarrow> string \<times> nat" where
  "skip_name dos p2 0 = (p2, 0)"
| "skip_name dos p2 (Suc n) = (if \<not> IS_PATHSEP dos (peek p2) then skip_name dos (tl p2) n else (p2, Suc n))"

fun skip_seps :: "bool \<Rightarrow> string \<Rightarrow> nat \<Rightarrow> string \<times> nat" where
  "skip_seps dos p2 0 = (p2, 0)"
| "skip_seps dos p2 (Suc n) = (if IS_PATHSEP dos (peek p2) then skip_seps dos (tl p2) n else (p2, Suc n))"

definition is_drive :: "string \<Rightarrow> nat \<Rightarrow> bool" where
  "is_drive p2 len \<longleftrightarrow> len \<ge> 2 \<and> cget p2 1 = CHR '':'' \<and> (isupper (cget p2 0) \<or> islower (cget p2 0))"

definition is_unc :: "bool \<Rightarrow> string \<Rightarrow> nat \<Rightarrow> bool" where
  "is_unc dos p2 len \<longleftrightarrow> len \<ge> 4 \<and> IS_PATHSEP dos (cget p2 0) \<and> IS_PATHSEP dos (cget p2 1)
     \<and> \<not> IS_PATHSEP dos (cget p2 2)"

text \<open>The server and the share of a UNC name; \<open>None\<close> where the name has no share.\<close>

definition unc_root :: "bool \<Rightarrow> string \<Rightarrow> nat \<Rightarrow> (string \<times> nat) option" where
  "unc_root dos p2 len =
     (let (p2, len) = skip_name dos (drop 3 p2) (len - 3)
      in if len > 0 \<and> IS_PATHSEP dos (cget p2 0) \<and> (len = 1 \<or> \<not> IS_PATHSEP dos (cget p2 1)) then
           Some (if len - 1 > 0 then skip_name dos (drop 1 p2) (len - 1) else (drop 1 p2, len - 1))
         else None)"

definition root_body :: "bool \<Rightarrow> string \<times> bool \<Rightarrow> string \<Rightarrow> nat \<Rightarrow> string \<times> bool" where
  "root_body dos = (\<lambda>(o1, doneany) p len.
     let r = (if dos \<and> is_drive p len then Some (drop 2 p, len - 2)
              else if dos \<and> is_unc dos p len then unc_root dos p len
              else if IS_PATHSEP dos (cget p 0) then Some (drop 1 p, len - 1)
              else None)
     in case r of
          None \<Rightarrow> (o1, doneany)
        | Some (p2, len) \<Rightarrow>
            let (p2, len) = skip_seps dos p2 len
            in (variable_buffer_output (variable_buffer_output o1 p (length p - length p2)) '' '' 1, True))"

definition func_root :: "bool \<Rightarrow> string \<Rightarrow> string list \<Rightarrow> string" where
  "func_root dos o1 argv = kill_last (token_loop (root_body dos) (o1, False) (argv ! 0))"

definition notroot_body :: "bool \<Rightarrow> string \<times> bool \<Rightarrow> string \<Rightarrow> nat \<Rightarrow> string \<times> bool" where
  "notroot_body dos = (\<lambda>(o1, doneany) p len.
     let (p2, len) =
           (if dos \<and> is_drive p len then (drop 2 p, len - 2)
            else if dos \<and> is_unc dos p len then
              (case unc_root dos p len of Some r \<Rightarrow> r | None \<Rightarrow> (p, len))
            else (p, len));
         (p2, len) = skip_seps dos p2 len;
         o2 = (if len > 0 then variable_buffer_output o1 p2 len else variable_buffer_output o1 ''.'' 1)
     in (variable_buffer_output o2 '' '' 1, True))"

definition func_notroot :: "bool \<Rightarrow> string \<Rightarrow> string list \<Rightarrow> string" where
  "func_notroot dos o1 argv = kill_last (token_loop (notroot_body dos) (o1, False) (argv ! 0))"

section \<open>Selecting words\<close>

definition func_firstword :: "string \<Rightarrow> string list \<Rightarrow> string" where
  "func_firstword o1 argv =
     (case find_next_token (argv ! 0) of
        None \<Rightarrow> o1
      | Some (p, i, words) \<Rightarrow> variable_buffer_output o1 p i)"

definition func_lastword :: "string \<Rightarrow> string list \<Rightarrow> string" where
  "func_lastword o1 argv =
     (case token_loop (\<lambda>_ t i. Some (t, i)) None (argv ! 0) of
        None \<Rightarrow> o1
      | Some (p, i) \<Rightarrow> variable_buffer_output o1 p i)"

text \<open>\<open>sprintf (buf, "%d", i)\<close> for a count, which is not negative.\<close>

fun dec_digits :: "nat \<Rightarrow> string" where
  "dec_digits n = (if n < 10 then [char_of (48 + n)] else dec_digits (n div 10) @ [char_of (48 + n mod 10)])"

declare dec_digits.simps [simp del]

definition func_words :: "string \<Rightarrow> string list \<Rightarrow> string" where
  "func_words o1 argv =
     (let buf = dec_digits (token_loop (\<lambda>i _ _. Suc i) 0 (argv ! 0))
      in variable_buffer_output o1 buf (length buf))"

text \<open>
  \<open>strip_whitespace\<close>: \<open>beg\<close> and \<open>end\<close> are positions in the string, \<open>end\<close> the last one looked at, which
  may be one before the first.
\<close>

function strip_begin :: "string \<Rightarrow> int \<Rightarrow> int \<Rightarrow> int" where
  "strip_begin s b e = (if b \<le> e \<and> ISSPACE (cget s (nat b)) then strip_begin s (b + 1) e else b)"
  by auto
termination by (relation "measure (\<lambda>(s, b, e). nat (e + 1 - b))") auto

function strip_end :: "string \<Rightarrow> int \<Rightarrow> int \<Rightarrow> int" where
  "strip_end s b e = (if e \<ge> b \<and> ISSPACE (cget s (nat e)) then strip_end s b (e - 1) else e)"
  by auto
termination by (relation "measure (\<lambda>(s, b, e). nat (e + 1 - b))") auto

declare strip_begin.simps [simp del] strip_end.simps [simp del]

definition strip_whitespace :: "string \<Rightarrow> int \<Rightarrow> int \<Rightarrow> int \<times> int" where
  "strip_whitespace s b e = (let b' = strip_begin s b e in (b', strip_end s b' e))"

function numeric_loop :: "string \<Rightarrow> int \<Rightarrow> int \<Rightarrow> int" where
  "numeric_loop s b e = (if b \<le> e \<and> isdigit (cget s (nat b)) then numeric_loop s (b + 1) e else b)"
  by auto
termination by (relation "measure (\<lambda>(s, b, e). nat (e + 1 - b))") auto

declare numeric_loop.simps [simp del]

definition check_numeric :: "string \<Rightarrow> string \<Rightarrow> (make_error, unit) outcome" where
  "check_numeric s msg =
     (let (b, e) = strip_whitespace s 0 (int (length s) - 1);
          b' = numeric_loop s b e
      in if b' \<le> e \<or> e < 0 then Fatal (NonNumeric msg s) else Ok ())"

text \<open>
  \<open>atoi\<close>: spaces, an optional sign and digits. Its behaviour is undefined where the value does not
  fit an \<open>int\<close>.
\<close>

definition atoi :: "string \<Rightarrow> (make_error, int) outcome" where
  "atoi s =
     (let t = dropWhile isspace s;
          neg = (peek t = CHR ''-'');
          u = (if neg \<or> peek t = CHR ''+'' then tl t else t);
          v = int (dec_value (takeWhile isdigit u));
          n = (if neg then - v else v)
      in if - (2 ^ 31) \<le> n \<and> n < 2 ^ 31 then Ok n else Undef SignedOverflow)"

text \<open>
  \<open>while ((p = find_next_token (&end_p, 0)) != 0) if (--i == 0) break;\<close> -- the result is the last
  \<open>p\<close>, \<open>i\<close> and \<open>end_p\<close>.
\<close>

function word_loop :: "int \<Rightarrow> string \<Rightarrow> string option \<times> int \<times> string" where
  "word_loop i end_p =
     (case find_next_token end_p of
        None \<Rightarrow> (None, i, end_p)
      | Some (p, len, end_p') \<Rightarrow> if i - 1 = 0 then (Some p, i - 1, end_p') else word_loop (i - 1) end_p')"
  by auto
termination by (relation "measure (\<lambda>(_, e). length e)") (auto dest: find_next_token_shorter)

declare word_loop.simps [simp del]

definition func_word :: "string \<Rightarrow> string list \<Rightarrow> (make_error, string) outcome" where
  "func_word o1 argv =
     obind (check_numeric (argv ! 0) ''non-numeric first argument to 'word' function'') (\<lambda>_.
     obind (atoi (argv ! 0)) (\<lambda>i.
       if i = 0 then Fatal WordNotPositive
       else
         (case word_loop i (argv ! 1) of
            (Some p, i, end_p) \<Rightarrow>
              Ok (if i = 0 then variable_buffer_output o1 p (length p - length end_p) else o1)
          | (None, i, end_p) \<Rightarrow> if i = 0 then Undef NullDeref else Ok o1)))"

text \<open>\<open>while (((p = find_next_token (&end_p, 0)) != 0) && --start);\<close>\<close>

function start_loop :: "int \<Rightarrow> string \<Rightarrow> string option \<times> string" where
  "start_loop start end_p =
     (case find_next_token end_p of
        None \<Rightarrow> (None, end_p)
      | Some (p, len, end_p') \<Rightarrow> if start - 1 \<noteq> 0 then start_loop (start - 1) end_p' else (Some p, end_p'))"
  by auto
termination by (relation "measure (\<lambda>(_, e). length e)") (auto dest: find_next_token_shorter)

text \<open>\<open>while (--count && (find_next_token (&end_p, 0) != 0));\<close>\<close>

function count_loop :: "int \<Rightarrow> string \<Rightarrow> string" where
  "count_loop count end_p =
     (if count - 1 \<noteq> 0 then
        (case find_next_token end_p of
           None \<Rightarrow> end_p
         | Some (p, len, end_p') \<Rightarrow> count_loop (count - 1) end_p')
      else end_p)"
  by auto
termination by (relation "measure (\<lambda>(_, e). length e)") (auto dest: find_next_token_shorter)

declare start_loop.simps [simp del] count_loop.simps [simp del]

definition func_wordlist :: "string \<Rightarrow> string list \<Rightarrow> (make_error, string) outcome" where
  "func_wordlist o1 argv =
     obind (check_numeric (argv ! 0) ''non-numeric first argument to 'wordlist' function'') (\<lambda>_.
     obind (check_numeric (argv ! 1) ''non-numeric second argument to 'wordlist' function'') (\<lambda>_.
     obind (atoi (argv ! 0)) (\<lambda>start.
       if start < 1 then Fatal (WordlistStart start)
       else
         obind (atoi (argv ! 1)) (\<lambda>n.
           let count = n - start + 1
           in if count > 0 then
                (case start_loop start (argv ! 2) of
                   (None, _) \<Rightarrow> Ok o1
                 | (Some p, end_p) \<Rightarrow> Ok (variable_buffer_output o1 p (length p - length (count_loop count end_p))))
              else Ok o1))))"

definition func_findstring :: "string \<Rightarrow> string list \<Rightarrow> string" where
  "func_findstring o1 argv =
     (if strstr (argv ! 1) (argv ! 0) \<noteq> None then variable_buffer_output o1 (argv ! 0) (length (argv ! 0)) else o1)"

function strip_loop :: "string \<times> bool \<Rightarrow> string \<Rightarrow> string \<times> bool" where
  "strip_loop r p =
     (if peek p = NUL then r
      else
        (let word_start = next_token p;
             p' = dropWhile (\<lambda>c. c \<noteq> NUL \<and> \<not> ISSPACE c) word_start;
             i = length word_start - length p'
         in if i = 0 then r
            else strip_loop (variable_buffer_output (variable_buffer_output (fst r) word_start i) '' '' 1, True) p'))"
  by auto
termination
proof (relation "measure (\<lambda>(_, p). length p)")
  fix r :: "string \<times> bool" and p word_start p' :: string and i
  assume "word_start = next_token p" and "i = length word_start - length p'" and "i \<noteq> 0"
  then show "(((variable_buffer_output (variable_buffer_output (fst r) word_start i) '' '' 1, True), p'), r, p)
      \<in> measure (\<lambda>(_, p). length p)"
    using length_next_token [of p] by auto
qed simp

declare strip_loop.simps [simp del]

definition func_strip :: "string \<Rightarrow> string list \<Rightarrow> string" where
  "func_strip o1 argv = kill_last (strip_loop (o1, False) (argv ! 0))"

section \<open>Variables of a list\<close>

record variable =
  var_name :: string
  var_value :: string

text \<open>
  \<open>parse_value_name_argument\<close> gets \<open>end\<close> at the terminator, so nothing is stripped at the end.
\<close>

definition parse_value_name_argument :: "string option \<Rightarrow> string \<Rightarrow> (make_error, bool) outcome" where
  "parse_value_name_argument arg1 funcname =
     (case arg1 of
        None \<Rightarrow> Ok False
      | Some s \<Rightarrow>
          let (b, e) = strip_whitespace s 0 (int (length s));
              a = drop (nat b) s;
              n = nat (e - b)
          in if strneq a ''name'' n then Ok False
             else if strneq a ''value'' n then Ok True
             else Fatal (NotNameOrValue funcname a))"

function first_loop :: "(string \<Rightarrow> variable option) \<Rightarrow> string \<Rightarrow> (string \<times> nat \<times> variable) option" where
  "first_loop lookup_variable words =
     (case find_next_token words of
        None \<Rightarrow> None
      | Some (p, i, words') \<Rightarrow>
          (case lookup_variable (take i p) of
             None \<Rightarrow> first_loop lookup_variable words'
           | Some v \<Rightarrow> if var_value v \<noteq> [] then Some (p, i, v) else first_loop lookup_variable words'))"
  by auto
termination by (relation "measure (\<lambda>(_, e). length e)") (auto dest: find_next_token_shorter)

declare first_loop.simps [simp del]

definition func_firstdefined :: "(string \<Rightarrow> variable option) \<Rightarrow> (string \<Rightarrow> string) \<Rightarrow> string \<Rightarrow> string list
    \<Rightarrow> string \<Rightarrow> (make_error, string) outcome" where
  "func_firstdefined lookup_variable expand o1 argv funcname =
     obind (parse_value_name_argument (if 1 < length argv then Some (argv ! 1) else None) funcname) (\<lambda>ret_value.
       case first_loop lookup_variable (argv ! 0) of
         None \<Rightarrow> Ok o1
       | Some (p, i, v) \<Rightarrow> Ok (if ret_value then o1 @ expand (var_value v) else variable_buffer_output o1 p i))"

definition func_lastdefined :: "(string \<Rightarrow> variable option) \<Rightarrow> (string \<Rightarrow> string) \<Rightarrow> string \<Rightarrow> string list
    \<Rightarrow> string \<Rightarrow> (make_error, string) outcome" where
  "func_lastdefined lookup_variable expand o1 argv funcname =
     obind (parse_value_name_argument (if 1 < length argv then Some (argv ! 1) else None) funcname) (\<lambda>ret_value.
       case first_loop lookup_variable (argv ! 0) of
         None \<Rightarrow> Ok o1
       | Some (p, i, last_v) \<Rightarrow>
           Ok (if ret_value then o1 @ expand (var_value last_v)
               else variable_buffer_output o1 (var_name last_v) (length (var_name last_v))))"

end
