(* ===== verification/MakeWordsProps.thy ===== *)
theory MakeWordsProps
  imports MakeSubstProps MakeWords
begin

text \<open>
  What the word functions compute, in terms of the words of their texts, and how they fit together:
  selecting words, taking file names apart and joining the parts again.
\<close>

section \<open>Words put together\<close>

lemma words_of_join:
  "\<forall>w\<in>set ws. is_word w \<Longrightarrow> words_of (join_words ws) = ws"
proof (induction ws rule: join_words.induct)
  case (2 w)
  then show ?case using words_of_word [of w "[]"] by simp
next
  case (3 w v ws)
  have "words_of (w @ '' '' @ join_words (v # ws)) = w # words_of ('' '' @ join_words (v # ws))"
    using 3 by (intro words_of_word) (auto simp: ISBLANK_def)
  then show ?case using 3 by (simp add: ISBLANK_def)
qed simp

lemma set_join_words: "set (join_words ws) \<subseteq> {CHR '' ''} \<union> (\<Union>w\<in>set ws. set w)"
  by (induction ws rule: join_words.induct) auto

lemma set_words_of: "w \<in> set (words_of s) \<Longrightarrow> set w \<subseteq> set s"
proof (induction s rule: words_of.induct)
  case (1 s)
  let ?p = "dropWhile ISBLANK s"
  have ne: "?p \<noteq> []" using "1.prems" by (subst (asm) words_of.simps) (auto simp: Let_def split: if_splits)
  then have "w = takeWhile nonblank ?p \<or> w \<in> set (words_of (dropWhile nonblank ?p))"
    using "1.prems" by (subst (asm) words_of.simps) (auto simp: Let_def)
  then show ?case
    using "1.IH" [OF refl ne] by (auto dest: set_takeWhileD set_dropWhileD)
qed

section \<open>Affixes\<close>

lemma map_filter_Some: "List.map_filter (\<lambda>x. Some (f x)) xs = map f xs"
  by (induction xs) (auto simp: map_filter_simps)

lemma func_addsuffix_addprefix_correct:
  assumes "NUL \<notin> set txt"
  shows "func_addsuffix_addprefix o1 [fix, txt] funcname =
    o1 @ join_words (map (\<lambda>w. if cget funcname 3 = CHR ''p'' then fix @ w else w @ fix) (words_of txt))"
proof -
  have "func_addsuffix_addprefix o1 [fix, txt] funcname =
      o1 @ join_words (List.map_filter
        (\<lambda>w. Some (if cget funcname 3 = CHR ''p'' then fix @ w else w @ fix)) (words_of txt))"
    unfolding func_addsuffix_addprefix_def Let_def nth_Cons_0 nth_Cons_Suc One_nat_def
    by (rule token_words [OF assms]) (simp add: variable_buffer_output_def)
  then show ?thesis by (simp only: map_filter_Some)
qed

section \<open>Directories and names\<close>

definition after_stop :: "(char \<Rightarrow> bool) \<Rightarrow> string \<Rightarrow> string" where
  "after_stop P w = rev (takeWhile (\<lambda>c. \<not> P c) (rev w))"

definition upto_stop :: "(char \<Rightarrow> bool) \<Rightarrow> string \<Rightarrow> string" where
  "upto_stop P w = rev (dropWhile (\<lambda>c. \<not> P c) (rev w))"

lemma upto_after [simp]: "upto_stop P w @ after_stop P w = w"
  by (simp add: upto_stop_def after_stop_def flip: rev_append)

lemma upto_stop_snoc: "upto_stop P (w @ [c]) = (if P c then w @ [c] else upto_stop P w)"
  by (simp add: upto_stop_def)

lemma upto_stop_Nil [simp]: "upto_stop P [] = []"
  by (simp add: upto_stop_def)

lemma upto_stop_Nil_iff: "upto_stop P w = [] \<longleftrightarrow> (\<forall>c\<in>set w. \<not> P c)"
  by (auto simp: upto_stop_def dropWhile_eq_Nil_conv)

lemma scan_back_eq:
  "scan_back dos stop (w @ r) (length w) =
     (let d = upto_stop (\<lambda>c. STOP_SET dos c stop) w in if d = [] then None else Some (length d - 1))"
proof (induction w arbitrary: r rule: rev_induct)
  case (snoc c w)
  have "cget ((w @ [c]) @ r) (length w) = c" by (simp add: cget_def nth_append)
  then show ?case using snoc [of "c # r"] by (simp add: upto_stop_snoc Let_def)
qed simp

lemma last_upto_stop: "upto_stop P w \<noteq> [] \<Longrightarrow> P (last (upto_stop P w))"
  by (induction w rule: rev_induct) (auto simp: upto_stop_snoc split: if_splits)

lemma length_upto_stop: "length (upto_stop P w) + length (after_stop P w) = length w"
  by (metis length_append upto_after)

lemma take_upto: "take (length (upto_stop P w)) (w @ r) = upto_stop P w"
  and drop_upto: "drop (length (upto_stop P w)) (w @ r) = after_stop P w @ r"
proof -
  have "w @ r = upto_stop P w @ after_stop P w @ r" by (metis append_assoc upto_after)
  then show "take (length (upto_stop P w)) (w @ r) = upto_stop P w"
    and "drop (length (upto_stop P w)) (w @ r) = after_stop P w @ r" by (metis append_eq_conv_conj)+
qed

lemma cget_last: "d \<noteq> [] \<Longrightarrow> cget (d @ x) (length d - 1) = last d"
  by (cases d rule: rev_cases) (simp_all add: cget_def nth_append)

lemma cget_upto:
  assumes "upto_stop P w \<noteq> []"
  shows "cget (w @ r) (length (upto_stop P w) - 1) = last (upto_stop P w)"
  using cget_last [OF assms, of "after_stop P w @ r"] by (simp flip: append_assoc)

abbreviation is_slash :: "char \<Rightarrow> bool" where
  "is_slash c \<equiv> c = CHR ''/''"

abbreviation is_slash_dot :: "char \<Rightarrow> bool" where
  "is_slash_dot c \<equiv> c = CHR ''/'' \<or> c = CHR ''.''"

text \<open>The parts of one name, where only slashes separate directories.\<close>

definition dir_of :: "string \<Rightarrow> string" where
  "dir_of w = (if upto_stop is_slash w = [] then ''./'' else upto_stop is_slash w)"

definition notdir_of :: "string \<Rightarrow> string" where
  "notdir_of w = after_stop is_slash w"

definition suffix_of :: "string \<Rightarrow> string option" where
  "suffix_of w =
     (let d = upto_stop is_slash_dot w
      in if d \<noteq> [] \<and> last d = CHR ''.'' then Some (CHR ''.'' # after_stop is_slash_dot w) else None)"

definition basename_of :: "string \<Rightarrow> string" where
  "basename_of w =
     (let d = upto_stop is_slash_dot w
      in if d \<noteq> [] \<and> last d = CHR ''.'' then butlast d else w)"

lemma notdir_body_eq:
  "notdir_suffix_body False False (o1, any) (w @ r) (length w) = (o1 @ notdir_of w @ '' '', True)"
proof -
  let ?d = "upto_stop is_slash w"
  have "(\<lambda>c. STOP_SET False c ({MAP_DIRSEP} \<union> (if False then {MAP_DOT} else {}))) = is_slash" by auto
  note s = scan_back_eq [of False "{MAP_DIRSEP} \<union> (if False then {MAP_DOT} else {})" w r, unfolded this]
  show ?thesis
  proof (cases "?d = []")
    case True
    then show ?thesis
      unfolding notdir_suffix_body_def prod.case Let_def s
      using upto_after [of is_slash w] by (simp add: variable_buffer_output_def notdir_of_def)
  next
    case False
    then have "Suc (length ?d - 1) = length ?d" by simp
    moreover have "length w - length ?d = length (notdir_of w)"
      using length_upto_stop [of is_slash w] by (simp add: notdir_of_def)
    ultimately show ?thesis
      unfolding notdir_suffix_body_def prod.case Let_def s
      using False drop_upto [of is_slash w r] by (simp add: variable_buffer_output_def notdir_of_def)
  qed
qed


lemma split_last: "d \<noteq> [] \<Longrightarrow> d @ a @ r = butlast d @ last d # a @ r"
  by (cases d rule: rev_cases) simp_all

lemma suffix_body_eq:
  "notdir_suffix_body False True (o1, any) (w @ r) (length w) =
    (case suffix_of w of None \<Rightarrow> (o1, any) | Some x \<Rightarrow> (o1 @ x @ '' '', True))"
proof -
  let ?d = "upto_stop is_slash_dot w"
  have "(\<lambda>c. STOP_SET False c ({MAP_DIRSEP} \<union> (if True then {MAP_DOT} else {}))) = is_slash_dot"
    by (rule ext) auto
  note s = scan_back_eq [of False "{MAP_DIRSEP} \<union> (if True then {MAP_DOT} else {})" w r, unfolded this]
  show ?thesis
  proof (cases "?d = []")
    case True
    then show ?thesis
      unfolding notdir_suffix_body_def prod.case Let_def s by (simp add: suffix_of_def)
  next
    case False
    let ?p = "length ?d - 1"
    have l: "cget (w @ r) ?p = last ?d" using False by (rule cget_upto)
    have "(?d @ after_stop is_slash_dot w) @ r = butlast ?d @ last ?d # after_stop is_slash_dot w @ r"
      unfolding append_assoc by (rule split_last [OF False])
    then have d: "w @ r = butlast ?d @ last ?d # after_stop is_slash_dot w @ r" unfolding upto_after .
    have "drop ?p (w @ r) = last ?d # after_stop is_slash_dot w @ r"
      by (rule trans [OF arg_cong [OF d, of "drop ?p"]]) simp
    moreover have "length w - ?p = Suc (length (after_stop is_slash_dot w))"
      using length_upto_stop [of is_slash_dot w] False by (cases ?d) auto
    ultimately show ?thesis
      unfolding notdir_suffix_body_def prod.case Let_def s
      using False l by (simp add: variable_buffer_output_def suffix_of_def)
  qed
qed

lemma dir_body_eq:
  assumes "NUL \<notin> set w"
  shows "basename_dir_body False False (o1, any) (w @ r) (length w) = (o1 @ dir_of w @ '' '', True)"
proof -
  let ?stop = "{MAP_DIRSEP} \<union> (if False then {MAP_DOT} else {}) \<union> {MAP_NUL}"
  have "upto_stop (\<lambda>c. STOP_SET False c ?stop) w = upto_stop is_slash w"
    using assms unfolding upto_stop_def
    by (intro arg_cong [of _ _ rev] dropWhile_cong) auto
  note s = scan_back_eq [of False ?stop w r, unfolded this]
  show ?thesis
  proof (cases "upto_stop is_slash w = []")
    case True
    then show ?thesis
      unfolding basename_dir_body_def prod.case Let_def s
      by (simp add: variable_buffer_output_def dir_of_def)
  next
    case False
    then have "Suc (length (upto_stop is_slash w) - 1) = length (upto_stop is_slash w)" by simp
    then show ?thesis
      unfolding basename_dir_body_def prod.case Let_def s
      using False take_upto [of is_slash w r] by (simp add: variable_buffer_output_def dir_of_def)
  qed
qed

lemma basename_body_eq:
  assumes "NUL \<notin> set w"
  shows "basename_dir_body False True (o1, any) (w @ r) (length w) = (o1 @ basename_of w @ '' '', True)"
proof -
  let ?stop = "{MAP_DIRSEP} \<union> (if True then {MAP_DOT} else {}) \<union> {MAP_NUL}"
  let ?d = "upto_stop is_slash_dot w"
  have "upto_stop (\<lambda>c. STOP_SET False c ?stop) w = ?d"
    using assms unfolding upto_stop_def
    by (intro arg_cong [of _ _ rev] dropWhile_cong) auto
  note s = scan_back_eq [of False ?stop w r, unfolded this]
  show ?thesis
  proof (cases "?d = []")
    case True
    then show ?thesis
      unfolding basename_dir_body_def prod.case Let_def s
      by (simp add: variable_buffer_output_def basename_of_def)
  next
    case False
    have l: "cget (w @ r) (length ?d - 1) = last ?d" using False by (rule cget_upto)
    have "take (length ?d - 1) (w @ r) = take (length ?d - 1) (take (length ?d) (w @ r))" by (simp add: min_def)
    also have "\<dots> = butlast ?d" unfolding take_upto by (simp add: butlast_conv_take)
    finally have "take (length ?d - 1) (w @ r) = butlast ?d" .
    then show ?thesis
      unfolding basename_dir_body_def prod.case Let_def s
      using False l by (simp add: variable_buffer_output_def basename_of_def)
  qed
qed

text \<open>The four functions, on a text.\<close>

lemma func_dir_correct:
  assumes "NUL \<notin> set txt"
  shows "func_basename_dir False o1 [txt] ''dir'' = o1 @ join_words (map dir_of (words_of txt))"
proof -
  have "func_basename_dir False o1 [txt] ''dir'' = o1 @ join_words (List.map_filter (\<lambda>w. Some (dir_of w)) (words_of txt))"
    unfolding func_basename_dir_def Let_def nth_Cons_0
    by (rule token_words [OF assms]) (simp add: dir_body_eq)
  then show ?thesis by (simp only: map_filter_Some)
qed

lemma func_basename_correct:
  assumes "NUL \<notin> set txt"
  shows "func_basename_dir False o1 [txt] ''basename'' = o1 @ join_words (map basename_of (words_of txt))"
proof -
  have "func_basename_dir False o1 [txt] ''basename'' = o1 @ join_words (List.map_filter (\<lambda>w. Some (basename_of w)) (words_of txt))"
    unfolding func_basename_dir_def Let_def nth_Cons_0
    by (rule token_words [OF assms]) (simp add: basename_body_eq)
  then show ?thesis by (simp only: map_filter_Some)
qed

lemma func_notdir_correct:
  assumes "NUL \<notin> set txt"
  shows "func_notdir_suffix False o1 [txt] ''notdir'' = o1 @ join_words (map notdir_of (words_of txt))"
proof -
  have "func_notdir_suffix False o1 [txt] ''notdir'' = o1 @ join_words (List.map_filter (\<lambda>w. Some (notdir_of w)) (words_of txt))"
    unfolding func_notdir_suffix_def Let_def nth_Cons_0
    by (rule token_words [OF assms]) (simp add: notdir_body_eq)
  then show ?thesis by (simp only: map_filter_Some)
qed

lemma func_suffix_correct:
  assumes "NUL \<notin> set txt"
  shows "func_notdir_suffix False o1 [txt] ''suffix'' = o1 @ join_words (List.map_filter suffix_of (words_of txt))"
  unfolding func_notdir_suffix_def Let_def nth_Cons_0
  by (rule token_words [OF assms]) (simp add: suffix_body_eq)

section \<open>Joining\<close>

fun zip_words :: "string list \<Rightarrow> string list \<Rightarrow> string list" where
  "zip_words [] vs = vs"
| "zip_words ws [] = ws"
| "zip_words (w # ws) (v # vs) = (w @ v) # zip_words ws vs"

lemma next_word:
  assumes "NUL \<notin> set s"
  obtains "words_of s = []" and "find_next_token s = None"
  | w r where "words_of s = w # words_of r" and "find_next_token s = Some (w @ r, length w, r)" and "NUL \<notin> set r"
      and "is_word w" and "r = [] \<or> ISBLANK (peek r)" and "length r < length s"
proof (cases "dropWhile ISBLANK s = []")
  case True
  then show ?thesis
    using that(1) assms by (simp add: find_next_token_eq words_of.simps)
next
  case False
  let ?p = "dropWhile ISBLANK s"
  have f: "find_next_token s = Some (takeWhile nonblank ?p @ dropWhile nonblank ?p, length (takeWhile nonblank ?p), dropWhile nonblank ?p)"
    using assms False by (simp add: find_next_token_eq Let_def)
  moreover have w: "words_of s = takeWhile nonblank ?p # words_of (dropWhile nonblank ?p)"
    using False by (subst words_of.simps) (simp add: Let_def)
  moreover have "NUL \<notin> set (dropWhile nonblank ?p)" using assms by (meson set_dropWhileD)
  moreover have "is_word (takeWhile nonblank ?p)" by (rule is_word_words_of [of _ s]) (simp add: w)
  ultimately show ?thesis using that(2) dropWhile_nonblank_rest find_next_token_shorter by blast
qed

lemma join_loop_eq:
  "NUL \<notin> set a \<Longrightarrow> NUL \<notin> set b \<Longrightarrow>
    join_loop (o1, any) a b = (o1 @ spaced (zip_words (words_of a) (words_of b)), any \<or> zip_words (words_of a) (words_of b) \<noteq> [])"
proof (induction "length a + length b" arbitrary: o1 any a b rule: less_induct)
  case less
  show ?case
  proof (cases rule: next_word [OF less.prems(1)])
    case a: 1
    show ?thesis
    proof (cases rule: next_word [OF less.prems(2)])
      case b: 1
      then show ?thesis using a by (subst join_loop.simps) (simp add: token_output_def)
    next
      case b: (2 w r)
      then have "join_loop (o1 @ w @ '' '', True) a r = (o1 @ w @ '' '' @ spaced (words_of r), True)"
        using less.hyps [of a r] less.prems a by simp
      then show ?thesis
        using a b by (subst join_loop.simps) (simp add: token_output_def variable_buffer_output_def)
    qed
  next
    case a: (2 w r)
    show ?thesis
    proof (cases rule: next_word [OF less.prems(2)])
      case b: 1
      then have "join_loop (o1 @ w @ '' '', True) r b = (o1 @ w @ '' '' @ spaced (words_of r), True)"
        using less.hyps [of r b] less.prems a by (cases "words_of r") simp_all
      then show ?thesis
        using a b by (subst join_loop.simps) (simp add: token_output_def variable_buffer_output_def)
    next
      case b: (2 v q)
      then have "join_loop (o1 @ w @ v @ '' '', True) r q = (o1 @ w @ v @ '' '' @ spaced (zip_words (words_of r) (words_of q)), True)"
        using less.hyps [of r q] a by simp
      then show ?thesis
        using a b by (subst join_loop.simps) (simp add: token_output_def variable_buffer_output_def)
    qed
  qed
qed

lemma func_join_correct:
  assumes "NUL \<notin> set a" and "NUL \<notin> set b"
  shows "func_join o1 [a, b] = o1 @ join_words (zip_words (words_of a) (words_of b))"
  using join_loop_eq [OF assms, of o1 False]
  by (cases "zip_words (words_of a) (words_of b) = []")
    (simp_all add: func_join_def kill_last_def butlast_spaced butlast_append)

end
