(* ===== verification/MakeNames.thy ===== *)
theory MakeNames
  imports MakeWordsProps
begin

text \<open>
  Taking lists of file names apart and joining them again, the root of a name, and the functions
  that take the first or the last defined variable of a list.
\<close>

section \<open>Round trips over file names\<close>

lemma upto_stop_snoc_last:
  assumes "\<not> P (last w)" and "w \<noteq> []"
  shows "after_stop P w \<noteq> []"
  using assms by (cases w rule: rev_cases) (auto simp: after_stop_def)

lemma dir_notdir_of:
  assumes "is_word w" and "last w \<noteq> CHR ''/''"
  shows "is_word (dir_of w) \<and> is_word (notdir_of w)
    \<and> dir_of w @ notdir_of w = (if CHR ''/'' \<in> set w then w else ''./'' @ w)"
proof -
  have w: "w \<noteq> []" "\<forall>c\<in>set w. nonblank c" using assms(1) by (simp_all add: is_word_def)
  have "\<forall>c\<in>set (upto_stop is_slash w). nonblank c" and "\<forall>c\<in>set (after_stop is_slash w). nonblank c"
    using w(2) by (auto simp: upto_stop_def after_stop_def dest: set_takeWhileD set_dropWhileD)
  moreover have "after_stop is_slash w \<noteq> []" using assms(2) w(1) by (intro upto_stop_snoc_last) auto
  moreover have "upto_stop is_slash w = [] \<longleftrightarrow> CHR ''/'' \<notin> set w" by (auto simp: upto_stop_Nil_iff)
  moreover have "upto_stop is_slash w = [] \<Longrightarrow> after_stop is_slash w = w" using upto_after [of is_slash w] by simp
  moreover have "nonblank CHR ''.''" "nonblank CHR ''/''" by (simp_all add: nonblank_def ISBLANK_def)
  ultimately show ?thesis by (auto simp: is_word_def dir_of_def notdir_of_def)
qed

lemma zip_words_map: "zip_words (map f ws) (map g ws) = map (\<lambda>w. f w @ g w) ws"
  by (induction ws) auto

lemma no_NUL_join: "\<forall>w\<in>set ws. NUL \<notin> set w \<Longrightarrow> NUL \<notin> set (join_words ws)"
  using set_join_words [of ws] by auto

lemma dir_of_no_NUL: "NUL \<notin> set w \<Longrightarrow> NUL \<notin> set (dir_of w)"
  and notdir_of_no_NUL: "NUL \<notin> set w \<Longrightarrow> NUL \<notin> set (notdir_of w)"
  by (auto simp: dir_of_def notdir_of_def upto_stop_def after_stop_def dest: set_takeWhileD set_dropWhileD)

text \<open>Joining the directories and the names of a list gives the list, where the names without a directory
  get the current one, as long as no name ends in a slash.\<close>

theorem join_dir_notdir:
  assumes "NUL \<notin> set txt" and "\<forall>w\<in>set (words_of txt). last w \<noteq> CHR ''/''"
  shows "func_join o1 [func_basename_dir False [] [txt] ''dir'', func_notdir_suffix False [] [txt] ''notdir''] =
    o1 @ join_words (map (\<lambda>w. if CHR ''/'' \<in> set w then w else ''./'' @ w) (words_of txt))"
proof -
  let ?ws = "words_of txt"
  have ok: "is_word w \<and> NUL \<notin> set w \<and> last w \<noteq> CHR ''/''" if "w \<in> set ?ws" for w
    using that assms is_word_words_of set_words_of by blast
  have d: "words_of (join_words (map dir_of ?ws)) = map dir_of ?ws"
    and n: "words_of (join_words (map notdir_of ?ws)) = map notdir_of ?ws"
    using ok dir_notdir_of by (intro words_of_join; force)+
  have "NUL \<notin> set (join_words (map dir_of ?ws))" "NUL \<notin> set (join_words (map notdir_of ?ws))"
    using ok dir_of_no_NUL notdir_of_no_NUL by (intro no_NUL_join; simp)+
  then have "func_join o1 [join_words (map dir_of ?ws), join_words (map notdir_of ?ws)] =
      o1 @ join_words (map (\<lambda>w. dir_of w @ notdir_of w) ?ws)"
    by (simp add: func_join_correct d n zip_words_map)
  moreover have "map (\<lambda>w. dir_of w @ notdir_of w) ?ws = map (\<lambda>w. if CHR ''/'' \<in> set w then w else ''./'' @ w) ?ws"
    using ok dir_notdir_of by (intro map_cong refl) blast
  ultimately show ?thesis
    using assms(1) by (simp add: func_dir_correct func_notdir_correct)
qed

theorem join_dir_notdir_witness:
  "func_join ''x'' [func_basename_dir False [] [''a/b c''] ''dir'', func_notdir_suffix False [] [''a/b c''] ''notdir''] = ''xa/b ./c''"
proof -
  have "words_of ''a/b c'' = [''a/b'', ''c'']" by code_simp
  then show ?thesis using join_dir_notdir [of "''a/b c''" "''x''"] by simp
qed

text \<open>A name is its base name and its suffix, where it has one.\<close>

lemma basename_suffix_of:
  "basename_of w @ (case suffix_of w of None \<Rightarrow> [] | Some x \<Rightarrow> x) = w"
  using split_last [of "upto_stop is_slash_dot w" "after_stop is_slash_dot w" "[]"] upto_after [of is_slash_dot w]
  by (auto simp: basename_of_def suffix_of_def Let_def)

text \<open>\<open>$(addsuffix .x,...)\<close> gives every name the suffix \<open>.x\<close>, and \<open>$(basename ...)\<close> takes it away.\<close>

lemma basename_of_addsuffix:
  assumes "CHR ''/'' \<notin> set x" and "CHR ''.'' \<notin> set x"
  shows "basename_of (w @ CHR ''.'' # x) = w \<and> suffix_of (w @ CHR ''.'' # x) = Some (CHR ''.'' # x)"
proof -
  have x: "\<forall>c\<in>set x. \<not> is_slash_dot c" using assms by auto
  have "takeWhile (\<lambda>c. \<not> is_slash_dot c) (rev x @ CHR ''.'' # rev w) = rev x"
    using x by (subst takeWhile_append2) auto
  moreover have "dropWhile (\<lambda>c. \<not> is_slash_dot c) (rev x @ CHR ''.'' # rev w) = CHR ''.'' # rev w"
    using x by (subst dropWhile_append2) auto
  ultimately have "after_stop is_slash_dot (w @ CHR ''.'' # x) = x"
    and "upto_stop is_slash_dot (w @ CHR ''.'' # x) = w @ [CHR ''.'']"
    by (simp_all add: after_stop_def upto_stop_def)
  then show ?thesis by (simp add: basename_of_def suffix_of_def)
qed

text \<open>The base names of a list with a suffix added to every word are the words of the list.\<close>

theorem basename_addsuffix:
  assumes "NUL \<notin> set txt" and "is_word (CHR ''.'' # x)" and "set x \<inter> {CHR ''/'', CHR ''.'', NUL} = {}"
  shows "func_basename_dir False o1 [func_addsuffix_addprefix [] [CHR ''.'' # x, txt] ''addsuffix''] ''basename'' =
    o1 @ join_words (words_of txt)"
proof -
  let ?ws = "map (\<lambda>w. w @ CHR ''.'' # x) (words_of txt)"
  have add: "func_addsuffix_addprefix [] [CHR ''.'' # x, txt] ''addsuffix'' = join_words ?ws"
    using assms(1) by (simp add: func_addsuffix_addprefix_correct)
  have "\<forall>w\<in>set ?ws. is_word w"
    using assms(2) is_word_words_of by (auto simp: is_word_def)
  then have "words_of (join_words ?ws) = ?ws" by (rule words_of_join)
  moreover have "NUL \<notin> set (join_words ?ws)"
    using assms set_words_of by (intro no_NUL_join) fastforce
  ultimately show ?thesis
    using assms(3) unfolding add by (simp add: func_basename_correct basename_of_addsuffix comp_def)
qed

theorem basename_addsuffix_witness:
  "func_basename_dir False ''x'' [func_addsuffix_addprefix [] [''.o'', ''a/b.c d''] ''addsuffix''] ''basename'' = ''xa/b.c d''"
proof -
  have "join_words (words_of ''a/b.c d'') = ''a/b.c d''" "is_word ''.o''" by code_simp+
  then show ?thesis using basename_addsuffix [of "''a/b.c d''" "''o''" "''x''"] by simp
qed

section \<open>Defined variables\<close>

text \<open>The second argument: blanks before it are skipped, and any prefix of the two words will do.\<close>

lemma strneq_prefix:
  "NUL \<notin> set a \<Longrightarrow> NUL \<notin> set b \<Longrightarrow> strneq a b (length a) \<longleftrightarrow> a = take (length a) b"
  by (simp add: strneq_take)

text \<open>The function for the last defined variable of a list returns what the one for the first returns.\<close>

theorem func_lastdefined_is_first:
  assumes "\<And>w v. lookup w = Some v \<Longrightarrow> var_name v = w"
  shows "func_lastdefined lookup expand o1 argv funcname = func_firstdefined lookup expand o1 argv funcname"
proof -
  have f: "first_loop lookup s = Some (p, i, v) \<Longrightarrow> lookup (take i p) = Some v" for s p i v
  proof (induction "length s" arbitrary: s rule: less_induct)
    case less
    then obtain q n s' where t: "find_next_token s = Some (q, n, s')"
      by (subst (asm) (2) first_loop.simps) (auto split: option.splits)
    then have "length s' < length s" by (rule find_next_token_shorter)
    then show ?case
      using less.prems less.hyps [of s'] t
      by (subst (asm) first_loop.simps) (auto split: option.splits if_splits)
  qed
  show ?thesis
  proof (cases "first_loop lookup (argv ! 0)")
    case (Some r)
    then obtain p i v where r: "first_loop lookup (argv ! 0) = Some (p, i, v)" by (cases r) auto
    then have "var_name v = take i p" using f assms by blast
    then have e: "variable_buffer_output o1 (var_name v) (length (var_name v)) = variable_buffer_output o1 p i"
      by (simp add: variable_buffer_output_def min_def)
    show ?thesis unfolding func_lastdefined_def func_firstdefined_def r option.case prod.case e by (rule refl)
  qed (simp add: func_lastdefined_def func_firstdefined_def)
qed


theorem func_lastdefined_is_first_witness:
  "func_lastdefined (\<lambda>w. if w = ''A'' \<or> w = ''B'' then Some \<lparr>var_name = w, var_value = ''v''\<rparr> else None) id ''x'' [''A B''] ''lastdefined'' =
    func_firstdefined (\<lambda>w. if w = ''A'' \<or> w = ''B'' then Some \<lparr>var_name = w, var_value = ''v''\<rparr> else None) id ''x'' [''A B''] ''lastdefined''"
  by (rule func_lastdefined_is_first) (auto split: if_splits)

section \<open>Stripping\<close>

text \<open>Every white space counts as a blank for \<open>$(strip)\<close>.\<close>

definition as_blank :: "char \<Rightarrow> char" where
  "as_blank c = (if ISSPACE c then CHR '' '' else c)"

lemma ISBLANK_as_blank: "ISBLANK (as_blank c) \<longleftrightarrow> ISSPACE c"
  by (auto simp: as_blank_def ISSPACE_def ISBLANK_def)

lemma words_of_as_blank:
  "words_of (map as_blank p) =
    (let n = dropWhile ISSPACE p
     in if n = [] then []
        else takeWhile (\<lambda>c. \<not> ISSPACE c) n # words_of (map as_blank (dropWhile (\<lambda>c. \<not> ISSPACE c) n)))"
proof -
  let ?n = "dropWhile ISSPACE p"
  have d: "dropWhile ISBLANK (map as_blank p) = map as_blank ?n"
    by (simp add: dropWhile_map comp_def ISBLANK_as_blank)
  have "takeWhile nonblank (map as_blank ?n) = map as_blank (takeWhile (\<lambda>c. \<not> ISSPACE c) ?n)"
    by (simp add: takeWhile_map comp_def ISBLANK_as_blank nonblank_def)
  also have "\<dots> = takeWhile (\<lambda>c. \<not> ISSPACE c) ?n"
    by (rule map_idI) (auto simp: as_blank_def dest: set_takeWhileD)
  finally have t: "takeWhile nonblank (map as_blank ?n) = takeWhile (\<lambda>c. \<not> ISSPACE c) ?n" .
  have r: "dropWhile nonblank (map as_blank ?n) = map as_blank (dropWhile (\<lambda>c. \<not> ISSPACE c) ?n)"
    by (simp add: dropWhile_map comp_def ISBLANK_as_blank nonblank_def)
  show ?thesis
    by (subst words_of.simps) (simp only: d t r Let_def map_is_Nil_conv)
qed

lemma strip_loop_eq:
  "NUL \<notin> set p \<Longrightarrow> strip_loop (o1, any) p =
    (o1 @ spaced (words_of (map as_blank p)), any \<or> words_of (map as_blank p) \<noteq> [])"
proof (induction "length p" arbitrary: p o1 any rule: less_induct)
  case less
  let ?n = "dropWhile ISSPACE p"
  let ?q = "dropWhile (\<lambda>c. \<not> ISSPACE c) ?n"
  have nz: "NUL \<notin> set ?n" "NUL \<notin> set ?q" using less.prems by (auto dest: set_dropWhileD)
  have q: "dropWhile (\<lambda>c. c \<noteq> NUL \<and> \<not> ISSPACE c) ?n = ?q"
    using nz(1) by (intro dropWhile_cong) auto
  show ?case
  proof (cases "?n = []")
    case True
    then show ?thesis
      using less.prems by (subst strip_loop.simps) (simp add: next_token_dropWhile words_of_as_blank)
  next
    case False
    then obtain c n' where n: "?n = c # n'" and c: "\<not> ISSPACE c"
      by (cases ?n) (auto simp: dropWhile_eq_Cons_conv)
    let ?w = "takeWhile (\<lambda>c. \<not> ISSPACE c) ?n"
    have l: "length ?n - length ?q = length ?w" "take (length ?w) ?n = ?w"
      using takeWhile_dropWhile_id [of "\<lambda>c. \<not> ISSPACE c" ?n] by (metis add_diff_cancel_right' length_append) (metis append_eq_conv_conj takeWhile_dropWhile_id)
    have wpos: "length ?w \<noteq> 0" using n c by simp
    have "p \<noteq> []" using False by auto
    then have pk: "peek p \<noteq> NUL" using less.prems by (cases p) auto
    have "length ?q < length ?n" using l wpos by linarith
    also have "\<dots> \<le> length p" by (rule length_dropWhile_le)
    finally have IH: "strip_loop (o1 @ ?w @ '' '', True) ?q =
        ((o1 @ ?w @ '' '') @ spaced (words_of (map as_blank ?q)), True \<or> words_of (map as_blank ?q) \<noteq> [])"
      using nz(2) by (intro less.hyps)
    have "strip_loop (o1, any) p = strip_loop (o1 @ ?w @ '' '', True) ?q"
      using pk wpos l(2)
      by (subst strip_loop.simps) (simp only: next_token_dropWhile q l(1) Let_def if_False fst_conv variable_buffer_output_def append_assoc, simp)
    moreover have "words_of (map as_blank p) = ?w # words_of (map as_blank ?q)"
      using False by (subst words_of_as_blank) (simp only: Let_def if_False)
    ultimately show ?thesis using IH by simp
  qed
qed

lemma func_strip_correct:
  assumes "NUL \<notin> set s"
  shows "func_strip o1 [s] = o1 @ join_words (words_of (map as_blank s))"
  using strip_loop_eq [OF assms, of o1 False]
  by (cases "words_of (map as_blank s) = []")
    (simp_all add: func_strip_def kill_last_def butlast_spaced butlast_append)

lemma words_no_space:
  assumes "w \<in> set (words_of (map as_blank s))" and "c \<in> set w"
  shows "\<not> ISSPACE c"
proof
  assume "ISSPACE c"
  have "c \<in> set (map as_blank s)" using assms set_words_of by blast
  then have "c = CHR '' ''" using \<open>ISSPACE c\<close> by (auto simp: as_blank_def split: if_splits)
  moreover have "nonblank c" using is_word_words_of [OF assms(1)] assms(2) by (simp add: is_word_def)
  ultimately show False by (simp add: nonblank_def ISBLANK_def)
qed

text \<open>Stripping a stripped text changes nothing.\<close>

theorem func_strip_idempotent:
  assumes "NUL \<notin> set s"
  shows "func_strip o1 [func_strip [] [s]] = o1 @ func_strip [] [s]"
proof -
  let ?ws = "words_of (map as_blank s)"
  have "map as_blank (join_words ?ws) = join_words ?ws"
  proof (rule map_idI)
    fix c assume "c \<in> set (join_words ?ws)"
    then have "c = CHR '' '' \<or> (\<exists>w\<in>set ?ws. c \<in> set w)" using set_join_words [of ?ws] by blast
    then show "as_blank c = c" using words_no_space [of _ s c] by (auto simp: as_blank_def)
  qed
  moreover have "words_of (join_words ?ws) = ?ws" using is_word_words_of by (intro words_of_join) auto
  moreover have "NUL \<notin> set (join_words ?ws)"
  proof (rule no_NUL_join, intro ballI)
    fix w assume "w \<in> set ?ws"
    then have "set w \<subseteq> as_blank ` set s" using set_words_of by fastforce
    then show "NUL \<notin> set w" using assms by (auto simp: as_blank_def split: if_splits)
  qed
  ultimately show ?thesis using assms by (simp add: func_strip_correct)
qed

theorem func_strip_idempotent_witness:
  "func_strip ''x'' [func_strip [] ['' a  b '']] = ''x'' @ func_strip [] ['' a  b '']"
  using func_strip_idempotent [of "'' a  b ''" "''x''"] by simp

end
