(* ===== verification/MakeFilter.thy ===== *)
theory MakeFilter
  imports MakeSubst HashCorrect
begin

text \<open>
  \<open>$(filter)\<close> and \<open>$(filter-out)\<close> of \<open>src/kmk/function.c\<close>. The patterns and the words are lists in
  the order of their \<open>next\<close> pointers, and a pointer to a word is its index. Long lists are matched
  through a hash table of the words, whose keys are words of the list or the key on the stack
  (\<open>StackKey\<close>, with the fields the callbacks read); words with the same text are chained.
  \<open>None\<close> is not returning, as in theory \<open>Hash\<close>. The counts \<open>literals\<close> and \<open>words\<close> and their product, which
  decides between the table and the linear search, are natural numbers; in the code they are of
  type \<open>int\<close>, and the product of two large counts overflows. The property of theory
  \<open>MakeFilterCorrect\<close> gives the same result for either choice.
\<close>

record filter_word = a_word +
  chain :: "nat option"
  matched :: bool

datatype word_ptr = WordAt nat | StackKey string int

record a_pattern =
  pat_str :: string
  percent :: "nat option"
  pat_length :: int
  sfxlen :: nat

section \<open>Chopping the arguments up\<close>

function chop_patterns :: "string \<Rightarrow> (unit, a_pattern list) outcome" where
  "chop_patterns pat_iterator =
     (case find_next_token pat_iterator of
        None \<Rightarrow> Ok []
      | Some (p, len, it) \<Rightarrow>
          obind (find_percent (take len p)) (\<lambda>(s, n).
          obind (chop_patterns (if peek it \<noteq> NUL then tl it else it)) (\<lambda>ps.
            Ok (\<lparr>pat_str = s, percent = n, pat_length = int (length s),
                 sfxlen = (case n of Some n \<Rightarrow> length (drop (Suc n) s) | None \<Rightarrow> 0)\<rparr> # ps))))"
  by auto
termination
  by (relation "measure length") (auto dest: find_next_token_shorter simp: less_imp_diff_less)

function chop_words :: "string \<Rightarrow> filter_word list" where
  "chop_words word_iterator =
     (case find_next_token word_iterator of
        None \<Rightarrow> []
      | Some (p, len, it) \<Rightarrow>
          \<lparr>str = take len p, word_length = int len, chain = None, matched = False\<rparr>
            # chop_words (if peek it \<noteq> NUL then tl it else it))"
  by auto
termination
  by (relation "measure length") (auto dest: find_next_token_shorter simp: less_imp_diff_less)

declare chop_patterns.simps [simp del] chop_words.simps [simp del]

section \<open>The table of words\<close>

definition word_at :: "filter_word list \<Rightarrow> word_ptr \<Rightarrow> a_word" where
  "word_at ws p =
     (case p of
        WordAt i \<Rightarrow> a_word.truncate (ws ! i)
      | StackKey s n \<Rightarrow> \<lparr>str = s, word_length = n\<rparr>)"

definition words_table :: "filter_word list \<Rightarrow> word_ptr hash_table" where
  "words_table ws =
     hash_init (of_nat (length ws)) (Some (a_word_hash_1 (word_at ws))) (Some (a_word_hash_2 (word_at ws)))
       (Some (a_word_hash_cmp (word_at ws))) (\<lambda>_. 0)"

fun word_index :: "word_ptr \<Rightarrow> nat option" where
  "word_index (WordAt i) = Some i"
| "word_index (StackKey s n) = None"

fun insert_words :: "nat list \<Rightarrow> filter_word list \<Rightarrow> word_ptr hash_table
    \<Rightarrow> (unit, filter_word list \<times> word_ptr hash_table) outcome option" where
  "insert_words [] ws ht = Some (Ok (ws, ht))"
| "insert_words (i # wps) ws ht =
     then_do (hash_insert ht (WordAt i)) (\<lambda>(ht, owp).
       let ws = (if owp \<noteq> None then ws[i := (ws ! i)\<lparr>chain := Option.bind owp word_index\<rparr>] else ws)
       in insert_words wps ws ht)"

section \<open>Matching\<close>

partial_function (option) mark_chain :: "filter_word list \<Rightarrow> nat option \<Rightarrow> filter_word list option" where
  "mark_chain ws wp =
     (case wp of
        None \<Rightarrow> Some ws
      | Some i \<Rightarrow> mark_chain (ws[i := (ws ! i)\<lparr>matched := True\<rparr>]) (chain (ws ! i)))"

definition or_matched :: "(filter_word \<Rightarrow> bool) \<Rightarrow> filter_word \<Rightarrow> filter_word" where
  "or_matched P wp = wp\<lparr>matched := matched wp \<or> P wp\<rparr>"

definition run_pattern :: "bool \<Rightarrow> word_ptr hash_table \<Rightarrow> a_pattern \<Rightarrow> filter_word list
    \<Rightarrow> (unit, filter_word list) outcome option" where
  "run_pattern hashing ht pp ws =
     (case percent pp of
        Some n \<Rightarrow>
          Some (Ok (map (or_matched (\<lambda>wp.
            pattern_matches_ex (pat_str pp) n (sfxlen pp) (str wp) (nat (word_length wp)))) ws))
      | None \<Rightarrow>
          if hashing then
            then_do (hash_find_item ht (StackKey (pat_str pp) (pat_length pp))) (\<lambda>wp.
              map_option Ok (mark_chain ws (Option.bind wp word_index)))
          else
            Some (Ok (map (or_matched (\<lambda>wp.
              word_length wp = pat_length pp \<and> strneq (pat_str pp) (str wp) (nat (word_length wp)))) ws)))"

fun run_patterns :: "bool \<Rightarrow> word_ptr hash_table \<Rightarrow> a_pattern list \<Rightarrow> filter_word list
    \<Rightarrow> (unit, filter_word list) outcome option" where
  "run_patterns hashing ht [] ws = Some (Ok ws)"
| "run_patterns hashing ht (pp # pps) ws =
     then_do (run_pattern hashing ht pp ws) (\<lambda>ws. run_patterns hashing ht pps ws)"

fun output_words :: "bool \<Rightarrow> filter_word list \<Rightarrow> string \<times> bool \<Rightarrow> string \<times> bool" where
  "output_words isfilter [] r = r"
| "output_words isfilter (wp # ws) r =
     output_words isfilter ws
       (if (if isfilter then matched wp else \<not> matched wp)
        then (variable_buffer_output (variable_buffer_output (fst r) (str wp) (length (str wp))) '' '' 1, True)
        else r)"

definition func_filter_filterout :: "string \<Rightarrow> string list \<Rightarrow> string \<Rightarrow> (unit, string) outcome option" where
  "func_filter_filterout o1 argv funcname =
     (let isfilter = (cget funcname 6 = NUL)
      in then_do (Some (chop_patterns (argv ! 0))) (\<lambda>pathead.
           let wordhead = chop_words (argv ! 1);
               literals = length (filter (\<lambda>pp. percent pp = None) pathead);
               words = length wordhead;
               hashing = (literals \<ge> 2 \<and> literals * words \<ge> 10)
           in then_do (if hashing then insert_words [0 ..< words] wordhead (words_table wordhead)
                       else Some (Ok (wordhead, words_table wordhead)))
                (\<lambda>(ws, a_word_table).
                   if words > 0 then
                     then_do (run_patterns hashing a_word_table pathead ws) (\<lambda>ws.
                       Some (Ok (kill_last (output_words isfilter ws (o1, False)))))
                   else Some (Ok o1))))"

end
