(* ===== verification/MakeFilterProps.thy ===== *)
theory MakeFilterProps
  imports MakeFilter MakeWordsProps
begin

text \<open>
  \<open>$(filter)\<close> keeps the words that match one of the patterns, \<open>$(filter-out)\<close> the others, whether
  the words are searched through the hash table or one by one.
\<close>

section \<open>The reference\<close>

definition word_matches :: "string \<times> nat option \<Rightarrow> string \<Rightarrow> bool" where
  "word_matches p w =
     (case snd p of
        None \<Rightarrow> w = fst p
      | Some n \<Rightarrow> matches_pattern (take n (fst p)) (drop (Suc n) (fst p)) w)"

section \<open>The chopped arguments\<close>

lemma words_of_skip: "r = [] \<or> ISBLANK (peek r) \<Longrightarrow> words_of (if peek r \<noteq> NUL then tl r else r) = words_of r"
  by (cases r) auto

lemma peek_not_NUL: "NUL \<notin> set r \<Longrightarrow> NUL \<notin> set (if peek r \<noteq> NUL then tl r else r)"
  by (cases r) auto

lemma length_if_tl: "length (if peek r \<noteq> NUL then tl r else r) \<le> length r"
  by simp

definition as_word :: "string \<Rightarrow> filter_word" where
  "as_word w = \<lparr>str = w, word_length = int (length w), chain = None, matched = False\<rparr>"

lemma chop_words_eq: "NUL \<notin> set s \<Longrightarrow> chop_words s = map as_word (words_of s)"
proof (induction "length s" arbitrary: s rule: less_induct)
  case less
  show ?case
  proof (cases rule: next_word [OF less.prems])
    case 1
    then show ?thesis by (subst chop_words.simps) simp
  next
    case (2 w r)
    let ?r = "if peek r \<noteq> NUL then tl r else r"
    have "chop_words ?r = map as_word (words_of ?r)"
      using 2 length_if_tl [of r] by (intro less.hyps) (auto simp: peek_not_NUL simp del: length_tl)
    then have "chop_words ?r = map as_word (words_of r)" using 2 by (simp only: words_of_skip)
    then show ?thesis using 2 by (subst chop_words.simps) (simp add: as_word_def)
  qed
qed

definition as_pattern :: "string \<times> nat option \<Rightarrow> a_pattern" where
  "as_pattern p = \<lparr>pat_str = fst p, percent = snd p, pat_length = int (length (fst p)),
     sfxlen = (case snd p of Some n \<Rightarrow> length (drop (Suc n) (fst p)) | None \<Rightarrow> 0)\<rparr>"

lemma chop_patterns_eq:
  "NUL \<notin> set s \<Longrightarrow> chop_patterns s = Ok (map (\<lambda>w. as_pattern (find_percent_cached w)) (words_of s))"
proof (induction "length s" arbitrary: s rule: less_induct)
  case less
  show ?case
  proof (cases rule: next_word [OF less.prems])
    case 1
    then show ?thesis by (subst chop_patterns.simps) simp
  next
    case (2 w r)
    let ?r = "if peek r \<noteq> NUL then tl r else r"
    have "chop_patterns ?r = Ok (map (\<lambda>w. as_pattern (find_percent_cached w)) (words_of ?r))"
      using 2 length_if_tl [of r] by (intro less.hyps) (auto simp: peek_not_NUL simp del: length_tl)
    then have IH: "chop_patterns ?r = Ok (map (\<lambda>w. as_pattern (find_percent_cached w)) (words_of r))"
      using 2 by (simp only: words_of_skip)
    have "set w \<subseteq> set s" using 2 by (intro set_words_of) simp
    then have "find_percent w = Ok (find_percent_cached w)"
      using less.prems by (intro find_percent_ok) auto
    then show ?thesis
      using 2 IH by (subst chop_patterns.simps) (cases "find_percent_cached w", simp add: as_pattern_def split: option.split)
  qed
qed

text \<open>What the search for the percent sign returns is a string without a zero, and a position in it.\<close>

lemma set_swallow: "set (swallow pre) \<subseteq> set pre"
  by (auto simp: swallow_def dest: in_set_takeD)

lemma percent_loop_ok:
  "percent_loop pre p = (s, r) \<Longrightarrow> set s \<subseteq> set pre \<union> set p \<and> (\<forall>n. r = Some n \<longrightarrow> n < length s)"
proof (induction pre p rule: percent_loop.induct)
  case (2 pre c p)
  show ?case
    using 2 set_swallow [of pre] by (auto split: if_splits)
qed simp

lemma find_percent_cached_range:
  assumes "find_percent_cached w = (s, r)" and "NUL \<notin> set w"
  shows "NUL \<notin> set s" and "r = Some n \<Longrightarrow> n < length s"
proof -
  have "set s \<subseteq> set w \<and> (\<forall>n. r = Some n \<longrightarrow> n < length s)"
  proof (cases "peek w = CHR ''%''")
    case True
    then show ?thesis using assms(1) by (cases w) (auto simp: find_percent_cached_def)
  next
    case False
    then show ?thesis using assms(1) percent_loop_ok [of "[]" w s r] by (simp add: find_percent_cached_def)
  qed
  then show "NUL \<notin> set s" and "r = Some n \<Longrightarrow> n < length s" using assms(2) by auto
qed

lemma pattern_matches_ex_eq:
  assumes "n < length p" and "NUL \<notin> set p" and "NUL \<notin> set w"
  shows "pattern_matches_ex p n (length (drop (Suc n) p)) w (length w) \<longleftrightarrow> matches_pattern (take n p) (drop (Suc n) p) w"
proof -
  have n: "length (take n p) = n" using assms(1) by simp
  have st: "strneq p w n \<longleftrightarrow> take n w = take n p"
    using strneq_take [OF assms(2,3), of n] by (simp only: eq_commute)
  have sc: "strcmp (drop (Suc n) p) v = 0 \<longleftrightarrow> v = drop (Suc n) p" for v
    unfolding strcmp_eq_0 by (rule eq_commute)
  show ?thesis
    unfolding pattern_matches_ex_def matches_pattern_def n st sc not_less [symmetric] by (simp only: if_bool_eq_conj) blast
qed


section \<open>The chains\<close>

text \<open>The previous word with the same text.\<close>

definition prev_word :: "string list \<Rightarrow> nat \<Rightarrow> nat option" where
  "prev_word ss i =
     (let js = filter (\<lambda>j. ss ! j = ss ! i) [0 ..< i] in if js = [] then None else Some (last js))"

lemma sorted_le_last: "sorted xs \<Longrightarrow> (k :: nat) \<in> set xs \<Longrightarrow> k \<le> last xs"
  by (induction xs) (auto intro: order_trans)

lemma prev_word_Some:
  assumes "prev_word ss i = Some j"
  shows "j < i" and "ss ! j = ss ! i" and "\<And>k. j < k \<Longrightarrow> k < i \<Longrightarrow> ss ! k \<noteq> ss ! i"
proof -
  let ?js = "filter (\<lambda>j. ss ! j = ss ! i) [0 ..< i]"
  have js: "?js \<noteq> []" "last ?js = j" using assms by (auto simp: prev_word_def Let_def split: if_splits)
  then have "j \<in> set ?js" using last_in_set by metis
  then show "j < i" and "ss ! j = ss ! i" by auto
  fix k assume k: "j < k" "k < i"
  show "ss ! k \<noteq> ss ! i"
  proof
    assume "ss ! k = ss ! i"
    then have "k \<in> set ?js" using k by simp
    moreover have "sorted ?js" using sorted_filter [of id "[0 ..< i]"] by simp
    ultimately have "k \<le> last ?js" by (intro sorted_le_last)
    then show False using js k by simp
  qed
qed

lemma prev_word_None: "prev_word ss i = None \<Longrightarrow> j < i \<Longrightarrow> ss ! j \<noteq> ss ! i"
  by (auto simp: prev_word_def Let_def filter_empty_conv split: if_splits)

lemma prev_word_unique:
  assumes "j < i" and "ss ! j = ss ! i" and "\<And>k. j < k \<Longrightarrow> k < i \<Longrightarrow> ss ! k \<noteq> ss ! i"
  shows "prev_word ss i = Some j"
proof (cases "prev_word ss i")
  case None
  then show ?thesis using prev_word_None [OF None assms(1)] assms(2) by simp
next
  case (Some m)
  note m = prev_word_Some [OF Some]
  then show ?thesis using assms Some by (metis linorder_neqE_nat)
qed

text \<open>Words of the list \<open>ss\<close> whose chains are complete.\<close>

definition chained :: "string list \<Rightarrow> filter_word list \<Rightarrow> bool" where
  "chained ss ws \<longleftrightarrow> map str ws = ss \<and> (\<forall>i < length ss. chain (ws ! i) = prev_word ss i)"

lemma length_chained: "chained ss ws \<Longrightarrow> length ws = length ss"
  by (auto simp: chained_def)

text \<open>Walking a chain marks the words with the text, up to the one it starts at.\<close>

definition mark_upto :: "string \<Rightarrow> nat \<Rightarrow> filter_word list \<Rightarrow> filter_word list" where
  "mark_upto s n ws = map (\<lambda>i. if i < n \<and> str (ws ! i) = s then (ws ! i)\<lparr>matched := True\<rparr> else ws ! i) [0 ..< length ws]"

lemma length_mark_upto [simp]: "length (mark_upto s n ws) = length ws"
  by (simp add: mark_upto_def)

lemma nth_mark_upto:
  "i < length ws \<Longrightarrow> mark_upto s n ws ! i =
    (if i < n \<and> str (ws ! i) = s then (ws ! i)\<lparr>matched := True\<rparr> else ws ! i)"
  by (simp add: mark_upto_def)

lemma mark_chain_eq:
  assumes "chained ss ws" and "i < length ws"
  shows "mark_chain ws (Some i) = Some (mark_upto (ss ! i) (Suc i) ws)"
  using assms
proof (induction i arbitrary: ws rule: less_induct)
  case (less i)
  let ?ws = "ws[i := (ws ! i)\<lparr>matched := True\<rparr>]"
  have str: "str (ws ! j) = ss ! j" if "j < length ws" for j
    using less.prems that by (auto simp: chained_def)
  have c: "chain (ws ! i) = prev_word ss i" using less.prems length_chained [OF less.prems(1)] by (simp add: chained_def)
  have ch: "chained ss ?ws"
    using less.prems str by (auto simp: chained_def map_update nth_list_update list_update_id)
  show ?case
  proof (cases "prev_word ss i")
    case None
    have "mark_upto (ss ! i) (Suc i) ws = ?ws"
    proof (rule nth_equalityI)
      fix k assume k: "k < length (mark_upto (ss ! i) (Suc i) ws)"
      then show "mark_upto (ss ! i) (Suc i) ws ! k = ?ws ! k"
        using None prev_word_None [OF None, of k] str less.prems(2)
        by (auto simp: nth_mark_upto nth_list_update less_Suc_eq)
    qed simp
    then show ?thesis using c None by (simp add: mark_chain.simps)
  next
    case (Some j)
    note j = prev_word_Some [OF Some]
    have "mark_chain ?ws (Some j) = Some (mark_upto (ss ! j) (Suc j) ?ws)"
      using j(1) ch less.prems by (intro less.IH) auto
    moreover have "mark_upto (ss ! j) (Suc j) ?ws = mark_upto (ss ! i) (Suc i) ws"
    proof (rule nth_equalityI)
      fix k assume k: "k < length (mark_upto (ss ! j) (Suc j) ?ws)"
      have "j < k \<Longrightarrow> k < i \<Longrightarrow> str (ws ! k) \<noteq> ss ! i" using j(3) [of k] str [of k] k by simp
      then show "mark_upto (ss ! j) (Suc j) ?ws ! k = mark_upto (ss ! i) (Suc i) ws ! k"
        using j(1,2) str less.prems(2) k
        by (cases "k = i") (auto simp: nth_mark_upto nth_list_update less_Suc_eq)
    qed simp
    ultimately show ?thesis using c Some by (subst mark_chain.simps) simp
  qed
qed

end
