(* ===== verification/MakeFilterCorrect.thy ===== *)
theory MakeFilterCorrect
  imports MakeFilterProps
begin

text \<open>
  The table of words holds the last word of every text, the chains lead to the earlier ones, and so
  the search through the table marks the words that the search one by one marks.
\<close>

section \<open>Filling the table\<close>

definition last_words :: "string list \<Rightarrow> nat \<Rightarrow> word_ptr set" where
  "last_words ss k = {WordAt i | i. i < k \<and> (\<forall>j. i < j \<and> j < k \<longrightarrow> ss ! j \<noteq> ss ! i)}"

lemma WordAt_last_words:
  "WordAt i \<in> last_words ss k \<longleftrightarrow> i < k \<and> (\<forall>j. i < j \<and> j < k \<longrightarrow> ss ! j \<noteq> ss ! i)"
  by (auto simp: last_words_def)

lemma last_words_cases: "x \<in> last_words ss k \<Longrightarrow> \<exists>i < k. x = WordAt i"
  by (auto simp: last_words_def)

lemma card_last_words: "card (last_words ss k) \<le> k"
proof -
  have "last_words ss k \<subseteq> WordAt ` {..< k}" by (auto simp: last_words_def)
  then have "card (last_words ss k) \<le> card (WordAt ` {..< k})" by (intro card_mono) auto
  also have "\<dots> \<le> card {..< k}" by (rule card_image_le) simp
  finally show ?thesis by simp
qed

lemma last_with_text:
  assumes "i < k" and "ss ! i = s"
  obtains m where "m < k" and "ss ! m = s" and "WordAt m \<in> last_words ss k"
proof -
  define m where "m = Max {j. j < k \<and> ss ! j = s}"
  have fin: "finite {j. j < k \<and> ss ! j = s}" by simp
  have "m \<in> {j. j < k \<and> ss ! j = s}" unfolding m_def using assms by (intro Max_in) auto
  moreover have "j \<in> {j. j < k \<and> ss ! j = s} \<Longrightarrow> j \<le> m" for j
    unfolding m_def by (rule Max_ge [OF fin])
  then have "\<not> (m < j \<and> j < k \<and> ss ! j = s)" for j by (auto simp: not_less)
  ultimately show ?thesis using that [of m] by (auto simp: WordAt_last_words)
qed

definition linked :: "string list \<Rightarrow> nat \<Rightarrow> filter_word list" where
  "linked ss k = map (\<lambda>i. (as_word (ss ! i))\<lparr>chain := if i < k then prev_word ss i else None\<rparr>) [0 ..< length ss]"

abbreviation word_ok :: "string list \<Rightarrow> word_ptr hash_table \<Rightarrow> bool" where
  "word_ok ss \<equiv> (let mem = word_at (map as_word ss)
    in hash_ok (a_word_hash_1 mem) (a_word_hash_2 mem) (a_word_hash_cmp mem))"

lemma word_at_as_word:
  "i < length ss \<Longrightarrow> word_at (map as_word ss) (WordAt i) = \<lparr>str = ss ! i, word_length = int (length (ss ! i))\<rparr>"
  by (simp add: word_at_def as_word_def a_word.truncate_def)

lemma cmp_words:
  "i < length ss \<Longrightarrow> j < length ss \<Longrightarrow>
    a_word_hash_cmp (word_at (map as_word ss)) (WordAt i) (WordAt j) = 0 \<longleftrightarrow> ss ! i = ss ! j"
  by (auto simp: a_word_hash_cmp_eq word_at_as_word)

lemma cmp_key:
  "j < length ss \<Longrightarrow>
    a_word_hash_cmp (word_at (map as_word ss)) (StackKey s (int (length s))) (WordAt j) = 0 \<longleftrightarrow> s = ss ! j"
  by (auto simp: a_word_hash_cmp_eq word_at_as_word) (auto simp: word_at_def)

definition table_inv :: "string list \<Rightarrow> nat \<Rightarrow> nat \<Rightarrow> word_ptr hash_table \<Rightarrow> bool" where
  "table_inv ss L k ht \<longleftrightarrow>
     word_ok ss ht \<and> hash_items ht = last_words ss k \<and> Deleted \<notin> set (ht_vec ht)
     \<and> (length (ht_vec ht) = L \<or> length (ht_vec ht) = 2 * L)"

lemma table_inv_Empty:
  assumes "table_inv ss L k ht" and "k < L"
  shows "Empty \<in> set (ht_vec ht)"
proof -
  let ?mem = "word_at (map as_word ss)"
  have ok: "hash_ok (a_word_hash_1 ?mem) (a_word_hash_2 ?mem) (a_word_hash_cmp ?mem) ht"
    using assms(1) by (simp add: table_inv_def Let_def)
  have "length (visited (ht_vec ht)) = unat (ht_fill ht)" using ok by (simp add: hash_ok_def)
  also have "\<dots> = card (last_words ss k)"
    using card_hash_items [OF word_keys.hash_keys_axioms ok] assms(1) by (simp add: table_inv_def)
  also have "\<dots> \<le> k" by (rule card_last_words)
  finally have "length (visited (ht_vec ht)) < length (ht_vec ht)" using assms by (auto simp: table_inv_def)
  moreover have "length (visited (ht_vec ht)) + count_list (ht_vec ht) Empty = length (ht_vec ht)"
    using assms(1) by (intro counts_no_Deleted) (simp add: table_inv_def)
  ultimately show ?thesis using count_Empty_pos [of "ht_vec ht"] by linarith
qed

lemma last_words_Suc:
  assumes "k < length ss"
  shows "insert (WordAt k) {y \<in> last_words ss k. a_word_hash_cmp (word_at (map as_word ss)) (WordAt k) y \<noteq> 0}
    = last_words ss (Suc k)" (is "?L = ?R")
proof (rule set_eqI)
  fix y
  show "y \<in> ?L \<longleftrightarrow> y \<in> ?R"
  proof (cases "\<exists>i < Suc k. y = WordAt i")
    case False
    then have "y \<notin> last_words ss k" and "y \<notin> last_words ss (Suc k)" and "y \<noteq> WordAt k"
      using last_words_cases less_SucI by blast+
    then show ?thesis by simp
  next
    case True
    then obtain i where i: "i \<le> k" "y = WordAt i" by auto
    have "i < k \<Longrightarrow> a_word_hash_cmp (word_at (map as_word ss)) (WordAt k) (WordAt i) = 0 \<longleftrightarrow> ss ! k = ss ! i"
      using assms by (simp add: cmp_words)
    then show ?thesis using i by (cases "i = k") (auto simp: WordAt_last_words less_Suc_eq)
  qed
qed

lemma insert_step:
  assumes inv: "table_inv ss L k ht" and k: "k < length ss" and L: "length ss < L" "2 * L < 4294967296"
  shows "\<exists>ht'. hash_insert ht (WordAt k) = Some (Ok (ht', map_option WordAt (prev_word ss k))) \<and> table_inv ss L (Suc k) ht'"
proof -
  let ?mem = "word_at (map as_word ss)"
  have ok: "hash_ok (a_word_hash_1 ?mem) (a_word_hash_2 ?mem) (a_word_hash_cmp ?mem) ht"
    and items: "hash_items ht = last_words ss k" and del: "Deleted \<notin> set (ht_vec ht)"
    and len: "length (ht_vec ht) = L \<or> length (ht_vec ht) = 2 * L"
    using inv by (simp_all add: table_inv_def Let_def)
  have "Empty \<in> set (ht_vec ht)" using k L by (intro table_inv_Empty [OF inv]) linarith
  moreover have "length (ht_vec ht) < 4294967296" using len L by auto
  ultimately obtain ht' old where ins: "hash_insert ht (WordAt k) = Some (Ok (ht', old))"
    and ok': "hash_ok (a_word_hash_1 ?mem) (a_word_hash_2 ?mem) (a_word_hash_cmp ?mem) ht'"
    and items': "hash_items ht' = insert (WordAt k) {y \<in> hash_items ht. a_word_hash_cmp ?mem (WordAt k) y \<noteq> 0}"
    and old: "\<forall>x. old = Some x \<longleftrightarrow> x \<in> hash_items ht \<and> a_word_hash_cmp ?mem (WordAt k) x = 0"
    and del': "Deleted \<notin> set (ht_vec ht')"
    and len': "length (ht_vec ht') = length (ht_vec ht) \<or> length (ht_vec ht') = 2 * length (ht_vec ht)
        \<and> length (ht_vec ht) - length (ht_vec ht) div 16 \<le> card (hash_items ht')"
    using insert_total [OF word_keys.hash_keys_axioms ok, of "WordAt k"] del by blast
  have I: "hash_items ht' = last_words ss (Suc k)" using items' last_words_Suc [OF k] items by simp
  have "old = map_option WordAt (prev_word ss k)"
  proof (cases old)
    case (Some x)
    then have x: "x \<in> last_words ss k" "a_word_hash_cmp ?mem (WordAt k) x = 0" using old items by auto
    then obtain i where i: "i < k" "x = WordAt i" using last_words_cases by blast
    then have "ss ! i = ss ! k" using x k by (auto simp: cmp_words)
    then have "prev_word ss k = Some i"
      using x(1) i by (intro prev_word_unique) (auto simp: WordAt_last_words)
    then show ?thesis using Some i by simp
  next
    case None
    have "prev_word ss k = None"
    proof (rule ccontr)
      assume "prev_word ss k \<noteq> None"
      then obtain j where "prev_word ss k = Some j" by auto
      note j = prev_word_Some [OF this]
      then have "WordAt j \<in> last_words ss k" by (auto simp: WordAt_last_words)
      moreover have "a_word_hash_cmp ?mem (WordAt k) (WordAt j) = 0" using j k by (simp add: cmp_words)
      ultimately show False using old None items by auto
    qed
    then show ?thesis using None by simp
  qed
  moreover have "card (hash_items ht') \<le> Suc k" unfolding I by (rule card_last_words)
  then have "length (ht_vec ht') = L \<or> length (ht_vec ht') = 2 * L"
    using len len' k L by (auto simp: mult.commute)
  ultimately show ?thesis
    using ins ok' I del' by (auto simp: table_inv_def Let_def)
qed

lemma linked_update:
  assumes "k < length ss"
  shows "(linked ss k)[k := (linked ss k ! k)\<lparr>chain := prev_word ss k\<rparr>] = linked ss (Suc k)"
  using assms by (intro nth_equalityI) (auto simp: linked_def nth_list_update less_Suc_eq)

lemma linked_same:
  assumes "k < length ss" and "prev_word ss k = None"
  shows "linked ss (Suc k) = linked ss k"
  using assms by (intro nth_equalityI) (auto simp: linked_def less_Suc_eq)

lemma insert_words_eq:
  assumes "table_inv ss L k ht" and "k \<le> length ss" and "length ss < L" and "2 * L < 4294967296"
  shows "\<exists>ht'. insert_words [k ..< length ss] (linked ss k) ht = Some (Ok (linked ss (length ss), ht'))
    \<and> table_inv ss L (length ss) ht'"
  using assms
proof (induction "length ss - k" arbitrary: k ht)
  case 0
  then show ?case by simp
next
  case (Suc m)
  then have k: "k < length ss" by simp
  obtain ht' where ht': "hash_insert ht (WordAt k) = Some (Ok (ht', map_option WordAt (prev_word ss k)))"
    "table_inv ss L (Suc k) ht'"
    using insert_step [OF Suc.prems(1) k Suc.prems(3,4)] by blast
  have "(if map_option WordAt (prev_word ss k) \<noteq> None
      then (linked ss k)[k := (linked ss k ! k)\<lparr>chain := Option.bind (map_option WordAt (prev_word ss k)) word_index\<rparr>]
      else linked ss k) = linked ss (Suc k)"
    using linked_update [OF k] linked_same [OF k] by (cases "prev_word ss k") simp_all
  then have "insert_words [k ..< length ss] (linked ss k) ht = insert_words [Suc k ..< length ss] (linked ss (Suc k)) ht'"
    using k ht'(1) by (simp add: upt_conv_Cons)
  moreover have "\<exists>ht''. insert_words [Suc k ..< length ss] (linked ss (Suc k)) ht' = Some (Ok (linked ss (length ss), ht''))
      \<and> table_inv ss L (length ss) ht''"
    using Suc.hyps(2) Suc.prems k ht'(2) by (intro Suc.hyps(1)) auto
  ultimately show ?case by simp
qed

lemma fill_table:
  assumes "length ss < 2 ^ 30"
  shows "\<exists>ht L. insert_words [0 ..< length ss] (map as_word ss) (words_table (map as_word ss))
      = Some (Ok (linked ss (length ss), ht)) \<and> table_inv ss L (length ss) ht \<and> length ss < L"
proof -
  let ?mem = "word_at (map as_word ss)"
  let ?ht = "words_table (map as_word ss)"
  have n: "unat (of_nat (length ss) :: ulong) = length ss" using assms by (simp add: unat_of_nat)
  have small: "unat (of_nat (length ss) :: ulong) < 4294967296" using assms unfolding n by simp
  note i = hash_init_ok [OF small, of "a_word_hash_1 ?mem" "a_word_hash_2 ?mem" "a_word_hash_cmp ?mem" "\<lambda>_. 0"]
  have ht: "?ht = hash_init (of_nat (length ss)) (Some (a_word_hash_1 ?mem)) (Some (a_word_hash_2 ?mem))
      (Some (a_word_hash_cmp ?mem)) (\<lambda>_. 0)"
    by (simp add: words_table_def)
  have "table_inv ss (length (ht_vec ?ht)) 0 ?ht"
    unfolding table_inv_def Let_def ht using i by (auto simp: last_words_def)
  moreover have "length ss < length (ht_vec ?ht)" using i(3) unfolding ht n .
  moreover have "2 * length (ht_vec ?ht) < 4294967296" using i(4) assms unfolding ht n by simp
  moreover have "linked ss 0 = map as_word ss"
    by (rule nth_equalityI) (auto simp: linked_def as_word_def)
  ultimately show ?thesis using insert_words_eq [of ss _ 0 ?ht] by force
qed


section \<open>Marking\<close>

definition sound_words :: "string list \<Rightarrow> filter_word list \<Rightarrow> bool" where
  "sound_words ss ws \<longleftrightarrow> map str ws = ss \<and> (\<forall>wp\<in>set ws. word_length wp = int (length (str wp)))"

lemma or_matched_simps [simp]:
  "str (or_matched P wp) = str wp" "word_length (or_matched P wp) = word_length wp" "chain (or_matched P wp) = chain wp"
  "matched (or_matched P wp) \<longleftrightarrow> matched wp \<or> P wp"
  by (simp_all add: or_matched_def)

lemma sound_or_matched: "sound_words ss ws \<Longrightarrow> sound_words ss (map (or_matched P) ws)"
  by (auto simp: sound_words_def comp_def)

lemma chained_or_matched: "chained ss ws \<Longrightarrow> chained ss (map (or_matched P) ws)"
  by (auto simp: chained_def comp_def)

lemma or_matched_cong: "(\<And>wp. wp \<in> set ws \<Longrightarrow> P wp = Q wp) \<Longrightarrow> map (or_matched P) ws = map (or_matched Q) ws"
  by (simp add: or_matched_def)

lemma mark_upto_all:
  assumes "\<And>i. i < length ws \<Longrightarrow> str (ws ! i) = s \<Longrightarrow> i < n"
  shows "mark_upto s n ws = map (or_matched (\<lambda>wp. str wp = s)) ws"
proof (rule nth_equalityI)
  fix i assume "i < length (mark_upto s n ws)"
  then show "mark_upto s n ws ! i = map (or_matched (\<lambda>wp. str wp = s)) ws ! i"
    using assms [of i] by (cases "str (ws ! i) = s") (simp_all add: nth_mark_upto or_matched_def)
qed simp

lemma mark_found:
  assumes inv: "table_inv ss L (length ss) ht" and "length ss < L" and ch: "chained ss ws"
  shows "then_do (hash_find_item ht (StackKey s (int (length s))))
      (\<lambda>wp. map_option Ok (mark_chain ws (Option.bind wp word_index))) =
    Some (Ok (map (or_matched (\<lambda>wp. str wp = s)) ws))"
proof -
  let ?mem = "word_at (map as_word ss)"
  let ?key = "StackKey s (int (length s))"
  have str: "str (ws ! i) = ss ! i" if "i < length ss" for i
    using ch that by (auto simp: chained_def)
  have ok: "hash_ok (a_word_hash_1 ?mem) (a_word_hash_2 ?mem) (a_word_hash_cmp ?mem) ht"
    using inv by (simp add: table_inv_def Let_def)
  obtain r where r: "hash_find_item ht ?key = Some (Ok r)"
    and x: "\<And>x. r = Some x \<longleftrightarrow> x \<in> last_words ss (length ss) \<and> a_word_hash_cmp ?mem ?key x = 0"
    using find_item_total [OF word_keys.hash_keys_axioms ok table_inv_Empty [OF inv assms(2)], of ?key] inv
    by (auto simp: table_inv_def)
  have "mark_chain ws (Option.bind r word_index) = Some (map (or_matched (\<lambda>wp. str wp = s)) ws)"
  proof (cases r)
    case (Some y)
    then have "y \<in> last_words ss (length ss)" and c: "a_word_hash_cmp ?mem ?key y = 0" using x by auto
    then obtain i where i: "i < length ss" "y = WordAt i" using last_words_cases by blast
    have s: "s = ss ! i" using c i by (simp add: cmp_key)
    have "mark_upto s (Suc i) ws = map (or_matched (\<lambda>wp. str wp = s)) ws"
    proof (rule mark_upto_all)
      fix k assume "k < length ws" "str (ws ! k) = s"
      then show "k < Suc i"
        using \<open>y \<in> last_words ss (length ss)\<close> i s str [of k] length_chained [OF ch]
        by (auto simp: WordAt_last_words not_less_eq)
    qed
    then show ?thesis using Some i mark_chain_eq [OF ch, of i] length_chained [OF ch] s by simp
  next
    case None
    have "str (ws ! i) \<noteq> s" if "i < length ws" for i
    proof
      assume "str (ws ! i) = s"
      then have "ss ! i = s" "i < length ss" using str that length_chained [OF ch] by auto
      then obtain m where "m < length ss" "ss ! m = s" "WordAt m \<in> last_words ss (length ss)"
        using last_with_text by metis
      then have "r = Some (WordAt m)" using x by (simp add: cmp_key)
      then show False using None by simp
    qed
    then have "map (or_matched (\<lambda>wp. str wp = s)) ws = ws"
      by (intro map_idI) (auto simp: or_matched_def in_set_conv_nth)
    then show ?thesis using None by (simp add: mark_chain.simps)
  qed
  then show ?thesis using r by simp
qed

lemma run_pattern_eq:
  assumes "sound_words ss ws" and nz: "\<forall>w\<in>set ss. NUL \<notin> set w"
    and "hashing \<Longrightarrow> table_inv ss L (length ss) ht \<and> length ss < L \<and> chained ss ws"
    and p: "NUL \<notin> set (fst p)" "\<And>n. snd p = Some n \<Longrightarrow> n < length (fst p)"
  shows "run_pattern hashing ht (as_pattern p) ws = Some (Ok (map (or_matched (\<lambda>wp. word_matches p (str wp))) ws))"
proof -
  have wl: "word_length wp = int (length (str wp)) \<and> NUL \<notin> set (str wp)" if "wp \<in> set ws" for wp
    using assms(1) nz that by (auto simp: sound_words_def)
  show ?thesis
  proof (cases "snd p")
    case (Some n)
    have "map (or_matched (\<lambda>wp. pattern_matches_ex (fst p) n (length (drop (Suc n) (fst p))) (str wp) (nat (word_length wp)))) ws
        = map (or_matched (\<lambda>wp. word_matches p (str wp))) ws"
    proof (rule or_matched_cong)
      fix wp assume "wp \<in> set ws"
      then have "nat (word_length wp) = length (str wp)" "NUL \<notin> set (str wp)" using wl by auto
      then show "pattern_matches_ex (fst p) n (length (drop (Suc n) (fst p))) (str wp) (nat (word_length wp)) = word_matches p (str wp)"
        using pattern_matches_ex_eq [OF p(2) [OF Some] p(1)] Some by (simp only: word_matches_def option.case)
    qed
    then show ?thesis using Some by (simp add: run_pattern_def as_pattern_def)
  next
    case None
    show ?thesis
    proof (cases hashing)
      case True
      then show ?thesis
        using mark_found [of ss L ht ws "fst p"] assms(3) None
        by (simp add: run_pattern_def as_pattern_def word_matches_def)
    next
      case False
      have "map (or_matched (\<lambda>wp. word_length wp = int (length (fst p)) \<and> strneq (fst p) (str wp) (nat (word_length wp)))) ws
          = map (or_matched (\<lambda>wp. word_matches p (str wp))) ws"
      proof (rule or_matched_cong)
        fix wp assume "wp \<in> set ws"
        then have w: "word_length wp = int (length (str wp))" "NUL \<notin> set (str wp)" using wl by auto
        show "(word_length wp = int (length (fst p)) \<and> strneq (fst p) (str wp) (nat (word_length wp))) = word_matches p (str wp)"
          unfolding w(1) nat_int int_int_eq strneq_take [OF p(1) w(2)] word_matches_def None option.case
          by (metis order_refl take_all)
      qed
      then show ?thesis using None False by (simp add: run_pattern_def as_pattern_def)
    qed
  qed
qed

lemma run_patterns_eq:
  assumes "\<forall>w\<in>set ss. NUL \<notin> set w" and "hashing \<Longrightarrow> table_inv ss L (length ss) ht \<and> length ss < L"
    and "\<forall>p\<in>set ps. NUL \<notin> set (fst p) \<and> (\<forall>n. snd p = Some n \<longrightarrow> n < length (fst p))"
  shows "sound_words ss ws \<Longrightarrow> (hashing \<Longrightarrow> chained ss ws) \<Longrightarrow>
    run_patterns hashing ht (map as_pattern ps) ws =
    Some (Ok (map (or_matched (\<lambda>wp. \<exists>p\<in>set ps. word_matches p (str wp))) ws))"
  using assms(3)
proof (induction ps arbitrary: ws)
  case Nil
  have "map (or_matched (\<lambda>_. False)) ws = ws" by (intro map_idI) (simp add: or_matched_def)
  then show ?case by simp
next
  case (Cons p ps)
  let ?ws = "map (or_matched (\<lambda>wp. word_matches p (str wp))) ws"
  have "run_pattern hashing ht (as_pattern p) ws = Some (Ok ?ws)"
    using Cons.prems assms(1,2) by (intro run_pattern_eq [where ss = ss and L = L]) auto
  moreover have "run_patterns hashing ht (map as_pattern ps) ?ws =
      Some (Ok (map (or_matched (\<lambda>wp. \<exists>p\<in>set ps. word_matches p (str wp))) ?ws))"
    using Cons.prems sound_or_matched chained_or_matched by (intro Cons.IH) auto
  moreover have "map (or_matched (\<lambda>wp. \<exists>p\<in>set ps. word_matches p (str wp))) ?ws =
      map (or_matched (\<lambda>wp. \<exists>p\<in>set (p # ps). word_matches p (str wp))) ws"
    by (auto simp: or_matched_def)
  ultimately show ?case by simp
qed

lemma output_words_eq:
  "output_words filt ws (o1, any) =
    (o1 @ spaced (map str (filter (\<lambda>wp. matched wp = filt) ws)), any \<or> filter (\<lambda>wp. matched wp = filt) ws \<noteq> [])"
  by (induction ws arbitrary: o1 any) (auto simp: variable_buffer_output_def)

lemma output_marked:
  assumes "map str ws = ss" and "\<forall>wp\<in>set ws. \<not> matched wp"
  shows "kill_last (output_words filt (map (or_matched (\<lambda>wp. M (str wp))) ws) (o1, False)) =
    o1 @ join_words (filter (\<lambda>w. M w = filt) ss)"
proof -
  have "map str (filter (\<lambda>wp. matched wp = filt) (map (or_matched (\<lambda>wp. M (str wp))) ws)) =
      filter (\<lambda>w. M w = filt) (map str ws)"
    using assms(2) by (induction ws) (auto simp: or_matched_def)
  then show ?thesis
    unfolding output_words_eq assms(1) [symmetric] kill_last_def
    by (auto simp: butlast_spaced butlast_append simp flip: map_is_Nil_conv [of str])
qed

lemma words_ready:
  assumes "length ss < 2 ^ 30"
  shows "\<exists>ws ht L.
    (if hashing then insert_words [0 ..< length ss] (map as_word ss) (words_table (map as_word ss))
     else Some (Ok (map as_word ss, words_table (map as_word ss)))) = Some (Ok (ws, ht))
    \<and> (hashing \<longrightarrow> table_inv ss L (length ss) ht \<and> length ss < L) \<and> (hashing \<longrightarrow> chained ss ws)
    \<and> sound_words ss ws \<and> (\<forall>wp\<in>set ws. \<not> matched wp)"
proof (cases hashing)
  case True
  obtain ht L where f: "insert_words [0 ..< length ss] (map as_word ss) (words_table (map as_word ss))
      = Some (Ok (linked ss (length ss), ht))" "table_inv ss L (length ss) ht \<and> length ss < L"
    using fill_table [OF assms] by blast
  have "chained ss (linked ss (length ss))" "sound_words ss (linked ss (length ss))"
    "\<forall>wp\<in>set (linked ss (length ss)). \<not> matched wp"
    by (auto simp: chained_def sound_words_def linked_def as_word_def comp_def intro: nth_equalityI)
  then show ?thesis using True f by (intro exI [of _ "linked ss (length ss)"] exI [of _ ht] exI [of _ L]) simp
next
  case False
  have "sound_words ss (map as_word ss)" "\<forall>wp\<in>set (map as_word ss). \<not> matched wp"
    by (auto simp: sound_words_def as_word_def comp_def)
  then show ?thesis using False by auto
qed

section \<open>The functions\<close>

lemma filter_unfold:
  assumes "chop_patterns pats = Ok ps" and "chop_words txt = ws"
  shows "func_filter_filterout o1 [pats, txt] funcname =
    (let literals = length (filter (\<lambda>pp. percent pp = None) ps); words = length ws;
         hashing = (literals \<ge> 2 \<and> literals * words \<ge> 10)
     in then_do (if hashing then insert_words [0 ..< words] ws (words_table ws) else Some (Ok (ws, words_table ws)))
          (\<lambda>(ws, a_word_table).
             if words > 0 then
               then_do (run_patterns hashing a_word_table ps ws) (\<lambda>ws.
                 Some (Ok (kill_last (output_words (cget funcname 6 = NUL) ws (o1, False)))))
             else Some (Ok o1)))"
  using assms by (simp add: func_filter_filterout_def Let_def)

text \<open>
  C8: \<open>$(filter)\<close> returns the words that match a pattern, \<open>$(filter-out)\<close> those that match none, in
  their order, for any numbers of patterns and words, and so whether the words are hashed or not.
\<close>

theorem func_filter_filterout_correct:
  assumes "NUL \<notin> set pats" and "NUL \<notin> set txt" and "length (words_of txt) < 2 ^ 30"
  shows "func_filter_filterout o1 [pats, txt] funcname =
    Some (Ok (o1 @ join_words (filter
      (\<lambda>w. (\<exists>p\<in>set (words_of pats). word_matches (find_percent_cached p) w) = (cget funcname 6 = NUL)) (words_of txt))))"
proof -
  let ?ss = "words_of txt" and ?ps = "map find_percent_cached (words_of pats)"
  let ?filt = "cget funcname 6 = NUL"
  let ?M = "\<lambda>w. \<exists>p\<in>set ?ps. word_matches p w"
  have nz: "\<forall>w\<in>set ?ss. NUL \<notin> set w" using assms(2) set_words_of by blast
  have ps: "\<forall>p\<in>set ?ps. NUL \<notin> set (fst p) \<and> (\<forall>n. snd p = Some n \<longrightarrow> n < length (fst p))"
  proof
    fix p assume "p \<in> set ?ps"
    then obtain w where w: "w \<in> set (words_of pats)" "find_percent_cached w = (fst p, snd p)" by auto
    then have "NUL \<notin> set w" using assms(1) set_words_of by blast
    then show "NUL \<notin> set (fst p) \<and> (\<forall>n. snd p = Some n \<longrightarrow> n < length (fst p))"
      using find_percent_cached_range [OF w(2)] by blast
  qed
  define hashing where "hashing \<longleftrightarrow> length (filter (\<lambda>pp. percent pp = None) (map as_pattern ?ps)) \<ge> 2
      \<and> length (filter (\<lambda>pp. percent pp = None) (map as_pattern ?ps)) * length ?ss \<ge> 10"
  have chop: "chop_patterns pats = Ok (map as_pattern ?ps)" "chop_words txt = map as_word ?ss"
    using assms by (simp_all add: chop_patterns_eq chop_words_eq)
  obtain ws ht L where fill: "(if hashing then insert_words [0 ..< length ?ss] (map as_word ?ss) (words_table (map as_word ?ss))
        else Some (Ok (map as_word ?ss, words_table (map as_word ?ss)))) = Some (Ok (ws, ht))"
    and tab: "hashing \<Longrightarrow> table_inv ?ss L (length ?ss) ht \<and> length ?ss < L"
    and ch: "hashing \<Longrightarrow> chained ?ss ws"
    and ws: "sound_words ?ss ws" "\<forall>wp\<in>set ws. \<not> matched wp"
    using words_ready [OF assms(3)] by metis
  have run: "run_patterns hashing ht (map as_pattern ?ps) ws = Some (Ok (map (or_matched (\<lambda>wp. ?M (str wp))) ws))"
    using nz tab ps ws(1) ch by (rule run_patterns_eq)
  have "map str ws = ?ss" using ws(1) by (simp add: sound_words_def)
  then have out: "kill_last (output_words ?filt (map (or_matched (\<lambda>wp. ?M (str wp))) ws) (o1, False)) =
      o1 @ join_words (filter (\<lambda>w. ?M w = ?filt) ?ss)"
    using ws(2) by (rule output_marked)
  have "func_filter_filterout o1 [pats, txt] funcname =
      then_do (Some (Ok (ws, ht))) (\<lambda>(ws, a_word_table).
        if length ?ss > 0 then
          then_do (run_patterns hashing a_word_table (map as_pattern ?ps) ws) (\<lambda>ws.
            Some (Ok (kill_last (output_words ?filt ws (o1, False)))))
        else Some (Ok o1))"
    using filter_unfold [OF chop, of o1 funcname] unfolding Let_def length_map hashing_def [symmetric] fill .
  also have "\<dots> = Some (Ok (o1 @ join_words (filter (\<lambda>w. ?M w = ?filt) ?ss)))"
    unfolding then_do_simps prod.case run out by (cases ?ss) simp_all
  finally have "func_filter_filterout o1 [pats, txt] funcname = Some (Ok (o1 @ join_words (filter (\<lambda>w. ?M w = ?filt) ?ss)))" .
  then show ?thesis by simp
qed


theorem func_filter_filterout_correct_witness:
  "func_filter_filterout ''x'' [''b c %.o'', ''a b c b d.o''] ''filter'' = Some (Ok ''xb c b d.o'')
    \<and> func_filter_filterout ''x'' [''b c %.o'', ''a b c b d.o''] ''filter-out'' = Some (Ok ''xa'')"
proof -
  have "words_of ''b c %.o'' = [''b'', ''c'', ''%.o'']" "words_of ''a b c b d.o'' = [''a'', ''b'', ''c'', ''b'', ''d.o'']"
    by code_simp+
  moreover have "find_percent_cached ''b'' = (''b'', None)" "find_percent_cached ''c'' = (''c'', None)"
    "find_percent_cached ''%.o'' = (''%.o'', Some 0)" by code_simp+
  ultimately show ?thesis
    using func_filter_filterout_correct [of "''b c %.o''" "''a b c b d.o''" "''x''" "''filter''"]
      func_filter_filterout_correct [of "''b c %.o''" "''a b c b d.o''" "''x''" "''filter-out''"]
    by (simp add: word_matches_def matches_pattern_def)
qed

end
