(* ===== verification/MakeSort.thy ===== *)
theory MakeSort
  imports MakeWordsProps VersionCompare "HOL-Library.Multiset"
begin

text \<open>
  \<open>$(sort)\<close>, \<open>$(rsort)\<close>, \<open>$(versort)\<close> and \<open>$(rversort)\<close> of \<open>src/kmk/function.c\<close>, with \<open>alpha_compare\<close> of
  \<open>src/kmk/misc.c\<close>. The loop that counts the words steps over the terminator of the argument, so the
  memory behind it is a parameter, and reading past its end is a fault. The C library's \<open>qsort\<close> is a
  parameter too; what the standard says of it is \<open>qsort_ok\<close>.
\<close>

section \<open>The code\<close>

definition alpha_compare :: "string \<Rightarrow> string \<Rightarrow> int" where
  "alpha_compare s1 s2 = (if peek s1 \<noteq> peek s2 then schar (peek s1) - schar (peek s2) else strcmp s1 s2)"

definition version_compare_wrapper :: "string \<Rightarrow> string \<Rightarrow> int" where
  "version_compare_wrapper s1 s2 = version_compare s1 s2"

function sort_count :: "string \<Rightarrow> (unit, nat) outcome" where
  "sort_count t =
     (if NUL \<notin> set t then Undef OutOfBounds
      else case find_next_token t of
        None \<Rightarrow> Ok 0
      | Some (p, len, t') \<Rightarrow> obind (sort_count (drop 1 t')) (\<lambda>wordi. Ok (Suc wordi)))"
  by auto
termination
  by (relation "measure length") (auto dest: find_next_token_shorter simp: less_imp_diff_less)

function sort_words :: "string \<Rightarrow> string list" where
  "sort_words t =
     (case find_next_token t of
        None \<Rightarrow> []
      | Some (p, len, t') \<Rightarrow> take len p # sort_words (if peek t' \<noteq> NUL then tl t' else t'))"
  by auto
termination
  by (relation "measure length") (auto dest: find_next_token_shorter simp: less_imp_diff_less)

declare sort_count.simps [simp del] sort_words.simps [simp del]

text \<open>
  Output of the sorted words; the loop of \<open>$(rsort)\<close> does the same from the other end. A word is left
  out when the one after it has the same text.
\<close>

fun sort_output :: "string list \<Rightarrow> string \<Rightarrow> string" where
  "sort_output [] o1 = o1"
| "sort_output (w # ws) o1 =
     sort_output ws
       (if ws = [] \<or> length (hd ws) \<noteq> length w \<or> strcmp w (hd ws) \<noteq> 0
        then variable_buffer_output (variable_buffer_output o1 w (length w)) '' '' 1
        else o1)"

definition func_sort :: "((string \<Rightarrow> string \<Rightarrow> int) \<Rightarrow> string list \<Rightarrow> string list) \<Rightarrow> string \<Rightarrow> string
    \<Rightarrow> string list \<Rightarrow> string \<Rightarrow> (unit, string) outcome" where
  "func_sort qsort behind o1 argv funcname =
     obind (sort_count (argv ! 0 @ NUL # behind)) (\<lambda>count.
       let words = sort_words (argv ! 0);
           wordi = length words
       in if wordi > (if count = 0 then 1 else count) then Undef OutOfBounds
          else if wordi > 0 then
            (let words =
                   (if cget funcname 0 = CHR ''v'' \<or> cget funcname 1 = CHR ''v''
                    then qsort version_compare_wrapper words
                    else qsort alpha_compare words)
             in Ok (butlast (if cget funcname 0 \<noteq> CHR ''r'' then sort_output words o1
                             else sort_output (rev words) o1)))
          else Ok o1)"

text \<open>The contract of \<open>qsort\<close>: a permutation, in order where the comparison is one.\<close>

definition total_order :: "(string \<Rightarrow> string \<Rightarrow> int) \<Rightarrow> string set \<Rightarrow> bool" where
  "total_order cmp A \<longleftrightarrow>
     (\<forall>x\<in>A. \<forall>y\<in>A. sgn (cmp y x) = - sgn (cmp x y))
     \<and> (\<forall>x\<in>A. \<forall>y\<in>A. \<forall>z\<in>A. cmp x y \<le> 0 \<longrightarrow> cmp y z \<le> 0 \<longrightarrow> cmp x z \<le> 0)"

definition qsort_ok :: "((string \<Rightarrow> string \<Rightarrow> int) \<Rightarrow> string list \<Rightarrow> string list) \<Rightarrow> bool" where
  "qsort_ok qsort \<longleftrightarrow>
     (\<forall>cmp xs. mset (qsort cmp xs) = mset xs
        \<and> (total_order cmp (set xs) \<longrightarrow> sorted_wrt (\<lambda>x y. cmp x y \<le> 0) (qsort cmp xs)))"

section \<open>Counting\<close>

declare dropWhile_eq_Nil_conv [simp del]

lemma find_next_token_cut:
  assumes "NUL \<notin> set s"
  shows "find_next_token (s @ NUL # m) =
    (case find_next_token s of
       None \<Rightarrow> None
     | Some (p, len, s') \<Rightarrow> Some (p @ NUL # m, len, s' @ NUL # m))"
proof -
  let ?w = "\<lambda>c. \<not> ISBLANK c \<and> c \<noteq> NUL"
  have b: "dropWhile ISBLANK (s @ NUL # m) = dropWhile ISBLANK s @ NUL # m" by (induction s) auto
  have w: "NUL \<notin> set q \<Longrightarrow> dropWhile ?w (q @ NUL # m) = dropWhile ?w q @ NUL # m" for q by (induction q) auto
  have nz: "NUL \<notin> set (dropWhile ISBLANK s)" using assms by (meson set_dropWhileD)
  show ?thesis
  proof (cases "dropWhile ISBLANK s")
    case Nil
    then show ?thesis by (simp add: find_next_token_def skip_blanks4_eq b)
  next
    case (Cons c q)
    then have "c \<noteq> NUL" and q: "NUL \<notin> set q" using nz by auto
    then show ?thesis
      using w [OF q] Cons
      by (simp add: find_next_token_def skip_blanks4_eq skip_word4_eq b Let_def)
  qed
qed

text \<open>The count is at least the number of words of the argument, whatever lies behind it.\<close>

lemma sort_words_eq: "NUL \<notin> set s \<Longrightarrow> sort_words s = words_of s"
proof (induction "length s" arbitrary: s rule: less_induct)
  case less
  show ?case
  proof (cases rule: next_word [OF less.prems])
    case 1
    then show ?thesis by (subst sort_words.simps) simp
  next
    case (2 w r)
    let ?r = "if peek r \<noteq> NUL then tl r else r"
    have "NUL \<notin> set ?r" "words_of ?r = words_of r" using 2 by (cases r; auto)+
    moreover have "length ?r < length s" using 2 by (cases r) auto
    ultimately have "sort_words ?r = words_of r" using less.hyps by simp
    then show ?thesis using 2 by (subst sort_words.simps) simp
  qed
qed

lemma sort_count_ge:
  "NUL \<notin> set s \<Longrightarrow> sort_count (s @ NUL # m) = Ok n \<Longrightarrow> length (words_of s) \<le> n"
proof (induction "length s" arbitrary: s n rule: less_induct)
  case less
  show ?case
  proof (cases rule: next_word [OF less.prems(1)])
    case 1
    then show ?thesis by simp
  next
    case (2 w r)
    obtain k where n: "n = Suc k" and k: "sort_count (drop 1 (r @ NUL # m)) = Ok k"
      using less.prems(2) 2 find_next_token_cut [OF less.prems(1), of m]
      by (subst (asm) sort_count.simps) (auto simp: obind_eq_Ok)
    show ?thesis
    proof (cases r)
      case Nil
      then show ?thesis using 2 n by simp
    next
      case (Cons c q)
      then have "words_of r = words_of q" and "NUL \<notin> set q" and "length q < length s" using 2 by auto
      moreover have "sort_count (q @ NUL # m) = Ok k" using k Cons by simp
      ultimately show ?thesis using less.hyps [of q k] 2 n by simp
    qed
  qed
qed

text \<open>
  It reads behind the terminator exactly when the argument ends in a word, and then goes on to count
  the words of the memory there.
\<close>

lemma sort_count_behind:
  "NUL \<notin> set s \<Longrightarrow> sort_count (s @ NUL # m) =
    (if s = [] \<or> ISBLANK (last s) then Ok (length (words_of s))
     else obind (sort_count m) (\<lambda>n. Ok (length (words_of s) + n)))"
proof (induction "length s" arbitrary: s rule: less_induct)
  case less
  show ?case
  proof (cases rule: next_word [OF less.prems])
    case 1
    then have "s = [] \<or> ISBLANK (last s)"
      using less.prems find_next_token_eq [of s]
      by (cases "s = []") (auto simp: Let_def dropWhile_eq_Nil_conv split: if_splits)
    then show ?thesis
      using 1 find_next_token_cut [OF less.prems, of m] by (subst sort_count.simps) simp
  next
    case (2 w r)
    have s: "sort_count (s @ NUL # m) = obind (sort_count (drop 1 (r @ NUL # m))) (\<lambda>n. Ok (Suc n))"
      using 2 find_next_token_cut [OF less.prems, of m] by (subst sort_count.simps) simp
    have "dropWhile ISBLANK s = w @ r"
      using 2(2) less.prems by (auto simp: find_next_token_eq Let_def split: if_splits)
    then obtain b where b: "s = b @ w @ r" by (metis takeWhile_dropWhile_id)
    have wl: "w \<noteq> []" "\<not> ISBLANK (last w)" using 2 last_in_set [of w] by (auto simp: is_word_def nonblank_def)
    show ?thesis
    proof (cases r)
      case Nil
      then show ?thesis using 2 s b wl by simp
    next
      case (Cons c q)
      then have q: "words_of r = words_of q" "NUL \<notin> set q" "length q < length s" and c: "ISBLANK c" using 2 by auto
      have "s = [] \<or> ISBLANK (last s) \<longleftrightarrow> q = [] \<or> ISBLANK (last q)" using b Cons c by auto
      then show ?thesis using less.hyps [OF q(3,2)] s 2 q(1) Cons by (cases "sort_count m") auto
    qed
  qed
qed


section \<open>The order\<close>

lemma schar_inj_less: "schar a - schar b = 0 \<longleftrightarrow> a = b"
  by auto

lemma alpha_compare_0: "alpha_compare x y = 0 \<longleftrightarrow> x = y"
  by (auto simp: alpha_compare_def)

lemma alpha_compare_antisym: "sgn (alpha_compare y x) = - sgn (alpha_compare x y)"
proof (cases "peek x = peek y")
  case True
  then show ?thesis unfolding alpha_compare_def strcmp_antisym [of y x] by (simp add: sgn_minus)
next
  case False
  have "schar (peek y) - schar (peek x) = - (schar (peek x) - schar (peek y))" by simp
  then show ?thesis using False unfolding alpha_compare_def by (simp only: sgn_minus if_True not_False_eq_True eq_commute)
qed

lemma alpha_compare_trans: "alpha_compare x y \<le> 0 \<Longrightarrow> alpha_compare y z \<le> 0 \<Longrightarrow> alpha_compare x z \<le> 0"
proof -
  assume xy: "alpha_compare x y \<le> 0" and yz: "alpha_compare y z \<le> 0"
  have le: "strcmp x z \<le> 0" if "strcmp x y \<le> 0" "strcmp y z \<le> 0"
    using that strcmp_trans [of x y z] strcmp_eq_0 [of x y] strcmp_eq_0 [of y z]
    by (metis order_le_less)
  have eq: "schar a \<le> schar b \<Longrightarrow> schar b \<le> schar a \<Longrightarrow> a = b" for a b by simp
  show ?thesis
    using xy yz le eq [of "peek x" "peek y"]
    by (auto simp: alpha_compare_def split: if_splits)
qed

lemma total_order_alpha: "total_order alpha_compare A"
  unfolding total_order_def using alpha_compare_antisym alpha_compare_trans by blast

text \<open>Leaving out a word before an equal one makes a sorted list strictly sorted.\<close>

fun unique :: "string list \<Rightarrow> string list" where
  "unique [] = []"
| "unique (w # ws) = (if ws = [] \<or> hd ws \<noteq> w then w # unique ws else unique ws)"

lemma set_unique [simp]: "set (unique ws) = set ws"
proof (induction ws)
  case (Cons w ws)
  show ?case
  proof (cases "ws = [] \<or> hd ws \<noteq> w")
    case False
    then have "w \<in> set ws" using hd_in_set [of ws] by simp
    then have "insert w (set ws) = set ws" by (rule insert_absorb)
    then show ?thesis using False Cons by simp
  qed (use Cons in simp)
qed simp

lemma hd_unique: "ws \<noteq> [] \<Longrightarrow> hd (unique ws) = hd ws"
  by (induction ws rule: unique.induct) auto

lemma sort_output_eq: "sort_output ws o1 = o1 @ spaced (unique ws)"
  by (induction ws o1 rule: sort_output.induct) (auto simp: variable_buffer_output_def)

lemma sorted_unique:
  assumes "\<And>x y z. R x y \<Longrightarrow> R y z \<Longrightarrow> R x z" and "\<And>x y. R x y \<Longrightarrow> R y x \<Longrightarrow> x = y"
  shows "sorted_wrt R ws \<Longrightarrow> sorted_wrt (\<lambda>x y. R x y \<and> x \<noteq> y) (unique ws)"
proof (induction ws)
  case (Cons w ws)
  then have IH: "sorted_wrt (\<lambda>x y. R x y \<and> x \<noteq> y) (unique ws)" by simp
  show ?case
  proof (cases "ws = [] \<or> hd ws \<noteq> w")
    case True
    have "w \<noteq> v" if "v \<in> set ws" for v
    proof
      assume "w = v"
      then have "ws \<noteq> []" using that by auto
      then have h: "hd ws \<in> set ws" "R w (hd ws)" using Cons.prems by auto
      have "R (hd ws) v \<or> hd ws = v" using that Cons.prems \<open>ws \<noteq> []\<close> by (cases ws) auto
      then show False using h assms(2) [of w "hd ws"] \<open>w = v\<close> True \<open>ws \<noteq> []\<close> by auto
    qed
    then show ?thesis using True IH Cons.prems by auto
  qed (use IH in simp)
qed simp

lemma unique_not_Nil: "unique ws = [] \<longleftrightarrow> ws = []"
  by (metis set_empty set_unique)

lemma alpha_sorted_unique:
  assumes "sorted_wrt (\<lambda>x y. alpha_compare x y \<le> 0) ws"
  shows "sorted_wrt (\<lambda>x y. alpha_compare x y < 0) (unique ws)"
    and "sorted_wrt (\<lambda>x y. alpha_compare y x < 0) (unique (rev ws))"
proof -
  have t: "\<And>x y z. alpha_compare x y \<le> 0 \<Longrightarrow> alpha_compare y z \<le> 0 \<Longrightarrow> alpha_compare x z \<le> 0"
    by (rule alpha_compare_trans)
  have a: "\<And>x y. alpha_compare x y \<le> 0 \<Longrightarrow> alpha_compare y x \<le> 0 \<Longrightarrow> x = y"
  proof (rule ccontr)
    fix x y assume le: "alpha_compare x y \<le> 0" "alpha_compare y x \<le> 0" and "x \<noteq> y"
    then have "alpha_compare x y < 0" using alpha_compare_0 [of x y] by linarith
    then have "sgn (alpha_compare y x) = 1" using alpha_compare_antisym [of x y] by simp
    then show False using le(2) by (simp add: sgn_1_pos)
  qed
  have l: "\<And>x y. alpha_compare x y \<le> 0 \<and> x \<noteq> y \<longleftrightarrow> alpha_compare x y < 0"
    using alpha_compare_0 by (simp only: order_less_le)
  show "sorted_wrt (\<lambda>x y. alpha_compare x y < 0) (unique ws)"
    using sorted_unique [of "\<lambda>x y. alpha_compare x y \<le> 0", OF t a assms] by (simp only: l)
  have "sorted_wrt (\<lambda>x y. alpha_compare y x \<le> 0) (rev ws)" using assms by (simp add: sorted_wrt_rev)
  then have "sorted_wrt (\<lambda>x y. alpha_compare y x \<le> 0 \<and> x \<noteq> y) (unique (rev ws))"
    using t a by (intro sorted_unique) blast+
  moreover have "\<And>x y. alpha_compare y x \<le> 0 \<and> x \<noteq> y \<longleftrightarrow> alpha_compare y x < 0"
    using l by blast
  ultimately show "sorted_wrt (\<lambda>x y. alpha_compare y x < 0) (unique (rev ws))" by (simp only:)
qed

text \<open>
  C12: \<open>$(sort)\<close> returns the words of its argument once each, in ascending order, \<open>$(rsort)\<close> in descending
  order, when the memory behind the argument has another zero where it is read.
\<close>

theorem func_sort_correct:
  assumes "qsort_ok qsort" and "NUL \<notin> set s" and "ISBLANK (last s) \<or> sort_count behind = Ok n"
    and "funcname = ''sort'' \<or> funcname = ''rsort''"
  shows "\<exists>ws. func_sort qsort behind o1 [s] funcname = Ok (o1 @ join_words ws)
    \<and> set ws = set (words_of s)
    \<and> sorted_wrt (\<lambda>x y. if funcname = ''sort'' then alpha_compare x y < 0 else alpha_compare y x < 0) ws"
proof -
  obtain count where c: "sort_count (s @ NUL # behind) = Ok count"
    using sort_count_behind [OF assms(2), of behind] assms(3) by (auto split: if_splits)
  have n: "\<not> length (words_of s) > (if count = 0 then 1 else count)"
    using sort_count_ge [OF assms(2) c] by auto
  let ?ws = "qsort alpha_compare (words_of s)"
  have m: "mset ?ws = mset (words_of s)" and q: "sorted_wrt (\<lambda>x y. alpha_compare x y \<le> 0) ?ws"
    using assms(1) total_order_alpha unfolding qsort_ok_def by blast+
  note q = mset_eq_length [OF m] mset_eq_setD [OF m] q
  let ?us = "if funcname = ''sort'' then unique ?ws else unique (rev ?ws)"
  have "func_sort qsort behind o1 [s] funcname = Ok (o1 @ join_words ?us)"
  proof (cases "words_of s = []")
    case True
    then have "?ws = []" using q(1) by simp
    then show ?thesis using c True by (simp add: func_sort_def sort_words_eq [OF assms(2)])
  next
    case False
    then have "?ws \<noteq> []" using q(1) by auto
    then have "?us \<noteq> []" by (simp add: unique_not_Nil)
    moreover have "func_sort qsort behind o1 [s] funcname = Ok (butlast (o1 @ spaced ?us))"
      using assms(4) c n False by (auto simp: func_sort_def sort_words_eq [OF assms(2)] sort_output_eq Let_def)
    ultimately show ?thesis by (simp add: butlast_spaced butlast_append)
  qed
  moreover have "set ?us = set (words_of s)" using q(2) by simp
  moreover have "sorted_wrt (\<lambda>x y. if funcname = ''sort'' then alpha_compare x y < 0 else alpha_compare y x < 0) ?us"
    using alpha_sorted_unique [OF q(3)] by (cases "funcname = ''sort''") simp_all
  ultimately show ?thesis by blast
qed


section \<open>Insertion sort, a sorting function of the contract\<close>

fun insert_in :: "(string \<Rightarrow> string \<Rightarrow> int) \<Rightarrow> string \<Rightarrow> string list \<Rightarrow> string list" where
  "insert_in cmp x [] = [x]"
| "insert_in cmp x (y # ys) = (if cmp x y \<le> 0 then x # y # ys else y # insert_in cmp x ys)"

fun insertion_sort :: "(string \<Rightarrow> string \<Rightarrow> int) \<Rightarrow> string list \<Rightarrow> string list" where
  "insertion_sort cmp [] = []"
| "insertion_sort cmp (x # xs) = insert_in cmp x (insertion_sort cmp xs)"

lemma insert_in_ok: "mset (insert_in cmp x ys) = add_mset x (mset ys)"
  by (induction ys) auto

lemma set_insert_in [simp]: "set (insert_in cmp x ys) = insert x (set ys)"
  by (induction ys) auto

lemma insertion_sort_mset: "mset (insertion_sort cmp xs) = mset xs"
  by (induction xs) (auto simp: insert_in_ok)

lemma set_insertion_sort [simp]: "set (insertion_sort cmp xs) = set xs"
  by (rule mset_eq_setD [OF insertion_sort_mset])

lemma total_order_trans:
  "total_order cmp A \<Longrightarrow> x \<in> A \<Longrightarrow> y \<in> A \<Longrightarrow> z \<in> A \<Longrightarrow> cmp x y \<le> 0 \<Longrightarrow> cmp y z \<le> 0 \<Longrightarrow> cmp x z \<le> 0"
  unfolding total_order_def by blast

lemma total_order_antisym:
  "total_order cmp A \<Longrightarrow> x \<in> A \<Longrightarrow> y \<in> A \<Longrightarrow> sgn (cmp y x) = - sgn (cmp x y)"
  unfolding total_order_def by blast

lemma total_order_mono:
  assumes "total_order cmp A" and "B \<subseteq> A"
  shows "total_order cmp B"
proof -
  have "sgn (cmp y x) = - sgn (cmp x y)" if "x \<in> B" "y \<in> B" for x y
    using assms that unfolding total_order_def by blast
  moreover have "cmp x z \<le> 0" if "x \<in> B" "y \<in> B" "z \<in> B" "cmp x y \<le> 0" "cmp y z \<le> 0" for x y z
    using that assms(2) by (intro total_order_trans [OF assms(1), of x y z]) auto
  ultimately show ?thesis unfolding total_order_def by blast
qed

lemma insert_in_sorted:
  "total_order cmp (insert x (set ys)) \<Longrightarrow> sorted_wrt (\<lambda>x y. cmp x y \<le> 0) ys \<Longrightarrow>
    sorted_wrt (\<lambda>x y. cmp x y \<le> 0) (insert_in cmp x ys)"
proof (induction ys)
  case (Cons y ys)
  show ?case
  proof (cases "cmp x y \<le> 0")
    case True
    have "cmp x z \<le> 0" if "z \<in> set ys" for z
      using that True Cons.prems(2) by (intro total_order_trans [OF Cons.prems(1), of x y z]) auto
    then show ?thesis using True Cons.prems by simp
  next
    case False
    have "sgn (cmp y x) = - sgn (cmp x y)" by (rule total_order_antisym [OF Cons.prems(1)]) simp_all
    then have le: "cmp y x \<le> 0" using False by (simp add: sgn_if split: if_splits)
    have "total_order cmp (insert x (set ys))" by (rule total_order_mono [OF Cons.prems(1)]) auto
    then have "sorted_wrt (\<lambda>x y. cmp x y \<le> 0) (insert_in cmp x ys)" using Cons.IH Cons.prems(2) by simp
    moreover have "\<forall>z\<in>set (insert_in cmp x ys). cmp y z \<le> 0"
      using le Cons.prems(2) by simp
    ultimately show ?thesis using False by simp
  qed
qed simp

lemma insertion_sort_ok: "qsort_ok insertion_sort"
proof -
  have "total_order cmp (set xs) \<longrightarrow> sorted_wrt (\<lambda>x y. cmp x y \<le> 0) (insertion_sort cmp xs)" for cmp xs
  proof (induction xs)
    case (Cons x xs)
    have "total_order cmp (set (x # xs)) \<Longrightarrow> total_order cmp (set xs)" by (erule total_order_mono) auto
    moreover have "total_order cmp (set (x # xs)) \<Longrightarrow> total_order cmp (insert x (set (insertion_sort cmp xs)))"
      by simp
    ultimately show ?case
      using Cons insert_in_sorted [of cmp x "insertion_sort cmp xs"] by simp
  qed simp
  then show ?thesis by (simp add: qsort_ok_def insertion_sort_mset)
qed

theorem func_sort_correct_witness:
  "\<exists>ws. func_sort insertion_sort [NUL] ''x'' [''b c a b''] ''sort'' = Ok (''x'' @ join_words ws)
    \<and> set ws = {''a'', ''b'', ''c''} \<and> sorted_wrt (\<lambda>x y. alpha_compare x y < 0) ws"
proof -
  have "words_of ''b c a b'' = [''b'', ''c'', ''a'', ''b'']" by code_simp
  moreover have "sort_count [NUL] = Ok 0" by code_simp
  ultimately show ?thesis
    using func_sort_correct [OF insertion_sort_ok, of "''b c a b''" "[NUL]" 0 "''sort''" "''x''"] by (simp add: insert_commute)
qed

text \<open>The words are counted in the memory behind an argument that ends in a word; where it has no zero, the scan leaves it.\<close>

theorem func_sort_reads_behind:
  assumes "NUL \<notin> set (s @ behind)" and "s \<noteq> []" and "\<not> ISBLANK (last s)"
  shows "func_sort qsort behind o1 [s] funcname = Undef OutOfBounds"
proof -
  have "sort_count behind = Undef OutOfBounds" using assms(1) by (subst sort_count.simps) simp
  then show ?thesis using sort_count_behind [of s behind] assms by (simp add: func_sort_def)
qed

theorem func_sort_reads_behind_witness:
  "func_sort insertion_sort ''b'' [] [''a''] ''sort'' = Undef OutOfBounds"
  by (rule func_sort_reads_behind) (simp_all add: ISBLANK_def)

text \<open>\<open>$(versort)\<close> keeps a word twice when a version that compares equal stands between the two.\<close>

theorem versort_keeps_duplicates:
  "func_sort insertion_sort [NUL] [] [''1.0 1.00 1.0''] ''versort'' = Ok ''1.0 1.00 1.0''"
proof -
  have "sort_words ''1.0 1.00 1.0'' = [''1.0'', ''1.00'', ''1.0'']" by code_simp
  moreover have "sort_count (''1.0 1.00 1.0'' @ [NUL, NUL]) = Ok 3" by code_simp
  moreover have "version_compare ''1.0'' ''1.00'' = 0" "version_compare ''1.00'' ''1.0'' = 0" by code_simp+
  ultimately show ?thesis
    by (simp add: func_sort_def version_compare_wrapper_def variable_buffer_output_def)
qed

end
