(* ===== verification/MakeWordSel.thy ===== *)
theory MakeWordSel
  imports MakeWordsProps
begin

text \<open>
  Selecting words by number: what \<open>check_numeric\<close> accepts, and \<open>$(words)\<close>, \<open>$(word)\<close>, \<open>$(wordlist)\<close>,
  \<open>$(firstword)\<close> and \<open>$(lastword)\<close> in terms of the list of words.
\<close>

section \<open>Numeric arguments\<close>

lemma strip_begin_eq:
  "i \<le> length s \<Longrightarrow> strip_begin s (int i) (int (length s) - 1) = int (i + length (takeWhile ISSPACE (drop i s)))"
proof (induction "length s - i" arbitrary: i)
  case 0
  then show ?case by (subst strip_begin.simps) simp
next
  case (Suc n)
  then have i: "i < length s" and d: "drop i s = s ! i # drop (Suc i) s" by (auto simp: Cons_nth_drop_Suc)
  show ?case
  proof (cases "ISSPACE (s ! i)")
    case True
    have "strip_begin s (int i) (int (length s) - 1) = strip_begin s (int (Suc i)) (int (length s) - 1)"
      using i True by (subst strip_begin.simps) (simp add: cget_def algebra_simps)
    also have "\<dots> = int (Suc i + length (takeWhile ISSPACE (drop (Suc i) s)))" using Suc i by (intro Suc.hyps) auto
    finally show ?thesis using d True by simp
  next
    case False
    then show ?thesis using i d by (subst strip_begin.simps) (simp add: cget_def)
  qed
qed

lemma strip_end_eq:
  "b \<le> n \<Longrightarrow> n \<le> length s \<Longrightarrow>
    strip_end s (int b) (int n - 1) = int n - 1 - int (length (takeWhile ISSPACE (rev (drop b (take n s)))))"
proof (induction n)
  case 0
  then show ?case by (subst strip_end.simps) simp
next
  case (Suc n)
  show ?case
  proof (cases "b \<le> n")
    case True
    have r: "rev (drop b (take (Suc n) s)) = s ! n # rev (drop b (take n s))"
      using Suc.prems True by (simp add: take_Suc_conv_app_nth)
    show ?thesis
    proof (cases "ISSPACE (s ! n)")
      case sp: True
      have "strip_end s (int b) (int (Suc n) - 1) = strip_end s (int b) (int n - 1)"
        using Suc.prems True sp by (subst strip_end.simps) (simp add: cget_def)
      then show ?thesis using Suc.IH Suc.prems True r sp by simp
    next
      case False
      then show ?thesis using Suc.prems True r by (subst strip_end.simps) (simp add: cget_def)
    qed
  next
    case False
    then show ?thesis using Suc.prems by (subst strip_end.simps) (simp add: le_Suc_eq)
  qed
qed

lemma numeric_loop_eq:
  "i \<le> n \<Longrightarrow> n \<le> length s \<Longrightarrow>
    numeric_loop s (int i) (int n - 1) = int (i + length (takeWhile isdigit (drop i (take n s))))"
proof (induction "n - i" arbitrary: i)
  case 0
  then show ?case by (subst numeric_loop.simps) simp
next
  case (Suc k)
  then have i: "i < n" by simp
  then have d: "drop i (take n s) = s ! i # drop (Suc i) (take n s)"
    using Suc.prems by (metis Cons_nth_drop_Suc length_take min.absorb2 nth_take)
  show ?case
  proof (cases "isdigit (s ! i)")
    case True
    have "numeric_loop s (int i) (int n - 1) = numeric_loop s (int (Suc i)) (int n - 1)"
      using i Suc.prems True by (subst numeric_loop.simps) (simp add: cget_def algebra_simps)
    also have "\<dots> = int (Suc i + length (takeWhile isdigit (drop (Suc i) (take n s))))"
      using Suc i by (intro Suc.hyps) auto
    finally show ?thesis using d True by simp
  next
    case False
    then show ?thesis using i Suc.prems d by (subst numeric_loop.simps) (simp add: cget_def)
  qed
qed

text \<open>A numeric argument: digits between spaces, where either may be missing, but not both.\<close>

definition stripped :: "string \<Rightarrow> string" where
  "stripped s = rev (dropWhile ISSPACE (rev (dropWhile ISSPACE s)))"

lemma length_takeWhile_all: "length (takeWhile P xs) = length xs \<longleftrightarrow> (\<forall>x\<in>set xs. P x)"
  by (induction xs) auto

text \<open>A numeric argument is accepted when it is not empty and has only digits between its leading and its
  trailing white space; white space alone passes.\<close>

theorem check_numeric_correct:
  "check_numeric s msg =
    (if s \<noteq> [] \<and> list_all isdigit (stripped s) then Ok () else Fatal (NonNumeric msg s))"
proof (cases "s = []")
  case True
  then show ?thesis
    by (simp add: check_numeric_def strip_whitespace_def strip_begin.simps strip_end.simps Let_def)
next
  case False
  let ?b = "length (takeWhile ISSPACE s)"
  let ?t = "dropWhile ISSPACE s"
  let ?k = "length (takeWhile ISSPACE (rev ?t))"
  let ?n = "length s - ?k"
  have sb: "strip_begin s 0 (int (length s) - 1) = int ?b"
    using strip_begin_eq [of 0 s] by simp
  have bl: "?b \<le> length s" by (rule length_takeWhile_le)
  have t: "drop ?b s = ?t" by (rule dropWhile_eq_drop [symmetric])
  have lt: "length ?t = length s - ?b" by (simp only: length_drop t [symmetric])
  have k: "?k \<le> length ?t" using length_takeWhile_le [of ISSPACE "rev ?t"] by simp
  have "strip_end s (int ?b) (int (length s) - 1) = int (length s) - 1 - int ?k"
    using strip_end_eq [of ?b "length s" s] bl t by simp
  also have "\<dots> = int ?n - 1" using k lt by simp
  finally have se: "strip_end s (int ?b) (int (length s) - 1) = int ?n - 1" .
  have bn: "?b \<le> ?n" using k lt bl by linarith
  have st: "drop ?b (take ?n s) = stripped s"
  proof -
    have "drop ?b (take ?n s) = take (length ?t - ?k) ?t"
      unfolding drop_take t lt by (simp add: add.commute)
    also have "\<dots> = rev (drop ?k (rev ?t))" by (simp add: rev_drop)
    also have "drop ?k (rev ?t) = dropWhile ISSPACE (rev ?t)" by (rule dropWhile_eq_drop [symmetric])
    finally show ?thesis by (simp add: stripped_def)
  qed
  have ls: "length (stripped s) = ?n - ?b" unfolding st [symmetric] by simp
  have "numeric_loop s (int ?b) (int ?n - 1) = int (?b + length (takeWhile isdigit (stripped s)))"
    using numeric_loop_eq [of ?b ?n s] bn st by simp
  moreover have "int (?b + length (takeWhile isdigit (stripped s))) \<le> int ?n - 1 \<longleftrightarrow> \<not> list_all isdigit (stripped s)"
    using ls bn length_takeWhile_all [of isdigit "stripped s"] length_takeWhile_le [of isdigit "stripped s"]
    by (auto simp: list_all_iff)
  moreover have "\<not> int ?n - 1 < 0"
  proof (cases ?t)
    case Nil
    then show ?thesis using False by simp
  next
    case (Cons c q)
    then have "\<not> ISSPACE c" by (simp add: dropWhile_eq_Cons_conv)
    then have "\<not> (\<forall>x\<in>set (rev ?t). ISSPACE x)" using Cons by auto
    then have "?k \<noteq> length ?t"
      using length_takeWhile_all [of ISSPACE "rev ?t"] by (simp only: length_rev) simp
    then have "?k < length ?t" using k by linarith
    then show ?thesis using lt by linarith
  qed
  ultimately show ?thesis
    using False by (simp add: check_numeric_def strip_whitespace_def sb se Let_def)
qed



text \<open>Printed numbers are numeric arguments, with their value.\<close>

lemma cord_digit: "(d::nat) < 10 \<Longrightarrow> cord (char_of (48 + d)) = 48 + d"
  by (simp add: cord_def of_char_of)

lemma isdigit_digit: "(d::nat) < 10 \<Longrightarrow> isdigit (char_of (48 + d))"
  unfolding isdigit_def by (subst (1 2) cord_digit) simp_all

lemma dec_digits_ok: "list_all isdigit (dec_digits n) \<and> dec_digits n \<noteq> [] \<and> dec_value (dec_digits n) = n"
proof (induction n rule: dec_digits.induct)
  case (1 n)
  show ?case
  proof (cases "n < 10")
    case True
    then show ?thesis
      using isdigit_digit [of n] cord_digit [of n] by (subst (1 2 3) dec_digits.simps) (simp add: dec_value_def)
  next
    case False
    let ?d = "char_of (48 + n mod 10)"
    have "dec_value (dec_digits (n div 10) @ [?d]) = n div 10 * 10 + n mod 10"
      using 1 False cord_digit [of "n mod 10"] by (simp add: dec_value_append) (simp add: dec_value_def)
    then show ?thesis
      using 1 False isdigit_digit [of "n mod 10"] by (subst (1 2 3) dec_digits.simps) simp
  qed
qed

lemma digit_not_space: "isdigit c \<Longrightarrow> \<not> ISSPACE c \<and> \<not> isspace c \<and> c \<noteq> CHR ''-'' \<and> c \<noteq> CHR ''+''"
  by (auto simp: ctype_defs)

lemma stripped_digits: "list_all isdigit s \<Longrightarrow> stripped s = s"
proof -
  assume s: "list_all isdigit s"
  have "dropWhile ISSPACE xs = xs" if "list_all isdigit xs" for xs
    using that digit_not_space by (cases xs) auto
  then show ?thesis using s by (simp add: stripped_def list_all_rev)
qed

lemma check_numeric_dec: "check_numeric (dec_digits n) msg = Ok ()"
  using dec_digits_ok [of n] by (simp add: check_numeric_correct stripped_digits)

lemma atoi_dec: "n < 2 ^ 31 \<Longrightarrow> atoi (dec_digits n) = Ok (int n)"
proof -
  assume n: "n < 2 ^ 31"
  obtain c s where d: "dec_digits n = c # s" and c: "isdigit c"
    using dec_digits_ok [of n] by (cases "dec_digits n") auto
  have "takeWhile isdigit (dec_digits n) = dec_digits n"
    using dec_digits_ok [of n] unfolding takeWhile_eq_all_conv list_all_iff by simp
  moreover have "dropWhile isspace (dec_digits n) = dec_digits n"
    using d c digit_not_space by simp
  moreover have "peek (dec_digits n) \<noteq> CHR ''-''" "peek (dec_digits n) \<noteq> CHR ''+''"
    using d c digit_not_space by auto
  moreover have "dec_value (dec_digits n) = n" using dec_digits_ok [of n] by simp
  ultimately show ?thesis using n unfolding atoi_def Let_def by (simp del: takeWhile_eq_all_conv)
qed


section \<open>Words by number\<close>

lemma func_words_correct:
  assumes "NUL \<notin> set txt"
  shows "func_words o1 [txt] = o1 @ dec_digits (length (words_of txt))"
proof -
  have "token_loop (\<lambda>i _ _. Suc i) n txt = foldl (\<lambda>i _. Suc i) n (words_of txt)" for n
    by (rule token_loop_foldl [OF assms]) simp
  moreover have "foldl (\<lambda>i _. Suc i) n ws = n + length ws" for n and ws :: "string list"
    by (induction ws arbitrary: n) auto
  ultimately show ?thesis by (simp add: func_words_def variable_buffer_output_def)
qed

lemma func_lastword_correct:
  assumes "NUL \<notin> set txt"
  shows "func_lastword o1 [txt] = o1 @ (if words_of txt = [] then [] else last (words_of txt))"
proof -
  have "NUL \<notin> set ptr \<Longrightarrow>
      map_option (\<lambda>(t, i). take i t) (token_loop (\<lambda>_ t i. Some (t, i)) s ptr) =
      (if words_of ptr = [] then map_option (\<lambda>(t, i). take i t) s else Some (last (words_of ptr)))" for s ptr
  proof (induction "length ptr" arbitrary: s ptr rule: less_induct)
    case less
    show ?case
    proof (cases rule: next_word [OF less.prems])
      case 1
      then show ?thesis by (subst token_loop.simps) simp
    next
      case (2 w r)
      then show ?thesis
        using less.hyps [of r "Some (w @ r, length w)"] by (subst token_loop.simps) simp
    qed
  qed
  from this [OF assms, of None] show ?thesis
    by (auto simp: func_lastword_def variable_buffer_output_def split: option.split if_splits)
qed

lemma func_firstword_correct:
  assumes "NUL \<notin> set txt"
  shows "func_firstword o1 [txt] = o1 @ (if words_of txt = [] then [] else hd (words_of txt))"
  by (cases rule: next_word [OF assms]) (simp_all add: func_firstword_def variable_buffer_output_def)

lemma word_loop_eq:
  assumes "NUL \<notin> set s" and "0 < i"
  shows "if i \<le> int (length (words_of s))
    then \<exists>p e. word_loop i s = (Some p, 0, e) \<and> take (length p - length e) p = words_of s ! (nat i - 1)
    else \<exists>j e. word_loop i s = (None, j, e) \<and> j > 0"
  using assms
proof (induction "length s" arbitrary: s i rule: less_induct)
  case less
  show ?case
  proof (cases rule: next_word [OF less.prems(1)])
    case 1
    then show ?thesis using less.prems by (subst word_loop.simps) simp
  next
    case (2 w r)
    show ?thesis
    proof (cases "i = 1")
      case True
      then show ?thesis using 2 by (subst word_loop.simps) simp
    next
      case False
      then have "nat i - 1 = Suc (nat (i - 1) - 1)" using less.prems by linarith
      moreover have "word_loop i s = word_loop (i - 1) r" using 2 False by (subst word_loop.simps) simp
      ultimately show ?thesis using less.hyps [of r "i - 1"] less.prems 2 False by (auto split: if_splits)
    qed
  qed
qed

text \<open>The word function selects the word of the given number, and nothing where there are fewer words.\<close>

theorem func_word_correct:
  assumes "NUL \<notin> set txt" and "0 < n" and "n < 2 ^ 31"
  shows "func_word o1 [dec_digits n, txt] =
    Ok (o1 @ (if n \<le> length (words_of txt) then words_of txt ! (n - 1) else []))"
  using word_loop_eq [of "txt" "int n"] assms
  by (auto simp: func_word_def check_numeric_dec atoi_dec variable_buffer_output_def split: if_splits)

theorem func_word_correct_witness:
  "func_word ''x'' [''2'', '' a bc d''] = Ok ''xbc''"
proof -
  have "dec_digits 2 = ''2''" "words_of '' a bc d'' = [''a'', ''bc'', ''d'']" by code_simp+
  then show ?thesis using func_word_correct [of "'' a bc d''" 2 "''x''"] by simp
qed

text \<open>The word whose number is the number of words is the last word.\<close>

theorem last_word_by_number:
  assumes "NUL \<notin> set txt" and "words_of txt \<noteq> []" and "length (words_of txt) < 2 ^ 31"
  shows "func_word o1 [func_words [] [txt], txt] = Ok (func_lastword o1 [txt])"
  using func_word_correct [OF assms(1) _ assms(3), of o1] assms
  by (simp add: func_words_correct func_lastword_correct last_conv_nth)


theorem last_word_by_number_witness:
  "func_word ''x'' [func_words [] ['' a bc d''], '' a bc d''] = Ok (func_lastword ''x'' ['' a bc d''])"
proof -
  have "words_of '' a bc d'' = [''a'', ''bc'', ''d'']" by code_simp
  then show ?thesis using last_word_by_number [of "'' a bc d''" "''x''"] by simp
qed

text \<open>The two numbers of \<open>$(wordlist)\<close> select an interval of the words.\<close>

lemma start_loop_eq:
  assumes "NUL \<notin> set s" and "0 < i"
  shows "if i \<le> int (length (words_of s))
    then \<exists>w r. start_loop i s = (Some (w @ r), r) \<and> is_word w \<and> (r = [] \<or> ISBLANK (peek r)) \<and> NUL \<notin> set r
      \<and> drop (nat i - 1) (words_of s) = w # words_of r
    else \<exists>e. start_loop i s = (None, e)"
  using assms
proof (induction "length s" arbitrary: s i rule: less_induct)
  case less
  show ?case
  proof (cases rule: next_word [OF less.prems(1)])
    case 1
    then show ?thesis using less.prems by (subst start_loop.simps) simp
  next
    case (2 w r)
    show ?thesis
    proof (cases "i = 1")
      case True
      then show ?thesis using 2 by (subst start_loop.simps) auto
    next
      case False
      then have i: "nat i - 1 = Suc (nat (i - 1) - 1)" using less.prems by linarith
      have "drop (nat i - 1) (words_of s) = drop (nat (i - 1) - 1) (words_of r)"
        unfolding i 2(1) by (rule drop_Suc_Cons)
      moreover have "start_loop i s = start_loop (i - 1) r" using 2 False by (subst start_loop.simps) simp
      ultimately show ?thesis using less.hyps [of r "i - 1"] less.prems 2 False by (auto split: if_splits)
    qed
  qed
qed

lemma count_loop_eq:
  assumes "NUL \<notin> set r" and "0 < c" and "is_word w" and "r = [] \<or> ISBLANK (peek r)"
  shows "\<exists>m. w @ r = m @ count_loop c r \<and> words_of m = take (nat c) (w # words_of r)"
  using assms
proof (induction "length r" arbitrary: w r c rule: less_induct)
  case less
  show ?case
  proof (cases "c = 1")
    case True
    then show ?thesis using less.prems words_of_word [of w "[]"] by (subst count_loop.simps) auto
  next
    case c: False
    show ?thesis
    proof (cases rule: next_word [OF less.prems(1)])
      case 1
      have "words_of (w @ []) = [w]" using less.prems words_of_word [of w "[]"] by simp
      then show ?thesis using 1 c less.prems by (subst count_loop.simps) (auto simp: take_Cons')
    next
      case (2 v q)
      then obtain m where m: "v @ q = m @ count_loop (c - 1) q" "words_of m = take (nat (c - 1)) (v # words_of q)"
        using less.hyps [of q "c - 1" v] less.prems c by auto
      obtain b where b: "r = b @ v @ q" and bl: "\<forall>x\<in>set b. ISBLANK x"
      proof
        have "find_next_token r = Some (v @ q, length v, q)" using 2 by simp
        then have "dropWhile ISBLANK r = v @ q"
          using less.prems by (simp add: find_next_token_eq Let_def split: if_splits)
        then show "r = takeWhile ISBLANK r @ v @ q" by (metis takeWhile_dropWhile_id)
        show "\<forall>x\<in>set (takeWhile ISBLANK r). ISBLANK x" by (auto dest: set_takeWhileD)
      qed
      have "b \<noteq> []"
        using b less.prems(4) 2 by (cases v) (auto simp: is_word_def nonblank_def)
      then have bp: "ISBLANK (peek b)" using bl by (cases b) auto
      have w: "words_of (b @ m) = words_of m" using bl by (induction b) auto
      have "words_of (w @ b @ m) = w # words_of (b @ m)"
        using bp less.prems(3) \<open>b \<noteq> []\<close> by (intro words_of_word) simp_all
      also have "\<dots> = take (nat c) (w # words_of r)"
        using w m 2 less.prems c by (simp add: take_Cons' nat_diff_distrib)
      finally have "words_of (w @ b @ m) = take (nat c) (w # words_of r)" .
      moreover have "count_loop c r = count_loop (c - 1) q" using 2 c by (subst count_loop.simps) simp
      ultimately show ?thesis using b m by (intro exI [of _ "w @ b @ m"]) simp
    qed
  qed
qed

text \<open>The text that $(wordlist) returns has the words from the first number to the second; there are none
  where the interval is empty or begins behind the last word.\<close>

theorem func_wordlist_correct:
  assumes "NUL \<notin> set txt" and "0 < a" and "a < 2 ^ 31" and "b < 2 ^ 31"
  shows "\<exists>m. func_wordlist o1 [dec_digits a, dec_digits b, txt] = Ok (o1 @ m)
    \<and> words_of m = take (b + 1 - a) (drop (a - 1) (words_of txt))"
proof (cases "a \<le> b")
  case False
  then have "func_wordlist o1 [dec_digits a, dec_digits b, txt] = Ok (o1 @ [])"
    using assms by (simp add: func_wordlist_def check_numeric_dec atoi_dec)
  then show ?thesis using False by (intro exI [of _ "[]"]) simp
next
  case ab: True
  define c where "c = int b - int a + 1"
  have c: "0 < c" "nat c = b + 1 - a" using ab by (auto simp: c_def)
  show ?thesis
  proof (cases "a \<le> length (words_of txt)")
    case False
    then have "func_wordlist o1 [dec_digits a, dec_digits b, txt] = Ok (o1 @ [])"
      using start_loop_eq [of "txt" "int a"] assms
      by (auto simp: func_wordlist_def check_numeric_dec atoi_dec Let_def)
    then show ?thesis using False by (intro exI [of _ "[]"]) simp
  next
    case True
    then obtain w r where s: "start_loop (int a) txt = (Some (w @ r), r)" and w: "is_word w"
      and r: "r = [] \<or> ISBLANK (peek r)" "NUL \<notin> set r" and d: "drop (a - 1) (words_of txt) = w # words_of r"
      using start_loop_eq [of "txt" "int a"] assms by auto
    obtain m where m: "w @ r = m @ count_loop c r" "words_of m = take (nat c) (w # words_of r)"
      using count_loop_eq [OF r(2) c(1) w r(1)] by auto
    have "take (length (w @ r) - length (count_loop c r)) (w @ r) = m" unfolding m(1) by simp
    then have "func_wordlist o1 [dec_digits a, dec_digits b, txt] = Ok (o1 @ m)"
      using s c assms by (simp add: func_wordlist_def check_numeric_dec atoi_dec variable_buffer_output_def c_def)
    then show ?thesis using m c d by auto
  qed
qed

theorem func_wordlist_correct_witness:
  "\<exists>m. func_wordlist ''x'' [''2'', ''3'', '' a bc  d e''] = Ok (''x'' @ m) \<and> words_of m = [''bc'', ''d'']"
proof -
  have "dec_digits 2 = ''2''" "dec_digits 3 = ''3''" "words_of '' a bc  d e'' = [''a'', ''bc'', ''d'', ''e'']"
    by code_simp+
  then show ?thesis using func_wordlist_correct [of "'' a bc  d e''" 2 3 "''x''"] by (simp add: take_Cons')
qed

end
