(* ===== verification/MakeMath.thy ===== *)
theory MakeMath
  imports MakeWordSel "HOL-Library.Signed_Division"
begin

unbundle bit_operations_syntax

text \<open>
  The integer functions of \<open>src/kmk/function.c\<close>, \<open>$(int-add)\<close> and so on, with the conversions between
  numbers and strings. A \<open>math_int\<close> has 64 bits; leaving its range is the fault \<open>SignedOverflow\<close>.
  An \<open>error\<close> message goes to the terminal and make goes on, with the number 0: \<open>math_parse\<close> says
  which error it was.
\<close>

section \<open>Numbers and strings\<close>

definition math_int :: "int \<Rightarrow> (make_error, int) outcome" where
  "math_int n = (if - (2 ^ 63) \<le> n \<and> n < 2 ^ 63 then Ok n else Undef SignedOverflow)"

fun math_digits :: "nat \<Rightarrow> string \<Rightarrow> string" where
  "math_digits num str =
     (let str = char_of (48 + num mod 10) # str; num = num div 10
      in if num \<noteq> 0 then math_digits num str else str)"

declare math_digits.simps [simp del]

definition math_int_to_variable_buffer :: "string \<Rightarrow> int \<Rightarrow> (make_error, string) outcome" where
  "math_int_to_variable_buffer o1 num =
     (let negative = (num < 0)
      in obind (if negative then math_int (- num) else Ok num) (\<lambda>num.
           let str = math_digits (nat num) [];
               str = (if negative then CHR ''-'' # str else str)
           in Ok (variable_buffer_output o1 str (length str))))"

datatype math_error = EmptyNumber | NoDigit string | BadDigit string | TrailingText string

definition isxdigit :: "char \<Rightarrow> bool" where
  "isxdigit c \<longleftrightarrow> isdigit c \<or> (97 \<le> cord c \<and> cord c \<le> 102) \<or> (65 \<le> cord c \<and> cord c \<le> 70)"

fun math_sign :: "bool \<Rightarrow> string \<Rightarrow> bool \<times> string" where
  "math_sign negative [] = (negative, [])"
| "math_sign negative (c # str) =
     (if c = CHR ''+'' \<or> c = CHR ''-'' \<or> ISSPACE c
      then math_sign (if c = CHR ''-'' then \<not> negative else negative) str
      else (negative, c # str))"

definition math_base :: "string \<Rightarrow> int \<times> string" where
  "math_base str =
     (if peek str = CHR ''0'' \<and> (cget str 1 = CHR ''x'' \<or> cget str 1 = CHR ''X'') then (16, drop 2 str)
      else (if \<exists>c\<in>set str. isxdigit c \<and> \<not> isdigit c then 16 else 10, str))"

definition digit_value :: "int \<Rightarrow> char \<Rightarrow> int option" where
  "digit_value base c =
     (if isdigit c then Some (int (cord c) - 48)
      else if base = 16 \<and> 97 \<le> cord c \<and> cord c \<le> 102 then Some (int (cord c) - 87)
      else if base = 16 \<and> 65 \<le> cord c \<and> cord c \<le> 70 then Some (int (cord c) - 55)
      else None)"

text \<open>The conversion loop: an error, or the number and the rest of the string.\<close>

fun math_loop :: "string \<Rightarrow> int \<Rightarrow> int \<Rightarrow> string \<Rightarrow> (make_error, math_error + int \<times> string) outcome" where
  "math_loop start base num [] = Ok (Inr (num, []))"
| "math_loop start base num (c # str) =
     (if ISSPACE c then Ok (Inr (num, c # str))
      else case digit_value base c of
        None \<Rightarrow> Ok (Inl (BadDigit start))
      | Some ch \<Rightarrow>
          obind (math_int (num * base)) (\<lambda>num.
          obind (math_int (num + ch)) (\<lambda>num. math_loop start base num str)))"

definition math_parse :: "string \<Rightarrow> (make_error, math_error + int) outcome" where
  "math_parse str =
     (let str = dropWhile ISSPACE str
      in if str = [] then Ok (Inl EmptyNumber)
         else
           (let start = str;
                (negative, str) = math_sign False str;
                (base, str) = math_base str
            in if \<not> (if base = 16 then isxdigit (peek str) else isdigit (peek str)) then Ok (Inl (NoDigit start))
               else
                 obind (math_loop start base 0 str) (\<lambda>r. case r of
                     Inl e \<Rightarrow> Ok (Inl e)
                   | Inr (num, str) \<Rightarrow>
                       if dropWhile ISSPACE str \<noteq> [] then Ok (Inl (TrailingText start))
                       else Ok (Inr (if negative then - num else num)))))"

definition math_int_from_string :: "string \<Rightarrow> (make_error, int) outcome" where
  "math_int_from_string str =
     obind (math_parse str) (\<lambda>r. case r of Inl e \<Rightarrow> Ok 0 | Inr num \<Rightarrow> Ok num)"

section \<open>The functions\<close>

text \<open>\<open>for (i = 1; argv[i]; i++) num = num op math_int_from_string (argv[i]);\<close>\<close>

fun math_fold :: "(int \<Rightarrow> int \<Rightarrow> (make_error, int) outcome) \<Rightarrow> int \<Rightarrow> string list \<Rightarrow> (make_error, int) outcome" where
  "math_fold f num [] = Ok num"
| "math_fold f num (a # argv) =
     obind (math_int_from_string a) (\<lambda>n. obind (f num n) (\<lambda>num. math_fold f num argv))"

definition math_func :: "(int \<Rightarrow> int \<Rightarrow> (make_error, int) outcome) \<Rightarrow> string \<Rightarrow> string list \<Rightarrow> (make_error, string) outcome" where
  "math_func f o1 argv =
     obind (math_int_from_string (argv ! 0)) (\<lambda>num.
     obind (math_fold f num (drop 1 argv)) (\<lambda>num. math_int_to_variable_buffer o1 num))"

definition func_int_add :: "string \<Rightarrow> string list \<Rightarrow> (make_error, string) outcome" where
  "func_int_add = math_func (\<lambda>num n. math_int (num + n))"

definition func_int_sub :: "string \<Rightarrow> string list \<Rightarrow> (make_error, string) outcome" where
  "func_int_sub = math_func (\<lambda>num n. math_int (num - n))"

definition func_int_mul :: "string \<Rightarrow> string list \<Rightarrow> (make_error, string) outcome" where
  "func_int_mul = math_func (\<lambda>num n. math_int (num * n))"

text \<open>A division by zero ends the loop, and the function with the number 0.\<close>

fun div_loop :: "int \<Rightarrow> string list \<Rightarrow> (make_error, int) outcome" where
  "div_loop num [] = Ok num"
| "div_loop num (a # argv) =
     obind (math_int_from_string a) (\<lambda>divisor.
       if divisor = 0 then Ok 0
       else obind (math_int (num sdiv divisor)) (\<lambda>num. div_loop num argv))"

definition func_int_div :: "string \<Rightarrow> string list \<Rightarrow> (make_error, string) outcome" where
  "func_int_div o1 argv =
     obind (math_int_from_string (argv ! 0)) (\<lambda>num.
     obind (div_loop num (drop 1 argv)) (\<lambda>num. math_int_to_variable_buffer o1 num))"

definition func_int_mod :: "string \<Rightarrow> string list \<Rightarrow> (make_error, string) outcome" where
  "func_int_mod o1 argv =
     obind (math_int_from_string (argv ! 0)) (\<lambda>num.
     obind (math_int_from_string (argv ! 1)) (\<lambda>divisor.
       if divisor = 0 then math_int_to_variable_buffer o1 0
       else obind (math_int (num sdiv divisor)) (\<lambda>_. math_int_to_variable_buffer o1 (num smod divisor))))"

definition func_int_not :: "string \<Rightarrow> string list \<Rightarrow> (make_error, string) outcome" where
  "func_int_not o1 argv =
     obind (math_int_from_string (argv ! 0)) (\<lambda>num. math_int_to_variable_buffer o1 (NOT num))"

definition func_int_and :: "string \<Rightarrow> string list \<Rightarrow> (make_error, string) outcome" where
  "func_int_and = math_func (\<lambda>num n. Ok (num AND n))"

definition func_int_or :: "string \<Rightarrow> string list \<Rightarrow> (make_error, string) outcome" where
  "func_int_or = math_func (\<lambda>num n. Ok (num OR n))"

definition func_int_xor :: "string \<Rightarrow> string list \<Rightarrow> (make_error, string) outcome" where
  "func_int_xor = math_func (\<lambda>num n. Ok (num XOR n))"

definition func_int_cmp :: "string \<Rightarrow> string list \<Rightarrow> string \<Rightarrow> (make_error, string) outcome" where
  "func_int_cmp o1 argv funcname =
     obind (math_int_from_string (argv ! 0)) (\<lambda>num1.
     obind (math_int_from_string (argv ! 1)) (\<lambda>num2.
       let funcname = drop 4 funcname;
           rc = (if funcname = ''eq'' then num1 = num2
                 else if funcname = ''ne'' then num1 \<noteq> num2
                 else if funcname = ''gt'' then num1 > num2
                 else if funcname = ''ge'' then num1 \<ge> num2
                 else if funcname = ''lt'' then num1 < num2
                 else num1 \<le> num2)
       in Ok (if rc then variable_buffer_output o1 ''1'' 1 else variable_buffer_output o1 [] 0)))"


section \<open>Printing and reading\<close>

lemma math_digits_eq: "math_digits n str = dec_digits n @ str"
proof (induction n str rule: math_digits.induct)
  case (1 n str)
  show ?case
  proof (cases "n < 10")
    case True
    then show ?thesis by (subst math_digits.simps) (simp add: Let_def dec_digits.simps [of n])
  next
    case False
    then have "math_digits n str = math_digits (n div 10) (char_of (48 + n mod 10) # str)"
      by (subst math_digits.simps) (simp add: Let_def div_eq_0_iff)
    also have "\<dots> = dec_digits (n div 10) @ char_of (48 + n mod 10) # str"
      using 1 [OF refl refl] False by simp
    finally show ?thesis using False by (subst dec_digits.simps) simp
  qed
qed

text \<open>The text of a number.\<close>

definition int_text :: "int \<Rightarrow> string" where
  "int_text n = (if n < 0 then CHR ''-'' # dec_digits (nat (- n)) else dec_digits (nat n))"

lemma math_int_ok [simp]: "- (2 ^ 63) \<le> n \<Longrightarrow> n < 2 ^ 63 \<Longrightarrow> math_int n = Ok n"
  by (simp add: math_int_def)

lemma math_int_to_variable_buffer_eq:
  "- (2 ^ 63) \<le> n \<Longrightarrow> n < 2 ^ 63 \<Longrightarrow> math_int_to_variable_buffer o1 n =
    (if \<bar>n\<bar> < 2 ^ 63 then Ok (o1 @ int_text n) else Undef SignedOverflow)"
  by (auto simp: math_int_to_variable_buffer_def math_int_def math_digits_eq int_text_def
      variable_buffer_output_def Let_def)

lemma digit_value_digit: "isdigit c \<Longrightarrow> digit_value base c = Some (int (cord c - 48))"
  by (auto simp: digit_value_def isdigit_def of_nat_diff)

lemma math_loop_digits:
  "list_all isdigit ds \<Longrightarrow> num \<ge> 0 \<Longrightarrow> num * 10 ^ length ds + int (dec_value ds) < 2 ^ 63 \<Longrightarrow>
    math_loop start 10 num ds = Ok (Inr (num * 10 ^ length ds + int (dec_value ds), []))"
proof (induction ds arbitrary: num)
  case (Cons c ds)
  let ?d = "int (cord c - 48)"
  have e: "num * 10 ^ length (c # ds) + int (dec_value (c # ds)) = (num * 10 + ?d) * 10 ^ length ds + int (dec_value ds)"
    by (simp add: dec_value_Cons distrib_right)
  have le: "num * 10 + ?d \<le> (num * 10 + ?d) * 10 ^ length ds + int (dec_value ds)"
    using Cons.prems(2) mult_left_mono [of 1 "10 ^ length ds" "num * 10 + ?d"] by simp
  have b: "num * 10 + ?d < 2 ^ 63" "num * 10 < 2 ^ 63" using le Cons.prems(3) unfolding e by linarith+
  have "math_loop start 10 (num * 10 + ?d) ds = Ok (Inr ((num * 10 + ?d) * 10 ^ length ds + int (dec_value ds), []))"
    using Cons.prems by (intro Cons.IH) (simp_all only: e [symmetric], simp_all)
  then show ?case
    using Cons.prems(1,2) b digit_not_space [of c] unfolding e
    by (simp add: digit_value_digit math_int_def)
qed simp

lemma math_parse_digits:
  assumes "list_all isdigit ds" and "ds \<noteq> []" and "dec_value ds < 2 ^ 63"
  shows "math_parse (if neg then CHR ''-'' # ds else ds) = Ok (Inr (if neg then - int (dec_value ds) else int (dec_value ds)))"
proof -
  obtain c cs where ds: "ds = c # cs" and c: "isdigit c" using assms by (cases ds) auto
  have n: "\<not> ISSPACE c" "c \<noteq> CHR ''-''" "c \<noteq> CHR ''+''" using digit_not_space [OF c] by auto
  have x: "\<not> (cget ds 1 = CHR ''x'' \<or> cget ds 1 = CHR ''X'')"
  proof -
    have "isdigit (cget ds 1) \<or> cget ds 1 = NUL" using assms(1) ds by (cases cs) (auto simp: cget_def)
    then show ?thesis by (auto simp: isdigit_def cord_def)
  qed
  have b: "math_base ds = (10, ds)"
    using x assms(1) by (auto simp: math_base_def list_all_iff)
  have s: "math_sign neg ds = (neg, ds)" for neg using n ds by simp
  have l: "math_loop start 10 0 ds = Ok (Inr (int (dec_value ds), []))" for start
    using math_loop_digits [OF assms(1), of 0] assms(3) by simp
  show ?thesis
    using n c s b l ds by (auto simp: math_parse_def Let_def ctype_defs)
qed

lemma math_parse_int_text:
  assumes "\<bar>n\<bar> < 2 ^ 63"
  shows "math_parse (int_text n) = Ok (Inr n)"
proof -
  have "math_parse (if n < 0 then CHR ''-'' # dec_digits (nat \<bar>n\<bar>) else dec_digits (nat \<bar>n\<bar>)) = Ok (Inr n)"
    using math_parse_digits [of "dec_digits (nat \<bar>n\<bar>)" "n < 0"] dec_digits_ok [of "nat \<bar>n\<bar>"] assms by auto
  then show ?thesis by (auto simp: int_text_def split: if_splits)
qed

lemma math_int_from_int_text [simp]: "\<bar>n\<bar> < 2 ^ 63 \<Longrightarrow> math_int_from_string (int_text n) = Ok n"
  by (simp add: math_int_from_string_def math_parse_int_text)



section \<open>The functions on printed numbers\<close>

text \<open>
  A number that is printed is read back as the same number; \<open>- 2 ^ 63\<close> is the one number of the type
  that can be neither printed nor read.
\<close>

theorem math_int_round_trip:
  assumes "- (2 ^ 63) \<le> n" and "n < 2 ^ 63"
  shows "if n = - (2 ^ 63) then math_int_to_variable_buffer o1 n = Undef SignedOverflow
    else \<exists>s. math_int_to_variable_buffer o1 n = Ok (o1 @ s) \<and> math_int_from_string s = Ok n"
  using math_int_to_variable_buffer_eq [OF assms, of o1] assms by (auto simp: abs_less_iff)

theorem math_int_round_trip_witness:
  "\<exists>s. math_int_to_variable_buffer ''x'' (-42) = Ok (''x'' @ s) \<and> math_int_from_string s = Ok (-42)"
  using math_int_round_trip [of "-42" "''x''"] by simp

lemma math_fold_int_text:
  "\<forall>n\<in>set ns. \<bar>n\<bar> < 2 ^ 63 \<Longrightarrow>
    math_fold f num (map int_text ns) = foldl (\<lambda>r n. obind r (\<lambda>num. f num n)) (Ok num) ns"
proof (induction ns arbitrary: num)
  case (Cons n ns)
  have "foldl (\<lambda>r n. obind r (\<lambda>num. f num n)) (Fatal e) ns = Fatal e"
    "foldl (\<lambda>r n. obind r (\<lambda>num. f num n)) (Undef u) ns = Undef u" for e u
    by (induction ns) auto
  then show ?case using Cons by (cases "f num n") auto
qed simp

text \<open>The sum of printed numbers, while the partial sums stay in range.\<close>

lemma foldl_sum:
  assumes "\<forall>k\<le>length ns. \<bar>num + sum_list (take k ns)\<bar> < 2 ^ 63"
  shows "foldl (\<lambda>r n. obind r (\<lambda>num. math_int (num + n))) (Ok num) ns = Ok (num + sum_list ns)"
  using assms
proof (induction ns arbitrary: num)
  case (Cons n ns)
  have "\<bar>num + n + sum_list (take k ns)\<bar> < 2 ^ 63" if "k \<le> length ns" for k
    using Cons.prems that by (auto dest: spec [of _ "Suc k"] simp: add.assoc)
  moreover have "\<bar>num + n\<bar> < 2 ^ 63" using Cons.prems by (auto dest: spec [of _ "Suc 0"])
  ultimately show ?case using Cons.IH [of "num + n"] by (simp add: math_int_def abs_less_iff add.assoc)
qed simp

text \<open>\<open>$(int-add)\<close> prints the sum of its arguments.\<close>

theorem func_int_add_correct:
  assumes "\<forall>n\<in>set (n # ns). \<bar>n\<bar> < 2 ^ 63" and "\<forall>k\<le>length ns. \<bar>n + sum_list (take k ns)\<bar> < 2 ^ 63"
  shows "\<exists>s. func_int_add o1 (map int_text (n # ns)) = Ok (o1 @ s) \<and> math_int_from_string s = Ok (sum_list (n # ns))"
proof -
  have "\<bar>n + sum_list ns\<bar> < 2 ^ 63" using assms(2) by (auto dest: spec [of _ "length ns"])
  moreover have "func_int_add o1 (map int_text (n # ns)) = math_int_to_variable_buffer o1 (n + sum_list ns)"
    using assms(1) by (simp add: func_int_add_def math_func_def math_fold_int_text foldl_sum [OF assms(2)])
  ultimately show ?thesis by (simp add: math_int_to_variable_buffer_eq)
qed

theorem func_int_add_correct_witness:
  "\<exists>s. func_int_add ''x'' [''5'', ''-7'', ''3''] = Ok (''x'' @ s) \<and> math_int_from_string s = Ok 1"
proof -
  have "int_text 5 = ''5''" "int_text (-7) = ''-7''" "int_text 3 = ''3''" by code_simp+
  moreover have "\<forall>k\<le>length [-7, 3]. \<bar>5 + sum_list (take k [-7, 3])\<bar> < (2::int) ^ 63"
    by (auto simp: take_Cons' le_Suc_eq)
  ultimately show ?thesis using func_int_add_correct [of 5 "[-7, 3]" "''x''"] by simp
qed

lemma smod_sign: "b \<noteq> 0 \<Longrightarrow> a smod b * a \<ge> (0 :: int)"
  by (auto simp: smod_int_alt_def sgn_if zero_le_mult_iff)

text \<open>
  \<open>$(int-div)\<close> and \<open>$(int-mod)\<close> of one divisor print the quotient, rounded towards zero, and the
  remainder that goes with it.
\<close>

theorem func_int_div_mod_correct:
  assumes "\<bar>a\<bar> < 2 ^ 63" and "\<bar>b\<bar> < 2 ^ 63" and "b \<noteq> 0"
  shows "\<exists>q r. func_int_div o1 [int_text a, int_text b] = Ok (o1 @ int_text q)
    \<and> func_int_mod o1 [int_text a, int_text b] = Ok (o1 @ int_text r)
    \<and> a = q * b + r \<and> \<bar>r\<bar> < \<bar>b\<bar> \<and> r * a \<ge> 0"
proof -
  have "\<bar>a sdiv b\<bar> < 2 ^ 63" using sdiv_int_range [of a b] assms(1) unfolding atLeastAtMost_iff by linarith
  moreover have "\<bar>a smod b\<bar> < \<bar>b\<bar>" using smod_int_range [OF assms(3), of a] unfolding atLeastAtMost_iff by linarith
  moreover from this have m: "\<bar>a smod b\<bar> < 2 ^ 63" using assms(2) by linarith
  moreover have "a smod b * a \<ge> 0" by (rule smod_sign [OF assms(3)])
  moreover have "a = a sdiv b * b + a smod b" by (rule sdiv_mult_smod_eq [symmetric])
  moreover have "func_int_div o1 [int_text a, int_text b] = Ok (o1 @ int_text (a sdiv b))"
    "func_int_mod o1 [int_text a, int_text b] = Ok (o1 @ int_text (a smod b))"
    using assms calculation(1) m
    by (simp_all add: func_int_div_def func_int_mod_def math_int_to_variable_buffer_eq math_int_def abs_less_iff)
  ultimately show ?thesis by blast
qed

theorem func_int_div_mod_correct_witness:
  "\<exists>q r. func_int_div [] [''-7'', ''2''] = Ok q \<and> func_int_mod [] [''-7'', ''2''] = Ok r \<and> q = ''-3'' \<and> r = ''-1''"
proof -
  have t: "int_text 2 = ''2''" "int_text (-7) = ''-7''" by code_simp+
  then obtain q r where qr: "func_int_div [] [''-7'', ''2''] = Ok (int_text q)" "func_int_mod [] [''-7'', ''2''] = Ok (int_text r)"
    "- 7 = q * 2 + r" "\<bar>r\<bar> < 2" "r * (- 7) \<ge> 0"
    using func_int_div_mod_correct [of "-7" 2 "[]"] by auto
  have "r = 0 \<or> r = -1" using qr(4,5) by linarith
  then have "q = -3 \<and> r = -1" using qr(3) by presburger
  moreover have "int_text (-1) = ''-1''" "int_text (-3) = ''-3''" by code_simp+
  ultimately show ?thesis using qr by simp
qed

text \<open>The comparisons; a name after \<open>int-\<close> that is none of the first five is \<open>le\<close>.\<close>

theorem func_int_cmp_correct:
  assumes "\<bar>a\<bar> < 2 ^ 63" and "\<bar>b\<bar> < 2 ^ 63"
    and "(name, holds) \<in> {(''int-eq'', a = b), (''int-ne'', a \<noteq> b), (''int-gt'', a > b), (''int-ge'', a \<ge> b),
      (''int-lt'', a < b), (''int-le'', a \<le> b)}"
  shows "func_int_cmp o1 [int_text a, int_text b] name = Ok (if holds then o1 @ ''1'' else o1)"
proof -
  have "drop 4 name = ''eq'' \<and> holds = (a = b) \<or> drop 4 name = ''ne'' \<and> holds = (a \<noteq> b)
      \<or> drop 4 name = ''gt'' \<and> holds = (a > b) \<or> drop 4 name = ''ge'' \<and> holds = (a \<ge> b)
      \<or> drop 4 name = ''lt'' \<and> holds = (a < b) \<or> drop 4 name = ''le'' \<and> holds = (a \<le> b)"
    using assms(3) by auto
  then show ?thesis
    using assms(1,2) by (auto simp: func_int_cmp_def variable_buffer_output_def Let_def)
qed

theorem func_int_cmp_correct_witness:
  "func_int_cmp [] [''-7'', ''2''] ''int-lt'' = Ok ''1''"
proof -
  have "int_text 2 = ''2''" "int_text (-7) = ''-7''" by code_simp+
  then show ?thesis using func_int_cmp_correct [of "-7" 2 "''int-lt''" True "[]"] by simp
qed

text \<open>The complement of the largest number can not be printed.\<close>

lemma func_int_not_max: "func_int_not o1 [int_text (2 ^ 63 - 1)] = Undef SignedOverflow"
  by (simp add: func_int_not_def math_int_to_variable_buffer_def math_int_def not_int_def)

end
