(* ===== verification/MakeString.thy ===== *)
theory MakeString
  imports MakeMath
begin

text \<open>
  The string functions of \<open>src/kmk/function.c\<close>. Numbers are \<open>math_int\<close>s and leaving their range is a
  fault, as is reading behind the terminator of an argument. Optional arguments are those the list
  \<open>argv\<close> has.
\<close>

section \<open>The code\<close>

definition func_length :: "string \<Rightarrow> string list \<Rightarrow> (make_error, string) outcome" where
  "func_length o1 argv = math_int_to_variable_buffer o1 (int (length (argv ! 0)))"

definition func_length_var :: "(string \<Rightarrow> variable option) \<Rightarrow> string \<Rightarrow> string list \<Rightarrow> (make_error, string) outcome" where
  "func_length_var lookup_variable o1 argv =
     math_int_to_variable_buffer o1
       (case lookup_variable (argv ! 0) of None \<Rightarrow> 0 | Some var \<Rightarrow> int (length (var_value var)))"

text \<open>The pad is never empty: an empty one would not end the loop.\<close>

fun helper_pad :: "string \<Rightarrow> nat \<Rightarrow> string \<Rightarrow> nat \<Rightarrow> string" where
  "helper_pad o1 to_add pad pad_len =
     (if to_add > 0 \<and> pad_len > 0 then
        (let chunk = (if to_add > pad_len then pad_len else to_add)
         in helper_pad (variable_buffer_output o1 pad chunk) (to_add - chunk) pad pad_len)
      else o1)"

declare helper_pad.simps [simp del]

definition default_pad :: string where
  "default_pad = replicate 16 CHR '' ''"

definition choose_pad :: "string \<Rightarrow> string" where
  "choose_pad s = (if dropWhile (\<lambda>c. c = CHR '' '') s \<noteq> [] then s else default_pad)"

abbreviation MB16 :: int where
  "MB16 \<equiv> 16 * 1024 * 1024"

definition insert_args :: "string list \<Rightarrow> (make_error, int \<times> int \<times> string) outcome" where
  "insert_args argv =
     (let str_len = int (length (argv ! 1))
      in if 2 < length argv then
           obind (math_int_from_string (argv ! 2)) (\<lambda>n.
             let n = (if n > 0 then n - 1
                      else if n = 0 then str_len
                      else if str_len + n < 0 then 0 else str_len + n)
             in if n > MB16 then Fatal (InsertBounds ''n'' (argv ! 2))
                else if 3 < length argv then
                  obind (math_int_from_string (argv ! 3)) (\<lambda>len.
                    if len < 0 \<or> len > MB16 then Fatal (InsertBounds ''length'' (argv ! 3))
                    else Ok (n, len, if 4 < length argv then choose_pad (argv ! 4) else default_pad))
                else Ok (n, str_len, default_pad))
         else Ok (0, str_len, default_pad))"

definition func_insert :: "string \<Rightarrow> string list \<Rightarrow> (make_error, string) outcome" where
  "func_insert o1 argv =
     (let in1 = argv ! 0; in_len = int (length in1);
          str = argv ! 1; str_len = int (length str)
      in obind (insert_args argv) (\<lambda>(n, len, pad).
           let pad_len = length pad;
               o2 = (if n > 0 then
                       if n \<le> str_len then variable_buffer_output o1 str (nat n)
                       else helper_pad (variable_buffer_output o1 str (length str)) (nat (n - str_len)) pad pad_len
                     else o1);
               o3 = (if len \<le> in_len then variable_buffer_output o2 in1 (nat len)
                     else helper_pad (variable_buffer_output o2 in1 (length in1)) (nat (len - in_len)) pad pad_len)
           in Ok (if n < str_len then variable_buffer_output o3 (drop (nat n) str) (nat (str_len - n)) else o3)))"

fun lastpos_loop :: "nat \<Rightarrow> string \<Rightarrow> string \<Rightarrow> nat option" where
  "lastpos_loop 0 haystack needle = None"
| "lastpos_loop (Suc off) haystack needle =
     (if cget haystack off = peek needle
         \<and> (length needle = 1 \<or> strneq (drop off haystack) needle (length needle))
      then Some off
      else lastpos_loop off haystack needle)"

text \<open>The start of the search, as an index; \<open>None\<close> when nothing can be found from there.\<close>

definition pos_start :: "string list \<Rightarrow> string \<Rightarrow> int \<Rightarrow> int \<Rightarrow> (make_error, int option) outcome" where
  "pos_start argv funcname needle_len haystack_len =
     (if 2 < length argv then
        obind (math_int_from_string (argv ! 2)) (\<lambda>start.
          let start = (if start > 0 then start - 1 else if start < 0 then haystack_len + start else start)
          in Ok (if start < 0 \<or> start + needle_len > haystack_len then None else Some start))
      else Ok (Some (if peek funcname = CHR ''l'' then haystack_len - 1 else 0)))"

definition pos_search :: "string \<Rightarrow> string \<Rightarrow> int \<Rightarrow> string \<Rightarrow> nat option" where
  "pos_search needle haystack start funcname =
     (if peek funcname \<noteq> CHR ''l'' then
        if length needle = 1 then
          map_option (\<lambda>i. nat start + i) (strchr (drop (nat start) haystack) (peek needle))
        else
          map_option (\<lambda>p. length haystack - length p) (strstr (drop (nat start) haystack) needle)
      else lastpos_loop (nat (start + 1)) haystack needle)"

definition func_pos :: "string \<Rightarrow> string list \<Rightarrow> string \<Rightarrow> (make_error, string) outcome" where
  "func_pos o1 argv funcname =
     (let needle = (if peek (argv ! 0) \<noteq> NUL then argv ! 0 else '' '');
          haystack = argv ! 1
      in obind (pos_start argv funcname (int (length needle)) (int (length haystack))) (\<lambda>start.
           case start of
             None \<Rightarrow> math_int_to_variable_buffer o1 0
           | Some start \<Rightarrow>
               math_int_to_variable_buffer o1
                 (case pos_search needle haystack start funcname of None \<Rightarrow> 0 | Some hit \<Rightarrow> int hit + 1)))"

text \<open>
  \<open>$(substr)\<close> without and with padding; \<open>len\<close> is 0 when there is no third argument.
  \<open>output_part\<close> puts out \<open>len\<close> characters from a position of the string on; it may take the
  terminator along but not read behind it.
\<close>

definition output_part :: "string \<Rightarrow> string \<Rightarrow> int \<Rightarrow> int \<Rightarrow> (make_error, string) outcome" where
  "output_part o1 str start len =
     (if start + len \<le> int (length str) + 1
      then Ok (variable_buffer_output o1 (drop (nat start) (str @ [NUL])) (nat len))
      else Undef OutOfBounds)"

definition substr_no_pad :: "string \<Rightarrow> string \<Rightarrow> int \<Rightarrow> int \<Rightarrow> (make_error, string) outcome" where
  "substr_no_pad o1 str start len =
     (let str_len = int (length str);
          cut = (if start > 0 then Some (start - 1, len)
                 else if str_len + start > 0 then Some (str_len + start, len)
                 else if len < 0 then None
                 else if str_len + start + len \<le> 0 then None
                 else Some (0, str_len + start + len))
      in case cut of
           None \<Rightarrow> Ok o1
         | Some (start, len) \<Rightarrow>
             if start \<ge> str_len then Ok o1
             else if len = 0 then output_part o1 str start (str_len - start)
             else if len < 0 then
               obind (math_int (- len)) (\<lambda>neg.
                 if str_len \<le> neg then Ok o1
                 else if len + str_len \<le> start then Ok o1
                 else output_part o1 str start (len + str_len - start))
             else
               obind (math_int (start + len)) (\<lambda>end1.
                 output_part o1 str start (if end1 > str_len then str_len - start else len)))"

definition substr_pad :: "string \<Rightarrow> string \<Rightarrow> int \<Rightarrow> int \<Rightarrow> string \<Rightarrow> (make_error, string) outcome" where
  "substr_pad o1 str start len pad =
     (let str_len = int (length str);
          pad_len = length pad;
          tail = (\<lambda>start.
             let len = (if len = 0 then str_len - start else len)
             in if start + len \<le> str_len then output_part o1 str start len
                else obind (output_part o1 str start (str_len - start)) (\<lambda>o2.
                       Ok (helper_pad o2 (nat (start + len - str_len)) pad pad_len)))
      in if start > 0 then
           if start - 1 \<ge> str_len then Ok (if len \<noteq> 0 then helper_pad o1 (nat len) pad pad_len else o1)
           else tail (start - 1)
         else if str_len + start \<le> 0 then
           if str_len + start + len \<le> 0 then Ok (if len \<noteq> 0 then helper_pad o1 (nat len) pad pad_len else o1)
           else output_part (helper_pad o1 (nat (- (str_len + start))) pad pad_len) str 0 (len + (str_len + start))
         else tail (str_len + start))"

definition func_substr :: "string \<Rightarrow> string list \<Rightarrow> (make_error, string) outcome" where
  "func_substr o1 argv =
     (let str = argv ! 0
      in obind (math_int_from_string (argv ! 1)) (\<lambda>start.
           if 2 < length argv then
             (let pad = (if 3 < length argv then Some (choose_pad (argv ! 3)) else None)
              in obind (math_int_from_string (argv ! 2)) (\<lambda>len.
                   if pad \<noteq> None \<and> len > MB16 then Fatal (SubstrBounds (argv ! 2))
                   else if pad \<noteq> None \<and> len < 0 then Fatal (SubstrNegative (argv ! 2))
                   else if len = 0 then Ok o1
                   else (case pad of None \<Rightarrow> substr_no_pad o1 str start len
                         | Some pad \<Rightarrow> substr_pad o1 str start len pad)))
           else substr_no_pad o1 str start 0))"

text \<open>The table of \<open>$(translate)\<close>; the terminator stands for no character.\<close>

fun set_table :: "(char \<Rightarrow> char) \<Rightarrow> string \<Rightarrow> string \<Rightarrow> (char \<Rightarrow> char) \<times> string" where
  "set_table trans_tab (i # from_set) (ch # to_set) = set_table (trans_tab(i := ch)) from_set to_set"
| "set_table trans_tab from_set to_set = (trans_tab, from_set)"

fun pad_table :: "(char \<Rightarrow> char) \<Rightarrow> string \<Rightarrow> char \<Rightarrow> (char \<Rightarrow> char)" where
  "pad_table trans_tab [] ch = trans_tab"
| "pad_table trans_tab (i # from_set) ch = pad_table (trans_tab(i := ch)) from_set ch"

fun translate_loop :: "(char \<Rightarrow> char) \<Rightarrow> string \<Rightarrow> string \<Rightarrow> string" where
  "translate_loop trans_tab [] o1 = o1"
| "translate_loop trans_tab (i # str) o1 =
     translate_loop trans_tab str
       (if trans_tab i \<noteq> NUL then variable_buffer_output o1 [trans_tab i] 1 else o1)"

definition func_translate :: "string \<Rightarrow> string list \<Rightarrow> (make_error, string) outcome" where
  "func_translate o1 argv =
     (let to_set = (if 2 < length argv then argv ! 2 else []);
          (trans_tab, from_set) = set_table (\<lambda>i. i) (argv ! 1) to_set
      in obind
           (if from_set \<noteq> [] then
              obind
                (if 3 < length argv then
                   if peek (argv ! 3) \<noteq> NUL \<and> cget (argv ! 3) 1 \<noteq> NUL then Fatal (TranslatePad (argv ! 3))
                   else Ok (if peek (argv ! 3) = NUL then CHR '' '' else peek (argv ! 3))
                 else Ok NUL)
                (\<lambda>ch. Ok (pad_table trans_tab from_set ch))
            else Ok trans_tab)
           (\<lambda>trans_tab. Ok (translate_loop trans_tab (argv ! 0) o1)))"

definition func_defined :: "(string \<Rightarrow> variable option) \<Rightarrow> string \<Rightarrow> string list \<Rightarrow> string" where
  "func_defined lookup_variable o1 argv =
     (let result = (case lookup_variable (argv ! 0) of None \<Rightarrow> False | Some v \<Rightarrow> peek (var_value v) \<noteq> NUL)
      in variable_buffer_output o1 (if result then ''1'' else []) (if result then 1 else 0))"

text \<open>The conversion goes through a buffer of 256 characters.\<close>

function case_loop :: "(char \<Rightarrow> char) \<Rightarrow> string \<Rightarrow> string \<Rightarrow> string" where
  "case_loop f o1 p =
     (if p = [] then o1
      else
        (let tmp = map f (take 256 p)
         in case_loop f (variable_buffer_output o1 tmp (length tmp)) (drop 256 p)))"
  by auto
termination by (relation "measure (\<lambda>(_, _, p). length p)") auto

declare case_loop.simps [simp del]

definition func_toupper_tolower :: "string \<Rightarrow> string list \<Rightarrow> string \<Rightarrow> string" where
  "func_toupper_tolower o1 argv funcname =
     case_loop (if strcmp funcname ''toupper'' = 0 then toupper else tolower) o1 (argv ! 0)"

end
