(* ===== verification/MakeStringProps.thy ===== *)
theory MakeStringProps
  imports MakeString
begin

text \<open>
  The string functions of make against list functions: substrings, insertion, searching,
  translation and padding.
\<close>

section \<open>Padding and parts\<close>

text \<open>\<open>k\<close> characters of a repeated pad.\<close>

definition padding :: "nat \<Rightarrow> string \<Rightarrow> string" where
  "padding k pad = take k (concat (replicate k pad))"

lemma length_padding [simp]: "pad \<noteq> [] \<Longrightarrow> length (padding k pad) = k"
proof -
  assume "pad \<noteq> []"
  then have "k * 1 \<le> k * length pad" by (intro mult_le_mono2) (cases pad; simp)
  moreover have "length (concat (replicate k pad)) = k * length pad" by (induction k) auto
  ultimately show ?thesis by (simp add: padding_def min_absorb2)
qed

lemma take_repeat: "pad \<noteq> [] \<Longrightarrow> k \<le> n \<Longrightarrow> take k (concat (replicate n pad)) = padding k pad"
proof -
  assume p: "pad \<noteq> []" and "k \<le> n"
  then obtain m where n: "n = k + m" using le_Suc_ex by blast
  have "k * 1 \<le> k * length pad" using p by (intro mult_le_mono2) (cases pad; simp)
  moreover have "length (concat (replicate k pad)) = k * length pad" by (induction k) auto
  ultimately show ?thesis by (simp add: n replicate_add padding_def)
qed

lemma padding_step:
  assumes "pad \<noteq> []" and "k > length pad"
  shows "padding k pad = pad @ padding (k - length pad) pad"
proof -
  obtain j where k: "k = Suc j" using assms(2) by (cases k) auto
  have "padding k pad = pad @ take (k - length pad) (concat (replicate j pad))"
    using assms(2) by (simp add: padding_def k)
  also have "take (k - length pad) (concat (replicate j pad)) = padding (k - length pad) pad"
    using assms by (intro take_repeat) (cases pad; simp add: k)+
  finally show ?thesis .
qed

lemma padding_short: "k \<le> length pad \<Longrightarrow> padding k pad = take k pad"
  by (cases k) (simp_all add: padding_def)

lemma helper_pad_eq: "pad \<noteq> [] \<Longrightarrow> helper_pad o1 k pad (length pad) = o1 @ padding k pad"
proof (induction k arbitrary: o1 rule: less_induct)
  case (less k)
  show ?case
  proof (cases "k > length pad")
    case True
    then have "helper_pad o1 k pad (length pad) = helper_pad (o1 @ pad) (k - length pad) pad (length pad)"
      using less.prems by (subst helper_pad.simps) (simp add: variable_buffer_output_def Let_def)
    also have "\<dots> = (o1 @ pad) @ padding (k - length pad) pad"
      using less.prems True by (intro less.IH) (cases pad; simp)
    finally show ?thesis using padding_step [OF less.prems True] by simp
  next
    case False
    then show ?thesis
      using less.prems
      by (subst helper_pad.simps, subst helper_pad.simps) (simp add: variable_buffer_output_def Let_def padding_short)
  qed
qed

lemma choose_pad_not_Nil [simp]: "choose_pad s \<noteq> []"
  by (auto simp: choose_pad_def default_pad_def)

lemma default_pad_not_Nil [simp]: "default_pad \<noteq> []"
  by (simp add: default_pad_def)

text \<open>The characters of a string from position \<open>a\<close> to before position \<open>b\<close>, as far as it has them.\<close>

definition part :: "string \<Rightarrow> int \<Rightarrow> int \<Rightarrow> string" where
  "part s a b = take (nat (b - max a 0)) (drop (nat (max a 0)) s)"

lemma part_empty [simp]: "b \<le> a \<Longrightarrow> part s a b = []" "a \<ge> int (length s) \<Longrightarrow> part s a b = []"
  "b \<le> 0 \<Longrightarrow> part s a b = []"
  by (auto simp: part_def)

lemma part_cut: "b \<ge> int (length s) \<Longrightarrow> part s a b = part s a (int (length s))"
  by (auto simp: part_def)

lemma part_neg: "a \<le> 0 \<Longrightarrow> part s a b = part s 0 b"
  by (simp add: part_def)

lemma part_middle: "part (a @ b @ c) (int (length a)) (int (length a) + int (length b)) = b"
  by (simp add: part_def)

lemma output_part_eq:
  "0 \<le> start \<Longrightarrow> start + len \<le> int (length str) \<Longrightarrow> output_part o1 str start len = Ok (o1 @ part str start (start + len))"
  by (auto simp: output_part_def part_def variable_buffer_output_def)

lemma output_part_0 [simp]: "start \<le> int (length s) + 1 \<Longrightarrow> output_part o1 s start 0 = Ok o1"
  by (simp add: output_part_def variable_buffer_output_def)

section \<open>Substrings\<close>

text \<open>
  The position where a substring starts. A position before the string is one of the cases of the
  property, as the code has it.
\<close>

definition start_of :: "string \<Rightarrow> int \<Rightarrow> int" where
  "start_of s start = (if start > 0 then start - 1 else int (length s) + start)"

lemma substr_no_pad_eq:
  assumes "\<bar>len\<bar> < 2 ^ 63" and "start_of s start + len < 2 ^ 63"
  shows "substr_no_pad o1 s start len =
    Ok (o1 @ (let a = start_of s start in
      if len > 0 then part s a (a + len)
      else if start \<le> 0 \<and> a \<le> 0 then []
      else part s a (int (length s) + len)))"
proof -
  let ?n = "int (length s)" and ?a = "start_of s start"
  have m: "math_int (- len) = Ok (- len)" using assms(1) by (auto simp: math_int_def)
  have e: "math_int (?a + len) = Ok (?a + len)" if "len > 0" "?a \<ge> 0" using assms(2) that by (simp add: math_int_def)
  consider (start) "0 < start \<or> 0 < ?n + start" | (early) "start \<le> 0" "?n + start \<le> 0" by linarith
  then show ?thesis
  proof cases
    case start
    then show ?thesis
      using m e part_cut [of s "?a + len" ?a]
      by (auto simp: substr_no_pad_def start_of_def Let_def output_part_eq add.commute)
  next
    case early
    have a: "?a = ?n + start" using early by (simp add: start_of_def)
    have e: "math_int (?a + len) = Ok (?a + len)" if "?a + len > 0" using assms(2) that by (simp add: math_int_def)
    have "part s 0 (?a + len) = part s ?a (?a + len)" by (rule part_neg [symmetric]) (use early a in simp)
    then show ?thesis
      using early m e part_cut [of s "?a + len" 0] unfolding a
      by (auto simp: substr_no_pad_def Let_def output_part_eq)
  qed
qed

lemma func_substr_eq:
  assumes "\<bar>start\<bar> < 2 ^ 63" and "\<bar>len\<bar> < 2 ^ 63" and "start_of s start + len < 2 ^ 63" and "len \<noteq> 0"
  shows "func_substr o1 [s, int_text start, int_text len] =
      Ok (o1 @ (if len > 0 then part s (start_of s start) (start_of s start + len)
                else if start \<le> 0 \<and> start_of s start \<le> 0 then []
                else part s (start_of s start) (int (length s) + len)))"
  using substr_no_pad_eq [OF assms(2,3)] assms(1,2,4) by (simp add: func_substr_def Let_def)

lemma func_substr_to_end:
  assumes "\<bar>start\<bar> < 2 ^ 63" and "start_of s start < 2 ^ 63"
  shows "func_substr o1 [s, int_text start] =
    Ok (o1 @ (if start \<le> 0 \<and> start_of s start \<le> 0 then [] else drop (nat (start_of s start)) s))"
proof -
  have "part s a (int (length s)) = drop (nat a) s" if "a \<ge> 0" for a
    using that by (auto simp: part_def)
  then show ?thesis
    using substr_no_pad_eq [of 0 s start o1] assms by (auto simp: func_substr_def Let_def start_of_def)
qed








lemma func_substr_from_end:
  "func_substr [] [''abcdef'', ''-6'', ''-1''] = Ok [] \<and> func_substr [] [''abcdef'', ''1'', ''-1''] = Ok ''abcde''
    \<and> func_substr [] [''abc'', ''-3'', ''5'', ''x''] = Undef OutOfBounds"
  by code_simp

text \<open>So the last characters of a string are those of \<open>$(substr s,-n)\<close>, but not when they are all of it.\<close>

theorem func_substr_whole_string:
  assumes "0 < length s" and "length s < 2 ^ 63" and "n \<le> length s"
  shows "func_substr o1 [s, int_text (- int n)] = Ok (o1 @ (if n = length s then [] else drop (length s - n) s))"
proof -
  have "start_of s (- int n) = int (length s - n)" using assms(3) by (simp add: start_of_def)
  then show ?thesis
    using assms by (simp add: func_substr_to_end nat_diff_distrib)
qed

theorem func_substr_whole_string_witness:
  "func_substr [] [''=>'', ''-2''] = Ok [] \<and> func_substr [] [''x=>'', ''-2''] = Ok ''=>''"
proof -
  have "int_text (- 2) = ''-2''" by code_simp
  then show ?thesis
    using func_substr_whole_string [of "''=>''" "Suc (Suc 0)" "[]"]
      func_substr_whole_string [of "''x=>''" "Suc (Suc 0)" "[]"]
    by simp
qed


section \<open>Translation\<close>

text \<open>The table after setting the pairs of two sets, for a set without duplicates.\<close>

lemma set_table_eq: "length from_set \<le> length to_set \<Longrightarrow>
    set_table t from_set to_set = (foldl (\<lambda>t (i, ch). t(i := ch)) t (zip from_set to_set), [])"
  by (induction t from_set to_set rule: set_table.induct) auto

lemma foldl_table: "foldl (\<lambda>t (i, ch). t(i := ch)) t ps c = (case map_of (rev ps) c of None \<Rightarrow> t c | Some ch \<Rightarrow> ch)"
  by (induction ps arbitrary: t) (auto split: option.splits)

lemma translate_loop_eq: "translate_loop t s o1 = o1 @ filter (\<lambda>c. c \<noteq> NUL) (map t s)"
  by (induction t s o1 rule: translate_loop.induct) (auto simp: variable_buffer_output_def)

definition translation :: "string \<Rightarrow> string \<Rightarrow> char \<Rightarrow> char" where
  "translation from_set to_set c = (case map_of (zip from_set to_set) c of None \<Rightarrow> c | Some ch \<Rightarrow> ch)"

lemma func_translate_eq:
  assumes "distinct from_set" and "length from_set \<le> length to_set"
  shows "func_translate o1 [s, from_set, to_set] = Ok (o1 @ filter (\<lambda>c. c \<noteq> NUL) (map (translation from_set to_set) s))"
proof -
  have "distinct (map fst (zip from_set to_set))" using assms by (simp add: map_fst_zip_take)
  then have "map_of (rev (zip from_set to_set)) = map_of (zip from_set to_set)"
    by (subst map_of_inject_set) (simp_all flip: rev_map)
  then have "foldl (\<lambda>t (i, ch). t(i := ch)) (\<lambda>i. i) (zip from_set to_set) = translation from_set to_set"
    by (auto simp: foldl_table translation_def fun_eq_iff)
  then show ?thesis by (simp add: func_translate_def set_table_eq [OF assms(2)] translate_loop_eq)
qed

lemma translation_back:
  assumes "distinct from_set" and "distinct to_set" and "length from_set = length to_set"
    and "c \<in> set to_set \<longrightarrow> c \<in> set from_set"
  shows "translation to_set from_set (translation from_set to_set c) = c"
proof (cases "c \<in> set from_set")
  case True
  then obtain i where i: "i < length from_set" "c = from_set ! i" by (auto simp: in_set_conv_nth)
  then have "map_of (zip from_set to_set) c = Some (to_set ! i)"
    using assms(1,3) by (simp add: map_of_zip_nth)
  moreover have "map_of (zip to_set from_set) (to_set ! i) = Some c"
    using assms(2,3) i by (simp add: map_of_zip_nth)
  ultimately show ?thesis by (simp add: translation_def)
next
  case False
  then have "map_of (zip from_set to_set) c = None" "map_of (zip to_set from_set) c = None"
    using assms(3,4) by (auto simp: map_of_zip_is_None)
  then show ?thesis by (simp add: translation_def)
qed

text \<open>
  C36: \<open>$(translate)\<close> with two sets of the same length, each without duplicates, replaces every
  character of the string that is in the first set by the one at its place in the second set and
  keeps the others; and translating the result from the second set to the first gives the string
  again, when no character of the string is one of the second set only.
\<close>

theorem func_translate_round_trip:
  assumes "distinct from_set" and "distinct to_set" and "length from_set = length to_set"
    and "set s \<inter> set to_set \<subseteq> set from_set" and "NUL \<notin> set s \<union> set to_set"
  shows "func_translate o1 [s, from_set, to_set] = Ok (o1 @ map (translation from_set to_set) s)
    \<and> func_translate o1 [map (translation from_set to_set) s, to_set, from_set] = Ok (o1 @ s)"
proof -
  let ?t = "translation from_set to_set" and ?b = "translation to_set from_set"
  have nz: "?t c \<noteq> NUL" if "c \<in> set s" for c
  proof (cases "map_of (zip from_set to_set) c")
    case None
    then show ?thesis using that assms(5) by (auto simp: translation_def)
  next
    case (Some d)
    then have "d \<in> set to_set" by (auto dest: map_of_SomeD set_zip_rightD)
    then show ?thesis using Some assms(5) by (auto simp: translation_def)
  qed
  have "map ?b (map ?t s) = s"
    unfolding map_map by (rule map_idI) (use translation_back [OF assms(1,2,3)] assms(4) in auto)
  moreover have "filter (\<lambda>c. c \<noteq> NUL) (map ?t s) = map ?t s"
    using nz by (simp add: filter_id_conv)
  moreover have "filter (\<lambda>c. c \<noteq> NUL) s = s" using assms(5) by (auto simp: filter_id_conv)
  ultimately show ?thesis
    using func_translate_eq [OF assms(1), of to_set o1 s] func_translate_eq [OF assms(2), of from_set o1 "map ?t s"] assms(3)
    by simp
qed

theorem func_translate_round_trip_witness:
  "func_translate [] [''a/b'', ''/a'', ''X/''] = Ok ''/Xb'' \<and> func_translate [] [''/Xb'', ''X/'', ''/a''] = Ok ''a/b''"
proof -
  have "map (translation ''/a'' ''X/'') ''a/b'' = ''/Xb''" by code_simp
  then show ?thesis using func_translate_round_trip [of "''/a''" "''X/''" "''a/b''" "[]"] by simp
qed

text \<open>Without a second set the characters of the first are removed.\<close>

lemma pad_table_eq: "pad_table t from_set ch c = (if c \<in> set from_set then ch else t c)"
  by (induction from_set arbitrary: t) auto

lemma func_translate_remove: 
  assumes "NUL \<notin> set s"
  shows "func_translate o1 [s, from_set] = Ok (o1 @ filter (\<lambda>c. c \<notin> set from_set) s)"
proof -
  have "set_table (\<lambda>i. i) from_set [] = (\<lambda>i. i, from_set)" by (cases from_set) simp_all
  moreover have "filter (\<lambda>c. c \<noteq> NUL) (map (\<lambda>c. if c \<in> set from_set then NUL else c) s) = filter (\<lambda>c. c \<notin> set from_set) s"
    using assms by (induction s) auto
  moreover have "pad_table (\<lambda>i. i) from_set NUL = (\<lambda>c. if c \<in> set from_set then NUL else c)"
    by (simp add: fun_eq_iff pad_table_eq)
  moreover have "filter (\<lambda>c. c \<noteq> NUL) s = s" using assms by (auto simp: filter_id_conv)
  ultimately show ?thesis
    by (simp add: func_translate_def translate_loop_eq)
qed

section \<open>Upper and lower case\<close>

text \<open>Every character is converted, in chunks of the buffer.\<close>

theorem func_toupper_tolower_correct:
  "func_toupper_tolower o1 [s] funcname = o1 @ map (if funcname = ''toupper'' then toupper else tolower) s"
proof -
  have "case_loop f o1 p = o1 @ map f p" for f p
  proof (induction f o1 p rule: case_loop.induct)
    case (1 f o1 p)
    then show ?case
      by (subst case_loop.simps) (auto simp: variable_buffer_output_def Let_def simp flip: map_append)
  qed
  then show ?thesis by (simp add: func_toupper_tolower_def)
qed


section \<open>Searching\<close>

text \<open>The positions where a string has another one.\<close>

definition occurs_at :: "string \<Rightarrow> string \<Rightarrow> nat \<Rightarrow> bool" where
  "occurs_at needle haystack i \<longleftrightarrow> i \<le> length haystack \<and> take (length needle) (drop i haystack) = needle"

lemma occurs_at_less: "occurs_at needle haystack i \<Longrightarrow> i + length needle \<le> length haystack"
  unfolding occurs_at_def by (metis diff_diff_cancel diff_le_mono2 le_diff_conv2 length_drop length_take min.cobounded1 add.commute)

lemma strstr_first:
  "case strstr t s of
     None \<Rightarrow> \<forall>i. \<not> occurs_at s t i
   | Some p \<Rightarrow> \<exists>i. p = drop i t \<and> i \<le> length t \<and> occurs_at s t i \<and> (\<forall>j<i. \<not> occurs_at s t j)"
proof (induction t)
  case Nil
  then show ?case by (auto simp: strstr.simps [of "[]"] occurs_at_def)
next
  case (Cons c t)
  show ?case
  proof (cases "take (length s) (c # t) = s")
    case True
    then show ?thesis by (subst strstr.simps) (auto simp: occurs_at_def intro: exI [of _ 0])
  next
    case False
    have Suc: "occurs_at s (c # t) (Suc i) = occurs_at s t i" for i by (simp add: occurs_at_def)
    have 0: "\<not> occurs_at s (c # t) 0" using False by (simp add: occurs_at_def)
    have e: "strstr (c # t) s = strstr t s" using False by (subst strstr.simps) simp
    show ?thesis
    proof (cases "strstr t s")
      case None
      then have "\<not> occurs_at s (c # t) i" for i using Cons 0 Suc by (cases i) auto
      then show ?thesis using None e by simp
    next
      case (Some p)
      then obtain i where i: "p = drop i t" "i \<le> length t" "occurs_at s t i" "\<forall>j<i. \<not> occurs_at s t j"
        using Cons by auto
      have "\<not> occurs_at s (c # t) j" if "j < Suc i" for j using that i 0 Suc by (cases j) auto
      then show ?thesis using Some e i Suc by (auto intro!: exI [of _ "Suc i"])
    qed
  qed
qed

lemma strchr_first: "strchr t c = Some i \<Longrightarrow> occurs_at [c] t i \<and> (\<forall>j<i. \<not> occurs_at [c] t j)"
proof (induction t arbitrary: i)
  case (Cons d t)
  show ?case
  proof (cases "d = c")
    case False
    then obtain k where k: "strchr t c = Some k" "i = Suc k" using Cons.prems by auto
    have "\<not> occurs_at [c] (d # t) j" if "j < Suc k" for j
      using that Cons.IH [OF k(1)] False by (cases j) (auto simp: occurs_at_def)
    then show ?thesis using Cons.IH [OF k(1)] k by (auto simp: occurs_at_def)
  qed (use Cons.prems in \<open>auto simp: occurs_at_def\<close>)
qed simp

lemma drop_Cons_nth: "drop i t = d # u \<Longrightarrow> i < length t \<and> t ! i = d"
  by (metis drop_all linorder_not_le list.distinct(1) nth_via_drop)

lemma occurs_at_char: "occurs_at [c] t i \<longleftrightarrow> i < length t \<and> t ! i = c"
proof (cases "drop i t")
  case (Cons d u)
  then have "i < length t" "t ! i = d" by (auto dest: drop_Cons_nth)
  then show ?thesis using Cons by (auto simp: occurs_at_def)
qed (auto simp: occurs_at_def)

lemma occurs_at_drop: "a \<le> length h \<Longrightarrow> occurs_at needle (drop a h) i \<longleftrightarrow> occurs_at needle h (a + i)"
  by (auto simp: occurs_at_def add.commute)

text \<open>The hit of a search forwards from \<open>a\<close> on.\<close>

lemma first_hit:
  assumes "a \<le> length h" and "needle \<noteq> []"
  defines "hit \<equiv> (if length needle = 1 then map_option (\<lambda>i. a + i) (strchr (drop a h) (peek needle))
      else map_option (\<lambda>p. length h - length p) (strstr (drop a h) needle))"
  shows "case hit of None \<Rightarrow> \<forall>i\<ge>a. \<not> occurs_at needle h i
    | Some k \<Rightarrow> a \<le> k \<and> occurs_at needle h k \<and> (\<forall>j. a \<le> j \<and> j < k \<longrightarrow> \<not> occurs_at needle h j)"
proof -
  have up: "P a' \<Longrightarrow> \<exists>i. P i" for P :: "nat \<Rightarrow> bool" and a' by blast
  have split: "(\<forall>i\<ge>a. \<not> occurs_at needle h i) \<longleftrightarrow> (\<forall>i. \<not> occurs_at needle (drop a h) i)"
    unfolding occurs_at_drop [OF assms(1)] by (metis le_add1 le_Suc_ex)
  have split2: "(\<forall>j. a \<le> j \<and> j < a + i \<longrightarrow> \<not> occurs_at needle h j) \<longleftrightarrow> (\<forall>j<i. \<not> occurs_at needle (drop a h) j)" for i
    unfolding occurs_at_drop [OF assms(1)] by (metis le_add1 le_Suc_ex nat_add_left_cancel_less)
  show ?thesis
  proof (cases "length needle = 1")
    case True
    then obtain c where c: "needle = [c]" by (auto simp: length_Suc_conv)
    show ?thesis
    proof (cases "strchr (drop a h) c")
      case None
      have "\<not> occurs_at [c] (drop a h) i" for i
      proof
        assume "occurs_at [c] (drop a h) i"
        then have "c \<in> set (drop a h)" unfolding occurs_at_char by (metis nth_mem)
        then show False using None by simp
      qed
      then have "\<forall>i\<ge>a. \<not> occurs_at needle h i" using split c by simp
      moreover have "hit = None" using None True c by (simp add: hit_def)
      ultimately show ?thesis by simp
    next
      case (Some i)
      then show ?thesis
        using c strchr_first [OF Some] split2 [of i] occurs_at_drop [OF assms(1), of needle i]
        by (simp add: hit_def)
    qed
  next
    case False
    show ?thesis
    proof (cases "strstr (drop a h) needle")
      case None
      then show ?thesis using False split strstr_first [of needle "drop a h"] by (simp add: hit_def)
    next
      case (Some p)
      then obtain i where i: "p = drop i (drop a h)" "i \<le> length h - a" "occurs_at needle (drop a h) i"
          "\<forall>j<i. \<not> occurs_at needle (drop a h) j"
        using strstr_first [of needle "drop a h"] by auto
      then have "hit = Some (a + i)" using False Some assms(1) by (simp add: hit_def)
      then show ?thesis using i(3,4) split2 [of i] occurs_at_drop [OF assms(1), of needle i] by simp
    qed
  qed
qed

lemma lastpos_hit:
  assumes "needle \<noteq> []" and "NUL \<notin> set needle" and "NUL \<notin> set h"
  shows "cget h off = peek needle \<and> (length needle = 1 \<or> strneq (drop off h) needle (length needle))
      \<longleftrightarrow> occurs_at needle h off"
proof -
  obtain c cs where n: "needle = c # cs" "c \<noteq> NUL" using assms(1,2) by (cases needle) auto
  have "NUL \<notin> set (drop off h)" using assms(3) by (meson in_set_dropD)
  then have q: "strneq (drop off h) needle (length needle) \<longleftrightarrow> take (length needle) (drop off h) = needle"
    using assms(2) by (subst strneq_take) auto
  show ?thesis
  proof (cases "drop off h")
    case Nil
    then have "\<not> occurs_at needle h off" "cget h off = NUL" using n by (auto simp: occurs_at_def cget_def)
    then show ?thesis using n by simp
  next
    case (Cons d u)
    then have o: "off < length h" "h ! off = d" by (auto dest: drop_Cons_nth)
    have "occurs_at needle h off \<longleftrightarrow> d = c \<and> take (length cs) u = cs" using o Cons n by (auto simp: occurs_at_def)
    moreover have "strneq (drop off h) needle (length needle) \<longleftrightarrow> d = c \<and> take (length cs) u = cs"
      using q Cons n by simp
    moreover have "cget h off = d" using o by (simp add: cget_def)
    ultimately show ?thesis using n by auto
  qed
qed

lemma lastpos_loop_last:
  assumes "needle \<noteq> []" and "NUL \<notin> set needle" and "NUL \<notin> set haystack"
  shows "case lastpos_loop off haystack needle of
     None \<Rightarrow> \<forall>i<off. \<not> occurs_at needle haystack i
   | Some i \<Rightarrow> i < off \<and> occurs_at needle haystack i \<and> (\<forall>j<off. i < j \<longrightarrow> \<not> occurs_at needle haystack j)"
proof -
  have "lastpos_loop (Suc off) haystack needle =
      (if occurs_at needle haystack off then Some off else lastpos_loop off haystack needle)" for off
    by (simp only: lastpos_loop.simps lastpos_hit [OF assms])
  then show ?thesis
    by (induction off) (auto simp del: lastpos_loop.simps(2) simp: less_Suc_eq split: option.splits)
qed

text \<open>
  \<open>$(pos)\<close> prints the place of the first occurrence from the start on and \<open>$(lastpos)\<close> that of the last one
  up to it, counted from one, or 0.
\<close>

lemma pos_search_ok:
  assumes "needle \<noteq> []" and "NUL \<notin> set needle" and "NUL \<notin> set haystack" and "0 \<le> a" and "a \<le> int (length haystack)"
    and "funcname = ''pos'' \<or> funcname = ''lastpos''"
  defines "fits \<equiv> (\<lambda>i. occurs_at needle haystack i \<and> (if funcname = ''pos'' then nat a \<le> i else i \<le> nat a))"
  shows "case pos_search needle haystack a funcname of None \<Rightarrow> \<forall>i. \<not> fits i
    | Some k \<Rightarrow> fits k \<and> (\<forall>j. fits j \<longrightarrow> (if funcname = ''pos'' then k \<le> j else j \<le> k))"
proof (cases "funcname = ''pos''")
  case True
  have "nat a \<le> length haystack" using assms(5) by linarith
  then have "case pos_search needle haystack a funcname of None \<Rightarrow> \<forall>i\<ge>nat a. \<not> occurs_at needle haystack i
    | Some k \<Rightarrow> nat a \<le> k \<and> occurs_at needle haystack k \<and> (\<forall>j. nat a \<le> j \<and> j < k \<longrightarrow> \<not> occurs_at needle haystack j)"
    using first_hit [OF _ assms(1)] True unfolding pos_search_def by simp
  then show ?thesis
    using True by (cases "pos_search needle haystack a funcname") (auto simp: fits_def dest: leI)
next
  case False
  then have e: "pos_search needle haystack a funcname = lastpos_loop (Suc (nat a)) haystack needle"
    using assms(4,6) by (simp add: pos_search_def nat_add_distrib del: lastpos_loop.simps)
  show ?thesis
    using lastpos_loop_last [OF assms(1,2,3), of "Suc (nat a)"] False unfolding e [symmetric]
    by (cases "pos_search needle haystack a funcname") (auto simp: fits_def less_Suc_eq_le dest: leI)
qed

text \<open>What is printed for the result of a search.\<close>

lemma pos_search_printed:
  assumes "needle \<noteq> []" and "NUL \<notin> set needle" and "NUL \<notin> set haystack" and "length haystack < 2 ^ 63 - 1"
    and "0 \<le> a" and "a \<le> int (length haystack)" and "funcname = ''pos'' \<or> funcname = ''lastpos''"
  defines "fits \<equiv> (\<lambda>i. occurs_at needle haystack i \<and> (if funcname = ''pos'' then nat a \<le> i else i \<le> nat a))"
  shows "\<exists>k. math_int_to_variable_buffer o1 (case pos_search needle haystack a funcname of None \<Rightarrow> 0 | Some hit \<Rightarrow> int hit + 1)
      = Ok (o1 @ int_text (int k))
    \<and> (if k = 0 then \<forall>i. \<not> fits i
       else fits (k - 1) \<and> (\<forall>j. fits j \<longrightarrow> (if funcname = ''pos'' then k - 1 \<le> j else j \<le> k - 1)))"
proof -
  have hit: "case pos_search needle haystack a funcname of None \<Rightarrow> \<forall>i. \<not> fits i
    | Some k \<Rightarrow> fits k \<and> (\<forall>j. fits j \<longrightarrow> (if funcname = ''pos'' then k \<le> j else j \<le> k))"
    unfolding fits_def by (rule pos_search_ok [OF assms(1-3,5-7)])
  show ?thesis
  proof (cases "pos_search needle haystack a funcname")
    case None
    then show ?thesis using hit by (intro exI [of _ 0]) (simp add: math_int_to_variable_buffer_eq)
  next
    case (Some h)
    then have "int h + 1 < 2 ^ 63"
      using hit assms(4) occurs_at_less [of needle haystack h] by (simp add: fits_def)
    then have "math_int_to_variable_buffer o1 (int h + 1) = Ok (o1 @ int_text (int (Suc h)))"
      by (simp add: math_int_to_variable_buffer_eq add.commute)
    then show ?thesis using hit Some by (intro exI [of _ "Suc h"]) simp
  qed
qed

text \<open>
  C30: \<open>$(pos)\<close> and \<open>$(lastpos)\<close>, in their two forms, print a place counted from one, or 0. Without a
  start it is the place of the first, and of the last, occurrence of the needle in the haystack, and
  0 when there is none. With a start it is the first occurrence at or after it, and the last one at
  or before it, where a negative start is counted from the end, a start of zero is the first
  character, and 0 is printed when there is no such occurrence, when the start is before the
  haystack, and, by \<open>$(lastpos)\<close>, also when the needle does not fit into the haystack at the start, even
  if there are occurrences before it: \<open>$(lastpos ab,abab,-1)\<close> prints 0. An empty needle is a blank.
\<close>

theorem func_pos_correct:
  assumes "NUL \<notin> set ndl" and "NUL \<notin> set haystack" and "length haystack < 2 ^ 63 - 1"
    and "\<bar>start\<bar> < 2 ^ 63" and "funcname = ''pos'' \<or> funcname = ''lastpos''"
  defines "needle \<equiv> (if ndl = [] then '' '' else ndl)"
  defines "a \<equiv> (if start > 0 then start - 1 else if start < 0 then int (length haystack) + start else 0)"
  defines "fits \<equiv> (\<lambda>i. occurs_at needle haystack i \<and> (if funcname = ''pos'' then nat a \<le> i else i \<le> nat a))"
  shows "(\<exists>k. func_pos o1 [ndl, haystack, int_text start] funcname = Ok (o1 @ int_text (int k))
      \<and> (if a < 0 \<or> funcname = ''lastpos'' \<and> a + int (length needle) > int (length haystack) then k = 0
         else if k = 0 then \<forall>i. \<not> fits i
         else fits (k - 1) \<and> (\<forall>j. fits j \<longrightarrow> (if funcname = ''pos'' then k - 1 \<le> j else j \<le> k - 1))))
    \<and> (\<exists>k. func_pos o1 [ndl, haystack] funcname = Ok (o1 @ int_text (int k))
      \<and> (if k = 0 then \<forall>i. \<not> occurs_at needle haystack i
         else occurs_at needle haystack (k - 1) \<and> (\<forall>j. occurs_at needle haystack j \<longrightarrow>
           (if funcname = ''pos'' then k - 1 \<le> j else j \<le> k - 1))))"
proof
  have n: "needle \<noteq> []" "NUL \<notin> set needle" using assms(1) by (auto simp: needle_def)
  have p: "(if peek ndl \<noteq> NUL then ndl else '' '') = needle" using assms(1) by (cases ndl) (auto simp: needle_def)
  let ?out = "a < 0 \<or> a + int (length needle) > int (length haystack)"
  have "pos_start [ndl, haystack, int_text start] funcname (int (length needle)) (int (length haystack))
      = Ok (if ?out then None else Some a)"
    using assms(4) by (auto simp: pos_start_def a_def Let_def)
  then have f: "func_pos o1 [ndl, haystack, int_text start] funcname =
      math_int_to_variable_buffer o1 (if ?out then 0
        else case pos_search needle haystack a funcname of None \<Rightarrow> 0 | Some hit \<Rightarrow> int hit + 1)"
    unfolding func_pos_def Let_def nth_Cons_0 p by simp
  show "\<exists>k. func_pos o1 [ndl, haystack, int_text start] funcname = Ok (o1 @ int_text (int k))
      \<and> (if a < 0 \<or> funcname = ''lastpos'' \<and> a + int (length needle) > int (length haystack) then k = 0
         else if k = 0 then \<forall>i. \<not> fits i
         else fits (k - 1) \<and> (\<forall>j. fits j \<longrightarrow> (if funcname = ''pos'' then k - 1 \<le> j else j \<le> k - 1)))"
  proof (cases ?out)
    case True
    have "\<not> fits i" if "0 \<le> a" "funcname = ''pos''" for i
      using True that occurs_at_less [of needle haystack i] by (auto simp: fits_def)
    then show ?thesis using True assms(5) unfolding f
      by (intro exI [of _ 0]) (auto simp: math_int_to_variable_buffer_eq)
  next
    case False
    then have "0 \<le> a" "a \<le> int (length haystack)"
      and o: "\<not> (a < 0 \<or> funcname = ''lastpos'' \<and> a + int (length needle) > int (length haystack))" by auto
    then show ?thesis
      using pos_search_printed [OF n assms(2,3) _ _ assms(5), of a o1]
      unfolding f if_not_P [OF False] if_not_P [OF o] fits_def by blast
  qed
  let ?b = "if funcname = ''lastpos'' then int (length haystack) - 1 else 0"
  have "peek funcname = CHR ''l'' \<longleftrightarrow> funcname = ''lastpos''" using assms(5) by auto
  then have g: "func_pos o1 [ndl, haystack] funcname =
      math_int_to_variable_buffer o1 (case pos_search needle haystack ?b funcname of None \<Rightarrow> 0 | Some hit \<Rightarrow> int hit + 1)"
    unfolding func_pos_def Let_def nth_Cons_0 p by (simp add: pos_start_def)
  have fits: "occurs_at needle haystack i \<longleftrightarrow>
      occurs_at needle haystack i \<and> (if funcname = ''pos'' then nat ?b \<le> i else i \<le> nat ?b)" for i
    using occurs_at_less [of needle haystack i] n(1) assms(5) by (cases needle) auto
  show "\<exists>k. func_pos o1 [ndl, haystack] funcname = Ok (o1 @ int_text (int k))
      \<and> (if k = 0 then \<forall>i. \<not> occurs_at needle haystack i
         else occurs_at needle haystack (k - 1) \<and> (\<forall>j. occurs_at needle haystack j \<longrightarrow>
           (if funcname = ''pos'' then k - 1 \<le> j else j \<le> k - 1)))"
  proof (cases "0 \<le> ?b")
    case True
    then show ?thesis
      using pos_search_printed [OF n assms(2,3) True _ assms(5), of o1] unfolding g fits [symmetric] by simp
  next
    case False
    then have "haystack = []" "funcname = ''lastpos''" by (auto split: if_splits)
    then show ?thesis
      using occurs_at_less [of needle "[]"] n(1) unfolding g
      by (intro exI [of _ 0]) (auto simp: pos_search_def math_int_to_variable_buffer_eq)
  qed
qed

theorem func_pos_correct_witness:
  "(\<exists>k. func_pos [] [''ab'', ''xabyab'', ''-2''] ''lastpos'' = Ok (int_text (int k))
      \<and> occurs_at ''ab'' ''xabyab'' (k - 1) \<and> 4 \<le> k - 1)
    \<and> (\<exists>k. func_pos [] [''ab'', ''xabyab''] ''lastpos'' = Ok (int_text (int k))
      \<and> occurs_at ''ab'' ''xabyab'' (k - 1) \<and> 4 \<le> k - 1)"
proof -
  have t: "int_text (-2) = ''-2''" and o: "occurs_at ''ab'' ''xabyab'' 4" by code_simp+
  show ?thesis
    using func_pos_correct [of "''ab''" "''xabyab''" "-2" "''lastpos''" "[]"] o unfolding t
    by (auto split: if_splits)
qed

lemma lastpos_does_not_fit:
  "func_pos [] [''ab'', ''abab'', ''-1''] ''lastpos'' = Ok ''0'' \<and> func_pos [] [''ab'', ''abab''] ''lastpos'' = Ok ''3''"
  by code_simp


section \<open>Insertion\<close>

text \<open>The text inserted, cut or padded to the length asked for.\<close>

definition fitted :: "string \<Rightarrow> nat \<Rightarrow> string \<Rightarrow> string" where
  "fitted in1 len pad = (if len \<le> length in1 then take len in1 else in1 @ padding (len - length in1) pad)"

lemma length_fitted [simp]: "pad \<noteq> [] \<Longrightarrow> length (fitted in1 len pad) = len"
  by (simp add: fitted_def)

lemma fitted_same [simp]: "fitted in1 (length in1) pad = in1"
  by (simp add: fitted_def)

lemma func_insert_eq:
  assumes "insert_args argv = Ok (int n, int len, pad)" and "pad \<noteq> []"
  shows "func_insert o1 argv =
    Ok (o1 @ fitted (argv ! 1) n pad @ fitted (argv ! 0) len pad @ drop n (argv ! 1))"
  using assms
  by (auto simp: func_insert_def Let_def fitted_def variable_buffer_output_def helper_pad_eq nat_diff_distrib)

text \<open>
  C25: Inserting at place \<open>n\<close> with a length puts the text there, and \<open>$(substr)\<close> from the same place with
  the same length takes it out again.
\<close>

theorem func_insert_substr:
  assumes "0 < n" and "n \<le> MB16" and "0 < len" and "len \<le> MB16"
  shows "\<exists>u. func_insert o1 [in1, str, int_text n, int_text len, pad] = Ok (o1 @ u)
    \<and> func_substr o1 [u, int_text n, int_text len] = Ok (o1 @ fitted in1 (nat len) (choose_pad pad))
    \<and> length u = max (nat n - 1) (length str) + nat len"
proof -
  let ?pad = "choose_pad pad" and ?n = "nat n - 1"
  let ?u = "fitted str ?n ?pad @ fitted in1 (nat len) ?pad @ drop ?n str"
  have n: "n - 1 = int ?n" using assms(1) by linarith
  have "insert_args [in1, str, int_text n, int_text len, pad] = Ok (int ?n, int (nat len), ?pad)"
    using assms by (simp add: insert_args_def Let_def)
  then have "func_insert o1 [in1, str, int_text n, int_text len, pad] = Ok (o1 @ ?u)"
    by (subst func_insert_eq) simp_all
  moreover have "func_substr o1 [?u, int_text n, int_text len] = Ok (o1 @ part ?u (n - 1) (n - 1 + len))"
    using assms func_substr_eq [of n len ?u o1] by (simp add: start_of_def)
  moreover have "part ?u (n - 1) (n - 1 + len) = fitted in1 (nat len) ?pad"
    using assms(3) part_middle [of "fitted str ?n ?pad" "fitted in1 (nat len) ?pad" "drop ?n str"] unfolding n by simp
  ultimately show ?thesis by (intro exI [of _ ?u]) (simp add: max_def)
qed

theorem func_insert_substr_witness:
  "\<exists>u. func_insert [] [''ab'', ''xyz'', ''2'', ''3'', ''-''] = Ok u \<and> func_substr [] [u, ''2'', ''3''] = Ok ''ab-''"
proof -
  have t: "int_text 2 = ''2''" "int_text 3 = ''3''" "fitted ''ab'' (nat 3) (choose_pad ''-'') = ''ab-''" by code_simp+
  show ?thesis using func_insert_substr [of 2 3 "[]" "''ab''" "''xyz''" "''-''"] unfolding t by auto
qed

text \<open>Without a length the text inserted gets the length of the string it is inserted into.\<close>

theorem func_insert_default_length:
  assumes "length in1 < length str" 
  shows "func_insert o1 [in1, str] = Ok (o1 @ in1 @ padding (length str - length in1) default_pad @ str)
    \<and> func_insert o1 [str, in1] = Ok (o1 @ take (length in1) str @ in1)"
proof -
  have a: "insert_args [a, b] = Ok (int 0, int (length b), default_pad)" for a b
    by (simp add: insert_args_def Let_def)
  have e: "func_insert o1 [a, b] = Ok (o1 @ fitted a (length b) default_pad @ b)" for a b
    using func_insert_eq [OF a [of a b] default_pad_not_Nil, of o1] by (simp add: fitted_def padding_def)
  show ?thesis
    using assms unfolding e by (simp add: fitted_def)
qed

theorem func_insert_default_length_witness:
  "func_insert [] [''ab'', ''xyz''] = Ok ''ab xyz'' \<and> func_insert [] [''xyz'', ''ab''] = Ok ''xyab''"
proof -
  have "padding (length ''xyz'' - length ''ab'') default_pad = '' ''" by code_simp
  then show ?thesis using func_insert_default_length [of "''ab''" "''xyz''" "[]"] by simp
qed

end
