(* ===== verification/QuoteArgvProps.thy ===== *)
theory QuoteArgvProps
  imports QuoteArgv
begin

text \<open>
  The properties of the quoting of arguments: a program that parses its command line by the
  documented convention gets the arguments the vector had, the quoted string fits the buffer, and
  what the vector holds when an allocation fails.
\<close>

section \<open>Reading quoted text\<close>

lemma apfst_append_append [simp]:
  "apfst (append a) (apfst (append b) x) = apfst (append (a @ b)) x"
  by (cases x) simp

lemma apfst_append_Nil [simp]: "apfst (append []) x = x" "apfst (\<lambda>a. a) x = x"
  by (cases x, simp)+

lemma msc_arg_replicate_BSL: "msc_arg q n (replicate m BSL @ s) = msc_arg q (n + m) s"
  by (induction m arbitrary: n) auto

lemma bsl_run_split: "replicate (bsl_run s) BSL @ drop (bsl_run s) s = s"
  by (induction s) (auto simp: bsl_run_def)

lemma drop_bsl_run: "drop (bsl_run s) s = [] \<or> peek (drop (bsl_run s) s) \<noteq> BSL"
  by (induction s) (auto simp: bsl_run_def)

text \<open>
  After \<open>m\<close> backslashes that the escaping loop doubles where it has to, the parser is where it
  would be without them, and has read them.
\<close>

lemma msc_arg_after_run:
  assumes "s = [] \<or> peek s \<noteq> BSL"
  shows "msc_arg True (if s = [] \<or> peek s = DQ then 2 * m else m) (quote_loop s @ DQ # t)
    = apfst (append (replicate m BSL)) (msc_arg True 0 (quote_loop s @ DQ # t))"
  using assms by (cases s) auto

lemma msc_arg_quote_loop:
  "msc_arg True 0 (quote_loop s @ DQ # t) = apfst (append s) (msc_arg False 0 t)"
proof (induction s rule: quote_loop.induct)
  case (2 ch psz)
  show ?case
  proof (cases "ch = BSL")
    case True
    let ?r = "drop (bsl_run psz) psz"
    have split: "replicate (Suc (bsl_run psz)) BSL @ ?r = ch # psz"
      using bsl_run_split [of psz] True by simp
    have "msc_arg True 0 (quote_loop (ch # psz) @ DQ # t)
        = msc_arg True (if ?r = [] \<or> peek ?r = DQ then 2 * Suc (bsl_run psz)
            else Suc (bsl_run psz)) (quote_loop ?r @ DQ # t)"
      using True by (simp add: Let_def msc_arg_replicate_BSL del: mult_Suc_right replicate.simps)
    also have "\<dots> = apfst (append (ch # psz)) (msc_arg False 0 t)"
      using msc_arg_after_run [OF drop_bsl_run] 2(2) [OF _ True refl refl] True split
      by (simp del: replicate.simps)
    finally show ?thesis .
  next
    case False
    then show ?thesis using 2 by (cases "ch = DQ") simp_all
  qed
qed simp

lemma msc_arg_plain:
  assumes "DQ \<notin> set s" and "s = [] \<Longrightarrow> n = 0" and "s \<noteq> [] \<Longrightarrow> last s \<noteq> BSL"
  shows "msc_arg True n (s @ DQ # t) = apfst (append (replicate n BSL @ s)) (msc_arg False 0 t)"
  using assms
proof (induction s arbitrary: n)
  case (Cons c s)
  show ?case
  proof (cases "c = BSL")
    case True
    then have "s \<noteq> []" using Cons.prems(3) by auto
    then show ?thesis using Cons True
      by (simp add: replicate_app_Cons_same)
  next
    case False
    then show ?thesis using Cons.IH [of 0] Cons.prems by (cases "s = []") auto
  qed
qed simp

lemma msc_arg_unquoted:
  assumes "DQ \<notin> set s" and "CHR '' '' \<notin> set s" and "TAB \<notin> set s"
    and "t = [] \<or> peek t = CHR '' ''"
  shows "msc_arg False n (s @ t) = (replicate n BSL @ s, t)"
  using assms(1-3)
proof (induction s arbitrary: n)
  case Nil
  then show ?case using assms(4) by (cases t) auto
next
  case (Cons c s)
  then show ?case by (cases "c = BSL") (auto simp: replicate_app_Cons_same)
qed

section \<open>One argument\<close>

definition requote :: "bool \<Rightarrow> string \<Rightarrow> string" where
  "requote w a = (if needs_quoting w a then quote_arg w a else a)"

lemma fComplicated_iff: "fComplicated s \<longleftrightarrow> DQ \<in> set s \<or> s \<noteq> [] \<and> last s = BSL"
  by (auto simp: fComplicated_def cget_def last_conv_nth)

lemma find_problem_None: "find_problem s cs = None \<longleftrightarrow> (\<forall>c\<in>set cs. c \<notin> set s)"
proof (induction cs)
  case (Cons c cs)
  show ?case
  proof (cases "strchr s c")
    case None
    moreover from None have "c \<notin> set s" by simp
    ultimately show ?thesis using Cons by (simp del: strchr_None)
  next
    case (Some i)
    moreover have "c \<in> set s" by (rule ccontr) (use Some in \<open>simp flip: strchr_None\<close>)
    ultimately show ?thesis by auto
  qed
qed simp

lemma find_problem_Some: "find_problem s cs = Some i \<Longrightarrow> i < length s"
proof (induction cs)
  case (Cons c cs)
  have "strchr s c = Some j \<Longrightarrow> j < length s" for j
    by (induction s arbitrary: j) (auto split: if_splits)
  with Cons show ?case by (auto split: option.splits)
qed simp

lemma needs_quoting_iff:
  "needs_quoting w s \<longleftrightarrow> DQ \<in> set s \<or> s = [] \<or> (\<exists>c\<in>set (problem_chars w). c \<in> set s)"
  using find_problem_None [of s "problem_chars w"]
  by (auto simp: needs_quoting_def pszProblem_def)

text \<open>The argument the parser reads from what the code puts in the vector.\<close>

lemma msc_arg_requote:
  assumes "t = [] \<or> peek t = CHR '' ''"
  shows "msc_arg False 0 (requote False a @ t) = (a, t)"
proof (cases "needs_quoting False a")
  case False
  then have "DQ \<notin> set a" "CHR '' '' \<notin> set a" "TAB \<notin> set a"
    by (auto simp: needs_quoting_iff problem_chars_def)
  with False show ?thesis using msc_arg_unquoted [OF _ _ _ assms, of a 0]
    by (simp add: requote_def)
next
  case True
  have "msc_arg False 0 t = ([], t)" using msc_arg_unquoted [OF _ _ _ assms, of "[]" 0] by simp
  with True show ?thesis
    using msc_arg_quote_loop [of a t] msc_arg_plain [of a 0 t] fComplicated_iff [of a]
    by (auto simp: requote_def quote_arg_def cchUnquoted_def)
qed

lemma requote_start:
  obtains c s where "requote False a = c # s" and "c \<noteq> CHR '' ''" and "c \<noteq> TAB"
proof (cases "needs_quoting False a")
  case True
  then show ?thesis using that by (auto simp: requote_def quote_arg_def cchUnquoted_def)
next
  case False
  then obtain c s where "a = c # s" by (cases a) (auto simp: needs_quoting_iff)
  with False show ?thesis using that
    by (auto simp: needs_quoting_iff problem_chars_def requote_def)
qed

lemma msc_args_requote:
  assumes "t = [] \<or> peek t = CHR '' ''"
  shows "msc_args (requote False a @ t) = a # msc_args t"
proof -
  obtain c s where cs: "requote False a = c # s" "c \<noteq> CHR '' ''" "c \<noteq> TAB"
    by (rule requote_start)
  then have "msc_arg False 0 (c # s @ t) = (a, t)"
    using msc_arg_requote [OF assms, of a] by simp
  with cs show ?thesis by (simp del: msc_arg.simps)
qed

lemma msc_args_command_line: "msc_args (command_line (map (requote False) argv)) = argv"
proof (induction argv rule: command_line.induct)
  case (2 a)
  then show ?case using msc_args_requote [of "[]" a] by simp
next
  case (3 a b as)
  then show ?case
    using msc_args_requote [of "CHR '' '' # command_line (map (requote False) (b # as))" a] by simp
qed simp

section \<open>The vector\<close>

lemma quote_args_ok:
  assumes "\<forall>j<length argv. needs_quoting w (argv ! j) \<longrightarrow> malloc (i + j) (cchNew (argv ! j) + 1)"
  shows "quote_args malloc w i argv = (0, map (requote w) argv)"
  using assms
proof (induction argv arbitrary: i)
  case (Cons a argv)
  have "\<forall>j<length argv. needs_quoting w (argv ! j) \<longrightarrow>
      malloc (Suc i + j) (cchNew (argv ! j) + 1)"
    using Cons.prems by (simp add: All_less_Suc2)
  moreover have "needs_quoting w a \<longrightarrow> malloc i (cchNew a + 1)"
    using Cons.prems by (simp add: All_less_Suc2)
  ultimately show ?case using Cons.IH [of "Suc i"] by (auto simp: requote_def)
qed simp

lemma quote_args_fail:
  assumes "n < length argv" and "needs_quoting w (argv ! n)"
    and "\<not> malloc (i + n) (cchNew (argv ! n) + 1)"
    and "\<forall>j<n. needs_quoting w (argv ! j) \<longrightarrow> malloc (i + j) (cchNew (argv ! j) + 1)"
  shows "quote_args malloc w i argv = (- 1, map (requote w) (take n argv) @ drop n argv)"
  using assms
proof (induction argv arbitrary: i n)
  case (Cons a argv)
  show ?case
  proof (cases n)
    case (Suc m)
    have "\<forall>j<m. needs_quoting w (argv ! j) \<longrightarrow> malloc (Suc i + j) (cchNew (argv ! j) + 1)"
      using Cons.prems(4) Suc by (simp add: All_less_Suc2)
    moreover have "needs_quoting w a \<longrightarrow> malloc i (cchNew a + 1)"
      using Cons.prems(4) Suc by (simp add: All_less_Suc2)
    ultimately show ?thesis using Cons.IH [of m "Suc i"] Cons.prems Suc
      by (auto simp: requote_def)
  qed (use Cons.prems in auto)
qed simp

lemma quote_loop_length: "length (quote_loop s) \<le> 2 * length s"
proof (induction s rule: quote_loop.induct)
  case (2 ch psz)
  have "length psz = bsl_run psz + length (drop (bsl_run psz) psz)"
    using bsl_run_split [of psz] length_takeWhile_le [of "\<lambda>c. c = BSL" psz]
    by (simp add: bsl_run_def)
  moreover have "length (quote_loop (drop (bsl_run psz) psz)) \<le> 2 * length (drop (bsl_run psz) psz)"
    if "ch = BSL" using 2(2) [OF _ that refl refl] that by simp
  ultimately show ?case
  proof (cases "ch = BSL")
    case True
    moreover define r where "r = drop (bsl_run psz) psz"
    ultimately show ?thesis
      using \<open>length psz = _\<close> \<open>ch = BSL \<Longrightarrow> _\<close> unfolding quote_loop.simps Let_def
      by (simp add: r_def [symmetric] del: length_drop)
  next
    case False
    then show ?thesis using 2(1) 2(3) by (cases "ch = DQ") simp_all
  qed
qed simp

lemma cchUnquoted_le:
  assumes "needs_quoting w s" and "cchUnquoted w s = Some k"
  shows "k \<le> length s"
proof -
  have lt: "strchr s c = Some i \<Longrightarrow> i < length s" for c i
    by (induction s arbitrary: i) (auto split: if_splits)
  show ?thesis
  proof (cases "s = [] \<or> k = 0")
    case False
    define p where "p = (case pszProblem w s of Some i \<Rightarrow> i | None \<Rightarrow> the (strchr s DQ))"
    have "p < length s"
    proof (cases "pszProblem w s")
      case None
      then obtain i where "strchr s DQ = Some i"
        using assms(1) False by (auto simp: needs_quoting_def simp del: strchr_None)
      with None lt show ?thesis by (auto simp: p_def)
    next
      case (Some i)
      then show ?thesis using find_problem_Some [of s "problem_chars w" i]
        by (auto simp: p_def pszProblem_def split: if_splits)
    qed
    moreover have "k = 0 \<or> k = 1 \<or> k = p \<or> (\<exists>i. strchr s (CHR ''='') = Some i \<and> k = i + 1)"
      using assms(2) unfolding cchUnquoted_def Let_def p_def [symmetric]
      by (auto simp del: strchr_None split: if_split_asm option.split_asm)
    moreover have "1 \<le> length s" using False by (simp add: Suc_le_eq)
    moreover have "i + 1 \<le> length s" if "strchr s (CHR ''='') = Some i" for i
      using lt [OF that] by simp
    ultimately show ?thesis by (elim disjE exE conjE) simp_all
  qed (use assms(2) in \<open>auto simp: cchUnquoted_def split: if_splits\<close>)
qed

section \<open>The properties\<close>

text \<open>
  C11: a program that parses the command line made of the quoted vector by the documented convention
  gets exactly the arguments the vector had, whatever characters they hold and also when they are
  empty or end in backslashes.
\<close>

theorem quote_argv_round_trip:
  assumes "\<forall>i<length argv. needs_quoting False (argv ! i) \<longrightarrow> malloc i (cchNew (argv ! i) + 1)"
  shows "fst (quote_argv malloc argv False) = 0
    \<and> msc_args (command_line (snd (quote_argv malloc argv False))) = argv"
  using quote_args_ok [of argv False malloc 0] assms msc_args_command_line [of argv]
  by (simp add: quote_argv_def)

lemma quote_argv_round_trip_witness:
  "fst (quote_argv (\<lambda>i n. n < 100) [''-c'', ''a b'' @ [BSL], [], [BSL, DQ]] False) = 0
    \<and> msc_args (command_line (snd (quote_argv (\<lambda>i n. n < 100) [''-c'', ''a b'' @ [BSL], [], [BSL, DQ]] False)))
      = [''-c'', ''a b'' @ [BSL], [], [BSL, DQ]]"
  by (rule quote_argv_round_trip) (simp add: All_less_Suc2 cchNew_def numeral_eq_Suc)

text \<open>
  C34: what is written for an argument, with its terminator, fits the buffer that was allocated, in
  both modes, and the part copied unquoted lies in the argument.
\<close>

theorem quote_arg_fits:
  assumes "needs_quoting w pszOrg"
  shows "length (quote_arg w pszOrg) + 1 \<le> cchNew pszOrg + 1
    \<and> (\<forall>k. cchUnquoted w pszOrg = Some k \<longrightarrow> k \<le> length pszOrg)"
proof -
  have "length (quote_arg w pszOrg) \<le> cchNew pszOrg"
  proof (cases "cchUnquoted w pszOrg")
    case (Some k)
    then show ?thesis
      using cchUnquoted_le [OF assms Some] quote_loop_length [of "drop k pszOrg"]
      by (auto simp: quote_arg_def cchNew_def)
  qed (simp add: quote_arg_def cchNew_def)
  with cchUnquoted_le [OF assms] show ?thesis by simp
qed

lemma quote_arg_fits_witness: "length (quote_arg True ''-i=a b'') + 1 \<le> cchNew ''-i=a b'' + 1"
  using quote_arg_fits [of True "''-i=a b''"]
  by (simp add: needs_quoting_def pszProblem_def problem_chars_def)

text \<open>
  C39: when the allocation for an argument fails, the call returns -1; the arguments before it have
  been replaced as in a call that succeeds, that argument and the ones after it are unchanged.
\<close>

theorem quote_argv_out_of_memory:
  assumes "n < length argv" and "needs_quoting w (argv ! n)" and "\<not> malloc n (cchNew (argv ! n) + 1)"
    and "\<forall>j<n. needs_quoting w (argv ! j) \<longrightarrow> malloc j (cchNew (argv ! j) + 1)"
  shows "quote_argv malloc argv w
    = (- 1, snd (quote_argv (\<lambda>i cb. True) (take n argv) w) @ drop n argv)"
  using quote_args_fail [of n argv w malloc 0] quote_args_ok [of "take n argv" w "\<lambda>i cb. True" 0] assms
  by (simp add: quote_argv_def)

lemma quote_argv_out_of_memory_witness:
  "quote_argv (\<lambda>i cb. i < 1) [''a b'', [], ''c''] False
    = (- 1, snd (quote_argv (\<lambda>i cb. True) (take 1 [''a b'', [], ''c'']) False) @ drop 1 [''a b'', [], ''c''])"
  by (rule quote_argv_out_of_memory)
    (auto simp: needs_quoting_def pszProblem_def problem_chars_def)

text \<open>
  the test for options whose text is passed through holds for every argument that begins with
  a switch character and a \<open>d\<close>: the name of the macro is not looked at.
\<close>

theorem isWatcomPassThruOption_any_d:
  "isWatcomPassThruOption pszArg \<longleftrightarrow>
     (peek pszArg = CHR ''-'' \<or> peek pszArg = CHR ''/'') \<and> cget pszArg 1 = CHR ''d''"
  by (auto simp: isWatcomPassThruOption_def ctype_defs Let_def)

end
