(* ===== verification/Dos2unix.thy ===== *)
theory Dos2unix
  imports FastdepText "HOL-Library.Word"
begin

text \<open>
  \<open>src/src/lib/dos2unix.c\<close> and the parts of \<open>src/src/kmk/kmkbuiltin/install.c\<close> that use it: the
  analysis of the line ends of a file, the conversions between buffers, \<open>copy\<close> and the
  two tests for whether a file needs its conversion.

  A buffer lies in a memory, a function from addresses to characters: the conversions may be called
  with overlapping buffers, and \<open>copy\<close> does so. A file descriptor is read through the list of what
  its \<open>read\<close> calls return (strings that are not empty, each at most as long as the buffer) and the
  \<open>errno\<close> of the call that ends the loop, 0 at the end of the file. Counters and offsets are
  natural numbers; they are bounded by the size of the file.
\<close>

type_synonym memory = "nat \<Rightarrow> char"

section \<open>The analysis\<close>

record eols =
  cUnixEols :: nat
  cDosEols :: nat
  cLoneCrs :: nat
  fPendingCr :: bool
  fBinary :: bool

definition eols0 :: eols where
  "eols0 = \<lparr>cUnixEols = 0, cDosEols = 0, cLoneCrs = 0, fPendingCr = False, fBinary = False\<rparr>"

definition STYLE_NONE :: "32 word" where "STYLE_NONE = 0x00"
definition STYLE_DOS :: "32 word" where "STYLE_DOS = 0x01"
definition STYLE_UNIX :: "32 word" where "STYLE_UNIX = 0x02"
definition STYLE_MIXED :: "32 word" where "STYLE_MIXED = 0x03"
definition STYLE_MASK :: "32 word" where "STYLE_MASK = 0x03"
definition F_BINARY :: "32 word" where "F_BINARY = 0x80"

lemmas style_defs = STYLE_NONE_def STYLE_DOS_def STYLE_UNIX_def STYLE_MIXED_def STYLE_MASK_def
  F_BINARY_def

text \<open>
  The loop over the characters of one read, and the loop after a carriage return. The lookahead
  compares the next character with \<open>DOS2UNIX_CR\<close>.
\<close>

fun analyze_chars :: "eols \<Rightarrow> string \<Rightarrow> eols" and analyze_after_cr :: "eols \<Rightarrow> string \<Rightarrow> eols" where
  "analyze_chars e [] = e"
| "analyze_chars e (ch # s) =
     (if cord ch > cord CR then analyze_chars e s
      else if ch = CR then
        (if s \<noteq> [] \<and> peek s = CR then analyze_chars (e\<lparr>cDosEols := cDosEols e + 1\<rparr>) s
         else analyze_after_cr (e\<lparr>fPendingCr := True\<rparr>) s)
      else if ch = LF then analyze_chars (e\<lparr>cUnixEols := cUnixEols e + 1\<rparr>) s
      else if ch = NUL then analyze_chars (e\<lparr>fBinary := True\<rparr>) s
      else analyze_chars e s)"
| "analyze_after_cr e [] = e"
| "analyze_after_cr e (ch # s) =
     (if ch \<noteq> CR then
        analyze_chars ((if ch = LF then e\<lparr>cDosEols := cDosEols e + 1\<rparr>
                        else e\<lparr>cLoneCrs := cLoneCrs e + 1\<rparr>)\<lparr>fPendingCr := False\<rparr>) s
      else analyze_after_cr (e\<lparr>cLoneCrs := cLoneCrs e + 1\<rparr>) s)"

text \<open>What one successful \<open>read\<close> does; \<open>achBuf\<close> is not empty.\<close>

definition analyze_read :: "eols \<Rightarrow> string \<Rightarrow> eols" where
  "analyze_read e achBuf =
     (if fPendingCr e then
        (if peek achBuf = LF
         then analyze_chars (e\<lparr>cDosEols := cDosEols e + 1, fPendingCr := False\<rparr>) (tl achBuf)
         else analyze_chars (e\<lparr>cLoneCrs := cLoneCrs e + 1, fPendingCr := False\<rparr>) achBuf)
      else analyze_chars e achBuf)"

definition eol_style :: "eols \<Rightarrow> 32 word" where
  "eol_style e = or (if fBinary e then F_BINARY else STYLE_NONE)
     (if cUnixEols e > 0 \<and> cDosEols e = 0 then STYLE_UNIX
      else if cDosEols e > 0 \<and> cUnixEols e = 0 then STYLE_DOS
      else if cDosEols e \<noteq> 0 \<and> cUnixEols e \<noteq> 0 then STYLE_MIXED
      else STYLE_NONE)"

text \<open>The return code, the style and the two counts.\<close>

definition dos2unix_analyze_fd :: "string list \<Rightarrow> int \<Rightarrow> int \<times> 32 word \<times> nat \<times> nat" where
  "dos2unix_analyze_fd reads errno =
     (let e = foldl analyze_read eols0 reads;
          e = (if fPendingCr e then e\<lparr>cLoneCrs := cLoneCrs e + 1\<rparr> else e)
      in (errno, eol_style e, cDosEols e, cUnixEols e))"

text \<open>A file is the error of its \<open>open\<close>, or what reading it gives.\<close>

type_synonym input_file = "int + (string list \<times> int)"

fun dos2unix_analyze_file :: "input_file \<Rightarrow> int \<times> 32 word \<times> nat \<times> nat" where
  "dos2unix_analyze_file (Inl errno) = (errno, STYLE_NONE, 0, 0)"
| "dos2unix_analyze_file (Inr (reads, errno)) = dos2unix_analyze_fd reads errno"

definition needs_conversion :: "32 word \<Rightarrow> input_file \<Rightarrow> bool" where
  "needs_conversion style f =
     (case dos2unix_analyze_file f of
        (iErr, fStyle, _) \<Rightarrow> iErr \<noteq> 0 \<or> and fStyle (or STYLE_MASK F_BINARY) \<noteq> style)"

definition needs_dos2unix_conversion :: "input_file \<Rightarrow> bool" where
  "needs_dos2unix_conversion = needs_conversion STYLE_UNIX"

definition needs_unix2dos_conversion :: "input_file \<Rightarrow> bool" where
  "needs_unix2dos_conversion = needs_conversion STYLE_DOS"

section \<open>The conversions\<close>

text \<open>
  The loop of \<open>dos2unix_convert_to_unix\<close>: \<open>src\<close> is \<open>pchSrc\<close>, \<open>dst\<close> is \<open>pchDst + offDst\<close>, the number
  is \<open>cchSrc\<close>. The result is the memory, the end of the output and whether a carriage return is
  pending.
\<close>

fun to_unix_loop :: "memory \<Rightarrow> nat \<Rightarrow> nat \<Rightarrow> nat \<Rightarrow> memory \<times> nat \<times> bool" where
  "to_unix_loop mem pch 0 dst = (mem, dst, False)"
| "to_unix_loop mem pch (Suc cchSrc) dst =
     (let ch = mem pch in
      if ch \<noteq> CR then to_unix_loop (mem(dst := ch)) (pch + 1) cchSrc (dst + 1)
      else if cchSrc > 0 \<and> mem (pch + 1) = LF
      then to_unix_loop (mem(dst := LF)) (pch + 2) (cchSrc - 1) (dst + 1)
      else if cchSrc = 0 then (mem, dst, True)
      else to_unix_loop (mem(dst := ch)) (pch + 1) cchSrc (dst + 1))"

text \<open>The memory, \<open>*pcchDst\<close> and the value returned.\<close>

definition dos2unix_convert_to_unix ::
    "memory \<Rightarrow> nat \<Rightarrow> nat \<Rightarrow> nat \<Rightarrow> memory \<times> nat \<times> bool" where
  "dos2unix_convert_to_unix mem pchSrc cchSrc pchDst =
     (case to_unix_loop mem pchSrc cchSrc pchDst of (mem', dst, p) \<Rightarrow> (mem', dst - pchDst, p))"

text \<open>The loop of \<open>dos2unix_convert_to_dos\<close> and its inner loop, which is entered at a return.\<close>

fun to_dos_loop :: "memory \<Rightarrow> nat \<Rightarrow> nat \<Rightarrow> nat \<Rightarrow> memory \<times> nat \<times> bool"
  and to_dos_cr :: "memory \<Rightarrow> nat \<Rightarrow> nat \<Rightarrow> nat \<Rightarrow> memory \<times> nat \<times> bool" where
  "to_dos_loop mem pch 0 dst = (mem, dst, False)"
| "to_dos_loop mem pch (Suc cchSrc) dst =
     (let ch = mem pch in
      if cord ch > cord CR then to_dos_loop (mem(dst := ch)) (pch + 1) cchSrc (dst + 1)
      else if ch = CR then to_dos_cr mem (pch + 1) cchSrc dst
      else if ch = LF then to_dos_loop (mem(dst := CR, dst + 1 := LF)) (pch + 1) cchSrc (dst + 2)
      else to_dos_loop (mem(dst := ch)) (pch + 1) cchSrc (dst + 1))"
| "to_dos_cr mem pch 0 dst = (mem, dst, True)"
| "to_dos_cr mem pch (Suc cchSrc) dst =
     (let mem' = mem(dst := CR); ch = mem' pch in
      if ch = CR then to_dos_cr mem' (pch + 1) cchSrc (dst + 1)
      else to_dos_loop (mem'(dst + 1 := ch)) (pch + 1) cchSrc (dst + 2))"

definition dos2unix_convert_to_dos ::
    "memory \<Rightarrow> nat \<Rightarrow> nat \<Rightarrow> nat \<Rightarrow> memory \<times> nat \<times> bool" where
  "dos2unix_convert_to_dos mem pchSrc cchSrc pchDst =
     (case to_dos_loop mem pchSrc cchSrc pchDst of (mem', dst, p) \<Rightarrow> (mem', dst - pchDst, p))"

section \<open>Copying a file\<close>

definition MAXBSIZE :: nat where "MAXBSIZE = 0x20000"

text \<open>\<open>read\<close> puts what it gets at an address; \<open>write\<close> takes characters from one.\<close>

fun store :: "memory \<Rightarrow> nat \<Rightarrow> string \<Rightarrow> memory" where
  "store mem a [] = mem"
| "store mem a (c # s) = store (mem(a := c)) (a + 1) s"

definition fetch :: "memory \<Rightarrow> nat \<Rightarrow> nat \<Rightarrow> string" where
  "fetch mem a n = map mem [a..<a + n]"

text \<open>
  The target while it is written: its contents so far and the number of \<open>write\<close> calls.
  \<open>wr n s\<close>, a parameter, is what the \<open>n\<close>-th call returns for the string \<open>s\<close>: a write is complete
  when it is the length.
\<close>

record target =
  contents :: string
  writes :: nat

text \<open>
  How the copy ended: with \<open>EX_OK\<close> and the contents, or with the target unlinked and \<open>EX_OSERR\<close>,
  after a write or a read that failed.
\<close>

datatype copy_result = Copied string | Write_error | Read_error

definition write_fd :: "(nat \<Rightarrow> string \<Rightarrow> int) \<Rightarrow> target \<Rightarrow> string \<Rightarrow> target option" where
  "write_fd wr t s =
     (if wr (writes t) s = int (length s)
      then Some (t\<lparr>contents := contents t @ s, writes := writes t + 1\<rparr>) else None)"

definition flush_cr :: "(nat \<Rightarrow> string \<Rightarrow> int) \<Rightarrow> bool \<Rightarrow> target \<Rightarrow> target option" where
  "flush_cr wr need t = (if need then write_fd wr t [CR] else Some t)"

text \<open>
  The loops of \<open>copy\<close>: the file is copied as it is, or converted in \<open>buf\<close> by a conversion that is
  given the place where \<open>read\<close> has put the text.
\<close>

fun copy_plain :: "(nat \<Rightarrow> string \<Rightarrow> int) \<Rightarrow> target \<Rightarrow> string list \<Rightarrow> target option" where
  "copy_plain wr t [] = Some t"
| "copy_plain wr t (r # rs) =
     (case write_fd wr t r of None \<Rightarrow> None | Some t' \<Rightarrow> copy_plain wr t' rs)"

fun copy_convert :: "(memory \<Rightarrow> nat \<Rightarrow> nat \<Rightarrow> nat \<Rightarrow> memory \<times> nat \<times> bool) \<Rightarrow> nat \<Rightarrow>
    (nat \<Rightarrow> string \<Rightarrow> int) \<Rightarrow> memory \<Rightarrow> bool \<Rightarrow> target \<Rightarrow> string list \<Rightarrow> (bool \<times> target) option" where
  "copy_convert conv pch wr buf pend t [] = Some (pend, t)"
| "copy_convert conv pch wr buf pend t (r # rs) =
     (let buf1 = store buf pch r in
      case flush_cr wr (pend \<and> buf1 pch \<noteq> LF) t of
        None \<Rightarrow> None
      | Some t1 \<Rightarrow>
          (case conv buf1 pch (length r) 0 of (buf2, cchDst, pend') \<Rightarrow>
             (case write_fd wr t1 (fetch buf2 0 cchDst) of
                None \<Rightarrow> None
              | Some t2 \<Rightarrow> copy_convert conv pch wr buf2 pend' t2 rs)))"

text \<open>\<open>copy\<close>: \<open>dos2unix\<close> is the field of the instance, \<open>buf\<close> its buffer before the call.\<close>

definition copy :: "int \<Rightarrow> memory \<Rightarrow> string list \<Rightarrow> int \<Rightarrow> (nat \<Rightarrow> string \<Rightarrow> int) \<Rightarrow> copy_result" where
  "copy dos2unix buf reads errno wr =
     (let t0 = \<lparr>contents = [], writes = 0\<rparr>;
          loop = (if dos2unix = 0 then map_option (Pair False) (copy_plain wr t0 reads)
            else if dos2unix > 0 then copy_convert dos2unix_convert_to_unix 0 wr buf False t0 reads
            else copy_convert dos2unix_convert_to_dos (MAXBSIZE div 2) wr buf False t0 reads)
      in case loop of
           None \<Rightarrow> Write_error
         | Some (pend, t) \<Rightarrow>
             if errno \<noteq> 0 then Read_error
             else (case flush_cr wr pend t of
                     None \<Rightarrow> Write_error
                   | Some t' \<Rightarrow> Copied (contents t')))"

end
