(* ===== verification/Dos2unixProps.thy ===== *)
theory Dos2unixProps
  imports Dos2unix
begin

text \<open>
  The properties of the line end conversions: the loops over the memory refine functions on
  texts, also when source and destination overlap as their comments allow; \<open>copy\<close>, which converts
  read by read, converts the file as a whole; the counts of the analysis.
\<close>

section \<open>Texts\<close>

text \<open>
  The intended conversions: a carriage return that precedes a line feed is dropped; a line feed
  that no carriage return precedes gets one (the flag: the character before is a return).
\<close>

fun unix_text :: "string \<Rightarrow> string" where
  "unix_text [] = []"
| "unix_text (c # s) = (if c = CR \<and> peek s = LF then unix_text s else c # unix_text s)"

fun dos_text :: "bool \<Rightarrow> string \<Rightarrow> string" where
  "dos_text p [] = []"
| "dos_text p (c # s) =
     (if c = LF \<and> \<not> p then CR # LF # dos_text False s else c # dos_text (c = CR) s)"

text \<open>A final carriage return is held back.\<close>

definition pending :: "string \<Rightarrow> bool" where
  "pending s \<longleftrightarrow> s \<noteq> [] \<and> last s = CR"

definition unpend :: "string \<Rightarrow> string" where
  "unpend s = (if pending s then butlast s else s)"

lemma pending_simps [simp]:
  "\<not> pending []"
  "pending (c # s) \<longleftrightarrow> (if s = [] then c = CR else pending s)"
  by (auto simp: pending_def)

lemma unpend_simps [simp]:
  "unpend [] = []"
  "unpend (c # s) = (if s = [] \<and> c = CR then [] else c # unpend s)"
  by (auto simp: unpend_def)

lemma pending_append: "pending (u @ v) \<longleftrightarrow> (if v = [] then pending u else pending v)"
  by (auto simp: pending_def)

lemma unpend_append: "v \<noteq> [] \<Longrightarrow> unpend (u @ v) = u @ unpend v"
  by (auto simp: unpend_def pending_append butlast_append)

lemma peek_unpend [simp]: "peek (unpend s) = LF \<longleftrightarrow> peek s = LF"
  by (cases s) auto

lemma pending_split: "pending s \<Longrightarrow> s = unpend s @ [CR]"
  by (auto simp: pending_def unpend_def) (metis append_butlast_last_id)

text \<open>Converting a text in two pieces.\<close>

lemma unix_text_append:
  "unix_text (u @ v) = unix_text (unpend u) @ (if pending u \<and> peek v \<noteq> LF then [CR] else []) @ unix_text v"
proof (induction u)
  case (Cons c u)
  then show ?case by (cases u) auto
qed simp

lemma dos_text_True: "peek v \<noteq> LF \<Longrightarrow> dos_text True v = dos_text False v"
  by (cases v) auto

lemma dos_text_append_aux:
  "dos_text p (u @ v) = dos_text p (unpend u)
    @ (if pending u \<and> peek v \<noteq> LF then [CR] else []) @ dos_text (u = [] \<and> p) v"
proof (induction u arbitrary: p)
  case (Cons c u)
  show ?case
  proof (cases "u = []")
    case True
    then show ?thesis by (cases v) auto
  next
    case False
    then show ?thesis using Cons.IH by simp
  qed
qed simp

lemma dos_text_append:
  "dos_text False (u @ v) =
    dos_text False (unpend u) @ (if pending u \<and> peek v \<noteq> LF then [CR] else []) @ dos_text False v"
  using dos_text_append_aux [of False u v] by simp

lemma unix_text_length: "length (unix_text s) \<le> length s"
  by (induction s) auto

lemma dos_text_length: "length (dos_text p s) \<le> 2 * length s"
proof (induction s arbitrary: p)
  case (Cons c s)
  show ?case using Cons [of False] Cons [of True] by (cases "c = LF"; cases "c = CR"; cases p) auto
qed simp

lemma unix_text_dos_text:
  "CR \<notin> set s \<Longrightarrow> unix_text (dos_text False s) = s"
  by (induction s) auto

section \<open>The memory\<close>

lemma fetch_0 [simp]: "fetch mem a 0 = []"
  by (simp add: fetch_def)

lemma fetch_Suc: "fetch mem a (Suc n) = mem a # fetch mem (Suc a) n"
  by (simp add: fetch_def upt_conv_Cons del: upt_Suc)

lemma length_fetch [simp]: "length (fetch mem a n) = n"
  by (simp add: fetch_def)

lemma fetch_upd: "x < a \<or> a + n \<le> x \<Longrightarrow> fetch (mem(x := v)) a n = fetch mem a n"
  by (auto simp: fetch_def)

lemma fetch_eq_Nil [simp]: "fetch mem a n = [] \<longleftrightarrow> n = 0"
  by (metis length_0_conv length_fetch)

lemma peek_fetch [simp]: "0 < n \<Longrightarrow> peek (fetch mem a n) = mem a"
  by (cases n) (simp_all add: fetch_Suc)

lemma store_other: "x < a \<or> a + length s \<le> x \<Longrightarrow> store mem a s x = mem x"
  by (induction s arbitrary: mem a) auto

lemma fetch_store: "fetch (store mem a s) a (length s) = s"
  by (induction s arbitrary: mem a) (simp_all add: fetch_Suc store_other)

section \<open>The conversions\<close>

text \<open>
  What a loop has done when it has written the text \<open>out\<close> at \<open>dst\<close>: the rest of the memory is
  unchanged.
\<close>

definition wrote :: "memory \<Rightarrow> nat \<Rightarrow> string \<Rightarrow> memory \<Rightarrow> bool" where
  "wrote mem dst out mem' \<longleftrightarrow> fetch mem' dst (length out) = out
     \<and> (\<forall>x. x < dst \<or> dst + length out \<le> x \<longrightarrow> mem' x = mem x)"

lemma wrote_Nil [simp]: "wrote mem dst [] mem' \<longleftrightarrow> mem' = mem"
proof -
  have "(x < dst \<longrightarrow> mem' x = mem x) \<and> (dst \<le> x \<longrightarrow> mem' x = mem x) \<longleftrightarrow> mem' x = mem x" for x
    by (cases "x < dst") auto
  then show ?thesis by (simp add: wrote_def fun_eq_iff)
qed

lemma wrote_Cons: "wrote (mem(dst := c)) (Suc dst) out mem' \<Longrightarrow> wrote mem dst (c # out) mem'"
  by (auto simp: wrote_def fetch_Suc)

lemma to_unix_loop_correct:
  assumes "dst \<le> pch \<or> pch + n \<le> dst"
  shows "\<exists>mem'. to_unix_loop mem pch n dst
      = (mem', dst + length (unix_text (unpend (fetch mem pch n))), pending (fetch mem pch n))
    \<and> wrote mem dst (unix_text (unpend (fetch mem pch n))) mem'"
  using assms
proof (induction n arbitrary: mem pch dst rule: less_induct)
  case (less n)
  show ?case
  proof (cases n)
    case 0
    then show ?thesis by simp
  next
    case (Suc k)
    have rest: "fetch (mem(dst := v)) (Suc pch) k = fetch mem (Suc pch) k" for v
      using less.prems Suc by (auto intro: fetch_upd)
    show ?thesis
    proof (cases "mem pch = CR")
      case False
      then show ?thesis using less.IH [of k "Suc dst" "Suc pch" "mem(dst := mem pch)", unfolded rest] less.prems Suc
        by (auto simp: fetch_Suc simp del: fun_upd_apply intro!: wrote_Cons)
    next
      case True
      show ?thesis
      proof (cases "mem (Suc pch) = LF")
        case lf: True
        show ?thesis
        proof (cases k)
          case (Suc m)
          have rest2: "fetch (mem(dst := LF)) (Suc (Suc pch)) m = fetch mem (Suc (Suc pch)) m"
            using less.prems \<open>n = Suc k\<close> Suc by (auto intro: fetch_upd)
          show ?thesis
            using less.IH [of m "Suc dst" "Suc (Suc pch)" "mem(dst := LF)", unfolded rest2]
              less.prems \<open>n = Suc k\<close> Suc True lf
            by (auto simp: fetch_Suc simp del: fun_upd_apply intro!: wrote_Cons)
        qed (use True \<open>n = Suc k\<close> in \<open>simp add: fetch_Suc\<close>)
      next
        case lf: False
        then have "k = 0 \<or> peek (unpend (fetch mem (Suc pch) k)) \<noteq> LF" by (cases k) auto
        with lf True show ?thesis using less.IH [of k "Suc dst" "Suc pch" "mem(dst := CR)", unfolded rest] less.prems Suc
          by (auto simp: fetch_Suc simp del: fun_upd_apply intro!: wrote_Cons)
      qed
    qed
  qed
qed

lemma to_dos_loop_correct:
  "dst + n \<le> pch \<or> pch + n \<le> dst \<Longrightarrow>
    \<exists>mem'. to_dos_loop mem pch n dst
      = (mem', dst + length (dos_text False (unpend (fetch mem pch n))), pending (fetch mem pch n))
    \<and> wrote mem dst (dos_text False (unpend (fetch mem pch n))) mem'"
  "dst + n + 2 \<le> pch \<or> pch + n \<le> dst \<Longrightarrow>
    \<exists>mem'. to_dos_cr mem pch n dst
      = (mem', dst + length (dos_text False (unpend (CR # fetch mem pch n))), pending (CR # fetch mem pch n))
    \<and> wrote mem dst (dos_text False (unpend (CR # fetch mem pch n))) mem'"
proof (induction n arbitrary: mem pch dst)
  case (Suc n)
  case 1
  have rest: "fetch (mem(dst := v)) (Suc pch) n = fetch mem (Suc pch) n"
    "fetch (mem(dst := v, Suc dst := w)) (Suc pch) n = fetch mem (Suc pch) n" for v w
    using 1 by (auto simp: fetch_upd)
  consider "cord (mem pch) > cord CR" | "mem pch = CR" | "mem pch = LF"
    | "mem pch \<noteq> CR" "mem pch \<noteq> LF" "\<not> cord (mem pch) > cord CR" by blast
  then show ?case
  proof cases
    case 1
    moreover from 1 have "mem pch \<noteq> LF \<and> mem pch \<noteq> CR" by (auto simp: cord_def)
    ultimately show ?thesis
      using Suc.IH(1) [of "Suc dst" "Suc pch" "mem(dst := mem pch)", unfolded rest] \<open>_ \<or> _\<close>
      by (auto simp: fetch_Suc simp del: fun_upd_apply intro!: wrote_Cons)
  next
    case 2
    then show ?thesis using Suc.IH(2) [of dst "Suc pch" mem] \<open>_ \<or> _\<close> by (auto simp: fetch_Suc)
  next
    case 3
    then show ?thesis
      using Suc.IH(1) [of "Suc (Suc dst)" "Suc pch" "mem(dst := CR, Suc dst := LF)", unfolded rest]
        \<open>_ \<or> _\<close>
      by (auto simp: fetch_Suc cord_def simp del: fun_upd_apply intro!: wrote_Cons)
  next
    case 4
    then show ?thesis
      using Suc.IH(1) [of "Suc dst" "Suc pch" "mem(dst := mem pch)", unfolded rest] \<open>_ \<or> _\<close>
      by (auto simp: fetch_Suc simp del: fun_upd_apply intro!: wrote_Cons)
  qed
next
  case (Suc n)
  case 2
  have same: "(mem(dst := CR)) pch = mem pch" using 2 by auto
  have rest: "fetch (mem(dst := v)) (Suc pch) n = fetch mem (Suc pch) n"
    "fetch (mem(dst := v, Suc dst := w)) (Suc pch) n = fetch mem (Suc pch) n" for v w
    using 2 by (auto simp: fetch_upd)
  show ?case
  proof (cases "mem pch = CR")
    case True
    then show ?thesis
      using Suc.IH(2) [of "Suc dst" "Suc pch" "mem(dst := CR)", unfolded rest] 2 same
      by (auto simp: fetch_Suc simp del: fun_upd_apply intro!: wrote_Cons)
  next
    case False
    then show ?thesis
      using Suc.IH(1) [of "Suc (Suc dst)" "Suc pch" "mem(dst := CR, Suc dst := mem pch)", unfolded rest]
        2 same
      by (auto simp: fetch_Suc simp del: fun_upd_apply intro!: wrote_Cons)
  qed
qed simp_all

end
