(* ===== verification/InstallCopy.thy ===== *)
theory InstallCopy
  imports Dos2unixProps
begin

text \<open>
  The file level of the line end conversions: the exact meaning of the counts of the analysis, the
  interface between \<open>copy\<close> and the two conversions, and the properties.
\<close>

section \<open>The counts\<close>

text \<open>
  Line feeds that a carriage return does or does not precede (the flag: the character before the
  text is a return), pairs of returns, and the zeros that are looked at.
\<close>

fun crlf_count :: "bool \<Rightarrow> string \<Rightarrow> nat" where
  "crlf_count p [] = 0"
| "crlf_count p (c # s) = (if c = LF \<and> p then 1 else 0) + crlf_count (c = CR) s"

fun lf_count :: "bool \<Rightarrow> string \<Rightarrow> nat" where
  "lf_count p [] = 0"
| "lf_count p (c # s) = (if c = LF \<and> \<not> p then 1 else 0) + lf_count (c = CR) s"

fun crcr_count :: "string \<Rightarrow> nat" where
  "crcr_count [] = 0"
| "crcr_count (c # s) = (if c = CR \<and> peek s = CR then 1 else 0) + crcr_count s"

fun nul_seen :: "bool \<Rightarrow> string \<Rightarrow> bool" where
  "nul_seen p [] \<longleftrightarrow> False"
| "nul_seen p (c # s) \<longleftrightarrow> (c = NUL \<and> \<not> p) \<or> nul_seen (c = CR) s"

lemma flag_at_cr:
  "peek s = CR \<Longrightarrow> crlf_count True s = crlf_count False s \<and> lf_count True s = lf_count False s
    \<and> nul_seen True s = nul_seen False s"
  by (cases s) auto

lemma crlf_count_append: "crlf_count p (u @ v) = crlf_count p u + crlf_count (if u = [] then p else pending u) v"
  by (induction u arbitrary: p) auto

lemma lf_count_append: "lf_count p (u @ v) = lf_count p u + lf_count (if u = [] then p else pending u) v"
  by (induction u arbitrary: p) auto

text \<open>What the counters of \<open>e'\<close> are after a text, from those of \<open>e\<close>.\<close>

definition counted :: "eols \<Rightarrow> bool \<Rightarrow> string \<Rightarrow> nat \<Rightarrow> eols \<Rightarrow> bool" where
  "counted e p s extra e' \<longleftrightarrow>
     cUnixEols e' = cUnixEols e + lf_count p s
     \<and> cDosEols e' = cDosEols e + crlf_count p s + extra
     \<and> fPendingCr e' = (if s = [] then fPendingCr e else pending s)"

lemma analyze_chars_counted:
  "\<not> fPendingCr e \<Longrightarrow> counted e False s (crcr_count s) (analyze_chars e s)
    \<and> fBinary (analyze_chars e s) = (fBinary e \<or> nul_seen False s)"
proof (induction s arbitrary: e rule: length_induct)
  case (1 s)
  note IH = 1(1)
  show ?case
  proof (cases s)
    case (Cons c t)
    have "cord c > cord CR \<Longrightarrow> c \<noteq> CR \<and> c \<noteq> LF \<and> c \<noteq> NUL" by (auto simp: cord_def)
    then consider "cord c > cord CR" "c \<noteq> CR" "c \<noteq> LF" "c \<noteq> NUL" | "c = CR" "peek t = CR" | "c = CR" "t = []"
      | "c = CR" "peek t \<noteq> CR" "t \<noteq> []" | "\<not> cord c > cord CR" "c \<noteq> CR"
      by blast
    then show ?thesis
    proof cases
      case 4
      then obtain d u where t: "t = d # u" "d \<noteq> CR" by (cases t) auto
      define e' where "e' = (if d = LF then e\<lparr>fPendingCr := True, cDosEols := cDosEols e + 1\<rparr>
        else e\<lparr>fPendingCr := True, cLoneCrs := cLoneCrs e + 1\<rparr>)\<lparr>fPendingCr := False\<rparr>"
      have "analyze_chars e s = analyze_chars e' u"
        using 4 t Cons by (auto simp: e'_def)
      then show ?thesis using IH [rule_format, of u e'] 1(2) 4 t Cons
        by (cases "u = []") (auto simp: counted_def e'_def)
    qed (use IH [rule_format, of t] 1(2) Cons flag_at_cr [of t] in \<open>auto simp: counted_def cord_def\<close>)
  qed (use 1 in \<open>auto simp: counted_def\<close>)
qed

lemma analyze_read_counted:
  assumes "r \<noteq> []"
  shows "counted e (fPendingCr e) r (crcr_count r) (analyze_read e r)
    \<and> fBinary (analyze_read e r) = (fBinary e \<or> nul_seen False r)"
proof -
  obtain c s where r: "r = c # s" using assms by (cases r) auto
  show ?thesis
  proof (cases "fPendingCr e")
    case True
    show ?thesis
    proof (cases "c = LF")
      case lf: True
      then show ?thesis
        using analyze_chars_counted [of "e\<lparr>cDosEols := cDosEols e + 1, fPendingCr := False\<rparr>" s] r True
        by (auto simp: analyze_read_def counted_def)
    next
      case False
      then show ?thesis
        using analyze_chars_counted [of "e\<lparr>cLoneCrs := cLoneCrs e + 1, fPendingCr := False\<rparr>" r] r True
        by (auto simp: analyze_read_def counted_def simp del: analyze_chars.simps)
    qed
  next
    case False
    then show ?thesis using analyze_chars_counted [of e r] assms
      by (auto simp: analyze_read_def counted_def)
  qed
qed

lemma analyze_reads_counted:
  assumes "[] \<notin> set reads"
  shows "counted eols0 False (concat reads) (sum_list (map crcr_count reads)) (foldl analyze_read eols0 reads)
    \<and> (fBinary (foldl analyze_read eols0 reads) \<longleftrightarrow> (\<exists>r\<in>set reads. nul_seen False r))"
  using assms
proof (induction reads rule: rev_induct)
  case Nil
  then show ?case by (simp add: counted_def eols0_def)
next
  case (snoc r reads)
  have zero: "\<not> fPendingCr eols0" "cUnixEols eols0 = 0" "cDosEols eols0 = 0" by (simp_all add: eols0_def)
  have "concat reads = [] \<longleftrightarrow> reads = []" using snoc.prems by (cases reads) auto
  then show ?case
    using snoc analyze_read_counted [of r "foldl analyze_read eols0 reads"] zero
    by (auto simp: counted_def pending_append crlf_count_append lf_count_append)
qed

lemma analysis_counts:
  assumes "[] \<notin> set reads" and "dos2unix_analyze_fd reads errno = (rc, style, nDos, nUnix)"
  shows "rc = errno \<and> nUnix = lf_count False (concat reads)
    \<and> nDos = crlf_count False (concat reads) + sum_list (map crcr_count reads)
    \<and> style = or (if \<exists>r\<in>set reads. nul_seen False r then F_BINARY else STYLE_NONE)
        (if nUnix > 0 \<and> nDos = 0 then STYLE_UNIX else if nDos > 0 \<and> nUnix = 0 then STYLE_DOS
         else if nDos > 0 \<and> nUnix > 0 then STYLE_MIXED else STYLE_NONE)"
proof -
  define e where "e = foldl analyze_read eols0 reads"
  have "eol_style (e\<lparr>cLoneCrs := n\<rparr>) = eol_style e" for n by (simp add: eol_style_def)
  then have 1: "rc = errno" "style = eol_style e" "nDos = cDosEols e" "nUnix = cUnixEols e"
    using assms(2) by (auto simp: dos2unix_analyze_fd_def Let_def e_def split: if_splits)
  have 2: "counted eols0 False (concat reads) (sum_list (map crcr_count reads)) e"
    "fBinary e = (\<exists>r\<in>set reads. nul_seen False r)"
    using analyze_reads_counted [OF assms(1)] by (simp_all add: e_def)
  have "style = or (if \<exists>r\<in>set reads. nul_seen False r then F_BINARY else STYLE_NONE)
        (if nUnix > 0 \<and> nDos = 0 then STYLE_UNIX else if nDos > 0 \<and> nUnix = 0 then STYLE_DOS
         else if nDos > 0 \<and> nUnix > 0 then STYLE_MIXED else STYLE_NONE)"
    unfolding 1 eol_style_def 2(2) by simp
  with 1 2(1) show ?thesis by (simp add: counted_def eols0_def)
qed

section \<open>Which files need no conversion\<close>

lemma style_masked:
  "and (or b s) (or STYLE_MASK F_BINARY) = STYLE_UNIX \<Longrightarrow>
    b \<in> {F_BINARY, STYLE_NONE} \<Longrightarrow> s \<in> {STYLE_NONE, STYLE_DOS, STYLE_UNIX, STYLE_MIXED} \<Longrightarrow> s = STYLE_UNIX"
  "and (or b s) (or STYLE_MASK F_BINARY) = STYLE_DOS \<Longrightarrow>
    b \<in> {F_BINARY, STYLE_NONE} \<Longrightarrow> s \<in> {STYLE_NONE, STYLE_DOS, STYLE_UNIX, STYLE_MIXED} \<Longrightarrow> s = STYLE_DOS"
  by (auto simp: style_defs)

lemma no_crlf_unix_text: "crlf_count p s = 0 \<Longrightarrow> unix_text s = s"
proof (induction s arbitrary: p)
  case (Cons c s)
  then have "unix_text s = s" using Cons.IH [of "c = CR"] by simp
  moreover have "c = CR \<Longrightarrow> peek s \<noteq> LF" using Cons.prems by (cases s) auto
  ultimately show ?case by simp
qed simp

lemma no_lf_dos_text: "lf_count p s = 0 \<Longrightarrow> dos_text p s = s"
  by (induction s arbitrary: p) (auto split: if_splits)

lemma needs_conversion_counts:
  assumes "[] \<notin> set reads"
  shows "\<not> needs_dos2unix_conversion (Inr (reads, errno)) \<Longrightarrow> errno = 0 \<and> crlf_count False (concat reads) = 0"
    and "\<not> needs_unix2dos_conversion (Inr (reads, errno)) \<Longrightarrow> errno = 0 \<and> lf_count False (concat reads) = 0"
proof -
  obtain rc style nDos nUnix where r: "dos2unix_analyze_fd reads errno = (rc, style, nDos, nUnix)"
    by (metis prod_cases4)
  define b where "b = (if \<exists>r\<in>set reads. nul_seen False r then F_BINARY else STYLE_NONE)"
  define st where "st = (if nUnix > 0 \<and> nDos = 0 then STYLE_UNIX
     else if nDos > 0 \<and> nUnix = 0 then STYLE_DOS
     else if nDos > 0 \<and> nUnix > 0 then STYLE_MIXED else STYLE_NONE)"
  have c: "rc = errno" "nUnix = lf_count False (concat reads)" "crlf_count False (concat reads) \<le> nDos"
    "style = or b st"
    using analysis_counts [OF assms r] by (simp_all add: b_def st_def)
  have bs: "b \<in> {F_BINARY, STYLE_NONE}" "st \<in> {STYLE_NONE, STYLE_DOS, STYLE_UNIX, STYLE_MIXED}"
    by (auto simp: b_def st_def)
  have "st = STYLE_UNIX \<Longrightarrow> nDos = 0" "st = STYLE_DOS \<Longrightarrow> nUnix = 0"
    by (auto simp: st_def style_defs split: if_splits)
  then show "\<not> needs_dos2unix_conversion (Inr (reads, errno)) \<Longrightarrow> errno = 0 \<and> crlf_count False (concat reads) = 0"
    and "\<not> needs_unix2dos_conversion (Inr (reads, errno)) \<Longrightarrow> errno = 0 \<and> lf_count False (concat reads) = 0"
    using style_masked [OF _ bs] c r
    by (auto simp: needs_dos2unix_conversion_def needs_unix2dos_conversion_def needs_conversion_def)
qed

section \<open>The interface of copy and the conversions\<close>

text \<open>Every \<open>write\<close> takes all of its characters.\<close>

definition complete_writes :: "(nat \<Rightarrow> string \<Rightarrow> int) \<Rightarrow> bool" where
  "complete_writes wr \<longleftrightarrow> (\<forall>n s. wr n s = int (length s))"

text \<open>
  What \<open>copy\<close> needs of a conversion of texts \<open>T\<close>: a read of at most \<open>cap\<close> characters, put at \<open>pch\<close>
  in the buffer, is converted to the start of the buffer, a final carriage return held back; and
  a text is converted in two pieces by converting the pieces, with the return between them written
  unless a line feed follows.
\<close>

locale line_conversion =
  fixes conv :: "memory \<Rightarrow> nat \<Rightarrow> nat \<Rightarrow> nat \<Rightarrow> memory \<times> nat \<times> bool"
    and pch :: nat and cap :: nat and T :: "string \<Rightarrow> string"
  assumes conv: "length r \<le> cap \<Longrightarrow> fetch buf pch (length r) = r \<Longrightarrow>
      \<exists>buf'. conv buf pch (length r) 0 = (buf', length (T (unpend r)), pending r)
        \<and> fetch buf' 0 (length (T (unpend r))) = T (unpend r)"
    and T_Nil: "T [] = []"
    and T_append: "T (u @ v) = T (unpend u) @ (if pending u \<and> peek v \<noteq> LF then [CR] else []) @ T v"
begin

lemma T_pending: "T u = T (unpend u) @ (if pending u then [CR] else [])"
  using T_append [of u "[]"] T_Nil by simp

text \<open>The output for the text \<open>u\<close> read before, continued by one read.\<close>

lemma T_read:
  assumes "r \<noteq> []"
  shows "T (unpend (u @ r)) = T (unpend u) @ (if pending u \<and> peek r \<noteq> LF then [CR] else []) @ T (unpend r)"
proof (cases "unpend r = []")
  case True
  then have "r = [CR]" using assms by (cases r) (auto split: if_splits)
  then show ?thesis using T_pending [of u] unpend_append [of r u] T_Nil by simp
next
  case False
  then show ?thesis using T_append [of u "unpend r"] unpend_append [OF assms, of u] by simp
qed

lemma copy_convert_loop:
  assumes "\<forall>r\<in>set rs. r \<noteq> [] \<and> length r \<le> cap" and "contents t = T (unpend u)"
  shows "(\<forall>p t'. copy_convert conv pch wr buf (pending u) t rs = Some (p, t') \<longrightarrow>
        p = pending (u @ concat rs) \<and> contents t' = T (unpend (u @ concat rs)))
    \<and> (complete_writes wr \<longrightarrow> copy_convert conv pch wr buf (pending u) t rs \<noteq> None)"
  using assms
proof (induction rs arbitrary: u buf t)
  case (Cons r rs)
  define buf1 where "buf1 = store buf pch r"
  have r: "r \<noteq> []" "length r \<le> cap" using Cons.prems by auto
  have "fetch buf1 pch (length r) = r" by (simp add: buf1_def fetch_store)
  then obtain buf2 where conv': "conv buf1 pch (length r) 0 = (buf2, length (T (unpend r)), pending r)"
    "fetch buf2 0 (length (T (unpend r))) = T (unpend r)"
    using conv r(2) by blast
  have head: "buf1 pch = peek r"
    using r(1) by (cases r) (simp_all add: buf1_def store_other)
  note IH = Cons.IH [of _ "u @ r" buf2]
  have pend: "pending r = pending (u @ r)" using r(1) by (simp add: pending_append)
  have step: "contents t2 = T (unpend (u @ r))"
    if "flush_cr wr (pending u \<and> peek r \<noteq> LF) t = Some t1" "write_fd wr t1 (T (unpend r)) = Some t2" for t1 t2
    using that Cons.prems(2) T_read [OF r(1), of u]
    by (auto simp: flush_cr_def write_fd_def split: if_splits)
  have complete: "flush_cr wr b t1 \<noteq> None" "write_fd wr t1 s \<noteq> None"
    if "complete_writes wr" for b t1 s
    using that by (auto simp: flush_cr_def write_fd_def complete_writes_def)
  show ?case
  proof (cases "flush_cr wr (pending u \<and> peek r \<noteq> LF) t")
    case None
    moreover from this have "\<not> complete_writes wr" using complete(1) by fastforce
    moreover from None have "copy_convert conv pch wr buf (pending u) t (r # rs) = None"
      by (simp add: Let_def head flip: buf1_def)
    ultimately show ?thesis by (auto simp del: copy_convert.simps)
  next
    case t1: (Some t1)
    show ?thesis
    proof (cases "write_fd wr t1 (T (unpend r))")
      case None
      moreover from this have "\<not> complete_writes wr" using complete(2) by fastforce
      moreover from None have "copy_convert conv pch wr buf (pending u) t (r # rs) = None"
        using t1 conv' by (simp add: Let_def head flip: buf1_def)
      ultimately show ?thesis by (auto simp del: copy_convert.simps)
    next
      case t2: (Some t2)
      have "copy_convert conv pch wr buf (pending u) t (r # rs)
          = copy_convert conv pch wr buf2 (pending (u @ r)) t2 rs"
        using t1 t2 conv' pend by (simp add: Let_def head flip: buf1_def)
      moreover have "\<forall>r\<in>set rs. r \<noteq> [] \<and> length r \<le> cap" using Cons.prems(1) by simp
      ultimately show ?thesis using IH [OF _ step [OF t1 t2]] by (simp del: copy_convert.simps)
    qed
  qed
qed simp

end

interpretation to_unix: line_conversion dos2unix_convert_to_unix 0 MAXBSIZE unix_text
proof
  fix r :: string and buf :: memory
  assume "length r \<le> MAXBSIZE" and r: "fetch buf 0 (length r) = r"
  obtain buf' where "to_unix_loop buf 0 (length r) 0 = (buf', length (unix_text (unpend r)), pending r)"
    "wrote buf 0 (unix_text (unpend r)) buf'"
    using to_unix_loop_correct [of 0 0 "length r" buf] r by auto
  then show "\<exists>buf'. dos2unix_convert_to_unix buf 0 (length r) 0 = (buf', length (unix_text (unpend r)), pending r)
    \<and> fetch buf' 0 (length (unix_text (unpend r))) = unix_text (unpend r)"
    by (auto simp: dos2unix_convert_to_unix_def wrote_def)
qed (simp_all add: unix_text_append)

interpretation to_dos: line_conversion dos2unix_convert_to_dos "MAXBSIZE div 2" "MAXBSIZE div 2" "dos_text False"
proof
  fix r :: string and buf :: memory
  assume "length r \<le> MAXBSIZE div 2" and r: "fetch buf (MAXBSIZE div 2) (length r) = r"
  then obtain buf' where "to_dos_loop buf (MAXBSIZE div 2) (length r) 0
      = (buf', length (dos_text False (unpend r)), pending r)"
    "wrote buf 0 (dos_text False (unpend r)) buf'"
    using to_dos_loop_correct(1) [of 0 "length r" "MAXBSIZE div 2" buf] by auto
  then show "\<exists>buf'. dos2unix_convert_to_dos buf (MAXBSIZE div 2) (length r) 0
      = (buf', length (dos_text False (unpend r)), pending r)
    \<and> fetch buf' 0 (length (dos_text False (unpend r))) = dos_text False (unpend r)"
    by (auto simp: dos2unix_convert_to_dos_def wrote_def)
qed (simp_all add: dos_text_append)

text \<open>What \<open>copy\<close> makes of a file with the given contents.\<close>

definition converted :: "int \<Rightarrow> string \<Rightarrow> string" where
  "converted dos2unix s = (if dos2unix = 0 then s else if dos2unix > 0 then unix_text s else dos_text False s)"

definition read_bound :: "int \<Rightarrow> nat" where
  "read_bound dos2unix = (if dos2unix < 0 then MAXBSIZE div 2 else MAXBSIZE)"

lemma copy_plain_loop:
  "(\<forall>t'. copy_plain wr t rs = Some t' \<longrightarrow> contents t' = contents t @ concat rs)
    \<and> (complete_writes wr \<longrightarrow> copy_plain wr t rs \<noteq> None)"
proof (induction rs arbitrary: t)
  case (Cons r rs)
  have "write_fd wr t r = None \<or> write_fd wr t r = Some (t\<lparr>contents := contents t @ r, writes := writes t + 1\<rparr>)"
    by (auto simp: write_fd_def)
  moreover have "write_fd wr t r = None \<Longrightarrow> \<not> complete_writes wr"
    by (auto simp: write_fd_def complete_writes_def split: if_splits)
  ultimately show ?case using Cons by (auto simp: write_fd_def)
qed simp

lemma copy_parts:
  assumes "\<forall>r\<in>set reads. r \<noteq> [] \<and> length r \<le> read_bound dos2unix"
  shows "copy dos2unix buf reads errno wr = Copied s \<Longrightarrow> errno = 0 \<and> s = converted dos2unix (concat reads)"
    and "complete_writes wr \<Longrightarrow> copy dos2unix buf reads errno wr
      = (if errno = 0 then Copied (converted dos2unix (concat reads)) else Read_error)"
proof -
  let ?t0 = "\<lparr>contents = [], writes = 0\<rparr>"
  define loop where "loop = (if dos2unix = 0 then map_option (Pair False) (copy_plain wr ?t0 reads)
    else if dos2unix > 0 then copy_convert dos2unix_convert_to_unix 0 wr buf False ?t0 reads
    else copy_convert dos2unix_convert_to_dos (MAXBSIZE div 2) wr buf False ?t0 reads)"
  have loop: "contents t @ (if p then [CR] else []) = converted dos2unix (concat reads)"
    if "loop = Some (p, t)" for p t
  proof (cases dos2unix "0 :: int" rule: linorder_cases)
    case less
    then show ?thesis
      using that assms to_dos.copy_convert_loop [of reads ?t0 "[]" wr buf] to_dos.T_pending [of "concat reads"]
      by (simp add: loop_def converted_def read_bound_def)
  next
    case equal
    then show ?thesis
      using that assms copy_plain_loop [of wr ?t0 reads] by (auto simp: loop_def converted_def)
  next
    case greater
    then show ?thesis
      using that assms to_unix.copy_convert_loop [of reads ?t0 "[]" wr buf] to_unix.T_pending [of "concat reads"]
      by (simp add: loop_def converted_def read_bound_def)
  qed
  have copy: "copy dos2unix buf reads errno wr = (case loop of None \<Rightarrow> Write_error
      | Some (pend, t) \<Rightarrow> if errno \<noteq> 0 then Read_error
          else (case flush_cr wr pend t of None \<Rightarrow> Write_error | Some t' \<Rightarrow> Copied (contents t')))"
    by (simp add: copy_def loop_def)
  have flush: "contents t' = contents t @ (if b then [CR] else [])" if "flush_cr wr b t = Some t'" for b t t'
    using that by (auto simp: flush_cr_def write_fd_def split: if_splits)
  show "copy dos2unix buf reads errno wr = Copied s \<Longrightarrow> errno = 0 \<and> s = converted dos2unix (concat reads)"
    unfolding copy using loop flush by (auto split: option.splits if_splits prod.splits)
  assume wr: "complete_writes wr"
  have "loop \<noteq> None"
    using wr assms to_dos.copy_convert_loop [of reads ?t0 "[]" wr buf]
      to_unix.copy_convert_loop [of reads ?t0 "[]" wr buf] copy_plain_loop [of wr ?t0 reads]
    by (auto simp: loop_def read_bound_def)
  then obtain p t where pt: "loop = Some (p, t)" by (cases loop) auto
  have "flush_cr wr p t \<noteq> None" using wr by (simp add: flush_cr_def write_fd_def complete_writes_def)
  then obtain t' where "flush_cr wr p t = Some t'" by auto
  then show "copy dos2unix buf reads errno wr
      = (if errno = 0 then Copied (converted dos2unix (concat reads)) else Read_error)"
    using pt loop [OF pt] flush unfolding copy by simp
qed

section \<open>The properties\<close>

text \<open>
  C5: \<open>copy\<close> converts a file read by read through its one buffer, holding a return back between
  reads; whatever the sizes of the reads, it reports success only when nothing failed and then has
  written exactly the conversion of the whole file, and when no call fails it reports success.
\<close>

theorem copy_converts_file:
  assumes "\<forall>r\<in>set reads. r \<noteq> [] \<and> length r \<le> read_bound dos2unix"
  shows "(\<forall>s. copy dos2unix buf reads errno wr = Copied s \<longrightarrow>
        errno = 0 \<and> s = converted dos2unix (concat reads))
    \<and> (complete_writes wr \<longrightarrow> copy dos2unix buf reads errno wr
        = (if errno = 0 then Copied (converted dos2unix (concat reads)) else Read_error))"
  using copy_parts [OF assms] by blast

lemma copy_converts_file_witness:
  "copy (- 1) (\<lambda>_. NUL) [[CR], [LF, LF]] 0 (\<lambda>n s. int (length s)) = Copied [CR, LF, CR, LF]"
proof -
  have "complete_writes (\<lambda>n s. int (length s))" by (simp add: complete_writes_def)
  moreover have "\<forall>r\<in>set [[CR], [LF, LF]]. r \<noteq> [] \<and> length r \<le> read_bound (- 1)"
    by (simp add: read_bound_def MAXBSIZE_def)
  ultimately have "copy (- 1) (\<lambda>_. NUL) [[CR], [LF, LF]] 0 (\<lambda>n s. int (length s))
      = (if (0 :: int) = 0 then Copied (converted (- 1) (concat [[CR], [LF, LF]])) else Read_error)"
    using copy_converts_file by blast
  then show ?thesis by (simp add: converted_def)
qed

text \<open>
  C40: \<open>dos2unix_convert_to_unix\<close> with overlapping buffers: when the output starts at or below the
  input, or after it, what is written is the conversion of the text that was there before the call
  (less a final return, which is reported), it is not longer than the text, and no other address
  changes.
\<close>

theorem convert_to_unix_overlapping:
  assumes "pchDst \<le> pchSrc \<or> pchSrc + cchSrc \<le> pchDst"
    and "dos2unix_convert_to_unix mem pchSrc cchSrc pchDst = (mem', cchDst, fPending)"
  shows "fetch mem' pchDst cchDst = unix_text (unpend (fetch mem pchSrc cchSrc))
    \<and> fPending = pending (fetch mem pchSrc cchSrc) \<and> cchDst \<le> cchSrc
    \<and> (\<forall>x. x < pchDst \<or> pchDst + cchDst \<le> x \<longrightarrow> mem' x = mem x)"
proof -
  have "length (unpend s) \<le> length s" for s by (simp add: unpend_def)
  then have "length (unix_text (unpend (fetch mem pchSrc cchSrc))) \<le> cchSrc"
    using unix_text_length [of "unpend (fetch mem pchSrc cchSrc)"] by (metis le_trans length_fetch)
  then show ?thesis
    using to_unix_loop_correct [OF assms(1), of mem] assms(2)
    by (auto simp: dos2unix_convert_to_unix_def wrote_def)
qed

lemma convert_to_unix_overlapping_witness:
  "fetch (store (\<lambda>_. NUL) 0 [LF, CHR ''b'', CHR ''b'']) 0 2 = unix_text (unpend (fetch (store (\<lambda>_. NUL) 0 [CR, LF, CHR ''b'']) 0 3))
    \<and> \<not> pending (fetch (store (\<lambda>_. NUL) 0 [CR, LF, CHR ''b'']) 0 3)"
proof -
  have "dos2unix_convert_to_unix (store (\<lambda>_. NUL) 0 [CR, LF, CHR ''b'']) 0 3 0
      = (store (\<lambda>_. NUL) 0 [LF, CHR ''b'', CHR ''b''], 2, False)"
    by (auto simp: dos2unix_convert_to_unix_def numeral_eq_Suc fun_eq_iff Let_def)
  then show ?thesis using convert_to_unix_overlapping [of 0 0 3] by blast
qed

text \<open>
  C20: \<open>dos2unix_convert_to_dos\<close> with the input in the top half of the output buffer (or clear of
  it): what is written is the conversion of the text that was there before the call, at most twice
  as long, and no other address changes; converting the result back gives a text that had no
  returns.
\<close>

theorem convert_to_dos_overlapping:
  assumes "pchDst + cchSrc \<le> pchSrc \<or> pchSrc + cchSrc \<le> pchDst"
    and "dos2unix_convert_to_dos mem pchSrc cchSrc pchDst = (mem', cchDst, fPending)"
  shows "fetch mem' pchDst cchDst = dos_text False (unpend (fetch mem pchSrc cchSrc))
    \<and> fPending = pending (fetch mem pchSrc cchSrc) \<and> cchDst \<le> 2 * cchSrc
    \<and> (\<forall>x. x < pchDst \<or> pchDst + cchDst \<le> x \<longrightarrow> mem' x = mem x)
    \<and> (CR \<notin> set (fetch mem pchSrc cchSrc) \<longrightarrow> unix_text (fetch mem' pchDst cchDst) = fetch mem pchSrc cchSrc)"
proof -
  have "length (unpend s) \<le> length s" for s by (simp add: unpend_def)
  then have "length (dos_text False (unpend (fetch mem pchSrc cchSrc))) \<le> 2 * cchSrc"
    using dos_text_length [of False "unpend (fetch mem pchSrc cchSrc)"]
    by (metis le_trans length_fetch mult_le_mono2)
  moreover have "CR \<notin> set s \<Longrightarrow> unpend s = s" for s
    by (cases s rule: rev_cases) (auto simp: unpend_def pending_def)
  ultimately show ?thesis
    using to_dos_loop_correct(1) [OF assms(1), of mem] assms(2)
    by (auto simp: dos2unix_convert_to_dos_def wrote_def unix_text_dos_text)
qed

lemma convert_to_dos_overlapping_witness:
  "fetch (store (\<lambda>_. NUL) 0 [CR, LF]) 0 2 = dos_text False (unpend (fetch (store (\<lambda>_. NUL) 0 [NUL, LF]) 1 1))
    \<and> \<not> pending (fetch (store (\<lambda>_. NUL) 0 [NUL, LF]) 1 1)"
proof -
  have "dos2unix_convert_to_dos (store (\<lambda>_. NUL) 0 [NUL, LF]) 1 1 0 = (store (\<lambda>_. NUL) 0 [CR, LF], 2, False)"
    by (auto simp: dos2unix_convert_to_dos_def cord_def fun_eq_iff)
  then show ?thesis using convert_to_dos_overlapping [of 0 1 1] by auto
qed

text \<open>
  C35: what the analysis counts: the line feeds without a return before them, exactly, however the
  file is read; and as DOS line ends the returns followed by a line feed and also, within a read,
  the returns followed by a return. The style follows from these counts.
\<close>

theorem analyze_fd_counts:
  assumes "[] \<notin> set reads" and "dos2unix_analyze_fd reads errno = (rc, style, nDos, nUnix)"
  shows "rc = errno \<and> nUnix = lf_count False (concat reads)
    \<and> nDos = crlf_count False (concat reads) + sum_list (map crcr_count reads)
    \<and> style = or (if \<exists>r\<in>set reads. nul_seen False r then F_BINARY else STYLE_NONE)
        (if nUnix > 0 \<and> nDos = 0 then STYLE_UNIX else if nDos > 0 \<and> nUnix = 0 then STYLE_DOS
         else if nDos > 0 \<and> nUnix > 0 then STYLE_MIXED else STYLE_NONE)"
  by (rule analysis_counts [OF assms])

lemma analyze_fd_counts_witness:
  "(0 :: int) = 0 \<and> (1 :: nat) = lf_count False (concat [[CR], [LF, LF]])
    \<and> (1 :: nat) = crlf_count False (concat [[CR], [LF, LF]]) + sum_list (map crcr_count [[CR], [LF, LF]])
    \<and> STYLE_MIXED = or (if \<exists>r\<in>set [[CR], [LF, LF]]. nul_seen False r then F_BINARY else STYLE_NONE)
        (if (1 :: nat) > 0 \<and> (1 :: nat) = 0 then STYLE_UNIX else if (1 :: nat) > 0 \<and> (1 :: nat) = 0 then STYLE_DOS
         else if (1 :: nat) > 0 \<and> (1 :: nat) > 0 then STYLE_MIXED else STYLE_NONE)"
  by (rule analyze_fd_counts)
    (simp_all add: dos2unix_analyze_fd_def analyze_read_def eols0_def eol_style_def style_defs cord_def Let_def)

text \<open>
  C16: a file that the tests find not to need its conversion may be hard linked: copying it with the
  conversion gives the bytes it has. The test and the copy read the file independently, each in
  reads of any sizes up to its buffer (the analysis 128 KiB, \<open>copy\<close> 128 KiB for \<open>--dos2unix\<close> and 64 KiB for
  \<open>--unix2dos\<close>), so the file can be of any size; the copy has no read or write error.
\<close>

theorem no_conversion_needed:
  assumes "[] \<notin> set areads" and "concat areads = concat reads"
    and "\<forall>r\<in>set reads. r \<noteq> [] \<and> length r \<le> read_bound d" and "complete_writes wr"
    and "d > 0 \<and> \<not> needs_dos2unix_conversion (Inr (areads, aerrno))
      \<or> d < 0 \<and> \<not> needs_unix2dos_conversion (Inr (areads, aerrno))"
  shows "copy d buf reads 0 wr = Copied (concat reads)"
  using needs_conversion_counts [OF assms(1), of aerrno] copy_parts(2) [OF assms(3,4)] assms(2,5)
  by (auto simp: converted_def no_crlf_unix_text no_lf_dos_text)

lemma no_conversion_needed_witness:
  "copy 1 (\<lambda>_. NUL) [[CHR ''a''], [LF, CHR ''b'']] 0 (\<lambda>n s. int (length s)) = Copied [CHR ''a'', LF, CHR ''b'']"
proof -
  have "\<not> needs_dos2unix_conversion (Inr ([[CHR ''a'', LF, CHR ''b'']], 0))"
    by (simp add: needs_dos2unix_conversion_def needs_conversion_def dos2unix_analyze_fd_def
      analyze_read_def eols0_def eol_style_def style_defs cord_def Let_def)
  with no_conversion_needed [of "[[CHR ''a'', LF, CHR ''b'']]" "[[CHR ''a''], [LF, CHR ''b'']]" 1
    "\<lambda>n s. int (length s)" 0 "\<lambda>_. NUL"]
  show ?thesis by (simp add: read_bound_def MAXBSIZE_def complete_writes_def)
qed

text \<open>
  two adjacent carriage returns count as a DOS line end when one read has both, so that the
  style of a file without any DOS line end depends on where the reads divide it.
\<close>

theorem analysis_depends_on_reads:
  "dos2unix_analyze_fd [[CR, CR, CHR ''a'', LF]] 0 = (0, STYLE_MIXED, 1, 1)
    \<and> dos2unix_analyze_fd [[CR], [CR, CHR ''a'', LF]] 0 = (0, STYLE_UNIX, 0, 1)"
  by (simp add: dos2unix_analyze_fd_def analyze_read_def eols0_def eol_style_def style_defs cord_def Let_def)

text \<open>
  a text without returns survives \<open>--unix2dos\<close> followed by \<open>--dos2unix\<close>, however the two files
  are read.
\<close>

theorem copy_round_trip:
  assumes "copy (- 1) buf reads errno wr = Copied s" and "CR \<notin> set (concat reads)"
    and "copy 1 buf' reads' errno' wr' = Copied s'" and "concat reads' = s"
    and "\<forall>r\<in>set reads. r \<noteq> [] \<and> length r \<le> MAXBSIZE div 2"
    and "\<forall>r\<in>set reads'. r \<noteq> [] \<and> length r \<le> MAXBSIZE"
  shows "s' = concat reads"
proof -
  have "s = dos_text False (concat reads)"
    using copy_parts(1) [OF _ assms(1)] assms(5) by (simp add: read_bound_def converted_def)
  moreover have "s' = unix_text (concat reads')"
    using copy_parts(1) [OF _ assms(3)] assms(6) by (simp add: read_bound_def converted_def)
  ultimately show ?thesis using unix_text_dos_text [OF assms(2)] assms(4) by simp
qed

lemma copy_round_trip_witness: "[LF, LF] = concat [[LF], [LF]]"
proof (rule copy_round_trip)
  have "copy (- 1) (\<lambda>_. NUL) [[LF], [LF]] 0 (\<lambda>n s. int (length s)) = Copied [CR, LF, CR, LF]"
    using copy_parts(2) [of "[[LF], [LF]]" "- 1" "\<lambda>n s. int (length s)" "\<lambda>_. NUL" 0]
    by (simp add: read_bound_def MAXBSIZE_def complete_writes_def converted_def)
  then show "copy (- 1) (\<lambda>_. NUL) [[LF], [LF]] 0 (\<lambda>n s. int (length s)) = Copied (concat [[CR, LF, CR], [LF]])"
    by simp
  show "copy 1 (\<lambda>_. NUL) [[CR, LF, CR], [LF]] 0 (\<lambda>n s. int (length s)) = Copied [LF, LF]"
    using copy_parts(2) [of "[[CR, LF, CR], [LF]]" 1 "\<lambda>n s. int (length s)" "\<lambda>_. NUL" 0]
    by (simp add: read_bound_def MAXBSIZE_def complete_writes_def converted_def)
qed (simp_all add: MAXBSIZE_def)

end
