(* ===== verification/KDep.thy ===== *)
theory KDep
  imports FastdepText "HOL-Library.Word"
begin

text \<open>
  \<open>src/src/lib/kDep.c\<close> and \<open>kDep.h\<close>: the list of dependencies that the dependency generators share,
  its correction against the file system and the dependency file written from it.

  The linked list \<open>pDeps\<close> is the list of its elements in order. An output stream is the text written
  to it. \<open>malloc\<close> succeeds (the program exits when it does not). The file system is a parameter: what
  \<open>stat\<close> returns for a name (0, or the \<open>errno\<close>), and the entries that \<open>opendir\<close> and \<open>readdir\<close> give for a
  directory. The build is the one for Unix, outside make and kWorker.
\<close>

section \<open>The list\<close>

record dep =
  uHash :: "32 word"
  fNeedsEscaping :: bool
  fTrailingSlash :: bool
  cchFilename :: nat
  szFilename :: string

type_synonym depglobals = "dep list"

definition depInit :: depglobals where "depInit = []"

fun depCleanup :: "depglobals \<Rightarrow> depglobals" where
  "depCleanup pDeps = []"

fun sdbm_loop :: "32 word \<Rightarrow> string \<Rightarrow> 32 word" where
  "sdbm_loop hash [] = hash"
| "sdbm_loop hash (c # str) =
     (if c = NUL then hash
      else sdbm_loop (of_nat (cord c) + push_bit 6 hash + push_bit 16 hash - hash) str)"

definition sdbm :: "string \<Rightarrow> 32 word" where
  "sdbm str = sdbm_loop 0 str"

text \<open>The characters that are escaped by a backslash, and the test for the ones that matter.\<close>

definition escaped_by_slash :: "bool \<Rightarrow> char \<Rightarrow> bool" where
  "escaped_by_slash fDependency ch \<longleftrightarrow>
     ch = CHR '' '' \<or> ch = TAB \<or> ch = CHR ''#'' \<or> ch = CHR ''='' \<or> ch = CHR '';''
     \<or> ch = (if fDependency then CHR ''|'' else CHR ''%'')"

definition depNeedsEscaping :: "string \<Rightarrow> bool \<Rightarrow> bool" where
  "depNeedsEscaping pszFile fDependency \<longleftrightarrow>
     strchr pszFile (CHR '' '') \<noteq> None \<or> strchr pszFile TAB \<noteq> None
     \<or> strchr pszFile (CHR ''#'') \<noteq> None \<or> strchr pszFile (CHR ''='') \<noteq> None
     \<or> strchr pszFile (CHR '';'') \<noteq> None \<or> strchr pszFile (CHR ''$'') \<noteq> None
     \<or> strchr pszFile (if fDependency then CHR ''|'' else CHR ''%'') \<noteq> None"

fun find_dep :: "depglobals \<Rightarrow> 32 word \<Rightarrow> string \<Rightarrow> nat option" where
  "find_dep [] h f = None"
| "find_dep (d # ds) h f =
     (if uHash d = h \<and> cchFilename d = length f \<and> szFilename d = f then Some 0
      else map_option Suc (find_dep ds h f))"

text \<open>The list after the call and the index of the element returned.\<close>

definition depAdd :: "depglobals \<Rightarrow> string \<Rightarrow> depglobals \<times> nat" where
  "depAdd pDeps pszFilename =
     (let h = sdbm pszFilename in
      case find_dep pDeps h pszFilename of
        Some i \<Rightarrow> (pDeps, i)
      | None \<Rightarrow>
          (pDeps @ [\<lparr>uHash = h, fNeedsEscaping = depNeedsEscaping pszFilename True,
             fTrailingSlash = length pszFilename > 0 \<and> pszFilename ! (length pszFilename - 1) = BSL,
             cchFilename = length pszFilename, szFilename = pszFilename\<rparr>], length pDeps))"

section \<open>Writing escaped names\<close>

text \<open>The count of the backslashes before \<open>off\<close>, of which there is one.\<close>

function count_slashes :: "string \<Rightarrow> nat \<Rightarrow> nat \<Rightarrow> nat" where
  "count_slashes psz off cchSlashes =
     (if cchSlashes < off \<and> psz ! (off - cchSlashes - 1) = BSL
      then count_slashes psz off (cchSlashes + 1) else cchSlashes)"
  by auto
termination by (relation "measure (\<lambda>(psz, off, n). off - n)") auto

definition sub :: "string \<Rightarrow> nat \<Rightarrow> nat \<Rightarrow> string" where
  "sub psz off n = take n (drop off psz)"

text \<open>The loop of \<open>depEscapedWrite\<close>: \<open>w\<close> is \<open>cchWritten\<close>; the result is what is written.\<close>

function escaped_write_loop :: "bool \<Rightarrow> string \<Rightarrow> nat \<Rightarrow> nat \<Rightarrow> string" where
  "escaped_write_loop fDep psz w off =
     (if off < length psz then
        (let ch = psz ! off in
         if escaped_by_slash fDep ch then
           (if w < off then sub psz w (off - w) else []) @
           (if off = 0 \<or> psz ! (off - 1) \<noteq> BSL
            then BSL # escaped_write_loop fDep psz off (off + 1)
            else (let n = count_slashes psz off 1
                  in sub psz (off - n) n @ escaped_write_loop fDep psz (off - 1) (off + 1)))
         else if ch = CHR ''$''
         then sub psz w (off - w + 1) @ escaped_write_loop fDep psz off (off + 1)
         else escaped_write_loop fDep psz w (off + 1))
      else if w < length psz then sub psz w (length psz - w) else [])"
  by auto
termination by (relation "measure (\<lambda>(fDep, psz, w, off). length psz - off)") auto

declare count_slashes.simps [simp del] escaped_write_loop.simps [simp del]

definition depEscapedWrite :: "string \<Rightarrow> bool \<Rightarrow> string" where
  "depEscapedWrite pszFile fDependency = escaped_write_loop fDependency pszFile 0 0"

text \<open>Only called for names that end in a backslash: the run at the end is written once more.\<close>

definition depPrintTrailngSlashEscape :: "string \<Rightarrow> string" where
  "depPrintTrailngSlashEscape pszFilename =
     (let n = count_slashes pszFilename (length pszFilename) 1
      in sub pszFilename (length pszFilename - n) n)"

section \<open>Writing the dependency file\<close>

text \<open>\<open>sizeof (g_szTailSlashText)\<close> counts the terminator, which is written too.\<close>

fun depPrintChain :: "depglobals \<Rightarrow> string" where
  "depPrintChain [] = [LF, LF]"
| "depPrintChain (d # ds) =
     [CHR '' '', BSL, LF, TAB] @
     (if fNeedsEscaping d then depEscapedWrite (szFilename d) True else szFilename d) @
     (if fTrailingSlash d then
        (if ds \<noteq> [] then depPrintTrailngSlashEscape (szFilename d) @ depPrintChain ds
         else [CHR '' '', BSL, LF, LF, NUL])
      else depPrintChain ds)"

definition print_target :: "string \<Rightarrow> bool \<Rightarrow> string" where
  "print_target pszTarget fEscapeTarget =
     (if \<not> fEscapeTarget \<or> \<not> depNeedsEscaping pszTarget False then pszTarget
      else depEscapedWrite pszTarget False) @
     (if length pszTarget = 0 \<or> pszTarget ! (length pszTarget - 1) \<noteq> BSL then []
      else depPrintTrailngSlashEscape pszTarget)"

definition depPrintTargetWithDeps :: "depglobals \<Rightarrow> string \<Rightarrow> bool \<Rightarrow> string" where
  "depPrintTargetWithDeps pDeps pszTarget fEscapeTarget =
     print_target pszTarget fEscapeTarget @ CHR '':'' # depPrintChain pDeps"

fun depPrintStubs :: "depglobals \<Rightarrow> string" where
  "depPrintStubs [] = []"
| "depPrintStubs (d # ds) =
     (if \<not> fNeedsEscaping d \<and> strchr (szFilename d) (CHR ''%'') = None then szFilename d
      else depEscapedWrite (szFilename d) False) @
     (if cchFilename d = 0 \<or> \<not> fTrailingSlash d then []
      else depPrintTrailngSlashEscape (szFilename d)) @
     [CHR '':'', LF, LF] @ depPrintStubs ds"

section \<open>Correcting the names\<close>

definition fixslash :: "string \<Rightarrow> string" where
  "fixslash = map (\<lambda>c. if c = BSL then CHR ''/'' else c)"

record filesystem =
  stat :: "string \<Rightarrow> int"
  readdir :: "string \<Rightarrow> string list option"

definition strcasecmp_eq :: "string \<Rightarrow> string \<Rightarrow> bool" where
  "strcasecmp_eq a b \<longleftrightarrow> map tolower a = map tolower b"

text \<open>
  \<open>fixcase\<close> from a component on: \<open>before\<close> is the corrected text before it, which \<open>pszStart\<close> points
  after. With the slash after the component replaced by a terminator, \<open>pszFilename\<close> is \<open>before\<close> and
  the component. When \<open>pszStart\<close> is the start of the name, \<open>opendir\<close> gets the component itself;
  otherwise the text before the slash that precedes the component. A name found has the length of
  the component and replaces it. The slashes after a component are skipped with it.
\<close>

function fixcase_loop :: "filesystem \<Rightarrow> string \<Rightarrow> string \<Rightarrow> string" where
  "fixcase_loop fs before [] = before"
| "fixcase_loop fs before (c # psz) =
     (let comp = takeWhile (\<lambda>c. c \<noteq> CHR ''/'') (c # psz);
          rest = drop (length comp) (c # psz);
          slashes = takeWhile (\<lambda>c. c = CHR ''/'') rest;
          next = drop (length (comp @ slashes)) (c # psz)
      in if c = CHR ''/'' then fixcase_loop fs (before @ [c]) psz
         else if stat fs (before @ comp) \<noteq> 0 then
           (case readdir fs (if before = [] then comp else butlast before) of
              None \<Rightarrow> before @ c # psz
            | Some names \<Rightarrow>
                (case find (\<lambda>d_name. strcasecmp_eq d_name comp) names of
                   None \<Rightarrow> before @ c # psz
                 | Some d_name \<Rightarrow> fixcase_loop fs (before @ d_name @ slashes) next))
         else fixcase_loop fs (before @ comp @ slashes) next)"
  by pat_completeness auto
termination
  by (relation "measure (\<lambda>(fs, before, psz). length psz)") (auto simp: less_Suc_eq_le)

definition fixcase :: "filesystem \<Rightarrow> string \<Rightarrow> string" where
  "fixcase fs pszFilename = fixcase_loop fs [] pszFilename"

text \<open>
  One element of \<open>depOptimize\<close>: \<open>None\<close> when its name is left out before the file system is asked,
  or the name to look for. The buffer of \<open>PATH_MAX + 1\<close> characters is filled by \<open>strcpy\<close>. For an empty
  name the test for a drive letter reads the character behind the terminator, which is allocated
  but not initialised; here it is no colon.
\<close>

definition optimized_name :: "filesystem \<Rightarrow> nat \<Rightarrow> bool \<Rightarrow> string option \<Rightarrow> dep
    \<Rightarrow> (unit, string option) outcome" where
  "optimized_name fs PATH_MAX fFixCase pszIgnoredExt d =
     (if peek (szFilename d) = CHR ''<'' \<and> cget (szFilename d) (cchFilename d - 1) = CHR ''>''
      then Ok None
      else if (case pszIgnoredExt of None \<Rightarrow> False
               | Some ext \<Rightarrow> cchFilename d > length ext
                   \<and> sub (szFilename d) (cchFilename d - length ext) (length ext) = ext)
      then Ok None
      else let psz = (if cget (szFilename d) 1 = CHR '':'' then drop 2 (szFilename d) else szFilename d)
           in if \<not> fFixCase then Ok (Some psz)
              else if length psz > PATH_MAX then Undef OutOfBounds
              else Ok (Some (fixcase fs (fixslash psz))))"

definition skip_message :: "bool \<Rightarrow> int \<Rightarrow> int \<Rightarrow> string \<Rightarrow> bool" where
  "skip_message fQuiet ENOENT errno psz \<longleftrightarrow>
     \<not> fQuiet \<or> errno \<noteq> ENOENT
     \<or> peek psz \<noteq> CHR ''/'' \<and> peek psz \<noteq> BSL
       \<and> (\<not> isalpha (peek psz) \<or> cget psz 1 \<noteq> CHR '':''
          \<or> cget psz 2 \<noteq> CHR ''/'' \<and> cget psz 2 \<noteq> BSL)"

text \<open>The loop: the list built so far and the names reported on standard error.\<close>

fun optimize_loop :: "filesystem \<Rightarrow> nat \<Rightarrow> int \<Rightarrow> bool \<Rightarrow> bool \<Rightarrow> string option \<Rightarrow>
    depglobals \<times> (string \<times> int) list \<Rightarrow> dep list \<Rightarrow> (unit, depglobals \<times> (string \<times> int) list) outcome" where
  "optimize_loop fs PATH_MAX ENOENT fFixCase fQuiet ext (ds, msgs) [] = Ok (ds, msgs)"
| "optimize_loop fs PATH_MAX ENOENT fFixCase fQuiet ext (ds, msgs) (d # org) =
     obind (optimized_name fs PATH_MAX fFixCase ext d) (\<lambda>name.
       optimize_loop fs PATH_MAX ENOENT fFixCase fQuiet ext
         (case name of
            None \<Rightarrow> (ds, msgs)
          | Some psz \<Rightarrow>
              if stat fs psz \<noteq> 0
              then (ds, if skip_message fQuiet ENOENT (stat fs psz) psz
                        then msgs @ [(psz, stat fs psz)] else msgs)
              else (fst (depAdd ds psz), msgs))
         org)"

definition depOptimize :: "filesystem \<Rightarrow> nat \<Rightarrow> int \<Rightarrow> depglobals \<Rightarrow> bool \<Rightarrow> bool \<Rightarrow> string option
    \<Rightarrow> (unit, depglobals \<times> (string \<times> int) list) outcome" where
  "depOptimize fs PATH_MAX ENOENT pDeps fFixCase fQuiet pszIgnoredExt =
     optimize_loop fs PATH_MAX ENOENT fFixCase fQuiet pszIgnoredExt ([], []) pDeps"

end
