(* ===== verification/KDepProps.thy ===== *)
theory KDepProps
  imports KDep MakeSubstProps
begin

text \<open>
  The properties of the dependency list and of the files written from it: no name twice, the
  escaping loop against a specification that reads the name once, and the text of the files.
\<close>

section \<open>The escaping\<close>

text \<open>
  The intended text: before a character that is escaped, the backslashes there are doubled and one
  is added; a dollar sign is doubled. The number counts the backslashes before the text.
\<close>

fun escaped :: "bool \<Rightarrow> nat \<Rightarrow> string \<Rightarrow> string" where
  "escaped d n [] = []"
| "escaped d n (c # s) =
     (if escaped_by_slash d c then replicate (n + 1) BSL @ c # escaped d 0 s
      else if c = CHR ''$'' then c # c # escaped d 0 s
      else if c = BSL then c # escaped d (n + 1) s
      else c # escaped d 0 s)"

lemma backslashes_take_Suc:
  "off < length psz \<Longrightarrow> backslashes (take (Suc off) psz)
    = (if psz ! off = BSL then Suc (backslashes (take off psz)) else 0)"
  by (simp add: backslashes_def take_Suc_conv_app_nth)

lemma backslashes_le: "backslashes s \<le> length s"
  unfolding backslashes_def using length_takeWhile_le [of _ "rev s"] by simp

lemma backslashes_nth:
  assumes "off \<le> length psz"
  shows "i < backslashes (take off psz) \<Longrightarrow> psz ! (off - 1 - i) = BSL"
    and "backslashes (take off psz) < off \<Longrightarrow> psz ! (off - 1 - backslashes (take off psz)) \<noteq> BSL"
proof -
  let ?r = "rev (take off psz)" and ?P = "\<lambda>c. c = BSL"
  have nth: "?r ! i = psz ! (off - 1 - i)" if "i < off" for i
    using that assms by (simp add: rev_nth)
  show "psz ! (off - 1 - i) = BSL" if i: "i < backslashes (take off psz)"
  proof -
    have "takeWhile ?P ?r ! i = BSL"
      using i nth_mem [of i "takeWhile ?P ?r"] set_takeWhileD [of _ ?P ?r] by (auto simp: backslashes_def)
    moreover have "i < off" using i backslashes_le [of "take off psz"] by simp
    ultimately show ?thesis using i nth [of i] takeWhile_nth [of i ?P ?r] by (simp add: backslashes_def)
  qed
  show "psz ! (off - 1 - backslashes (take off psz)) \<noteq> BSL" if b: "backslashes (take off psz) < off"
    using nth_length_takeWhile [of ?P ?r] nth [OF b] b assms by (simp add: backslashes_def)
qed

lemma count_slashes_eq:
  assumes "off \<le> length psz" and "n \<le> backslashes (take off psz)"
  shows "count_slashes psz off n = backslashes (take off psz)"
  using assms(2)
proof (induction "backslashes (take off psz) - n" arbitrary: n)
  case 0
  then have n: "n = backslashes (take off psz)" by simp
  then have "\<not> (n < off \<and> psz ! (off - n - 1) = BSL)"
    using backslashes_nth(2) [OF assms(1)] by (auto simp: diff_right_commute)
  then show ?case unfolding n by (subst count_slashes.simps) auto
next
  case (Suc k)
  then have "n < backslashes (take off psz)" by simp
  then have "n < off" "psz ! (off - n - 1) = BSL"
    using backslashes_nth(1) [OF assms(1), of n] backslashes_le [of "take off psz"]
    by (auto simp: diff_right_commute)
  then show ?case using Suc.hyps(1) [of "n + 1"] Suc.hyps(2) Suc.prems \<open>n < backslashes _\<close>
    by (simp add: count_slashes.simps [of psz off n])
qed

lemma sub_slashes:
  assumes "off \<le> length psz" and "n \<le> backslashes (take off psz)"
  shows "sub psz (off - n) n = replicate n BSL"
proof (rule nth_equalityI)
  have n: "n \<le> off" using backslashes_le [of "take off psz"] assms by simp
  then show "length (sub psz (off - n) n) = length (replicate n BSL)"
    using assms(1) by (simp add: sub_def)
  fix i assume "i < length (sub psz (off - n) n)"
  then have "i < n" by (simp add: sub_def)
  then show "sub psz (off - n) n ! i = replicate n BSL ! i"
    using backslashes_nth(1) [OF assms(1), of "n - 1 - i"] n assms by (simp add: sub_def)
qed

lemma sub_Suc: "w \<le> off \<Longrightarrow> off < length psz \<Longrightarrow> sub psz w (Suc off - w) = sub psz w (off - w) @ [psz ! off]"
  by (simp add: sub_def Suc_diff_le take_Suc_conv_app_nth)

lemma prev_not_BSL:
  "off \<le> length psz \<Longrightarrow> (off = 0 \<or> psz ! (off - 1) \<noteq> BSL) \<longleftrightarrow> backslashes (take off psz) = 0"
  using backslashes_take_Suc [of "off - 1" psz] by (cases off) (auto simp: backslashes_def)

lemma escaped_write_loop_eq:
  assumes "w \<le> off" and "off \<le> length psz"
  shows "escaped_write_loop d psz w off
    = sub psz w (off - w) @ escaped d (backslashes (take off psz)) (drop off psz)"
  using assms
proof (induction "length psz - off" arbitrary: w off)
  case 0
  then have "off = length psz" by simp
  then show ?case by (subst escaped_write_loop.simps) (auto simp: sub_def)
next
  case (Suc k)
  then have off: "off < length psz" by simp
  define ch where "ch = psz ! off"
  have drop: "drop off psz = ch # drop (Suc off) psz" using off by (simp add: ch_def Cons_nth_drop_Suc)
  have IH: "escaped_write_loop d psz v (Suc off)
      = sub psz v (Suc off - v) @ escaped d (backslashes (take (Suc off) psz)) (drop (Suc off) psz)"
    if "v \<le> Suc off" for v
    using Suc.hyps(1) [of "Suc off" v] Suc.hyps(2) that off by simp
  have b: "backslashes (take (Suc off) psz) = (if ch = BSL then Suc (backslashes (take off psz)) else 0)"
    using backslashes_take_Suc [OF off] by (simp add: ch_def)
  have one: "sub psz off (Suc 0) = [ch]" using off by (simp add: sub_def ch_def take_Suc_conv_app_nth hd_drop_conv_nth take_Suc)
  have pre: "(if w < off then sub psz w (off - w) else []) = sub psz w (off - w)"
    using Suc.prems(1) by (auto simp: sub_def)
  have not_bsl: "escaped_by_slash d ch \<Longrightarrow> ch \<noteq> BSL" by (auto simp: escaped_by_slash_def split: if_splits)
  consider "escaped_by_slash d ch" "backslashes (take off psz) = 0"
    | "escaped_by_slash d ch" "backslashes (take off psz) \<noteq> 0"
    | "\<not> escaped_by_slash d ch" by blast
  then show ?case
  proof cases
    case 1
    then show ?thesis
      using off prev_not_BSL [of off psz] IH [of off] b not_bsl drop one pre
      by (simp add: escaped_write_loop.simps [of d psz w off] Let_def ch_def [symmetric])
  next
    case 2
    let ?n = "backslashes (take off psz)"
    have n: "count_slashes psz off 1 = ?n" "sub psz (off - ?n) ?n = replicate ?n BSL"
      using count_slashes_eq [of off psz 1] sub_slashes [of off psz ?n] off 2(2) by simp_all
    have "off \<noteq> 0" "psz ! (off - 1) = BSL" using prev_not_BSL [of off psz] off 2(2) by auto
    then have "sub psz (off - 1) (Suc off - (off - 1)) = [BSL, ch]"
      using sub_Suc [of "off - 1" off psz] sub_Suc [of "off - 1" "off - 1" psz] off
      by (simp add: sub_def ch_def)
    then show ?thesis
      using 2 off n IH [of "off - 1"] b not_bsl drop pre \<open>off \<noteq> 0\<close> \<open>psz ! (off - 1) = BSL\<close>
      by (simp add: escaped_write_loop.simps [of d psz w off] Let_def ch_def [symmetric] replicate_append_same)
  next
    case 3
    have "sub psz w (Suc off - w) = sub psz w (off - w) @ [ch]"
      using sub_Suc [OF Suc.prems(1) off] by (simp add: ch_def)
    then show ?thesis
      using 3 off IH [of off] IH [of w] b drop one Suc.prems(1)
      by (simp add: escaped_write_loop.simps [of d psz w off] Let_def ch_def [symmetric] Suc_diff_le)
  qed
qed


section \<open>The names written\<close>

text \<open>What is written for a name: its escaped text, and the backslashes at its end once more.\<close>

definition written_name :: "bool \<Rightarrow> string \<Rightarrow> string" where
  "written_name d s = (if depNeedsEscaping s d then depEscapedWrite s d else s)
     @ (if s \<noteq> [] \<and> last s = BSL then depPrintTrailngSlashEscape s else [])"

lemma depNeedsEscaping_iff:
  "depNeedsEscaping s d \<longleftrightarrow> (\<exists>c\<in>set s. escaped_by_slash d c \<or> c = CHR ''$'')"
  unfolding depNeedsEscaping_def escaped_by_slash_def strchr_None by blast

lemma escaped_plain: "\<not> depNeedsEscaping s d \<Longrightarrow> escaped d n s = s"
  unfolding depNeedsEscaping_iff by (induction s arbitrary: n) auto

lemma depEscapedWrite_eq: "depEscapedWrite s d = escaped d 0 s"
  using escaped_write_loop_eq [of 0 0 s d]
  by (simp add: depEscapedWrite_def sub_def backslashes_def)

lemma backslashes_last: "backslashes s = 0 \<longleftrightarrow> \<not> (s \<noteq> [] \<and> last s = BSL)"
  using backslashes_0 [of s] by auto

lemma trailing_slashes:
  assumes "s \<noteq> []" and "last s = BSL"
  shows "depPrintTrailngSlashEscape s = replicate (backslashes s) BSL"
proof -
  have "1 \<le> backslashes s" using backslashes_last [of s] assms by simp
  then show ?thesis
    using count_slashes_eq [of "length s" s 1] sub_slashes [of "length s" s "backslashes s"]
    by (simp add: depPrintTrailngSlashEscape_def)
qed

lemma written_name_eq: "written_name d s = escaped d 0 s @ replicate (backslashes s) BSL"
proof -
  have "\<not> (s \<noteq> [] \<and> last s = BSL) \<Longrightarrow> backslashes s = 0" using backslashes_last [of s] by simp
  then show ?thesis
    using trailing_slashes [of s] by (auto simp: written_name_def depEscapedWrite_eq escaped_plain)
qed

section \<open>The list\<close>

text \<open>The element \<open>depAdd\<close> makes for a name, and the lists it builds.\<close>

definition dep_of :: "string \<Rightarrow> dep" where
  "dep_of f = \<lparr>uHash = sdbm f, fNeedsEscaping = depNeedsEscaping f True,
     fTrailingSlash = f \<noteq> [] \<and> last f = BSL, cchFilename = length f, szFilename = f\<rparr>"

lemma szFilename_dep_of [simp]: "szFilename (dep_of f) = f"
  by (simp add: dep_of_def)

definition names :: "depglobals \<Rightarrow> string list" where
  "names ds = map szFilename ds"

definition wf_deps :: "depglobals \<Rightarrow> bool" where
  "wf_deps ds \<longleftrightarrow> ds = map dep_of (names ds) \<and> distinct (names ds)"

lemma find_dep_names:
  assumes "ds = map dep_of (names ds)"
  shows "find_dep ds (sdbm f) f = Some i \<Longrightarrow> i < length ds \<and> szFilename (ds ! i) = f"
    and "find_dep ds (sdbm f) f = None \<Longrightarrow> f \<notin> set (names ds)"
proof -
  have "(find_dep ds (sdbm f) f = Some i \<longrightarrow> i < length ds \<and> szFilename (ds ! i) = f)
      \<and> (find_dep ds (sdbm f) f = None \<longrightarrow> f \<notin> set (names ds))" for i
    using assms
  proof (induction ds arbitrary: i)
    case (Cons d ds)
    have d: "d = dep_of (szFilename d)" "ds = map dep_of (names ds)" using Cons.prems by (simp_all add: names_def)
    then have "uHash d = sdbm (szFilename d)" "cchFilename d = length (szFilename d)"
      by (metis dep_of_def dep.select_convs)+
    then show ?case using Cons.IH [OF d(2)] by (cases i) (auto simp: names_def)
  qed (simp add: names_def)
  then show "find_dep ds (sdbm f) f = Some i \<Longrightarrow> i < length ds \<and> szFilename (ds ! i) = f"
    and "find_dep ds (sdbm f) f = None \<Longrightarrow> f \<notin> set (names ds)" by blast+
qed

lemma depAdd_parts:
  assumes "wf_deps ds" and "depAdd ds f = (ds', i)"
  shows "wf_deps ds' \<and> names ds' = (if f \<in> set (names ds) then names ds else names ds @ [f])
    \<and> i < length ds' \<and> ds' ! i = dep_of f"
proof -
  have ds: "ds = map dep_of (names ds)" "distinct (names ds)" using assms(1) by (simp_all add: wf_deps_def)
  have last: "f \<noteq> [] \<and> last f = BSL \<longleftrightarrow> length f > 0 \<and> f ! (length f - 1) = BSL"
    by (auto simp: last_conv_nth)
  have add: "depAdd ds f = (case find_dep ds (sdbm f) f of Some i \<Rightarrow> (ds, i)
      | None \<Rightarrow> (ds @ [dep_of f], length ds))"
    unfolding dep_of_def last depAdd_def Let_def ..
  show ?thesis
  proof (cases "find_dep ds (sdbm f) f")
    case None
    then show ?thesis using assms(2) find_dep_names(2) [OF ds(1) None] ds
      by (auto simp: add wf_deps_def names_def)
  next
    case (Some j)
    then have j: "j < length ds" "szFilename (ds ! j) = f" using find_dep_names(1) [OF ds(1) Some] by auto
    then have "f \<in> set (names ds)" by (auto simp: names_def)
    moreover have "ds ! j = dep_of f"
      using j ds(1) by (metis length_map names_def nth_map)
    ultimately show ?thesis using assms Some j by (auto simp: add)
  qed
qed

section \<open>The file\<close>

lemma depPrintChain_eq:
  assumes "ds = map dep_of (names ds)"
  shows "depPrintChain ds = concat (map (\<lambda>f. [CHR '' '', BSL, LF, TAB] @ written_name True f) (butlast (names ds)))
    @ (if ds = [] then [LF, LF]
       else [CHR '' '', BSL, LF, TAB] @
         (if last (names ds) \<noteq> [] \<and> last (last (names ds)) = BSL
          then escaped True 0 (last (names ds)) @ [CHR '' '', BSL, LF, LF, NUL]
          else written_name True (last (names ds)) @ [LF, LF]))"
  using assms
proof (induction ds)
  case (Cons d ds)
  have d: "d = dep_of (szFilename d)" "ds = map dep_of (names ds)" using Cons.prems by (simp_all add: names_def)
  define f where "f = szFilename d"
  have sel: "fNeedsEscaping d = depNeedsEscaping f True" "fTrailingSlash d = (f \<noteq> [] \<and> last f = BSL)"
    unfolding f_def by (subst d(1), simp add: dep_of_def)+
  have e: "(if fNeedsEscaping d then depEscapedWrite f True else f) = escaped True 0 f"
    by (simp add: sel depEscapedWrite_eq escaped_plain)
  have "f \<noteq> [] \<and> last f = BSL \<Longrightarrow> written_name True f = escaped True 0 f @ depPrintTrailngSlashEscape f"
    "\<not> (f \<noteq> [] \<and> last f = BSL) \<Longrightarrow> written_name True f = escaped True 0 f"
    using backslashes_last [of f] by (auto simp: written_name_eq trailing_slashes)
  then show ?case using Cons.IH [OF d(2)]
    by (cases "ds = []"; cases "f \<noteq> [] \<and> last f = BSL")
      (auto simp: names_def sel depEscapedWrite_eq escaped_plain f_def [symmetric] simp del: escaped.simps)
qed (simp add: names_def)

lemma depPrintStubs_eq:
  assumes "ds = map dep_of (names ds)"
  shows "depPrintStubs ds = concat (map (\<lambda>f. written_name False f @ [CHR '':'', LF, LF]) (names ds))"
  using assms
proof (induction ds)
  case (Cons d ds)
  have d: "d = dep_of (szFilename d)" "ds = map dep_of (names ds)" using Cons.prems by (simp_all add: names_def)
  define f where "f = szFilename d"
  have sel: "fNeedsEscaping d = depNeedsEscaping f True" "fTrailingSlash d = (f \<noteq> [] \<and> last f = BSL)"
    "cchFilename d = length f"
    unfolding f_def by (subst d(1), simp add: dep_of_def)+
  have "\<not> depNeedsEscaping f True \<Longrightarrow> CHR ''%'' \<notin> set f \<Longrightarrow> \<not> depNeedsEscaping f False"
    by (auto simp: depNeedsEscaping_iff escaped_by_slash_def)
  then have e: "(if \<not> fNeedsEscaping d \<and> strchr f (CHR ''%'') = None then f else depEscapedWrite f False)
      = escaped False 0 f"
    by (simp add: sel depEscapedWrite_eq escaped_plain)
  have "f \<noteq> [] \<and> last f = BSL \<Longrightarrow> written_name False f = escaped False 0 f @ depPrintTrailngSlashEscape f"
    "\<not> (f \<noteq> [] \<and> last f = BSL) \<Longrightarrow> written_name False f = escaped False 0 f"
    using backslashes_last [of f] by (auto simp: written_name_eq trailing_slashes)
  then show ?case using Cons.IH [OF d(2)] e
    by (cases "f \<noteq> [] \<and> last f = BSL")
      (auto simp: names_def f_def [symmetric] sel depEscapedWrite_eq escaped_plain simp del: escaped.simps)
qed (simp add: names_def)

lemma sdbm_loop_eq:
  "NUL \<notin> set s \<Longrightarrow> sdbm_loop (of_nat h) s = of_nat (foldl (\<lambda>h c. h * 65599 + cord c) h s)"
proof (induction s arbitrary: h)
  case (Cons c s)
  have "of_nat (cord c) + push_bit 6 (of_nat h) + push_bit 16 (of_nat h) - of_nat h
      = (of_nat (h * 65599 + cord c) :: 32 word)"
    by (simp add: push_bit_eq_mult algebra_simps)
  moreover have "c \<noteq> NUL" "NUL \<notin> set s" using Cons.prems by auto
  ultimately show ?case using Cons.IH [of "h * 65599 + cord c"] by (simp del: of_nat_add of_nat_mult)
qed simp

end
