(* ===== verification/KDepCorrect.thy ===== *)
theory KDepCorrect
  imports KDepProps
begin

text \<open>
  The correction of the dependency list against the file system, and the properties of the
  dependency list, its correction and its files.
\<close>

section \<open>The case of names\<close>

lemma comp_split:
  fixes psz :: string
  assumes "part = takeWhile (\<lambda>c. c \<noteq> CHR ''/'') psz"
    and "slashes = takeWhile (\<lambda>c. c = CHR ''/'') (drop (length part) psz)"
  shows "psz = part @ slashes @ drop (length (part @ slashes)) psz"
proof -
  have "psz = part @ drop (length part) psz"
    using assms(1) by (metis append_take_drop_id takeWhile_eq_take)
  moreover have "drop (length part) psz = slashes @ drop (length slashes) (drop (length part) psz)"
    using assms(2) by (metis append_take_drop_id takeWhile_eq_take)
  ultimately show ?thesis by (simp add: add.commute)
qed

lemma fixcase_loop_tolower:
  "map tolower (fixcase_loop fs before psz) = map tolower (before @ psz)"
proof (induction "length psz" arbitrary: before psz rule: less_induct)
  case less
  show ?case
  proof (cases psz)
    case (Cons c s)
    define part where "part = takeWhile (\<lambda>c. c \<noteq> CHR ''/'') psz"
    define slashes where "slashes = takeWhile (\<lambda>c. c = CHR ''/'') (drop (length part) psz)"
    define rst where "rst = drop (length (part @ slashes)) psz"
    have split: "psz = part @ slashes @ rst"
      unfolding rst_def by (rule comp_split) (simp_all add: part_def slashes_def)
    have eq: "fixcase_loop fs before psz =
        (if c = CHR ''/'' then fixcase_loop fs (before @ [c]) s
         else if stat fs (before @ part) \<noteq> 0 then
           (case readdir fs (if before = [] then part else butlast before) of
              None \<Rightarrow> before @ psz
            | Some entries \<Rightarrow>
                (case find (\<lambda>d_name. strcasecmp_eq d_name part) entries of
                   None \<Rightarrow> before @ psz
                 | Some d_name \<Rightarrow> fixcase_loop fs (before @ d_name @ slashes) rst))
         else fixcase_loop fs (before @ part @ slashes) rst)"
      unfolding Cons fixcase_loop.simps Let_def part_def slashes_def rst_def ..
    show ?thesis
    proof (cases "c = CHR ''/''")
      case True
      then show ?thesis using less [of s "before @ [c]"] Cons by simp
    next
      case False
      then have "part \<noteq> []" by (simp add: part_def Cons)
      then have "length rst < length psz" using split by (metis length_append length_greater_0_conv less_add_same_cancel2 trans_less_add1 add.assoc)
      then have IH: "map tolower (fixcase_loop fs b rst) = map tolower (b @ rst)" for b
        by (rule less)
      have "map tolower d_name = map tolower part"
        if "find (\<lambda>d_name. strcasecmp_eq d_name part) entries = Some d_name" for entries d_name
        using that by (auto simp: find_Some_iff strcasecmp_eq_def)
      then show ?thesis unfolding eq using False split IH
        by (auto split: option.splits)
    qed
  qed simp
qed

section \<open>The correction\<close>

lemma remdups_drop: "f \<in> set ys \<Longrightarrow> remdups (xs @ f # ys) = remdups (xs @ ys)"
  by (induction xs) auto

text \<open>The names that are kept, in the order of the list.\<close>

definition kept :: "filesystem \<Rightarrow> nat \<Rightarrow> bool \<Rightarrow> string option \<Rightarrow> dep list \<Rightarrow> string list" where
  "kept fs PATH_MAX fFixCase ext ds = concat (map (\<lambda>d.
     case optimized_name fs PATH_MAX fFixCase ext d of
       Ok (Some psz) \<Rightarrow> if stat fs psz = 0 then [psz] else []
     | _ \<Rightarrow> []) ds)"

definition first_of_each :: "string list \<Rightarrow> string list" where
  "first_of_each xs = rev (remdups (rev xs))"

lemma optimized_name_ok:
  assumes "length (szFilename d) \<le> PATH_MAX"
  obtains name where "optimized_name fs PATH_MAX fFixCase ext d = Ok name"
proof -
  let ?psz = "if cget (szFilename d) 1 = CHR '':'' then drop 2 (szFilename d) else szFilename d"
  have "\<not> PATH_MAX < length ?psz"
    using assms by (auto simp: not_less intro: le_trans [OF diff_le_self])
  then have "\<exists>name. optimized_name fs PATH_MAX fFixCase ext d = Ok name"
    unfolding optimized_name_def Let_def by simp
  then show thesis using that by blast
qed

lemma optimize_loop_correct:
  assumes "\<forall>d\<in>set org. length (szFilename d) \<le> PATH_MAX" and "wf_deps ds"
  shows "\<exists>ds' msgs'. optimize_loop fs PATH_MAX ENOENT fFixCase fQuiet ext (ds, msgs) org = Ok (ds', msgs')
    \<and> wf_deps ds' \<and> names ds' = first_of_each (names ds @ kept fs PATH_MAX fFixCase ext org)"
  using assms
proof (induction org arbitrary: ds msgs)
  case Nil
  then show ?case by (simp add: kept_def first_of_each_def wf_deps_def distinct_remdups_id)
next
  case (Cons d org)
  obtain name where name: "optimized_name fs PATH_MAX fFixCase ext d = Ok name"
    using optimized_name_ok [of d PATH_MAX fs fFixCase ext] Cons.prems(1) by auto
  have IH: "\<exists>ds' msgs'. optimize_loop fs PATH_MAX ENOENT fFixCase fQuiet ext (ds1, msgs1) org = Ok (ds', msgs')
      \<and> wf_deps ds' \<and> names ds' = first_of_each (names ds1 @ kept fs PATH_MAX fFixCase ext org)"
    if "wf_deps ds1" for ds1 msgs1
    using Cons.IH [OF _ that] Cons.prems(1) by simp
  show ?case
  proof (cases "\<exists>psz. name = Some psz \<and> stat fs psz = 0")
    case True
    then obtain psz where psz: "name = Some psz" "stat fs psz = 0" by auto
    obtain ds1 i where add: "depAdd ds psz = (ds1, i)" by (cases "depAdd ds psz")
    note ds1 = depAdd_parts [OF Cons.prems(2) add]
    have "first_of_each (names ds1 @ k) = first_of_each (names ds @ psz # k)" for k
      using ds1 remdups_drop [of psz "rev (names ds)" "rev k"] by (simp add: first_of_each_def)
    then show ?thesis using IH [of ds1 msgs] ds1 name psz add by (simp add: kept_def)
  next
    case False
    then have "kept fs PATH_MAX fFixCase ext (d # org) = kept fs PATH_MAX fFixCase ext org"
      using name by (auto simp: kept_def split: option.splits)
    moreover have "\<exists>msgs1. optimize_loop fs PATH_MAX ENOENT fFixCase fQuiet ext (ds, msgs) (d # org)
        = optimize_loop fs PATH_MAX ENOENT fFixCase fQuiet ext (ds, msgs1) org"
      using False name by (cases name) auto
    ultimately show ?thesis using IH [OF Cons.prems(2)] by metis
  qed
qed

section \<open>The properties\<close>

text \<open>
  C28: \<open>depAdd\<close> keeps the list free of duplicates and every element consistent with its name (hash,
  length, flags); it returns an element with the name that was asked for, adds one at the end only
  when there was none, and keeps the order of the others. The empty list is such a list.
\<close>

theorem depAdd_correct:
  assumes "wf_deps pDeps" and "depAdd pDeps pszFilename = (pDeps', i)"
  shows "wf_deps pDeps' \<and> names pDeps' =
      (if pszFilename \<in> set (names pDeps) then names pDeps else names pDeps @ [pszFilename])
    \<and> i < length pDeps' \<and> pDeps' ! i = dep_of pszFilename \<and> wf_deps depInit"
proof -
  have "wf_deps depInit" by (simp add: wf_deps_def depInit_def names_def)
  with depAdd_parts [OF assms] show ?thesis by simp
qed

lemma depAdd_correct_witness:
  "wf_deps [dep_of ''a''] \<and> names [dep_of ''a''] =
      (if ''a'' \<in> set (names depInit) then names depInit else names depInit @ [''a''])
    \<and> 0 < length [dep_of ''a''] \<and> [dep_of ''a''] ! 0 = dep_of ''a'' \<and> wf_deps depInit"
  by (rule depAdd_correct) (simp_all add: wf_deps_def names_def depInit_def depAdd_def dep_of_def Let_def)

text \<open>
  C23: the write loop, which copies the name in pieces and goes back over backslashes it has
  written, writes the escaped text of the name, for both sides of the colon.
\<close>

theorem depEscapedWrite_correct: "depEscapedWrite pszFile fDependency = escaped fDependency 0 pszFile"
  by (rule depEscapedWrite_eq)

text \<open>
  the files: the target and each dependency are written as names, with a line continuation before
  each dependency; when the last name ends in a backslash it is not escaped, and the file ends in a
  continuation, an empty line and a zero byte. The stubs are a rule for each name.
\<close>

theorem dependency_file_correct:
  assumes "wf_deps pDeps"
  shows "depPrintTargetWithDeps pDeps pszTarget True = written_name False pszTarget @ CHR '':'' #
      concat (map (\<lambda>f. [CHR '' '', BSL, LF, TAB] @ written_name True f) (butlast (names pDeps)))
      @ (if pDeps = [] then [LF, LF]
         else [CHR '' '', BSL, LF, TAB] @
           (if last (names pDeps) \<noteq> [] \<and> last (last (names pDeps)) = BSL
            then escaped True 0 (last (names pDeps)) @ [CHR '' '', BSL, LF, LF, NUL]
            else written_name True (last (names pDeps)) @ [LF, LF]))
    \<and> depPrintStubs pDeps = concat (map (\<lambda>f. written_name False f @ [CHR '':'', LF, LF]) (names pDeps))"
proof -
  have ds: "pDeps = map dep_of (names pDeps)" using assms by (simp add: wf_deps_def)
  have "print_target pszTarget True = written_name False pszTarget"
    by (auto simp: print_target_def written_name_def last_conv_nth)
  then show ?thesis
    using depPrintChain_eq [OF ds] depPrintStubs_eq [OF ds] by (simp add: depPrintTargetWithDeps_def)
qed

lemma dependency_file_correct_witness:
  "depPrintTargetWithDeps [dep_of ''b c''] ''a'' True = written_name False ''a'' @ CHR '':'' #
      concat (map (\<lambda>f. [CHR '' '', BSL, LF, TAB] @ written_name True f) (butlast (names [dep_of ''b c''])))
      @ (if [dep_of ''b c''] = [] then [LF, LF]
         else [CHR '' '', BSL, LF, TAB] @
           (if last (names [dep_of ''b c'']) \<noteq> [] \<and> last (last (names [dep_of ''b c''])) = BSL
            then escaped True 0 (last (names [dep_of ''b c''])) @ [CHR '' '', BSL, LF, LF, NUL]
            else written_name True (last (names [dep_of ''b c''])) @ [LF, LF]))
    \<and> depPrintStubs [dep_of ''b c''] = concat (map (\<lambda>f. written_name False f @ [CHR '':'', LF, LF]) (names [dep_of ''b c'']))"
  by (rule dependency_file_correct) (simp add: wf_deps_def names_def)

text \<open>
  C29: \<open>depOptimize\<close>, for names that fit its buffer, makes a list without duplicates of the corrected
  names that exist, in the order of their first occurrence.
\<close>

theorem depOptimize_correct:
  assumes "\<forall>d\<in>set pDeps. length (szFilename d) \<le> PATH_MAX"
  shows "\<exists>pDeps' msgs. depOptimize fs PATH_MAX ENOENT pDeps fFixCase fQuiet ext = Ok (pDeps', msgs)
    \<and> wf_deps pDeps' \<and> names pDeps' = first_of_each (kept fs PATH_MAX fFixCase ext pDeps)
    \<and> (\<forall>f\<in>set (names pDeps'). stat fs f = 0)"
proof -
  have "wf_deps []" by (simp add: wf_deps_def names_def)
  moreover have "\<forall>f\<in>set (first_of_each (kept fs PATH_MAX fFixCase ext pDeps)). stat fs f = 0"
    by (auto simp: first_of_each_def kept_def split: outcome.splits option.splits if_splits)
  ultimately show ?thesis
    using optimize_loop_correct [OF assms, of "[]" fs ENOENT fFixCase fQuiet ext "[]"]
    unfolding depOptimize_def by (metis append_Nil list.simps(8) names_def)
qed

lemma depOptimize_correct_witness:
  "\<exists>pDeps' msgs. depOptimize \<lparr>stat = \<lambda>n. if n = ''a'' then 0 else 2, readdir = \<lambda>n. None\<rparr> 10 2
      [dep_of ''a'', dep_of ''b''] False True None = Ok (pDeps', msgs)
    \<and> wf_deps pDeps' \<and> names pDeps' = first_of_each (kept \<lparr>stat = \<lambda>n. if n = ''a'' then 0 else 2, readdir = \<lambda>n. None\<rparr> 10 False None
        [dep_of ''a'', dep_of ''b''])"
  using depOptimize_correct [of "[dep_of ''a'', dep_of ''b'']" 10
      "\<lparr>stat = \<lambda>n. if n = ''a'' then 0 else 2, readdir = \<lambda>n. None\<rparr>" 2 False True None]
  by auto

text \<open>
  whatever the file system answers, \<open>fixcase\<close> changes a name only in the case of its letters, so
  that it stays in its buffer; and it never corrects the first component of a relative name that
  does not exist, where directories that do not exist cannot be opened: the component itself is
  opened instead of the current directory.
\<close>

theorem fixcase_only_case:
  "map tolower (fixcase fs psz) = map tolower psz \<and> length (fixcase fs psz) = length psz
    \<and> ((\<forall>n. stat fs n \<noteq> 0 \<longrightarrow> readdir fs n = None) \<longrightarrow> psz \<noteq> [] \<longrightarrow> hd psz \<noteq> CHR ''/'' \<longrightarrow>
        stat fs (takeWhile (\<lambda>c. c \<noteq> CHR ''/'') psz) \<noteq> 0 \<longrightarrow> fixcase fs psz = psz)"
proof -
  have "map tolower (fixcase fs psz) = map tolower psz"
    using fixcase_loop_tolower [of fs "[]" psz] by (simp add: fixcase_def)
  moreover from this have "length (fixcase fs psz) = length psz" by (metis length_map)
  moreover have "fixcase fs psz = psz"
    if "\<forall>n. stat fs n \<noteq> 0 \<longrightarrow> readdir fs n = None" "psz \<noteq> []" "hd psz \<noteq> CHR ''/''"
      "stat fs (takeWhile (\<lambda>c. c \<noteq> CHR ''/'') psz) \<noteq> 0"
    using that by (cases psz) (simp_all add: fixcase_def Let_def)
  ultimately show ?thesis by blast
qed

lemma fixcase_only_case_witness:
  "fixcase \<lparr>stat = \<lambda>n. if n = ''.'' then 0 else 2, readdir = \<lambda>n. if n = ''.'' then Some [''Foo''] else None\<rparr> ''foo'' = ''foo''"
  using fixcase_only_case [of "\<lparr>stat = \<lambda>n. if n = ''.'' then 0 else 2, readdir = \<lambda>n. if n = ''.'' then Some [''Foo''] else None\<rparr>" "''foo''"]
  by simp

text \<open>
  the shifts of \<open>sdbm\<close> compute the polynomial the comment states, modulo \<open>2 ^ 32\<close>.
\<close>

theorem sdbm_correct:
  assumes "NUL \<notin> set str"
  shows "sdbm str = of_nat (foldl (\<lambda>hash c. hash * 65599 + cord c) 0 str)"
  using sdbm_loop_eq [OF assms, of 0] by (simp add: sdbm_def)

lemma sdbm_correct_witness: "sdbm ''abc'' = of_nat (foldl (\<lambda>hash c. hash * 65599 + cord c) 0 ''abc'')"
  by (rule sdbm_correct) simp

end
