(* ===== verification/IncDep.thy ===== *)
theory IncDep
  imports MakeText FastdepText
begin

text \<open>
  The reader of dependency files of make, \<open>src/src/kmk/incdep.c\<close>: \<open>eval_include_dep_file\<close>, which parses a
  file without make's own evaluator, and \<open>incdep_unescape_and_cache_filename\<close>.

  The file is a string; a pointer into it is the suffix it points to, \<open>file_end\<close> is the empty suffix,
  and reading there gives the terminator that the file is loaded with. The unescaping compacts a name
  in place, at or before the characters it reads, which no later step looks at again; so the file
  is not changed here. What is recorded is a list: variables to set, variables to define by flavour,
  and files with their dependencies. Every warning ends the parsing; it is returned with its line.
  String caches give equal names the same address.
\<close>

section \<open>Unescaping a name\<close>

definition esc_mask :: "bool \<Rightarrow> map_flag set" where
  "esc_mask is_dep = {MAP_BLANK, MAP_COLON, MAP_COMMENT, MAP_EQUALS, MAP_SEMI,
     if is_dep then MAP_PIPE else MAP_PERCENT}"

definition all_esc_mask :: "bool \<Rightarrow> map_flag set" where
  "all_esc_mask is_dep = esc_mask is_dep \<union> {MAP_BLANK, MAP_NEWLINE}"

text \<open>Every caller passes \<open>nextp\<close>.\<close>

definition stop_mask :: "bool \<Rightarrow> map_flag set" where
  "stop_mask is_dep = {MAP_BLANK, MAP_NEWLINE} \<union> (if is_dep then {} else {MAP_COLON})"

text \<open>
  The code for an escaped newline, from the increment of the line on. The number \<open>e\<close> is the length of
  the text after \<open>end\<close>: \<open>src < end\<close> when more than \<open>e\<close> characters are left. The result is \<open>ch3\<close>, \<open>src\<close> and
  the lines counted.
\<close>

definition skip_blanks_to :: "nat \<Rightarrow> string \<Rightarrow> string" where
  "skip_blanks_to e src = drop (length (takeWhile ISBLANK (take (length src - e) src))) src"

function join_newlines :: "nat \<Rightarrow> string \<Rightarrow> nat \<Rightarrow> char \<times> string \<times> nat" where
  "join_newlines e src lines =
     (let src1 = skip_blanks_to e src in
      if length src1 \<le> e then (NUL, src1, lines + 1)
      else if peek src1 \<noteq> BSL then (peek src1, src1, lines + 1)
      else if cget src1 1 = LF then join_newlines e (drop 2 src1) (lines + 1)
      else if cget src1 1 = CR \<and> cget src1 2 = LF then join_newlines e (drop 3 src1) (lines + 1)
      else (cget src1 1, src1, lines + 1))"
  by auto
termination by (relation "measure (\<lambda>(e, src, lines). length src)") (auto simp: skip_blanks_to_def not_le)

declare join_newlines.simps [simp del]

text \<open>
  What follows a run of backslashes: the loop goes on with new output and position, or stops. The
  arguments are the number of backslashes, the output and the position after the run.
\<close>

datatype unescape_step = Go string string nat | Halt string string nat

definition unescape_slashes :: "bool \<Rightarrow> bool \<Rightarrow> nat \<Rightarrow> nat \<Rightarrow> string \<Rightarrow> string \<Rightarrow> nat \<Rightarrow> unescape_step" where
  "unescape_slashes dos is_dep e slashes out src1 lines =
     (let ch2 = peek src1; src2 = tl src1; ch2_map = stopchar_map dos ch2;
          all = out @ replicate slashes BSL; half = out @ replicate (slashes div 2) BSL;
          joined = (\<lambda>src.
            let (ch3, src3, lines') = join_newlines e src lines in
            if is_dep \<and> STOP_SET dos ch3 (insert MAP_NUL (stop_mask is_dep)) then Halt all src3 lines'
            else if odd slashes then Go (half @ [CHR '' '']) src3 lines'
            else Halt half src3 lines')
      in if ch2_map \<inter> all_esc_mask is_dep = {} then Go all src1 lines
         else if ch2_map \<inter> {MAP_BLANK, MAP_NEWLINE} = {} then
           (if odd slashes \<or> stop_mask is_dep \<inter> ch2_map = {} then Go (half @ [ch2]) src2 lines
            else Halt half src1 lines)
         else if MAP_BLANK \<in> ch2_map then
           (let src3 = dropWhile ISBLANK src2; ch3 = peek src3 in
            if ch3 = BSL \<and> cget src3 1 = LF then joined (drop 2 src3)
            else if ch3 = BSL \<and> cget src3 1 = CR \<and> cget src3 2 = LF then joined (drop 3 src3)
            else if STOP_SET dos ch3 {MAP_NEWLINE} then Halt all src3 lines
            else if odd slashes then Go (half @ [ch2]) src2 lines
            else Halt half src2 lines)
         else joined (if ch2 = CR \<and> peek src2 = LF then tl src2 else src2))"

lemma join_newlines_length: "join_newlines e src lines = (ch3, src3, lines') \<Longrightarrow> length src3 \<le> length src"
proof (induction e src lines rule: join_newlines.induct)
  case (1 e src lines)
  let ?s = "skip_blanks_to e src"
  have s: "length ?s \<le> length src" by (simp add: skip_blanks_to_def)
  note IH = 1(1,2) [OF refl]
  show ?case using 1(3) s IH unfolding join_newlines.simps [of e src lines] Let_def
    by (auto split: if_split_asm)
qed

lemma unescape_slashes_length:
  "unescape_slashes dos is_dep e n out src1 lines = Go out' src' lines' \<Longrightarrow> length src' \<le> length src1"
proof -
  have tl: "length (tl s) \<le> length s" for s :: string by simp
  have j: "(case join_newlines e src lines of (ch3, src3, l) \<Rightarrow>
      if P ch3 then Halt a src3 l else if Q then Go b src3 l else Halt c src3 l) = Go out' src' lines'
    \<Longrightarrow> length src' \<le> length src" for src P Q a b c
    using join_newlines_length [of e src lines] by (auto split: prod.splits if_splits)
  have d: "length (dropWhile ISBLANK s) \<le> length s" for s by (rule length_dropWhile_le)
  show "unescape_slashes dos is_dep e n out src1 lines = Go out' src' lines' \<Longrightarrow> length src' \<le> length src1"
    unfolding unescape_slashes_def Let_def
    using d [of "tl src1"] by (auto split: if_splits dest!: j simp: le_diff_conv)
qed

text \<open>The loop; the result is the name, \<open>*nextp\<close> and the lines counted.\<close>

function unescape_loop :: "bool \<Rightarrow> bool \<Rightarrow> nat \<Rightarrow> string \<Rightarrow> string \<Rightarrow> nat \<Rightarrow> string \<times> string \<times> nat" where
  "unescape_loop dos is_dep e out src lines =
     (if length src \<le> e then (out, src, lines)
      else
        (let ch = peek src; src1 = tl src in
         if ch \<noteq> BSL \<and> ch \<noteq> CHR ''$'' then
           (if \<not> STOP_SET dos ch (stop_mask is_dep)
               \<or> dos \<and> ch = CHR '':'' \<and> length src1 > e \<and> (peek src1 = CHR ''/'' \<or> peek src1 = BSL)
                 \<and> length out = 1 \<and> isalpha (peek out)
            then unescape_loop dos is_dep e (out @ [ch]) src1 lines
            else (out, src, lines))
         else if ch = CHR ''$'' then
           unescape_loop dos is_dep e (out @ [ch]) (if peek src1 = CHR ''$'' then tl src1 else src1) lines
         else
           (case unescape_slashes dos is_dep e (length (takeWhile (\<lambda>c. c = BSL) src)) out
                   (dropWhile (\<lambda>c. c = BSL) src) lines of
              Halt out' src' lines' \<Rightarrow> (out', src', lines')
            | Go out' src' lines' \<Rightarrow> unescape_loop dos is_dep e out' src' lines')))"
  by auto
termination
proof (relation "measure (\<lambda>(dos, is_dep, e, out, src, lines). length src)")
  fix dos is_dep e and out src :: string and lines ch src1 out' src' lines'
  assume "\<not> length src \<le> e" and "ch = peek src" and "\<not> (ch \<noteq> BSL \<and> ch \<noteq> CHR ''$'')" and "ch \<noteq> CHR ''$''"
    and "unescape_slashes dos is_dep e (length (takeWhile (\<lambda>c. c = BSL) src)) out
      (dropWhile (\<lambda>c. c = BSL) src) lines = Go out' src' lines'"
  then show "((dos, is_dep, e, out', src', lines'), dos, is_dep, e, out, src, lines)
      \<in> measure (\<lambda>(dos, is_dep, e, out, src, lines). length src)"
    using unescape_slashes_length [of dos is_dep e _ out "dropWhile (\<lambda>c. c = BSL) src" lines out' src' lines']
      length_dropWhile_le [of "\<lambda>c. c = BSL" "tl src"]
    by (cases src) (auto simp: less_Suc_eq_le intro: le_trans)
qed (auto simp: not_le)

declare unescape_loop.simps [simp del]

definition incdep_unescape :: "bool \<Rightarrow> bool \<Rightarrow> nat \<Rightarrow> string \<Rightarrow> string \<times> string \<times> nat" where
  "incdep_unescape dos is_dep e start = unescape_loop dos is_dep e [] start 0"

section \<open>What is recorded\<close>

datatype flavor = f_simple | f_recursive | f_conditional | f_append | f_prepend

datatype incdep_record =
    Variable_in_set string string bool   \<comment> \<open>name, value, recursive\<close>
  | Variable_def string string flavor    \<comment> \<open>name, value, flavour\<close>
  | Recorded_file string "string list"   \<comment> \<open>target and dependencies\<close>

datatype warning =
    Bogus_define | Missing_endef | Nul_in_define | Empty_variable | Fancy_variable_name | Fancy_escaping
  | No_colon | Multi_line_confusion | Fancy_eol_escape | Empty_filename

text \<open>
  One step of the main loop: the position, the line and the records after it; or the end of the
  parsing with a warning.
\<close>

datatype step = Next string nat "incdep_record list" | Warn nat warning "incdep_record list"

section \<open>Lines\<close>

definition line_of :: "string \<Rightarrow> string" where
  "line_of cur = takeWhile (\<lambda>c. c \<noteq> LF) cur"

definition after_line :: "string \<Rightarrow> string" where
  "after_line cur = drop (length (line_of cur) + 1) cur"

definition skip_space :: "string \<Rightarrow> string" where
  "skip_space = dropWhile (\<lambda>c. ISSPACE c \<and> c \<noteq> LF)"

definition rtrim :: "(char \<Rightarrow> bool) \<Rightarrow> string \<Rightarrow> string" where
  "rtrim P s = rev (dropWhile P (rev s))"

text \<open>The length of an escaped end of line at \<open>cur\<close>, which has a backslash; 0 when there is none.\<close>

definition eol_len :: "string \<Rightarrow> nat" where
  "eol_len cur =
     (if length cur > 1 \<and> cget cur 1 = LF then 2
      else if length cur > 2 \<and> cget cur 1 = CR \<and> cget cur 2 = LF then 3
      else if length cur = 1 then 1 else 0)"

text \<open>The end of a line without its carriage return.\<close>

definition strip_cr :: "string \<Rightarrow> string" where
  "strip_cr s = (if s \<noteq> [] \<and> last s = CR then butlast s else s)"

section \<open>define\<close>

text \<open>
  The search for \<open>endef\<close>: \<open>off\<close> is the offset of \<open>cur\<close> from the start of the value, \<open>vend\<close> the end of the
  value. The result is the end, the position after the \<open>endef\<close> (\<open>None\<close> when there is none) and the line.
\<close>

function endef_loop :: "string \<Rightarrow> nat \<Rightarrow> nat \<Rightarrow> nat \<Rightarrow> nat \<times> string option \<times> nat" where
  "endef_loop cur off vend line =
     (if cur = [] then (vend, None, line)
      else if take 5 cur = ''endef'' \<and> (skip_space (drop 5 cur) = [] \<or> peek (skip_space (drop 5 cur)) = LF)
      then (vend, Some (tl (skip_space (drop 5 cur))), line)
      else endef_loop (after_line cur) (off + length (line_of cur) + 1) (off + length (line_of cur)) (line + 1))"
  by auto
termination
  by (relation "measure (\<lambda>(cur, off, vend, line). length cur)") (auto simp: after_line_def)

declare endef_loop.simps [simp del]

text \<open>
  The copy of a value that has a carriage return: \<open>vs\<close> is the text from the start of the value to the end
  of the file, \<open>vend\<close> the length of the value. The length given to the second \<open>memchr\<close> is a negative
  difference, that is, no limit: it finds the next return wherever it is, and the copy leaves the
  buffer of \<open>vend + 1\<close> characters, or the search the file.
\<close>

function cr_copy :: "string \<Rightarrow> nat \<Rightarrow> nat \<Rightarrow> nat \<Rightarrow> string \<Rightarrow> (unit, string) outcome" where
  "cr_copy vs vend src endp dst =
     (let dst' = dst @ take (endp - src) (drop src vs);
          src' = (if endp + 1 < length vs \<and> cget vs (endp + 1) = LF then endp + 1 else endp)
      in if length dst' > vend then Undef OutOfBounds
         else if src' \<ge> vend then Ok dst'
         else (case strchr (drop (endp + 1) vs) CR of
                 None \<Rightarrow> Undef OutOfBounds
               | Some k \<Rightarrow> cr_copy vs vend src' (endp + 1 + k) dst'))"
  by auto
termination
proof (relation "measure (\<lambda>(vs, vend, src, endp, dst). length vs - endp)")
  fix vs :: string and vend src endp k :: nat and dst dst' :: string and src'
  assume "strchr (drop (endp + 1) vs) CR = Some k"
  then have "drop (endp + 1) vs \<noteq> []" by auto
  then show "((vs, vend, src', endp + 1 + k, dst'), vs, vend, src, endp, dst)
      \<in> measure (\<lambda>(vs, vend, src, endp, dst). length vs - endp)" by simp
qed simp

declare cr_copy.simps [simp del]

definition parse_define :: "string \<Rightarrow> nat \<Rightarrow> incdep_record list \<Rightarrow> (unit, step) outcome" where
  "parse_define cur line recs =
     (let cur = dropWhile ISBLANK (drop 7 cur);
          var = (if LF \<in> set cur then rtrim ISSPACE (line_of cur) else [])
      in if var = [] then Ok (Warn line Bogus_define recs)
         else let vs = after_line cur in
           case endef_loop vs 0 0 (line + 1) of
             (vend, None, line) \<Rightarrow> Ok (Warn line Missing_endef recs)
           | (vend, Some cur', line) \<Rightarrow>
               if NUL \<in> set (take vend vs) then Ok (Warn line Nul_in_define recs)
               else obind (case strchr (take vend vs) CR of
                             None \<Rightarrow> Ok (take vend vs)
                           | Some k \<Rightarrow> cr_copy vs vend 0 k [])
                      (\<lambda>value. Ok (Next cur' line (recs @ [Variable_in_set var value False]))))"

section \<open>Assignments\<close>

text \<open>
  The search for the end of a value that may go over several lines. The result is the end of the
  value, the position after it, the number of continuations and the line; \<open>None\<close> for two backslashes
  at the end of a line, with the line.
\<close>

function value_scan :: "string \<Rightarrow> nat \<Rightarrow> nat \<Rightarrow> nat \<Rightarrow> nat \<Rightarrow> nat \<times> (nat \<times> string \<times> nat) option" where
  "value_scan cur off vend multi_line line =
     (if cur = [] then (line, Some (vend, [], multi_line))
      else let seg = strip_cr (line_of cur) in
        if seg = [] \<or> last seg \<noteq> BSL then (line, Some (off + length seg, after_line cur, multi_line))
        else if butlast seg \<noteq> [] \<and> last (butlast seg) = BSL then (line, None)
        else if LF \<notin> set cur then (line, Some (off + length (butlast seg), [], multi_line))
        else value_scan (after_line cur) (off + length (line_of cur) + 1) (off + length (butlast seg))
               (multi_line + 1) (line + 1))"
  by auto
termination
  by (relation "measure (\<lambda>(cur, off, vend, multi_line, line). length cur)") (auto simp: after_line_def)

declare value_scan.simps [simp del]

function join_value :: "bool \<Rightarrow> string \<Rightarrow> string" where
  "join_value first src =
     (if src = [] then []
      else let seg = strip_cr (line_of src);
               seg' = (if seg \<noteq> [] \<and> last seg = BSL then butlast seg else seg)
           in (if first then [] else [CHR '' '']) @ seg' @ join_value False (after_line src))"
  by auto
termination by (relation "measure (\<lambda>(first, src). length src)") (auto simp: after_line_def)

declare join_value.simps [simp del]

definition flavor_at :: "string \<Rightarrow> flavor" where
  "flavor_at pre =
     (if pre = [] then f_recursive
      else if last pre = CHR '':'' then f_simple
      else if last pre = CHR ''?'' then f_conditional
      else if last pre = CHR ''+'' then f_append
      else if last pre = CHR ''>'' then f_prepend
      else f_recursive)"

text \<open>An assignment with its equal sign at \<open>equalp\<close>.\<close>

definition parse_assign :: "nat \<Rightarrow> string \<Rightarrow> nat \<Rightarrow> incdep_record list \<Rightarrow> step" where
  "parse_assign equalp cur line recs =
     (let pre = take equalp cur; fl = flavor_at pre;
          var = rtrim ISBLANK (if fl = f_recursive then pre else butlast pre);
          vs = dropWhile ISBLANK (drop (equalp + 1) cur)
      in if var = [] then Warn line Empty_variable recs
         else if CHR ''$'' \<in> set var \<or> CHR '' '' \<in> set var \<or> TAB \<in> set var then Warn line Fancy_variable_name recs
         else case value_scan vs 0 0 0 line of
           (line, None) \<Rightarrow> Warn line Fancy_escaping recs
         | (line, Some (vend, cur', multi_line)) \<Rightarrow>
             let value = (if multi_line = 0 then take vend vs else join_value True (take vend vs)) in
             Next cur' (line + 1)
               (recs @ [if fl = f_recursive \<or> fl = f_simple \<and> CHR ''$'' \<notin> set value
                        then Variable_in_set var value (fl = f_recursive)
                        else Variable_def var value fl]))"

section \<open>Rules\<close>

text \<open>
  The count of the backslashes at the end of the text before a colon. The loop does not move the
  pointer it compares with the start, so that it leaves the text when there is nothing else in it:
  to a character that is no backslash, or to before the file.
\<close>

definition incdep_count_slashes_backwards :: "bool \<Rightarrow> string \<Rightarrow> (unit, nat) outcome" where
  "incdep_count_slashes_backwards at_start seg =
     (let n = length (takeWhile (\<lambda>c. c = BSL) (rev seg)) in
      if at_start \<and> length seg > 1 \<and> n = length seg then Undef OutOfBounds else Ok n)"

text \<open>The colon after a drive letter.\<close>

definition drive_colon :: "string \<Rightarrow> string \<Rightarrow> bool" where
  "drive_colon seg rest \<longleftrightarrow> rest \<noteq> [] \<and> (peek rest = CHR ''/'' \<or> peek rest = BSL)
     \<and> seg \<noteq> [] \<and> isalpha (last seg) \<and> (length seg = 1 \<or> ISBLANK (last (butlast seg)))"

text \<open>The search for the colon of a rule: the text before it and after it.\<close>

function find_colon :: "bool \<Rightarrow> bool \<Rightarrow> string \<Rightarrow> string \<Rightarrow> (unit, (string \<times> string) option) outcome" where
  "find_colon dos at_start seg rest =
     (if CHR '':'' \<notin> set rest then Ok None
      else let seg' = seg @ takeWhile (\<lambda>c. c \<noteq> CHR '':'') rest;
               rest' = tl (dropWhile (\<lambda>c. c \<noteq> CHR '':'') rest)
           in obind (if seg' \<noteq> [] \<and> last seg' = BSL
                     then obind (incdep_count_slashes_backwards at_start seg') (\<lambda>n. Ok (odd n)) else Ok False)
                (\<lambda>escaped. if escaped \<or> dos \<and> drive_colon seg' rest'
                           then find_colon dos at_start (seg' @ [CHR '':'']) rest'
                           else Ok (Some (seg', rest'))))"
  by auto
termination
proof (relation "measure (\<lambda>(dos, at_start, seg, rest). length rest)")
  fix dos at_start and seg rest seg' rest' :: string and escaped
  assume "\<not> CHR '':'' \<notin> set rest" and r: "rest' = tl (dropWhile (\<lambda>c. c \<noteq> CHR '':'') rest)"
  then have "dropWhile (\<lambda>c. c \<noteq> CHR '':'') rest \<noteq> []" by auto
  then have "length rest' < length (dropWhile (\<lambda>c. c \<noteq> CHR '':'') rest)" using r by simp
  also have "\<dots> \<le> length rest" by (rule length_dropWhile_le)
  finally show "((dos, at_start, seg' @ [CHR '':''], rest'), dos, at_start, seg, rest)
      \<in> measure (\<lambda>(dos, at_start, seg, rest). length rest)" by simp
qed simp

declare find_colon.simps [simp del]

text \<open>
  The test that the ends of the lines before the colon are escaped: the line after it, or the
  warning.
\<close>

function check_eols :: "string \<Rightarrow> nat \<Rightarrow> nat + nat \<times> warning" where
  "check_eols sol line =
     (let seg = strip_cr (line_of sol) in
      if seg = [] \<or> last seg \<noteq> BSL then Inr (line, No_colon)
      else if butlast seg \<noteq> [] \<and> last (butlast seg) = BSL then Inr (line, Fancy_eol_escape)
      else if LF \<in> set (after_line sol) then check_eols (after_line sol) (line + 1)
      else Inl (line + 1))"
  by auto
termination
proof (relation "measure (\<lambda>(sol, line). length sol)")
  fix sol :: string and line seg
  assume "LF \<in> set (after_line sol)"
  then have "sol \<noteq> []" by (auto simp: after_line_def)
  then show "((after_line sol, line + 1), sol, line) \<in> measure (\<lambda>(sol, line). length sol)"
    by (simp add: after_line_def)
qed simp

declare check_eols.simps [simp del]

text \<open>
  One name of the list of dependencies: up to a white space, unless a backslash or a dollar sign
  comes first; then all of it is left to the unescaping.
\<close>

definition dep_name :: "bool \<Rightarrow> string \<Rightarrow> string \<times> string \<times> nat" where
  "dep_name dos cur =
     (let seg = takeWhile (\<lambda>c. c \<noteq> BSL \<and> c \<noteq> CHR ''$'' \<and> \<not> ISSPACE c) cur;
          r = drop (length seg) cur
      in if r \<noteq> [] \<and> (peek r = BSL \<or> peek r = CHR ''$'') then incdep_unescape dos True 0 cur
         else (seg, r, 0))"

text \<open>The dependencies: the names, the position after them and the line.\<close>

partial_function (option) deps_loop :: "bool \<Rightarrow> string \<Rightarrow> nat \<Rightarrow> string list \<Rightarrow> (string list \<times> string \<times> nat) option" where
  "deps_loop dos cur line deps =
     (let cur = skip_space cur in
      if cur = [] then Some (deps, cur, line)
      else if peek cur = LF then Some (deps, tl cur, line + 1)
      else if peek cur = BSL \<and> eol_len cur \<noteq> 0 then deps_loop dos (drop (eol_len cur) cur) (line + 1) deps
      else (case dep_name dos cur of
              (name, endp, n) \<Rightarrow> deps_loop dos endp (line + n) (deps @ [name])))"

text \<open>
  The names of a rule: \<open>fnend\<close> is where \<open>e\<close> characters are left. A position after \<open>fnend\<close> is possible:
  the unescaping reads a blank that is escaped at the end of the last name.
\<close>

fun skip_blanks_ne :: "nat \<Rightarrow> string \<Rightarrow> string" where
  "skip_blanks_ne e [] = []"
| "skip_blanks_ne e (c # s) = (if length (c # s) \<noteq> e \<and> ISBLANK c then skip_blanks_ne e s else c # s)"

fun take_name :: "nat \<Rightarrow> string \<Rightarrow> string \<times> string" where
  "take_name e [] = ([], [])"
| "take_name e (c # s) =
     (if length (c # s) \<noteq> e \<and> \<not> ISBLANK c then apfst (Cons c) (take_name e s) else ([], c # s))"

definition target_name :: "bool \<Rightarrow> bool \<Rightarrow> nat \<Rightarrow> string \<Rightarrow> string \<times> string" where
  "target_name dos unescape_filename e cur =
     (if \<not> unescape_filename then take_name e cur
      else case incdep_unescape dos False e cur of (name, fnnext, _) \<Rightarrow> (name, fnnext))"

text \<open>
  More files with the same dependencies: \<open>fnnext\<close> is compared with \<open>fnend\<close> for being equal. The result
  is the line and the records.
\<close>

partial_function (option) more_files :: "bool \<Rightarrow> bool \<Rightarrow> nat \<Rightarrow> string list \<Rightarrow> string \<Rightarrow> string \<Rightarrow> nat
    \<Rightarrow> incdep_record list \<Rightarrow> (nat \<times> incdep_record list) option" where
  "more_files dos unescape_filename e deps filename_prev fnnext line recs =
     (let fnnext = skip_blanks_ne e fnnext in
      if length fnnext = e then Some (line, recs)
      else if peek fnnext = BSL \<and> cget fnnext 1 = LF
      then more_files dos unescape_filename e deps filename_prev (drop 2 fnnext) (line + 1) recs
      else if peek fnnext = BSL \<and> cget fnnext 1 = CR \<and> cget fnnext 2 = LF
      then more_files dos unescape_filename e deps filename_prev (drop 3 fnnext) (line + 1) recs
      else (case target_name dos unescape_filename e fnnext of
              (filename, fnnext) \<Rightarrow>
                more_files dos unescape_filename e deps filename fnnext line
                  (if filename \<noteq> filename_prev then recs @ [Recorded_file filename deps] else recs)))"

text \<open>A rule. The flag: \<open>cur\<close> is the start of the file.\<close>

definition parse_rule :: "bool \<Rightarrow> bool \<Rightarrow> string \<Rightarrow> nat \<Rightarrow> incdep_record list \<Rightarrow> (unit, step) outcome option" where
  "parse_rule dos at_start cur line recs =
     (case find_colon dos at_start [] cur of
        Undef u \<Rightarrow> Some (Undef u)
      | Fatal u \<Rightarrow> Some (Fatal u)
      | Ok None \<Rightarrow> Some (Ok (Warn line No_colon recs))
      | Ok (Some (seg, rest)) \<Rightarrow>
          (let one_line = (LF \<notin> set seg);
               unescape_filename = (\<not> one_line \<or> BSL \<in> set seg \<or> CHR ''$'' \<in> set seg);
               check = (if one_line then Inl line
                 else if CHR ''='' \<in> set (drop (length (line_of seg)) seg) then Inr (line, Multi_line_confusion)
                 else check_eols seg line);
               fn = rtrim ISBLANK seg;
               e = length cur - length fn
           in case check of
                Inr (line, w) \<Rightarrow> Some (Ok (Warn line w recs))
              | Inl line \<Rightarrow>
                  if fn = [] then Some (Ok (Warn line Empty_filename recs))
                  else (case target_name dos unescape_filename e cur of
                    (filename, fnnext) \<Rightarrow>
                      Option.bind (deps_loop dos rest line []) (\<lambda>(deps, cur', line).
                      Option.bind
                        (if length fnnext > e
                         then more_files dos unescape_filename e deps filename fnnext line (recs @ [Recorded_file filename deps])
                         else Some (line, recs @ [Recorded_file filename deps]))
                        (\<lambda>(line, recs). Some (Ok (Next cur' line recs)))))))"

section \<open>The file\<close>

text \<open>
  A definition, an assignment or a rule at \<open>cur\<close>. In an assignment the character before the equal sign
  is no backslash.
\<close>

definition parse_statement :: "bool \<Rightarrow> bool \<Rightarrow> string \<Rightarrow> nat \<Rightarrow> incdep_record list \<Rightarrow> (unit, step) outcome option" where
  "parse_statement dos at_start cur line recs =
     (if take 7 cur = ''define '' then Some (parse_define cur line recs)
      else (case strchr (line_of cur) (CHR ''='') of
              Some k \<Rightarrow>
                if k \<noteq> 0 \<and> cur ! (k - 1) \<noteq> BSL then Some (Ok (parse_assign k cur line recs))
                else parse_rule dos at_start cur line recs
            | None \<Rightarrow> parse_rule dos at_start cur line recs))"

text \<open>
  The main loop over a file of \<open>n\<close> characters: the records and the warning with its line, if any.
\<close>

partial_function (option) parse_loop :: "bool \<Rightarrow> nat \<Rightarrow> string \<Rightarrow> nat \<Rightarrow> incdep_record list
    \<Rightarrow> (unit, incdep_record list \<times> (nat \<times> warning) option) outcome option" where
  "parse_loop dos n cur line recs =
     (let cur = skip_space cur in
      if cur = [] then Some (Ok (recs, None))
      else
        (let cur = (if peek cur = CHR ''#'' then drop (length (line_of cur)) cur else cur) in
         if cur = [] then Some (Ok (recs, None))
         else if peek cur = BSL \<and> eol_len cur \<noteq> 0 then parse_loop dos n (drop (eol_len cur) cur) (line + 1) recs
         else if peek cur = LF then parse_loop dos n (tl cur) (line + 1) recs
         else Option.bind (parse_statement dos (length cur = n) cur line recs) (\<lambda>r.
           (case r of
              Undef u \<Rightarrow> Some (Undef u)
            | Fatal u \<Rightarrow> Some (Fatal u)
            | Ok (Warn line w recs) \<Rightarrow> Some (Ok (recs, Some (line, w)))
            | Ok (Next cur line recs) \<Rightarrow> parse_loop dos n cur line recs))))"

declare deps_loop.simps [code] more_files.simps [code] parse_loop.simps [code]

definition eval_include_dep_file :: "bool \<Rightarrow> string
    \<Rightarrow> (unit, incdep_record list \<times> (nat \<times> warning) option) outcome option" where
  "eval_include_dep_file dos txt = parse_loop dos (length txt) txt 1 []"

end
