(* ===== verification/IncDepProps.thy ===== *)
theory IncDepProps
  imports IncDep KDepProps
begin

text \<open>
  The reader of dependency files on what the writer of theory \<open>KDep\<close> makes: names, rules and files
  are read back. Then two inputs on which the reader goes wrong.
\<close>

section \<open>Characters of names\<close>

text \<open>
  Names that can be written: no white space but blanks, no colon, and no blank or backslash at the
  end.
\<close>

definition name_char :: "char \<Rightarrow> bool" where
  "name_char c \<longleftrightarrow> c \<noteq> NUL \<and> c \<noteq> CHR '':'' \<and> (ISSPACE c \<longrightarrow> ISBLANK c)"

definition good_name :: "string \<Rightarrow> bool" where
  "good_name s \<longleftrightarrow> s \<noteq> [] \<and> list_all name_char s \<and> \<not> ISBLANK (last s) \<and> last s \<noteq> BSL"

lemma name_char_LF_CR [simp]: "\<not> name_char LF" "\<not> name_char CR"
  by (auto simp: name_char_def ISSPACE_def ISBLANK_def isspace_def cord_def)

lemma special_cases:
  "escaped_by_slash d c \<longleftrightarrow> ISBLANK c \<or> c = CHR ''#'' \<or> c = CHR ''='' \<or> c = CHR '';''
     \<or> c = (if d then CHR ''|'' else CHR ''%'')"
  by (auto simp: escaped_by_slash_def ISBLANK_def)

lemma not_ISSPACE_special: "\<not> ISBLANK c \<Longrightarrow> escaped_by_slash d c \<Longrightarrow> \<not> ISSPACE c"
  by (auto simp: special_cases ISSPACE_def isspace_def cord_def split: if_splits)

lemma not_ISSPACE_BSL [simp]: "\<not> ISSPACE BSL" and not_ISSPACE_dollar [simp]: "\<not> ISSPACE (CHR ''$'')"
  and not_ISSPACE_colon [simp]: "\<not> ISSPACE (CHR '':'')"
  and ISSPACE_LF [simp]: "ISSPACE LF" and not_ISBLANK_LF [simp]: "\<not> ISBLANK LF"
  and not_ISBLANK_BSL [simp]: "\<not> ISBLANK BSL"
  by (auto simp: ISSPACE_def ISBLANK_def isspace_def cord_def)

lemma ISBLANK_ISSPACE: "ISBLANK c \<Longrightarrow> ISSPACE c"
  by (simp add: ISSPACE_def)

lemma not_isspace_NUL: "\<not> isspace NUL"
  by (simp add: isspace_def cord_def)

lemma MAP_NEWLINE_iff: "MAP_NEWLINE \<in> stopchar_map dos c \<longleftrightarrow> ISSPACE c \<and> \<not> ISBLANK c"
  using STOP_SET_NEWLINE [of dos c] not_isspace_NUL by (auto simp: STOP_SET_single ISSPACE_def)

lemma MAP_BLANK_iff: "MAP_BLANK \<in> stopchar_map dos c \<longleftrightarrow> ISBLANK c"
  using STOP_SET_BLANK [of dos c] by (simp add: STOP_SET_single)

lemma map_simps:
  "MAP_COMMENT \<in> stopchar_map dos c \<longleftrightarrow> c = CHR ''#''" "MAP_EQUALS \<in> stopchar_map dos c \<longleftrightarrow> c = CHR ''=''"
  "MAP_SEMI \<in> stopchar_map dos c \<longleftrightarrow> c = CHR '';''" "MAP_PIPE \<in> stopchar_map dos c \<longleftrightarrow> c = CHR ''|''"
  "MAP_PERCENT \<in> stopchar_map dos c \<longleftrightarrow> c = CHR ''%''" "MAP_COLON \<in> stopchar_map dos c \<longleftrightarrow> c = CHR '':''"
  by (simp_all add: in_stopchar_map in_stopchar_base)

lemma map_all_esc:
  "stopchar_map dos c \<inter> all_esc_mask d = {} \<longleftrightarrow> \<not> escaped_by_slash d c \<and> c \<noteq> CHR '':'' \<and> \<not> (ISSPACE c \<and> \<not> ISBLANK c)"
  by (cases d) (simp_all add: all_esc_mask_def esc_mask_def special_cases Int_insert_right map_simps
    MAP_NEWLINE_iff MAP_BLANK_iff disj_ac)

lemma map_space: "stopchar_map dos c \<inter> {MAP_BLANK, MAP_NEWLINE} = {} \<longleftrightarrow> \<not> ISSPACE c"
  using MAP_NEWLINE_iff [of dos c] MAP_BLANK_iff [of dos c] ISBLANK_ISSPACE [of c] by auto

lemma STOP_SET_stop: "STOP_SET dos c (stop_mask d) \<longleftrightarrow> ISSPACE c \<or> \<not> d \<and> c = CHR '':''"
  unfolding STOP_SET_def stop_mask_def
  using MAP_NEWLINE_iff [of dos c] MAP_BLANK_iff [of dos c] map_simps(6) [of dos c] ISBLANK_ISSPACE [of c]
  by auto

section \<open>Escaped texts\<close>

lemma escaped_Nil_iff [simp]: "escaped d n s = [] \<longleftrightarrow> s = []"
  by (cases s) auto

lemma escaped_head:
  assumes "s \<noteq> []" and "list_all name_char s"
  shows "\<not> ISSPACE (peek (escaped d 0 s @ r)) \<and> peek (escaped d 0 s @ r) \<noteq> CHR ''#''
    \<and> peek (escaped d 0 s @ r) \<noteq> NUL"
  using assms by (cases s) (auto simp: name_char_def special_cases)

lemma escaped_second:
  assumes "s \<noteq> []" and "list_all name_char s" and "last s \<noteq> BSL" and "peek (escaped d n s @ r) = BSL"
  shows "name_char (cget (escaped d n s @ r) 1)"
proof -
  have blank: "name_char c" if "escaped_by_slash d c" for c
    using that not_ISSPACE_special [of c d] by (auto simp: special_cases name_char_def ISBLANK_def split: if_splits)
  have bsl: "name_char BSL" by (simp add: name_char_def)
  obtain c t where s: "s = c # t" using assms(1) by (cases s) auto
  show ?thesis
  proof (cases "escaped_by_slash d c")
    case True
    then show ?thesis using s blank bsl by (cases n) auto
  next
    case False
    then have c: "c = BSL" using assms(4) s by (auto split: if_splits)
    then obtain x u where t: "t = x # u" using assms(3) s by (cases t) auto
    then show ?thesis using s c False assms(2) bsl by (auto simp: name_char_def)
  qed
qed

lemma escaped_preceded:
  "escaped d n s = p @ c # q \<Longrightarrow> escaped_by_slash d c \<Longrightarrow> p \<noteq> [] \<and> last p = BSL"
proof (induction s arbitrary: n p)
  case (Cons x s)
  have not_bsl: "c \<noteq> BSL" "c \<noteq> CHR ''$''" using Cons.prems(2) by (auto simp: escaped_by_slash_def split: if_splits)
  have IH: "escaped d m s = p' @ c # q \<Longrightarrow> p' \<noteq> [] \<and> last p' = BSL" for m p'
    using Cons.IH Cons.prems(2) by blast
  show ?case
  proof (cases "escaped_by_slash d x")
    case True
    then have eq: "replicate (n + 1) BSL @ x # escaped d 0 s = p @ c # q" using Cons.prems(1) by simp
    show ?thesis
    proof (cases "length p \<le> n + 1")
      case True
      have "(p @ c # q) ! length p = c" by simp
      then have "length p = n + 1"
        using eq True not_bsl by (metis le_neq_implies_less length_replicate nth_append nth_replicate)
      then have "p = take (n + 1) (p @ c # q)" by simp
      also have "\<dots> = replicate (n + 1) BSL" by (simp only: eq [symmetric]) simp
      finally show ?thesis by simp
    next
      case False
      define r where "r = replicate (n + 1) BSL @ [x]"
      have "r @ escaped d 0 s = p @ c # q" "length r \<le> length p" using eq False by (simp_all add: r_def)
      then obtain p' where "p = r @ p'" "escaped d 0 s = p' @ c # q"
        by (auto simp: append_eq_append_conv2)
      then show ?thesis using IH [of 0 p'] by simp
    qed
  next
    case False
    then show ?thesis using Cons.prems IH not_bsl
      by (auto simp: append_eq_Cons_conv Cons_eq_append_conv split: if_splits) 
  qed
qed simp

lemma set_escaped: "set (escaped d n s) \<subseteq> insert BSL (set s)"
  by (induction s arbitrary: n) (auto simp: set_replicate_conv_if split: if_splits)

lemma last_escaped: "s \<noteq> [] \<Longrightarrow> last (escaped d n s) = last s"
  by (induction s arbitrary: n) auto

lemma escaped_no_escapes:
  "BSL \<notin> set (escaped d n s) \<Longrightarrow> CHR ''$'' \<notin> set (escaped d n s) \<Longrightarrow>
    escaped d n s = s \<and> (\<forall>c\<in>set s. \<not> escaped_by_slash d c)"
  by (induction s arbitrary: n) (auto split: if_splits)

section \<open>The reading of a name\<close>

lemma unescape_plain:
  assumes "c \<noteq> BSL" and "c \<noteq> CHR ''$''" and "name_char c" and "\<not> ISBLANK c" and "e \<le> length r"
  shows "unescape_loop dos d e out (c # r) l = unescape_loop dos d e (out @ [c]) r l"
  using assms by (subst unescape_loop.simps) (auto simp: STOP_SET_stop name_char_def)

lemma unescape_dollar:
  "e \<le> length r \<Longrightarrow> unescape_loop dos d e out (CHR ''$'' # CHR ''$'' # r) l
    = unescape_loop dos d e (out @ [CHR ''$'']) r l"
  by (subst unescape_loop.simps) simp

lemma unescape_run:
  assumes "0 < n" and "r \<noteq> []" and "hd r \<noteq> BSL" and "e \<le> length r"
  shows "unescape_loop dos d e out (replicate n BSL @ r) l
    = (case unescape_slashes dos d e n out r l of
         Halt out' src' lines' \<Rightarrow> (out', src', lines')
       | Go out' src' lines' \<Rightarrow> unescape_loop dos d e out' src' lines')"
proof -
  have "takeWhile (\<lambda>c. c = BSL) r = []" "dropWhile (\<lambda>c. c = BSL) r = r" using assms(2,3) by (cases r; simp)+
  then have "takeWhile (\<lambda>c. c = BSL) (replicate n BSL @ r) = replicate n BSL"
    "dropWhile (\<lambda>c. c = BSL) (replicate n BSL @ r) = r"
    by (simp_all add: takeWhile_append dropWhile_append)
  moreover have "peek (replicate n BSL @ r) = BSL" using assms(1) by (cases n) simp_all
  ultimately show ?thesis using assms(1,4) by (subst unescape_loop.simps) (simp add: Let_def)
qed

text \<open>Backslashes before a character that is no special one stay.\<close>

lemma unescape_run_plain:
  assumes "\<not> escaped_by_slash d c" and "name_char c" and "c \<noteq> BSL" and "e \<le> length (c # r)"
  shows "unescape_loop dos d e out (replicate n BSL @ c # r) l
    = unescape_loop dos d e (out @ replicate n BSL) (c # r) l"
proof (cases n)
  case (Suc m)
  have "stopchar_map dos c \<inter> all_esc_mask d = {}"
    using assms(1,2) by (auto simp: map_all_esc name_char_def)
  then have "unescape_slashes dos d e n out (c # r) l = Go (out @ replicate n BSL) (c # r) l"
    by (simp add: unescape_slashes_def)
  then show ?thesis using unescape_run [of n "c # r" e dos d out l] assms(3,4) Suc by simp
qed simp

lemma unescape_run_special:
  assumes "escaped_by_slash d c" and "e \<le> length r"
    and "ISBLANK c \<Longrightarrow> \<not> ISSPACE (peek r) \<and> (peek r = BSL \<longrightarrow> name_char (cget r 1))"
  shows "unescape_loop dos d e out (replicate n BSL @ replicate (n + 1) BSL @ c # r) l
    = unescape_loop dos d e (out @ replicate n BSL @ [c]) r l"
proof -
  have c: "c \<noteq> BSL" using assms(1) by (auto simp: escaped_by_slash_def split: if_splits)
  have esc: "stopchar_map dos c \<inter> all_esc_mask d \<noteq> {}" using assms(1) by (simp add: map_all_esc)
  have n: "odd (2 * n + 1)" "(2 * n + 1) div 2 = n" by simp_all
  have "unescape_slashes dos d e (2 * n + 1) out (c # r) l = Go (out @ replicate n BSL @ [c]) r l"
  proof (cases "ISBLANK c")
    case False
    then have "stopchar_map dos c \<inter> {MAP_BLANK, MAP_NEWLINE} = {}"
      using not_ISSPACE_special [OF _ assms(1)] map_space by blast
    then show ?thesis using esc n by (simp add: unescape_slashes_def)
  next
    case True
    have b: "stopchar_map dos c \<inter> {MAP_BLANK, MAP_NEWLINE} \<noteq> {}" "MAP_BLANK \<in> stopchar_map dos c"
      using True map_space ISBLANK_ISSPACE MAP_BLANK_iff by blast+
    have "\<not> ISBLANK (peek r)" using assms(3) [OF True] ISBLANK_ISSPACE by blast
    then have d: "dropWhile ISBLANK r = r" by (cases r) simp_all
    have nl: "\<not> STOP_SET dos (peek r) {MAP_NEWLINE}"
      using assms(3) [OF True] by (simp add: STOP_SET_single MAP_NEWLINE_iff)
    have "peek r \<noteq> BSL \<or> cget r 1 \<noteq> LF \<and> cget r 1 \<noteq> CR" using assms(3) [OF True] by auto
    then show ?thesis using esc b d nl n by (auto simp: unescape_slashes_def Let_def)
  qed
  then have run: "unescape_loop dos d e out (replicate (2 * n + 1) BSL @ c # r) l
      = unescape_loop dos d e (out @ replicate n BSL @ [c]) r l"
    using unescape_run [of "2 * n + 1" "c # r" e dos d out l] c assms(2) by simp
  have eq: "replicate n BSL @ replicate (n + 1) BSL @ c # r = replicate (2 * n + 1) BSL @ c # r"
    by (metis add.assoc append_assoc mult_2 replicate_add)
  show ?thesis unfolding eq by (rule run)
qed

lemma unescape_escaped:
  assumes "list_all name_char s" and "s = [] \<Longrightarrow> n = 0" and "s \<noteq> [] \<Longrightarrow> last s \<noteq> BSL \<and> \<not> ISBLANK (last s)"
    and "e \<le> length rest"
  shows "unescape_loop dos d e out (replicate n BSL @ escaped d n s @ rest) l
    = unescape_loop dos d e (out @ replicate n BSL @ s) rest l"
  using assms(1-3)
proof (induction s arbitrary: n out)
  case (Cons c s)
  have c: "name_char c" and s: "list_all name_char s" using Cons.prems(1) by simp_all
  have last: "s \<noteq> [] \<Longrightarrow> last s \<noteq> BSL \<and> \<not> ISBLANK (last s)" using Cons.prems(3) by simp
  have len: "e \<le> length (escaped d m s @ rest)" for m using assms(4) by simp
  have IH0: "unescape_loop dos d e out' (escaped d 0 s @ rest) l = unescape_loop dos d e (out' @ s) rest l" for out'
    using Cons.IH [OF s _ last, of 0 out'] by simp
  consider "escaped_by_slash d c" | "\<not> escaped_by_slash d c" "c = CHR ''$''" | "c = BSL"
    | "\<not> escaped_by_slash d c" "c \<noteq> CHR ''$''" "c \<noteq> BSL" by blast
  then show ?case
  proof cases
    case 1
    have "\<not> ISSPACE (peek (escaped d 0 s @ rest))
        \<and> (peek (escaped d 0 s @ rest) = BSL \<longrightarrow> name_char (cget (escaped d 0 s @ rest) 1))" if "ISBLANK c"
    proof -
      have "s \<noteq> []" using that Cons.prems(3) by auto
      then show ?thesis using escaped_head [of s d rest] escaped_second [of s d 0 rest] s last by auto
    qed
    then show ?thesis using unescape_run_special [of d c e "escaped d 0 s @ rest" dos out n l] 1 IH0 len by simp
  next
    case 2
    then show ?thesis
      using unescape_run_plain [of d c e "c # escaped d 0 s @ rest" dos out n l] c IH0 len
        unescape_dollar [of e "escaped d 0 s @ rest" dos d "out @ replicate n BSL" l] by (simp add: le_SucI)
  next
    case 3
    then have "\<not> escaped_by_slash d c" by (auto simp: escaped_by_slash_def split: if_splits)
    moreover have "s \<noteq> []" using 3 Cons.prems(3) by auto
    ultimately show ?thesis using 3 Cons.IH [OF s _ last, of "n + 1" out]
      by (simp add: replicate_app_Cons_same)
  next
    case 4
    then have "\<not> ISBLANK c" by (simp add: special_cases)
    then show ?thesis
      using unescape_run_plain [of d c e "escaped d 0 s @ rest" dos out n l] c 4 IH0 len
        unescape_plain [of c e "escaped d 0 s @ rest" dos d "out @ replicate n BSL" l] by (simp add: le_SucI)
  qed
qed simp

text \<open>A name before a colon, and a name before white space.\<close>

lemma incdep_unescape_target:
  "good_name t \<Longrightarrow> incdep_unescape dos False (length rest) (escaped False 0 t @ rest) = (t, rest, 0)"
  using unescape_escaped [of t 0 "length rest" rest dos False "[]" 0]
  by (simp add: incdep_unescape_def good_name_def unescape_loop.simps [of dos False "length rest" t])

lemma incdep_unescape_dep:
  "good_name s \<Longrightarrow> ISSPACE w \<Longrightarrow> incdep_unescape dos True 0 (escaped True 0 s @ w # r) = (s, w # r, 0)"
  using unescape_escaped [of s 0 0 "w # r" dos True "[]" 0]
  by (auto simp: incdep_unescape_def good_name_def unescape_loop.simps [of dos True 0 s] STOP_SET_stop)

lemma dep_name_escaped:
  assumes "good_name s" and "ISSPACE w"
  shows "dep_name dos (escaped True 0 s @ w # r) = (s, w # r, 0)"
proof -
  let ?E = "escaped True 0 s" and ?P = "\<lambda>c. c \<noteq> BSL \<and> c \<noteq> CHR ''$'' \<and> \<not> ISSPACE c"
  have w: "\<not> ?P w" "w \<noteq> BSL" "w \<noteq> CHR ''$''" using assms(2) by auto
  show ?thesis
  proof (cases "\<forall>c\<in>set ?E. ?P c")
    case True
    then have "?E = s" using escaped_no_escapes [of True 0 s] by blast
    then show ?thesis using True w by (simp add: dep_name_def takeWhile_append2 Let_def)
  next
    case False
    define p q where "p = takeWhile ?P ?E" and "q = dropWhile ?P ?E"
    have q: "q \<noteq> []" using False by (auto simp: q_def)
    have "\<not> ?P (hd q)" unfolding q_def by (rule hd_dropWhile) (use q q_def in blast)
    moreover have E: "?E = p @ hd q # tl q" using q by (simp add: p_def q_def)
    moreover have "\<not> ISSPACE (hd q)"
    proof
      assume sp: "ISSPACE (hd q)"
      have "hd q \<in> set ?E" using E by (metis in_set_conv_decomp)
      then have "hd q = BSL \<or> name_char (hd q)"
        using set_escaped [of True 0 s] assms(1) by (auto simp: good_name_def list_all_iff)
      then have "escaped_by_slash True (hd q)" using sp by (auto simp: name_char_def special_cases)
      then have "p \<noteq> [] \<and> last p = BSL" using escaped_preceded E by blast
      then have "BSL \<in> set p" using last_in_set [of p] by simp
      then show False using set_takeWhileD [of BSL ?P ?E] by (simp add: p_def)
    qed
    ultimately have hd: "hd q = BSL \<or> hd q = CHR ''$''" by blast
    have t: "takeWhile ?P (?E @ w # r) = p" unfolding p_def using False by (auto intro: takeWhile_append1)
    have "?E @ w # r = p @ q @ w # r" using E q by (metis append_assoc list.collapse)
    then have d: "drop (length p) (?E @ w # r) = q @ w # r" by (metis append_eq_conv_conj)
    have peek: "q @ w # r \<noteq> []" "peek (q @ w # r) = hd q" using q by (cases q; simp)+
    have "dep_name dos (?E @ w # r) = incdep_unescape dos True 0 (?E @ w # r)"
      unfolding dep_name_def t Let_def d peek(2) by (rule if_P) (use peek(1) hd in blast)
    then show ?thesis using incdep_unescape_dep [OF assms, of dos r] by argo
  qed
qed

lemma take_name_plain:
  "\<forall>c\<in>set t. \<not> ISBLANK c \<Longrightarrow> take_name (length (CHR '':'' # rest)) (t @ CHR '':'' # rest) = (t, CHR '':'' # rest)"
  by (induction t) auto

lemma target_name_escaped:
  assumes "good_name t"
  shows "target_name dos (BSL \<in> set (escaped False 0 t) \<or> CHR ''$'' \<in> set (escaped False 0 t))
      (Suc (length rest)) (escaped False 0 t @ CHR '':'' # rest) = (t, CHR '':'' # rest)"
proof (cases "BSL \<in> set (escaped False 0 t) \<or> CHR ''$'' \<in> set (escaped False 0 t)")
  case True
  then show ?thesis using incdep_unescape_target [OF assms, of dos "CHR '':'' # rest"]
    by (simp add: target_name_def)
next
  case False
  then have "escaped False 0 t = t" "\<forall>c\<in>set t. \<not> ISBLANK c"
    using escaped_no_escapes [of False 0 t] by (auto simp: special_cases)
  then show ?thesis using False take_name_plain [of t rest] by (simp add: target_name_def)
qed

section \<open>The reading of a rule\<close>

text \<open>What the writer makes for the dependencies, and the text of a rule.\<close>

definition chain_text :: "string list \<Rightarrow> string" where
  "chain_text fs = concat (map (\<lambda>f. [CHR '' '', BSL, LF, TAB] @ escaped True 0 f) fs) @ [LF, LF]"

lemma skip_space_stop: "\<not> ISSPACE (peek s) \<or> peek s = LF \<Longrightarrow> skip_space s = s"
  by (cases s) (auto simp: skip_space_def)

lemma skip_space_step [simp]:
  "ISSPACE c \<Longrightarrow> c \<noteq> LF \<Longrightarrow> skip_space (c # s) = skip_space s"
  by (simp add: skip_space_def)

lemma ISSPACE_blank [simp]: "ISSPACE (CHR '' '')" "ISSPACE TAB"
  by (simp_all add: ISSPACE_def ISBLANK_def)

text \<open>An escaped name is not taken for an escaped end of line.\<close>

lemma eol_len_escaped:
  assumes "good_name s" and "peek (escaped d 0 s @ r) = BSL"
  shows "eol_len (escaped d 0 s @ r) = 0"
proof -
  have nc: "name_char (cget (escaped d 0 s @ r) 1)"
    using escaped_second [of s d 0 r] assms by (simp add: good_name_def)
  then have "cget (escaped d 0 s @ r) 1 \<noteq> LF" "cget (escaped d 0 s @ r) 1 \<noteq> CR" "cget (escaped d 0 s @ r) 1 \<noteq> NUL"
    using name_char_LF_CR by (metis, metis, auto simp: name_char_def)
  moreover from this(3) have "length (escaped d 0 s @ r) \<noteq> 1"
    by (metis cget_def less_irrefl)
  ultimately show ?thesis by (simp add: eol_len_def)
qed

lemma deps_loop_chain:
  assumes "list_all good_name fs"
  shows "\<exists>line'. deps_loop dos (chain_text fs @ rest) line deps = Some (deps @ fs, LF # rest, line')"
  using assms
proof (induction fs arbitrary: line deps)
  case Nil
  show ?case by (subst deps_loop.simps) (simp add: chain_text_def skip_space_stop)
next
  case (Cons f fs)
  define r where "r = chain_text fs @ rest"
  have f: "good_name f" and fs: "list_all good_name fs" using Cons.prems by simp_all
  have whole: "chain_text (f # fs) @ rest = CHR '' '' # BSL # LF # TAB # escaped True 0 f @ r"
    by (simp add: chain_text_def r_def)
  obtain w r' where r: "r = w # r'" "ISSPACE w"
    by (cases fs) (auto simp: r_def chain_text_def)
  have head: "\<not> ISSPACE (peek (escaped True 0 f @ r))"
    using f escaped_head [of f True r] by (simp add: good_name_def)
  then have skip: "skip_space (TAB # escaped True 0 f @ r) = escaped True 0 f @ r"
    using skip_space_stop [of "escaped True 0 f @ r"] by simp
  have ne: "escaped True 0 f @ r \<noteq> []" "peek (escaped True 0 f @ r) \<noteq> LF"
    using r head ISSPACE_LF by auto
  have "deps_loop dos (TAB # escaped True 0 f @ r) (line + 1) deps = deps_loop dos r (line + 1) (deps @ [f])"
    unfolding deps_loop.simps [of dos "TAB # escaped True 0 f @ r"] Let_def skip
    using ne eol_len_escaped [OF f, of True r] dep_name_escaped [OF f r(2), of dos r'] r(1) by auto
  moreover have "deps_loop dos (chain_text (f # fs) @ rest) line deps
      = deps_loop dos (TAB # escaped True 0 f @ r) (line + 1) deps"
    unfolding whole by (subst deps_loop.simps) (simp add: skip_space_stop eol_len_def cget_def)
  ultimately show ?case using Cons.IH [OF fs, of "line + 1" "deps @ [f]"] by (simp add: r_def)
qed

definition rule_text :: "string \<Rightarrow> string list \<Rightarrow> string" where
  "rule_text t fs = escaped False 0 t @ CHR '':'' # chain_text fs"

lemma chain_text_head: "\<exists>w r. chain_text fs @ rest = w # r \<and> (w = CHR '' '' \<or> w = LF)"
  by (cases fs) (auto simp: chain_text_def)

lemma escaped_char:
  assumes "good_name t" and "c \<in> set (escaped d 0 t)"
  shows "name_char c"
proof -
  have "name_char BSL" by (simp add: name_char_def)
  moreover have "c = BSL \<or> c \<in> set t" using assms(2) set_escaped [of d 0 t] by blast
  ultimately show ?thesis using assms(1) by (auto simp: good_name_def list_all_iff)
qed

lemma escaped_chars:
  assumes "good_name t"
  shows "LF \<notin> set (escaped d 0 t)" and "CHR '':'' \<notin> set (escaped d 0 t)"
proof -
  have "\<not> name_char (CHR '':'')" by (simp add: name_char_def)
  then show "LF \<notin> set (escaped d 0 t)" and "CHR '':'' \<notin> set (escaped d 0 t)"
    using escaped_char [OF assms] name_char_LF_CR(1) by blast+
qed

lemma escaped_last:
  assumes "good_name t"
  shows "escaped d 0 t \<noteq> []" and "last (escaped d 0 t) \<noteq> BSL" and "rtrim ISBLANK (escaped d 0 t) = escaped d 0 t"
proof -
  have t: "t \<noteq> []" "last t \<noteq> BSL" "\<not> ISBLANK (last t)" using assms by (simp_all add: good_name_def)
  then show ne: "escaped d 0 t \<noteq> []" and "last (escaped d 0 t) \<noteq> BSL" by (simp_all add: last_escaped)
  have "\<not> ISBLANK (hd (rev (escaped d 0 t)))" using t ne by (simp add: last_escaped hd_rev)
  then have "dropWhile ISBLANK (rev (escaped d 0 t)) = rev (escaped d 0 t)"
    using ne by (cases "rev (escaped d 0 t)") simp_all
  then show "rtrim ISBLANK (escaped d 0 t) = escaped d 0 t" by (simp add: rtrim_def)
qed

lemma find_colon_escaped:
  assumes "good_name t" and "rest = w # r" and "w = CHR '' '' \<or> w = LF"
  shows "find_colon dos a [] (escaped False 0 t @ CHR '':'' # rest) = Ok (Some (escaped False 0 t, rest))"
proof -
  let ?E = "escaped False 0 t"
  have "takeWhile (\<lambda>c. c \<noteq> CHR '':'') (?E @ CHR '':'' # rest) = ?E"
    "dropWhile (\<lambda>c. c \<noteq> CHR '':'') (?E @ CHR '':'' # rest) = CHR '':'' # rest"
    using escaped_chars(2) [OF assms(1)] by (auto simp: takeWhile_append dropWhile_append)
  moreover have "\<not> drive_colon ?E rest" using assms(2,3) by (auto simp: drive_colon_def)
  ultimately show ?thesis using escaped_last [OF assms(1)] by (subst find_colon.simps) (simp add: Let_def)
qed

lemma parse_rule_text:
  assumes "good_name t" and "list_all good_name fs"
  shows "\<exists>line'. parse_rule dos a (rule_text t fs @ rest) line recs
    = Some (Ok (Next (LF # rest) line' (recs @ [Recorded_file t fs])))"
proof -
  let ?E = "escaped False 0 t"
  define r where "r = chain_text fs @ rest"
  obtain line' where deps: "deps_loop dos r line [] = Some (fs, LF # rest, line')"
    using deps_loop_chain [OF assms(2), of dos rest line "[]"] by (auto simp: r_def)
  have colon: "find_colon dos a [] (?E @ CHR '':'' # r) = Ok (Some (?E, r))"
    using chain_text_head [of fs rest] find_colon_escaped [OF assms(1)] unfolding r_def by blast
  have e: "length (?E @ CHR '':'' # r) - length ?E = Suc (length r)" by simp
  have "parse_rule dos a (?E @ CHR '':'' # r) line recs
    = Some (Ok (Next (LF # rest) line' (recs @ [Recorded_file t fs])))"
    using escaped_chars(1) [OF assms(1)] escaped_last [OF assms(1)] target_name_escaped [OF assms(1), of dos r]
    unfolding parse_rule_def colon by (simp add: Let_def e deps)
  then show ?thesis by (auto simp: rule_text_def r_def)
qed

section \<open>The reading of a file\<close>

lemma not_define:
  assumes "good_name t"
  shows "take 7 (escaped False 0 t @ CHR '':'' # r) \<noteq> ''define ''"
proof
  let ?E = "escaped False 0 t"
  assume def: "take 7 (?E @ CHR '':'' # r) = ''define ''"
  show False
  proof (cases "length ?E < 7")
    case True
    then have "take 7 (?E @ CHR '':'' # r) ! length ?E = CHR '':''"
      using True by (simp only: nth_take nth_append_length)
    moreover have "length ?E < length (take 7 (?E @ CHR '':'' # r))" using True by simp
    ultimately have "CHR '':'' \<in> set (take 7 (?E @ CHR '':'' # r))" using nth_mem by metis
    then show False unfolding def by simp
  next
    case False
    then have "take 7 ?E = ''define ''" using def by simp
    then have "?E = ''define'' @ CHR '' '' # drop 7 ?E" by (metis append_Cons append_Nil append_take_drop_id)
    then show False using escaped_preceded [of False 0 t "''define''" "CHR '' ''"] by (simp add: escaped_by_slash_def)
  qed
qed

lemma strchr_Some: "strchr s c = Some k \<Longrightarrow> k < length s \<and> s ! k = c"
  by (induction s arbitrary: k) (auto split: if_splits)

lemma parse_statement_text:
  assumes "good_name t"
  shows "parse_statement dos a (rule_text t fs @ rest) line recs = parse_rule dos a (rule_text t fs @ rest) line recs"
proof -
  let ?E = "escaped False 0 t"
  define r where "r = chain_text fs @ rest"
  have "line_of r = [] \<or> line_of r = [CHR '' '', BSL]"
    by (cases fs) (auto simp: r_def chain_text_def line_of_def)
  then have "CHR ''='' \<notin> set (line_of r)" by auto
  moreover have line: "line_of (?E @ CHR '':'' # r) = ?E @ CHR '':'' # line_of r"
    using escaped_chars(1) [OF assms] by (simp add: line_of_def takeWhile_append)
  ultimately have neq: "CHR ''='' \<notin> set (CHR '':'' # line_of r)" by simp
  have "k \<noteq> 0 \<and> (?E @ CHR '':'' # r) ! (k - 1) = BSL"
    if "strchr (line_of (?E @ CHR '':'' # r)) (CHR ''='') = Some k" for k
  proof -
    have k: "k < length (?E @ CHR '':'' # line_of r)" "(?E @ CHR '':'' # line_of r) ! k = CHR ''=''"
      using that unfolding line by (auto dest: strchr_Some)
    have "k < length ?E"
    proof (rule ccontr)
      assume "\<not> k < length ?E"
      then have "CHR ''='' \<in> set (CHR '':'' # line_of r)"
        using k by (metis (no_types, lifting) length_append linorder_not_less nat_add_left_cancel_less
          le_add_diff_inverse nth_append nth_mem)
      then show False using neq by blast
    qed
    moreover from this have "?E ! k = CHR ''=''" using k(2) by (simp add: nth_append)
    ultimately have "?E = take k ?E @ CHR ''='' # drop (Suc k) ?E" "k < length ?E"
      using id_take_nth_drop [of k ?E] by simp_all
    then have "take k ?E \<noteq> []" "last (take k ?E) = BSL"
      using escaped_preceded [of False 0 t "take k ?E" "CHR ''=''"] by (simp_all add: escaped_by_slash_def)
    then show ?thesis using \<open>k < length ?E\<close> by (auto simp: last_conv_nth nth_append min_def)
  qed
  then show ?thesis using not_define [OF assms, of r]
    by (auto simp: parse_statement_def rule_text_def r_def split: option.split)
qed

lemma parse_loop_LF: "parse_loop dos n (LF # r) line recs = parse_loop dos n r (line + 1) recs"
  by (subst parse_loop.simps) (simp add: skip_space_stop)

lemma parse_loop_rule:
  assumes "good_name t" and "list_all good_name fs"
  shows "\<exists>line'. parse_loop dos n (rule_text t fs @ rest) line recs
    = parse_loop dos n rest line' (recs @ [Recorded_file t fs])"
proof -
  let ?T = "rule_text t fs @ rest"
  define r where "r = CHR '':'' # chain_text fs @ rest"
  have T: "?T = escaped False 0 t @ r" by (simp add: rule_text_def r_def)
  have head: "\<not> ISSPACE (peek ?T)" "peek ?T \<noteq> CHR ''#''" "peek ?T \<noteq> LF" "?T \<noteq> []"
    unfolding T using assms(1) escaped_head [of t False r] ISSPACE_LF by (auto simp: good_name_def)
  have skip: "skip_space ?T = ?T" using head(1) by (simp add: skip_space_stop)
  have eol: "\<not> (peek ?T = BSL \<and> eol_len ?T \<noteq> 0)"
    unfolding T using eol_len_escaped [OF assms(1), of False r] by auto
  obtain line' where rule: "parse_rule dos (length ?T = n) ?T line recs
      = Some (Ok (Next (LF # rest) line' (recs @ [Recorded_file t fs])))"
    using parse_rule_text [OF assms] by blast
  have "parse_loop dos n ?T line recs = parse_loop dos n (LF # rest) line' (recs @ [Recorded_file t fs])"
    unfolding parse_loop.simps [of dos n ?T] Let_def skip if_not_P [OF head(2)] if_not_P [OF eol]
      if_not_P [OF head(3)] if_not_P [OF head(4)] parse_statement_text [OF assms(1)] rule by simp
  then show ?thesis by (auto simp: parse_loop_LF)
qed

lemma parse_loop_rules:
  assumes "list_all (\<lambda>(t, fs). good_name t \<and> list_all good_name fs) rules"
  shows "parse_loop dos n (concat (map (\<lambda>(t, fs). rule_text t fs) rules)) line recs
    = Some (Ok (recs @ map (\<lambda>(t, fs). Recorded_file t fs) rules, None))"
  using assms
proof (induction rules arbitrary: line recs)
  case Nil
  show ?case by (subst parse_loop.simps) (simp add: skip_space_def)
next
  case (Cons r rules)
  obtain t fs where r: "r = (t, fs)" by (cases r)
  then obtain line' where "parse_loop dos n (rule_text t fs @ concat (map (\<lambda>(t, fs). rule_text t fs) rules)) line recs
      = parse_loop dos n (concat (map (\<lambda>(t, fs). rule_text t fs) rules)) line' (recs @ [Recorded_file t fs])"
    using parse_loop_rule [of t fs dos n "concat (map (\<lambda>(t, fs). rule_text t fs) rules)" line recs] Cons.prems
    by auto
  then show ?case using Cons.IH Cons.prems r by simp
qed

text \<open>What the writer makes.\<close>

lemma good_name_backslashes: "good_name f \<Longrightarrow> backslashes f = 0"
  by (simp add: backslashes_last good_name_def)

lemma written_good: "good_name f \<Longrightarrow> written_name d f = escaped d 0 f"
  by (simp add: written_name_eq good_name_backslashes)

lemma chain_text_written:
  assumes "ds = map dep_of (names ds)" and "list_all good_name (names ds)"
  shows "depPrintChain ds = chain_text (names ds)"
proof (cases "names ds = []")
  case True
  then show ?thesis using assms(1) by (simp add: chain_text_def)
next
  case False
  then have fs: "names ds = butlast (names ds) @ [last (names ds)]" by simp
  then have g: "list_all good_name (butlast (names ds))" "good_name (last (names ds))"
    using assms(2) by (metis list_all_append, metis list.pred_inject(2) list_all_append)
  have "concat (map (\<lambda>f. [CHR '' '', BSL, LF, TAB] @ written_name True f) (butlast (names ds)))
      = concat (map (\<lambda>f. [CHR '' '', BSL, LF, TAB] @ escaped True 0 f) (butlast (names ds)))"
    using g(1) by (auto simp: list_all_iff written_good intro!: arg_cong [where f = concat])
  moreover have "chain_text (names ds)
      = concat (map (\<lambda>f. [CHR '' '', BSL, LF, TAB] @ escaped True 0 f) (butlast (names ds)))
        @ [CHR '' '', BSL, LF, TAB] @ escaped True 0 (last (names ds)) @ [LF, LF]"
    unfolding chain_text_def by (subst fs) simp
  moreover have "ds \<noteq> []" "\<not> (last (names ds) \<noteq> [] \<and> last (last (names ds)) = BSL)"
    using False g(2) by (auto simp: names_def good_name_def)
  ultimately show ?thesis using depPrintChain_eq [OF assms(1)] g(2) by (simp add: written_good)
qed

lemma file_text:
  assumes "wf_deps ds" and "good_name t" and "list_all good_name (names ds)"
  shows "depPrintTargetWithDeps ds t True @ depPrintStubs ds
    = concat (map (\<lambda>(t, fs). rule_text t fs) ((t, names ds) # map (\<lambda>f. (f, [])) (names ds)))"
proof -
  have ds: "ds = map dep_of (names ds)" using assms(1) by (simp add: wf_deps_def)
  have target: "print_target t True = escaped False 0 t"
    using assms(2) by (auto simp: print_target_def depEscapedWrite_eq escaped_plain good_name_def last_conv_nth)
  have "concat (map (\<lambda>f. written_name False f @ [CHR '':'', LF, LF]) (names ds))
      = concat (map (\<lambda>f. rule_text f []) (names ds))"
    using assms(3)
    by (auto simp: list_all_iff written_good rule_text_def chain_text_def intro!: arg_cong [where f = concat])
  then show ?thesis
    using chain_text_written [OF ds assms(3)] depPrintStubs_eq [OF ds] target
    by (simp add: depPrintTargetWithDeps_def rule_text_def comp_def)
qed

text \<open>
  C7: make reads back what a dependency generator writes. For a list of different names and a
  target, none empty and all without a zero byte, a colon or white space other than blanks, and
  not ending in a blank or a backslash, the reader of dependency files finds in the text that
  \<open>depPrintTargetWithDeps\<close> and \<open>depPrintStubs\<close> write exactly one rule for the target with the names, in their
  order, then one rule without dependencies for each name. It comes to an end without a warning,
  whatever blanks, backslashes, dollar signs or other special characters are in the names, with and
  without DOS paths.
\<close>

theorem dependency_file_read_back:
  assumes "wf_deps pDeps" and "good_name pszTarget" and "list_all good_name (names pDeps)"
  shows "eval_include_dep_file dos (depPrintTargetWithDeps pDeps pszTarget True @ depPrintStubs pDeps)
    = Some (Ok (Recorded_file pszTarget (names pDeps) # map (\<lambda>f. Recorded_file f []) (names pDeps), None))"
proof -
  have "list_all (\<lambda>(t, fs). good_name t \<and> list_all good_name fs)
      ((pszTarget, names pDeps) # map (\<lambda>f. (f, [])) (names pDeps))"
    using assms(2,3) by (auto simp: list_all_iff)
  from parse_loop_rules [OF this] show ?thesis
    unfolding eval_include_dep_file_def file_text [OF assms] by (simp add: comp_def)
qed

lemma dependency_file_read_back_witness:
  "eval_include_dep_file False
     (depPrintTargetWithDeps [dep_of ''b c'', dep_of ''d=$e''] (CHR 0x5C # ''% a'') True
      @ depPrintStubs [dep_of ''b c'', dep_of ''d=$e''])
   = Some (Ok ([Recorded_file (CHR 0x5C # ''% a'') [''b c'', ''d=$e''], Recorded_file ''b c'' [],
       Recorded_file ''d=$e'' []], None))"
  using dependency_file_read_back [of "[dep_of ''b c'', dep_of ''d=$e'']" "CHR 0x5C # ''% a''" False]
  by (simp add: wf_deps_def names_def good_name_def name_char_def ISSPACE_def ISBLANK_def isspace_def cord_def)

section \<open>Files that are not read well\<close>

text \<open>Past the end of the names of a rule, the loop over further names does not end.\<close>

lemma skip_blanks_ne_length: "length (skip_blanks_ne e s) \<le> length s"
  by (induction s) (auto intro: le_SucI)

lemma more_files_past:
  assumes "more_files dos u e deps prev fnnext line recs = Some r"
  shows "\<not> (u \<and> length fnnext < e)"
proof (rule more_files.raw_induct [where P = "\<lambda>dos u e deps prev fnnext line recs r. \<not> (u \<and> length fnnext < e)",
    OF _ assms])
  fix more :: "bool \<Rightarrow> bool \<Rightarrow> nat \<Rightarrow> string list \<Rightarrow> string \<Rightarrow> string \<Rightarrow> nat \<Rightarrow> incdep_record list
      \<Rightarrow> (nat \<times> incdep_record list) option"
    and dos u e deps prev fnnext line recs r
  assume IH: "\<And>dos u e deps prev fnnext line recs r. more dos u e deps prev fnnext line recs = Some r
      \<Longrightarrow> \<not> (u \<and> length fnnext < e)"
  let ?f = "skip_blanks_ne e fnnext"
  assume step: "(let fnnext = ?f in
      if length fnnext = e then Some (line, recs)
      else if peek fnnext = BSL \<and> cget fnnext 1 = LF then more dos u e deps prev (drop 2 fnnext) (line + 1) recs
      else if peek fnnext = BSL \<and> cget fnnext 1 = CR \<and> cget fnnext 2 = LF
      then more dos u e deps prev (drop 3 fnnext) (line + 1) recs
      else (case target_name dos u e fnnext of (filename, fnnext) \<Rightarrow>
        more dos u e deps filename fnnext line (if filename \<noteq> prev then recs @ [Recorded_file filename deps] else recs)))
    = Some r"
  show "\<not> (u \<and> length fnnext < e)"
  proof (rule notI)
    assume a: "u \<and> length fnnext < e"
    then have f: "length ?f < e" using skip_blanks_ne_length [of e fnnext] by simp
    then have "target_name dos u e ?f = ([], ?f)"
      using a by (simp add: target_name_def incdep_unescape_def unescape_loop.simps)
    moreover have "more dos u e deps p f' l rs \<noteq> Some r" if "length f' < e" for p f' l rs
      using IH that a by blast
    moreover have "length (drop n ?f) < e" for n using f by simp
    ultimately show False using step f by (auto simp: Let_def split: if_splits)
  qed
qed

text \<open>
  The last of several names before a colon ends in an escaped blank: \<open>fnend\<close> does not count the
  blank, the name read goes past it, and the loop, which waits for \<open>fnnext\<close> to be equal to \<open>fnend\<close>,
  does not end.
\<close>

lemma more_files_endless:
  "eval_include_dep_file False (''a b'' @ BSL # '' :c'') = None"
proof -
  let ?t = "''a b'' @ BSL # '' :c''"
  have colon: "find_colon False True [] ?t = Ok (Some (''a b'' @ BSL # '' '', ''c''))"
    and name: "target_name False True 3 ?t = (''a'', '' b'' @ BSL # '' :c'')"
    and deps: "deps_loop False ''c'' 1 [] = Some ([''c''], [], 1)"
    and trim: "rtrim ISBLANK (''a b'' @ BSL # '' '') = ''a b'' @ [BSL]"
    and one: "target_name False True 3 (''b'' @ BSL # '' :c'') = (''b '', '':c'')"
    and skip: "skip_blanks_ne 3 ('' b'' @ BSL # '' :c'') = ''b'' @ BSL # '' :c''"
    and stmt: "skip_space ?t = ?t" "line_of ?t = ?t"
    by code_simp+
  have "more_files False True 3 deps p '':c'' l recs = None" for deps p l recs
    using more_files_past [of False True 3 deps p "'':c''" l recs]
    by (cases "more_files False True 3 deps p '':c'' l recs") auto
  then have more: "more_files False True 3 deps p ('' b'' @ BSL # '' :c'') l recs = None" for deps p l recs
    unfolding more_files.simps [of False True 3 deps p "'' b'' @ BSL # '' :c''"] Let_def skip one by simp
  have "parse_rule False True ?t 1 [] = None"
    unfolding parse_rule_def colon using name deps more trim by (simp add: Let_def numeral_3_eq_3)
  then have "parse_statement False True ?t 1 [] = None"
    unfolding parse_statement_def stmt by simp
  then show ?thesis
    unfolding eval_include_dep_file_def parse_loop.simps [of False "length ?t" ?t] Let_def stmt by simp
qed

text \<open>
  An escaped end of line directly after a dependency joins it with the next one; and a value with
  both kinds of line ends makes the search for the next carriage return leave the file.
\<close>

lemma deps_joined:
  "eval_include_dep_file False (''a: b'' @ BSL # LF # '' c'')
    = Some (Ok ([Recorded_file ''a'' [''b c'']], None))"
  by code_simp

lemma define_mixed_line_ends:
  "eval_include_dep_file False (''define v'' @ LF # ''x'' @ CR # LF # ''y'' @ LF # ''endef'')
    = Some (Undef OutOfBounds)"
  by code_simp

end
