(* ===== verification/Spec2Isabelle.thy ===== *)
theory Spec2Isabelle
  imports ExprTree ExprArith ExprSafe AvlOverrun FastdepCyclic HashCorrect StrCacheCorrect MakeNames MakeFilterCorrect MakeSort MakeStringProps QuoteArgvProps InstallCopy KDepCorrect IncDepProps
begin

text \<open>
  A model of the self-contained algorithms of kBuild, with the theorems that make them correct.

  kBuild is a makefile framework with its own make (\<open>src/kmk\<close>, GNU make with extensions), a
  dependency scanner (\<open>src/fastdep\<close>), a shell, ported Unix tools and Windows helpers. Most of that
  code is calls to the operating system; the parts modelled here are those that carry logic of their
  own: the version comparison, kmk's expression evaluator, its hash table and string cache, its functions
  on text, the AVL tree, the text routines and the dependency database of fastdep, the dependency
  lists that the other generators share, and the conversions of line ends and of argument vectors.

  How the parts interact in the program: the conditionals of makefiles and the functions \<open>$(if-expr )\<close>
  and \<open>$(expr )\<close> call the expression evaluator, which orders version strings by \<open>version_compare\<close>;
  variables, targets, directories and the words of \<open>$(filter )\<close> live in hash tables, whose keys are often
  strings of the string cache that are compared by their addresses; \<open>$(versort )\<close> uses \<open>version_compare\<close>;
  fastdep keeps its rules and its
  file caches in AVL trees and looks every new dependency up in them to refuse cycles; the dependency
  files of the other generators are written by \<open>kDep.c\<close> with the escapes that make's reader \<open>incdep.c\<close>
  removes;
  \<open>kmk_install\<close> converts line ends while it copies.

  \<^bold>\<open>Conventions.\<close> Stateful C functions take and return their state; \<open>('e, 'a) outcome\<close> (theory
  \<open>Prelude\<close>) is the result of a function that returns, exits through \<open>fatal\<close>, or leaves defined
  behaviour with a named \<open>fault\<close>; a loop that may not end is a \<open>partial_function\<close> whose value \<open>None\<close>
  is not returning. C strings, character classes and the library functions used are in \<open>CLib\<close>.

  \<^bold>\<open>Version comparison\<close> (\<open>VersionCompare\<close>, \<open>src/lib/version_compare.c\<close>): the functions of the file
  one by one. After a common prefix numbers are compared by value at any length (but the number of
  a pre-release is clamped), swapping the operands negates the result
  unless a slash is met, and the source's own test table is run by the kernel. Two defects are proved
  as theorems: the asymmetry at slashes and the ignored letter after a designation.

  \<^bold>\<open>Expression evaluator\<close> (\<open>src/kmk/expreval.c\<close>): \<open>ExprVar\<close> (numbers and operands), \<open>ExprToken\<close>
  (operator table, lookup, the instance \<open>EXPR\<close>), \<open>ExprOps\<close> (one definition per operator),
  \<open>ExprEval\<close> (reading operands and operators, the reduction loop, the entry points). \<open>ExprMethods\<close>
  and \<open>ExprLex\<close> hold the lemmas on operators and on reading tokens, \<open>ExprNum\<close> the round trip of
  numbers. \<open>ExprTree\<close> shows that the two-stack machine computes the value of the syntax tree given by
  precedence and associativity, \<open>ExprArith\<close> that this is the integer value for arithmetic expressions,
  and \<open>ExprSafe\<close> that no input makes the evaluator fail an assertion or misread a union, that inputs
  of up to 41 characters never overrun its stacks, and which inputs do.

  \<^bold>\<open>AVL tree\<close> (\<open>src/fastdep/avl.c\<close>, \<open>avl.h\<close>): \<open>Avl\<close> is the code on an explicit store of nodes, with
  pointers to pointers as locations. \<open>AvlTree\<close> has the same algorithms on trees, the invariant and the
  locale \<open>key_order\<close>, the contract of the key comparison, interpreted by \<open>strcmp\<close>; \<open>AvlHeap\<close> and
  \<open>AvlEnum\<close> prove that the store operations simulate those on trees; \<open>AvlCorrect\<close> states the results
  over the sorted list of nodes. The stacks of \<open>AVL_MAX_HEIGHT\<close> = 19 entries hold every path of a
  balanced tree of less than 17710 nodes, the least number a tree of height 20 has; \<open>AvlOverrun\<close>
  gives a tree of 17710 nodes on which the insertion stops in its assertion.

  \<^bold>\<open>fastdep\<close> (\<open>src/fastdep/fastdep.c\<close>): \<open>FastdepText\<close> has the string, line-buffer, file-name and
  name-quoting functions, \<open>FastdepTextProps\<close> their round trips and bounds and the inputs on which
  they go wrong; \<open>FastdepCyclic\<close> the search for cyclic dependencies with its sorted history (it
  returns, and decides reachability unless it says that it gave up at its depth limit) and the
  functions that add a dependency.

  \<^bold>\<open>Hash table\<close> (\<open>src/kmk/hash.c\<close>, \<open>hash.h\<close>): \<open>Hash\<close> is the code, with 32-bit hash values and 64-bit
  counters as words. \<open>HashProbe\<close> shows that the odd increment visits every slot and that the items
  stay reachable; its locale \<open>hash_keys\<close> is the contract on the callbacks, interpreted in \<open>HashCached\<close>
  by the word keys of function.c and by cached strings. \<open>HashTable\<close> keeps the invariant of the
  counters through insertion, rehashing and deletion. \<open>HashCorrect\<close> has the contract of each
  operation over the set of items, that a search for a missing key in a full table does not return, and that the
  unrolled search for cached strings agrees with the general one. Tables of up to \<open>2 ^ 32\<close> slots are
  covered: a hash value has 32 bits and reaches no other slot.

  \<^bold>\<open>String cache\<close> (\<open>src/kmk/strcache2.c\<close>, \<open>strcache2.h\<close>): \<open>StrHash\<close> has its two hash functions and
  the inlined comparison, \<open>StrCache\<close> the segments, the chained table and the operations. \<open>StrCacheTab\<close>
  shows that entering and rehashing keep the table and its counters, \<open>StrCacheMem\<close> that entries do not
  overlap whatever addresses \<open>malloc\<close> returns (\<open>malloc_ok\<close>), \<open>StrCacheProps\<close> joins both in the invariant
  \<open>cache_ok\<close>. \<open>StrCacheCorrect\<close> states the contract of hash and comparison as the locale
  \<open>string_keys\<close>, interprets it by the case-sensitive and the case-insensitive operations, and shows that
  the cache interns strings: two strings have the same address exactly when they are equal, when
  they are added through aligned pointers or are ASCII. The bounds
  are those of the 32-bit sizes: strings of less than \<open>2 ^ 32 - 88\<close> characters and less than
  \<open>3 * 2 ^ 29\<close> entries, the load limit of the largest table. Two inputs break the promise and are
  theorems: an unaligned string that begins outside ASCII, and one-letter strings when case is ignored.

  \<^bold>\<open>Functions on text\<close> (\<open>src/kmk/function.c\<close>, with helpers of \<open>misc.c\<close>, \<open>read.c\<close>, \<open>main.c\<close> and
  \<open>makeint.h\<close>): a function gets the variable buffer and its expanded arguments and returns the buffer.
  \<open>MakeText\<close> has the character map and the token functions; \<open>MakeSubst\<close> the unquoting of \<open>%\<close>, pattern
  matching, \<open>$(subst )\<close> and \<open>$(patsubst )\<close>; \<open>MakeWords\<close> the functions on words and file names and
  those that look variables up, which are parameters. \<open>MakeSubstProps\<close>, \<open>MakeWordsProps\<close>,
  \<open>MakeWordSel\<close> and \<open>MakeNames\<close> compare them with functions on the list \<open>words_of\<close>. \<open>MakeFilter\<close> is
  \<open>$(filter )\<close> on top of the hash table; \<open>MakeFilterProps\<close> and \<open>MakeFilterCorrect\<close> show that the table
  and its chains select what trying every pattern on every word selects. \<open>MakeSort\<close> has the sort
  functions, with \<open>qsort\<close> as a parameter that keeps its contract \<open>qsort_ok\<close>, and the memory behind the
  argument, which the counting loop reads. \<open>MakeMath\<close> has the integer functions on 64-bit numbers and
  the round trip of numbers and text; \<open>MakeString\<close> and \<open>MakeStringProps\<close> the string functions.

  \<^bold>\<open>Dependency lists\<close> (\<open>src/lib/kDep.c\<close>, \<open>kDep.h\<close>): \<open>KDep\<close> is the code, with the file system as a
  parameter. \<open>KDepProps\<close> compares the loop that writes escaped names with a function of the name;
  \<open>KDepCorrect\<close> has the invariant of the list, its correction against the file system and the files
  written. \<open>IncDep\<close> is the parser for these files in make (\<open>src/kmk/incdep.c\<close>), with the unescaping of
  names; it returns what it records, in order. \<open>IncDepProps\<close> shows that it finds exactly the rules that
  were written, for names without colons and line ends that do not end in a blank or a backslash,
  and has three inputs on which it goes wrong. The threads that read the files ahead are not
  modelled.

  \<^bold>\<open>Line ends\<close> (\<open>src/lib/dos2unix.c\<close>, \<open>copy\<close> and two tests of \<open>src/kmk/kmkbuiltin/install.c\<close>):
  \<open>Dos2unix\<close> is the code over a memory, since the buffers overlap. \<open>Dos2unixProps\<close> shows that the loops
  refine conversions of texts wherever source and destination may lie; the locale \<open>line_conversion\<close> of
  \<open>InstallCopy\<close> is what \<open>copy\<close> needs of a conversion, interpreted by both. \<open>InstallCopy\<close> shows that copying
  read by read converts the whole file, what the analysis counts (two returns in one read count as
  a line end), and that files found not to need their conversion are left alone rightly.

  \<^bold>\<open>Argument vectors\<close> (\<open>src/lib/quote_argv.c\<close>): \<open>QuoteArgv\<close> is the code, for both quoting modes, and
  the documented parsing convention of Microsoft's runtime as a specification; \<open>QuoteArgvProps\<close> the round
  trip, the bound of the buffers and the state left when memory runs out.

  \<^bold>\<open>Not modelled.\<close> The driver of make (reading makefiles, implicit rules, the update loop, jobs),
  variable expansion and the functions that expand, run processes, look at files or walk make's
  tables: they depend on processes, the file system and global state throughout. The models that need
  expansion or lookup take them as parameters (\<open>expr_env\<close>, \<open>lookup_variable\<close>). The scanners of fastdep for C, assembler and OS/2 resource files. The byte-code
  expansion \<open>kmk_cc_exec.c\<close>, which is off by default. The ports of Unix tools (\<open>kmkbuiltin\<close> but for
  the copying of \<open>kmk_install\<close>, \<open>kash\<close>, \<open>sed\<close>, \<open>grep\<close>): vendored code. kObjCache, kWorker, kDeDup and the Windows library: processes,
  files and the native API. Of the modelled files: printing of statistics, the debug counters under
  \<open>MAKE_STATS\<close>, and the functions of hash.c that return items to an \<open>alloccache\<close>.
\<close>

end
